(* ===== verification/Msrt_Prelude.thy ===== *)
theory Msrt_Prelude
  imports Main "HOL-Library.Word"
begin

text \<open>
  The shared ground of the development: the machine types of the crate, its error and result
  types (\<^verbatim>\<open>src/error.rs\<close>), little-endian byte codecs (\<^verbatim>\<open>to_le_bytes\<close>/\<^verbatim>\<open>from_le_bytes\<close>),
  slice writes, saturating arithmetic, first-match slot search, and the generic facts on ring
  buffers that the three bounded queues of the engine share.

  \<^verbatim>\<open>usize\<close> values are lengths and indices of buffers that fit in memory and are modelled as
  \<^typ>\<open>nat\<close>; \<^verbatim>\<open>u8\<close>, \<^verbatim>\<open>u16\<close>, \<^verbatim>\<open>u32\<close>, \<^verbatim>\<open>u64\<close> keep their width.  A Rust panic is the value
  \<open>Panic\<close> of the result type.
\<close>

unbundle bit_operations_syntax

type_synonym u8 = "8 word"
type_synonym u16 = "16 word"
type_synonym u32 = "32 word"
type_synonym u64 = "64 word"
type_synonym usize = nat
type_synonym bytes = "u8 list"

named_theorems ring_simps \<open>facts that rewrite a ring buffer to the list it stores\<close>
named_theorems engine_simps \<open>unfolding rules of the engine's operations\<close>

section \<open>Errors and results\<close>

datatype ErrorKind =
    Malformed | BufferTooSmall | Packet | Reliability | Channel | Engine | Unsupported

record Error =
  kind :: ErrorKind

definition Error_new :: "ErrorKind \<Rightarrow> Error" where
  "Error_new k = \<lparr>kind = k\<rparr>"

definition Error_malformed :: Error where
  "Error_malformed = Error_new Malformed"

definition Error_buffer_too_small :: Error where
  "Error_buffer_too_small = Error_new BufferTooSmall"

definition Error_unsupported :: Error where
  "Error_unsupported = Error_new Unsupported"

text \<open>\<open>Ok\<close> and \<open>Err\<close> are Rust's \<^verbatim>\<open>Result<T>\<close>; \<open>Panic\<close> is an aborted call.\<close>

datatype 'a res = Ok 'a | Err Error | Panic

definition res_bind :: "'a res \<Rightarrow> ('a \<Rightarrow> 'b res) \<Rightarrow> 'b res" where
  "res_bind m f = (case m of Ok x \<Rightarrow> f x | Err e \<Rightarrow> Err e | Panic \<Rightarrow> Panic)"

lemma res_bind_simps [simp]:
  "res_bind (Ok x) f = f x"
  "res_bind (Err e) f = Err e"
  "res_bind Panic f = Panic"
  by (simp_all add: res_bind_def)

lemma res_bind_eq_Ok: "res_bind m f = Ok y \<longleftrightarrow> (\<exists>x. m = Ok x \<and> f x = Ok y)"
  by (cases m) auto

text \<open>
  A fallible call on a state returns its result together with the state it leaves behind;
  \<open>sr_bind\<close> is the operator \<^verbatim>\<open>?\<close> on such calls, and \<open>update_field\<close> runs one on a component.
\<close>

definition sr_bind :: "'a res \<times> 's \<Rightarrow> ('a \<Rightarrow> 's \<Rightarrow> 'b res \<times> 's) \<Rightarrow> 'b res \<times> 's" where
  "sr_bind m f = (case m of (Ok x, s) \<Rightarrow> f x s | (Err e, s) \<Rightarrow> (Err e, s) | (Panic, s) \<Rightarrow> (Panic, s))"

lemma sr_bind_simps [simp]:
  "sr_bind (Ok x, s) f = f x s"
  "sr_bind (Err e, s) f = (Err e, s)"
  "sr_bind (Panic, s) f = (Panic, s)"
  by (simp_all add: sr_bind_def)

definition update_field :: "('a \<times> 'c) \<Rightarrow> ('c \<Rightarrow> 's) \<Rightarrow> 'a \<times> 's" where
  "update_field m put = (case m of (r, c) \<Rightarrow> (r, put c))"

lemma update_field_simp [simp]: "update_field (r, c) put = (r, put c)"
  by (simp add: update_field_def)

text \<open>\<^verbatim>\<open>Ord::clamp\<close>, which panics when the bounds are not ordered.\<close>

definition clamp :: "'a::linorder \<Rightarrow> 'a \<Rightarrow> 'a \<Rightarrow> 'a res" where
  "clamp x lo hi = (if lo \<le> hi then Ok (max lo (min x hi)) else Panic)"

section \<open>Saturating arithmetic\<close>

definition saturating_add :: "'a::len word \<Rightarrow> 'a word \<Rightarrow> 'a word" where
  "saturating_add a b = (if unat a + unat b < 2 ^ LENGTH('a) then a + b else - 1)"

definition saturating_sub :: "'a::len word \<Rightarrow> 'a word \<Rightarrow> 'a word" where
  "saturating_sub a b = (if a < b then 0 else a - b)"

definition saturating_mul :: "'a::len word \<Rightarrow> 'a word \<Rightarrow> 'a word" where
  "saturating_mul a b = (if unat a * unat b < 2 ^ LENGTH('a) then a * b else - 1)"

lemma unat_minus_one_max: "unat (- 1 :: 'a::len word) = 2 ^ LENGTH('a) - 1"
  by (simp add: unsigned_minus_1_eq_mask mask_eq_exp_minus_1)

lemma unat_lt2p: "unat (a :: 'a::len word) < 2 ^ LENGTH('a)"
  by (rule unsigned_less)

lemma unat_saturating_add:
  "unat (saturating_add a b) = min (unat a + unat b) (2 ^ LENGTH('a) - 1)" for a :: "'a::len word"
  by (auto simp: saturating_add_def unat_minus_one_max unat_word_ariths min_def)

lemma unat_saturating_sub: "unat (saturating_sub a b) = unat a - unat b"
  by (auto simp: saturating_sub_def word_less_nat_alt unat_sub word_le_nat_alt)

lemma unat_saturating_mul:
  "unat (saturating_mul a b) = min (unat a * unat b) (2 ^ LENGTH('a) - 1)" for a :: "'a::len word"
proof (cases "unat a * unat b < 2 ^ LENGTH('a)")
  case True
  then show ?thesis by (simp add: saturating_mul_def unat_word_ariths)
next
  case False
  then show ?thesis by (simp add: saturating_mul_def unat_minus_one_max)
qed

section \<open>Exclusive or\<close>

lemma word_xor_eq_0_iff [simp]: "a XOR b = 0 \<longleftrightarrow> a = b" for a b :: "'a::len word"
  by (auto simp: bit_eq_iff bit_simps)

lemma word_xor_cancel [simp]:
  "a XOR b = a XOR c \<longleftrightarrow> b = c" "b XOR a = c XOR a \<longleftrightarrow> b = c" for a b c :: "'a::len word"
  by (auto simp: bit_eq_iff bit_simps)

section \<open>Little-endian bytes\<close>

text \<open>\<open>to_le n w\<close> is the \<open>n\<close>-byte little-endian encoding, \<open>from_le\<close> reads one back.\<close>

fun to_le :: "nat \<Rightarrow> 'a::len word \<Rightarrow> bytes" where
  "to_le 0 w = []"
| "to_le (Suc n) w = ucast w # to_le n (drop_bit 8 w)"

fun from_le :: "bytes \<Rightarrow> 'a::len word" where
  "from_le [] = 0"
| "from_le (b # bs) = ucast b OR push_bit 8 (from_le bs)"

lemma length_to_le [simp]: "length (to_le n w) = n"
  by (induction n arbitrary: w) auto

lemma to_le_2: "to_le 2 w = [ucast w, ucast (drop_bit 8 w)]"
  by (simp add: numeral_2_eq_2)

lemma from_le_to_le: "from_le (to_le n w) = take_bit (8 * n) (w :: 'a::len word)"
proof (induction n arbitrary: w)
  case 0
  then show ?case by simp
next
  case (Suc n)
  show ?case
    by (rule bit_word_eqI) (auto simp: Suc bit_simps le_add_diff_inverse)
qed

lemma from_le_to_le_full [simp]:
  "LENGTH('a) \<le> 8 * n \<Longrightarrow> from_le (to_le n w) = (w :: 'a::len word)"
  by (simp add: from_le_to_le take_bit_word_eq_self)

lemma bit_from_le:
  "bit (from_le bs :: 'a::len word) n \<longleftrightarrow>
     n < LENGTH('a) \<and> n div 8 < length bs \<and> bit (bs ! (n div 8)) (n mod 8)"
proof (induction bs arbitrary: n)
  case Nil
  then show ?case by simp
next
  case (Cons b bs)
  show ?case
  proof (cases "n < 8")
    case True
    then show ?thesis
      by (auto simp: bit_simps)
  next
    case False
    then have "n div 8 = Suc ((n - 8) div 8)" "(n - 8) mod 8 = n mod 8"
      by (auto simp: le_div_geq le_mod_geq)
    with False Cons.IH[of "n - 8"] show ?thesis
      by (auto simp: bit_simps dest: bit_imp_le_length)
  qed
qed

lemma from_le_inject:
  assumes "length xs = length ys" "8 * length xs \<le> LENGTH('a::len)"
    and "(from_le xs :: 'a word) = from_le ys"
  shows "xs = ys"
proof (rule nth_equalityI)
  show "length xs = length ys" by fact
next
  fix i assume i: "i < length xs"
  show "xs ! i = ys ! i"
  proof (rule bit_word_eqI)
    fix n assume n: "n < LENGTH(8)"
    then have "bit (from_le xs :: 'a word) (8 * i + n) = bit (from_le ys :: 'a word) (8 * i + n)"
      using assms(3) by simp
    moreover have "(8 * i + n) div 8 = i" "(8 * i + n) mod 8 = n"
      using n by auto
    moreover have "8 * i + n < LENGTH('a)"
      using i n assms(2) by simp
    ultimately show "bit (xs ! i) n = bit (ys ! i) n"
      using i assms(1) by (simp add: bit_from_le)
  qed
qed

lemma to_le_from_le:
  assumes "length bs = n" "8 * n = LENGTH('a::len)"
  shows "to_le n (from_le bs :: 'a word) = bs"
  by (rule from_le_inject[where 'a='a]) (use assms in auto)

section \<open>Slices\<close>

text \<open>\<open>copy_at dst i src\<close> is \<^verbatim>\<open>dst[i..i + src.len()].copy_from_slice(src)\<close>, in range.\<close>

definition copy_at :: "'a list \<Rightarrow> nat \<Rightarrow> 'a list \<Rightarrow> 'a list" where
  "copy_at dst i src = take i dst @ src @ drop (i + length src) dst"

definition slice :: "'a list \<Rightarrow> nat \<Rightarrow> nat \<Rightarrow> 'a list" where
  "slice xs i j = take (j - i) (drop i xs)"

text \<open>\<^verbatim>\<open>bytes.split_at(len).0\<close>, which panics when \<open>len\<close> is out of range.\<close>

definition split_at_fst :: "'a list \<Rightarrow> nat \<Rightarrow> 'a list res" where
  "split_at_fst xs n = (if n \<le> length xs then Ok (take n xs) else Panic)"

lemma length_copy_at [simp]: "i + length src \<le> length dst \<Longrightarrow> length (copy_at dst i src) = length dst"
  by (simp add: copy_at_def)

lemma take_copy_at: "i \<le> length dst \<Longrightarrow> take (i + length src) (copy_at dst i src) = take i dst @ src"
  by (simp add: copy_at_def)

lemma nth_copy_at:
  "i + length src \<le> length dst \<Longrightarrow> k < length dst \<Longrightarrow>
    copy_at dst i src ! k = (if i \<le> k \<and> k < i + length src then src ! (k - i) else dst ! k)"
  by (auto simp: copy_at_def nth_append)

lemma copy_at_0: "copy_at dst 0 src = src @ drop (length src) dst"
  by (simp add: copy_at_def)

lemma length_slice [simp]: "length (slice xs i j) = min (j - i) (length xs - i)"
  by (simp add: slice_def)

section \<open>First-match search\<close>

text \<open>\<^verbatim>\<open>iter().position(p)\<close>.\<close>

fun position :: "('a \<Rightarrow> bool) \<Rightarrow> 'a list \<Rightarrow> nat option" where
  "position p [] = None"
| "position p (x # xs) = (if p x then Some 0 else map_option Suc (position p xs))"

lemma position_None: "position p xs = None \<longleftrightarrow> (\<forall>x\<in>set xs. \<not> p x)"
  by (induction xs) auto

lemma position_Some:
  "position p xs = Some i \<longleftrightarrow> i < length xs \<and> p (xs ! i) \<and> (\<forall>j<i. \<not> p (xs ! j))"
proof (induction xs arbitrary: i)
  case Nil
  then show ?case by simp
next
  case (Cons x xs)
  then show ?case
    by (cases i) (auto simp: All_less_Suc2)
qed

lemma position_SomeD:
  assumes "position p xs = Some i"
  shows "i < length xs" "p (xs ! i)"
  using assms by (auto simp: position_Some)

lemma position_ex: "x \<in> set xs \<Longrightarrow> p x \<Longrightarrow> \<exists>i. position p xs = Some i"
  by (metis option.exhaust position_None)

section \<open>Slot tables\<close>

text \<open>
  Fixed arrays of optional entries found by a key: \<open>flatten\<close> is \<^verbatim>\<open>iter().flatten()\<close>, \<open>slot_pos\<close> the
  first slot holding a key, and \<open>slot_lookup\<close> the entry there.
\<close>

fun flatten :: "'a option list \<Rightarrow> 'a list" where
  "flatten [] = []"
| "flatten (None # xs) = flatten xs"
| "flatten (Some x # xs) = x # flatten xs"

definition slot_pos :: "('v \<Rightarrow> 'k) \<Rightarrow> 'k \<Rightarrow> 'v option list \<Rightarrow> nat option" where
  "slot_pos key k xs = position (\<lambda>s. case s of None \<Rightarrow> False | Some v \<Rightarrow> key v = k) xs"

definition slot_free :: "'v option list \<Rightarrow> nat option" where
  "slot_free xs = position (\<lambda>s. s = None) xs"

definition slot_lookup :: "('v \<Rightarrow> 'k) \<Rightarrow> 'k \<Rightarrow> 'v option list \<Rightarrow> 'v option" where
  "slot_lookup key k xs = (case slot_pos key k xs of None \<Rightarrow> None | Some i \<Rightarrow> xs ! i)"

lemma slot_pos_Cons [simp]:
  "slot_pos key k [] = None"
  "slot_pos key k (None # xs) = map_option Suc (slot_pos key k xs)"
  "slot_pos key k (Some v # xs) = (if key v = k then Some 0 else map_option Suc (slot_pos key k xs))"
  by (simp_all add: slot_pos_def)

lemma slot_lookup_Cons [simp]:
  "slot_lookup key k [] = None"
  "slot_lookup key k (None # xs) = slot_lookup key k xs"
  "slot_lookup key k (Some v # xs) = (if key v = k then Some v else slot_lookup key k xs)"
  by (auto simp: slot_lookup_def split: option.splits)

lemma slot_lookup_find: "slot_lookup key k xs = find (\<lambda>v. key v = k) (flatten xs)"
  by (induction xs rule: flatten.induct) auto

lemma in_set_flatten: "x \<in> set (flatten xs) \<longleftrightarrow> Some x \<in> set xs"
  by (induction xs rule: flatten.induct) auto

lemma flatten_append [simp]: "flatten (xs @ ys) = flatten xs @ flatten ys"
  by (induction xs rule: flatten.induct) auto

lemma flatten_replicate_None [simp]: "flatten (replicate n None) = []"
  by (induction n) auto

lemma length_flatten_le: "length (flatten xs) \<le> length xs"
  by (induction xs rule: flatten.induct) auto

lemma slot_pos_None: "slot_pos key k xs = None \<longleftrightarrow> k \<notin> key ` set (flatten xs)"
  by (induction xs rule: flatten.induct) auto

lemma slot_pos_Some:
  assumes "slot_pos key k xs = Some i"
  obtains v where "i < length xs" "xs ! i = Some v" "key v = k"
proof -
  have "i < length xs \<and> (case xs ! i of None \<Rightarrow> False | Some v \<Rightarrow> key v = k)"
    using assms by (auto simp: slot_pos_def position_Some)
  then show thesis using that by (cases "xs ! i") auto
qed

lemma slot_lookup_None: "slot_lookup key k xs = None \<longleftrightarrow> slot_pos key k xs = None"
  by (induction xs rule: flatten.induct) auto

lemma slot_lookup_SomeD: "slot_lookup key k xs = Some v \<Longrightarrow> key v = k \<and> v \<in> set (flatten xs)"
  by (induction xs rule: flatten.induct) (auto split: if_splits)

lemma slot_free_None: "slot_free xs = None \<longleftrightarrow> length (flatten xs) = length xs"
proof (induction xs rule: flatten.induct)
  case (2 xs)
  then show ?case using length_flatten_le[of xs] by (simp add: slot_free_def)
qed (auto simp: slot_free_def)

lemma slot_free_Some: "slot_free xs = Some i \<Longrightarrow> i < length xs \<and> xs ! i = None"
  by (auto simp: slot_free_def position_Some)

lemma slot_lookup_replace:
  "slot_pos key (key v) xs = Some i \<Longrightarrow>
    slot_lookup key k (xs[i := Some v]) = (if k = key v then Some v else slot_lookup key k xs)"
  by (induction xs arbitrary: i rule: flatten.induct) (auto split: if_splits)

lemma slot_lookup_insert:
  "slot_pos key (key v) xs = None \<Longrightarrow> i < length xs \<Longrightarrow> xs ! i = None \<Longrightarrow>
    slot_lookup key k (xs[i := Some v]) = (if k = key v then Some v else slot_lookup key k xs)"
proof (induction xs arbitrary: i rule: flatten.induct)
  case (2 xs)
  then show ?case by (cases i) (auto simp: slot_lookup_None)
next
  case (3 x xs)
  then show ?case by (cases i) (auto split: if_splits)
qed simp

lemma slot_lookup_remove:
  "distinct (map key (flatten xs)) \<Longrightarrow> slot_pos key k' xs = Some i \<Longrightarrow>
    slot_lookup key k (xs[i := None]) = (if k = k' then None else slot_lookup key k xs)"
proof (induction xs arbitrary: i rule: flatten.induct)
  case (3 x xs)
  then show ?case
    by (auto simp: slot_lookup_None slot_pos_None split: if_splits)
qed (auto split: if_splits)

lemma flatten_split:
  assumes "i < length xs"
  shows "flatten xs = flatten (take i xs) @ flatten [xs ! i] @ flatten (drop (Suc i) xs)"
    "flatten (xs[i := y]) = flatten (take i xs) @ flatten [y] @ flatten (drop (Suc i) xs)"
proof -
  have "xs = take i xs @ [xs ! i] @ drop (Suc i) xs" "xs[i := y] = take i xs @ [y] @ drop (Suc i) xs"
    using assms by (simp_all add: id_take_nth_drop[symmetric] upd_conv_take_nth_drop)
  then show "flatten xs = flatten (take i xs) @ flatten [xs ! i] @ flatten (drop (Suc i) xs)"
    "flatten (xs[i := y]) = flatten (take i xs) @ flatten [y] @ flatten (drop (Suc i) xs)"
    by (metis flatten_append)+
qed

lemma flatten_replace:
  assumes "i < length xs" "xs ! i = Some u"
  obtains ys zs where "flatten xs = ys @ u # zs" "\<And>v. flatten (xs[i := Some v]) = ys @ v # zs"
    "flatten (xs[i := None]) = ys @ zs"
  by (rule that[of "flatten (take i xs)" "flatten (drop (Suc i) xs)"])
     (use assms flatten_split[OF assms(1)] in simp_all)

lemma flatten_insert:
  assumes "i < length xs" "xs ! i = None"
  obtains ys zs where "flatten xs = ys @ zs" "\<And>v. flatten (xs[i := Some v]) = ys @ v # zs"
  by (rule that[of "flatten (take i xs)" "flatten (drop (Suc i) xs)"])
     (use assms flatten_split[OF assms(1)] in simp_all)

section \<open>Ring buffers\<close>

text \<open>
  The engine keeps three queues as an array of optional slots with a \<open>head\<close> and a \<open>len\<close>.
  \<open>ring_list\<close> reads such a buffer as the list of its elements, oldest first.
\<close>

definition ring_list :: "'a option list \<Rightarrow> nat \<Rightarrow> nat \<Rightarrow> 'a list" where
  "ring_list xs h n = map (\<lambda>i. the (xs ! ((h + i) mod length xs))) [0..<n]"

definition ring_ok :: "'a option list \<Rightarrow> nat \<Rightarrow> nat \<Rightarrow> bool" where
  "ring_ok xs h n \<longleftrightarrow> h < length xs \<and> n \<le> length xs \<and>
     (\<forall>i<n. xs ! ((h + i) mod length xs) \<noteq> None)"

lemma length_ring_list [simp]: "length (ring_list xs h n) = n"
  by (simp add: ring_list_def)

lemma ring_list_0 [simp]: "ring_list xs h 0 = []"
  by (simp add: ring_list_def)

lemma nth_ring_list: "i < n \<Longrightarrow> ring_list xs h n ! i = the (xs ! ((h + i) mod length xs))"
  by (simp add: ring_list_def)

lemma ring_ok_new [simp]: "0 < N \<Longrightarrow> ring_ok (replicate N None) 0 0"
  by (simp add: ring_ok_def)

lemma add_mod_inj:
  assumes "i < N" "j < N" "(h + i) mod N = (h + j) mod (N::nat)"
  shows "i = j"
proof -
  have *: "a = b" if "a \<le> b" "b < N" "(h + a) mod N = (h + b) mod N" for a b
  proof -
    have "N dvd (h + b) - (h + a)"
      using that(1,3) by (intro mod_eq_dvd_iff_nat[THEN iffD1]) auto
    then have "N dvd b - a" by simp
    moreover have "b - a < N" using that by simp
    ultimately show ?thesis using that(1) nat_dvd_not_less[of "b - a" N] by auto
  qed
  show ?thesis using *[of i j] *[of j i] assms by (cases "i \<le> j") auto
qed

lemma ring_index_less [simp]: "h < length xs \<Longrightarrow> (h + i) mod length xs < length xs"
  by (rule mod_less_divisor) linarith

lemma ring_list_update:
  assumes "k < length xs" "n \<le> length xs"
  shows "ring_list (xs[(h + k) mod length xs := Some y]) h n =
    (if k < n then (ring_list xs h n)[k := y] else ring_list xs h n)"
proof (rule nth_equalityI)
  fix i assume "i < length (ring_list (xs[(h + k) mod length xs := Some y]) h n)"
  then have i: "i < n" by simp
  have pos: "0 < length xs" using assms by linarith
  have "(h + i) mod length xs = (h + k) mod length xs \<longleftrightarrow> i = k"
    using add_mod_inj[of i "length xs" k h] i assms by auto
  then show "ring_list (xs[(h + k) mod length xs := Some y]) h n ! i =
     (if k < n then (ring_list xs h n)[k := y] else ring_list xs h n) ! i"
    using i pos by (auto simp: nth_ring_list nth_list_update)
qed simp

lemma ring_list_Suc: "ring_list xs h (Suc n) = ring_list xs h n @ [the (xs ! ((h + n) mod length xs))]"
  by (simp add: ring_list_def)

lemma ring_list_Cons:
  "0 < n \<Longrightarrow> ring_list xs h n = the (xs ! (h mod length xs)) # ring_list xs ((h + 1) mod length xs) (n - 1)"
proof (rule nth_equalityI)
  fix i assume "0 < n" and "i < length (ring_list xs h n)"
  then show "ring_list xs h n ! i =
      (the (xs ! (h mod length xs)) # ring_list xs ((h + 1) mod length xs) (n - 1)) ! i"
    by (cases i) (auto simp: nth_ring_list mod_simps)
qed simp

lemma ring_push:
  fixes x :: 'a
  assumes "ring_ok xs h n" "n < length xs"
  defines "ys \<equiv> xs[(h + n) mod length xs := Some x]"
  shows "ring_ok ys h (n + 1)" "ring_list ys h (n + 1) = ring_list xs h n @ [x]"
proof -
  have pos: "0 < length xs" using assms(2) by linarith
  have ne: "(h + i) mod length xs \<noteq> (h + n) mod length xs" if "i < n" for i
    using add_mod_inj[of i "length xs" n h] that assms by auto
  show "ring_ok ys h (n + 1)"
    using assms(1,2) pos ne by (auto simp: ring_ok_def ys_def nth_list_update less_Suc_eq)
  have "ring_list ys h n = ring_list xs h n"
    using ring_list_update[of n xs n h x] assms(2) by (simp add: ys_def)
  then show "ring_list ys h (n + 1) = ring_list xs h n @ [x]"
    using pos by (simp add: ring_list_Suc ys_def)
qed

lemma ring_pop:
  assumes "ring_ok xs h n" "0 < n"
  defines "ys \<equiv> xs[h := None]"
  shows "ring_ok ys ((h + 1) mod length xs) (n - 1)"
    and "ring_list ys ((h + 1) mod length xs) (n - 1) = tl (ring_list xs h n)"
    and "xs ! h = Some (hd (ring_list xs h n))"
proof -
  have h: "h < length xs" and n: "n \<le> length xs"
    and some: "\<And>i. i < n \<Longrightarrow> xs ! ((h + i) mod length xs) \<noteq> None"
    using assms by (auto simp: ring_ok_def)
  have ne: "(Suc h + i) mod length xs \<noteq> h" if "i < n - 1" for i
    using add_mod_inj[of "Suc i" "length xs" 0 h] that n h by (cases xs) (auto simp: less_diff_conv)
  have idx: "((h + 1) mod length xs + i) mod length xs = (h + Suc i) mod length xs" for i
    by (simp add: mod_simps)
  show "ring_ok ys ((h + 1) mod length xs) (n - 1)"
    unfolding ring_ok_def
  proof (intro conjI allI impI)
    fix i assume "i < n - 1"
    then show "ys ! (((h + 1) mod length xs + i) mod length ys) \<noteq> None"
      using ne[of i] some[of "Suc i"] idx[of i] by (simp add: ys_def nth_list_update)
  qed (use h n ring_index_less[of h xs 1] in \<open>auto simp: ys_def\<close>)
  have "tl (ring_list xs h n) = ring_list xs ((h + 1) mod length xs) (n - 1)"
    using ring_list_Cons[of n xs h] assms(2) by simp
  also have "\<dots> = ring_list ys ((h + 1) mod length xs) (n - 1)"
    by (rule nth_equalityI)
       (use ne[THEN not_sym] idx in \<open>auto simp: nth_ring_list ys_def\<close>)
  finally show "ring_list ys ((h + 1) mod length xs) (n - 1) = tl (ring_list xs h n)" by simp
  show "xs ! h = Some (hd (ring_list xs h n))"
    using ring_list_Cons[of n xs h] some[of 0] h assms(2) by auto
qed

lemma ring_overwrite:
  fixes x :: 'a
  assumes "ring_ok xs h (length xs)"
  defines "ys \<equiv> xs[h := Some x]"
  shows "ring_ok ys ((h + 1) mod length xs) (length xs)"
    and "ring_list ys ((h + 1) mod length xs) (length xs) = tl (ring_list xs h (length xs)) @ [x]"
proof -
  define n where "n = length xs"
  have h: "h < n" and pos: "0 < n" using assms by (auto simp: ring_ok_def n_def)
  have all: "xs ! k \<noteq> None" if "k < n" for k
  proof -
    have "(h + (k + (n - h)) mod n) mod n = k"
      using that h by (simp add: mod_simps)
    then show ?thesis
      using assms(1) pos unfolding ring_ok_def n_def[symmetric]
      by (metis mod_less_divisor)
  qed
  show "ring_ok ys ((h + 1) mod length xs) (length xs)"
    using h pos all by (auto simp: ring_ok_def ys_def n_def[symmetric] nth_list_update)
  have "ring_list (xs[h := None]) ((h + 1) mod n) (n - 1) = tl (ring_list xs h n)"
    using ring_pop(2)[of xs h n] assms(1) pos by (simp add: n_def)
  moreover have "ring_list ys ((h + 1) mod n) (n - 1) = ring_list (xs[h := None]) ((h + 1) mod n) (n - 1)"
  proof (rule nth_equalityI)
    fix i assume i: "i < length (ring_list ys ((h + 1) mod n) (n - 1))"
    have "(Suc h + i) mod n \<noteq> h"
      using add_mod_inj[of "Suc i" n 0 h] i h by (auto simp: less_diff_conv)
    then show "ring_list ys ((h + 1) mod n) (n - 1) ! i = ring_list (xs[h := None]) ((h + 1) mod n) (n - 1) ! i"
      using i by (auto simp: nth_ring_list ys_def nth_list_update n_def[symmetric] mod_simps)
  qed simp
  moreover have "((h + 1) mod n + (n - 1)) mod n = h"
    using h by (cases "Suc h < n") (auto simp: not_less_eq less_Suc_eq)
  ultimately show "ring_list ys ((h + 1) mod length xs) (length xs) = tl (ring_list xs h (length xs)) @ [x]"
    using ring_list_Suc[of ys "(h + 1) mod n" "n - 1"] h pos
    by (simp add: n_def[symmetric] ys_def)
qed

section \<open>The interfaces of the bounded queues\<close>

text \<open>
  What a client of one of the engine's queues relies on: the queue stores a list of at most \<open>cap\<close>
  elements and \<open>pop\<close> takes the oldest.  In a \<open>bounded_fifo\<close> a push on a full queue is refused, in a
  \<open>lossy_fifo\<close> it drops the oldest element.
\<close>

locale fifo =
  fixes cap :: nat
    and inv :: "'q \<Rightarrow> bool"
    and contents :: "'q \<Rightarrow> 'a list"
    and empty :: 'q
    and pop :: "'q \<Rightarrow> 'a option \<times> 'q"
  assumes inv_empty: "inv empty"
    and contents_empty: "contents empty = []"
    and contents_le: "inv q \<Longrightarrow> length (contents q) \<le> cap"
    and pop_empty: "inv q \<Longrightarrow> contents q = [] \<Longrightarrow> pop q = (None, q)"
    and pop_ok: "inv q \<Longrightarrow> contents q = x # xs \<Longrightarrow>
      \<exists>q'. pop q = (Some x, q') \<and> inv q' \<and> contents q' = xs"
begin

primrec pop_n :: "nat \<Rightarrow> 'q \<Rightarrow> 'a option list \<times> 'q" where
  "pop_n 0 q = ([], q)"
| "pop_n (Suc n) q = (case pop q of (x, q') \<Rightarrow> case pop_n n q' of (xs, r) \<Rightarrow> (x # xs, r))"

lemma pop_cases:
  assumes "inv q"
  obtains (empty) "contents q = []" "pop q = (None, q)"
  | (some) x xs q' where "contents q = x # xs" "pop q = (Some x, q')" "inv q'" "contents q' = xs"
proof (cases "contents q")
  case Nil
  then show thesis using empty pop_empty assms by blast
next
  case (Cons x xs)
  then show thesis using some pop_ok assms by blast
qed

lemma pop_inv: "inv q \<Longrightarrow> inv (snd (pop q)) \<and> contents (snd (pop q)) = tl (contents q)"
  by (rule pop_cases[of q]) auto

lemma pop_fst: "inv q \<Longrightarrow> fst (pop q) = (case contents q of [] \<Rightarrow> None | x # xs \<Rightarrow> Some x)"
  by (rule pop_cases[of q]) auto

lemma pop_n_ok:
  "inv q \<Longrightarrow> n \<le> length (contents q) \<Longrightarrow>
    \<exists>q'. pop_n n q = (map Some (take n (contents q)), q') \<and> inv q' \<and> contents q' = drop n (contents q)"
proof (induction n arbitrary: q)
  case 0
  then show ?case by simp
next
  case (Suc n)
  from Suc.prems(1) show ?case
  proof (cases rule: pop_cases)
    case (some x xs q1)
    then show ?thesis using Suc.IH[of q1] Suc.prems by auto
  qed (use Suc.prems in simp)
qed

end

locale bounded_fifo = fifo cap inv contents empty pop
  for cap :: nat
    and inv :: "'q \<Rightarrow> bool"
    and contents :: "'q \<Rightarrow> 'a list"
    and empty :: 'q
    and pop :: "'q \<Rightarrow> 'a option \<times> 'q" +
  fixes push :: "'a \<Rightarrow> 'q \<Rightarrow> bool \<times> 'q"
  assumes push_full: "inv q \<Longrightarrow> length (contents q) = cap \<Longrightarrow> push x q = (False, q)"
    and push_ok: "inv q \<Longrightarrow> length (contents q) < cap \<Longrightarrow>
      \<exists>q'. push x q = (True, q') \<and> inv q' \<and> contents q' = contents q @ [x]"
begin

primrec push_all :: "'a list \<Rightarrow> 'q \<Rightarrow> 'q" where
  "push_all [] q = q"
| "push_all (x # xs) q = push_all xs (snd (push x q))"

lemma push_inv:
  assumes "inv q"
  shows "inv (snd (push x q)) \<and> (fst (push x q) \<longleftrightarrow> length (contents q) < cap) \<and>
    contents (snd (push x q)) = (if length (contents q) = cap then contents q else contents q @ [x])"
  using push_full[OF assms, of x] push_ok[OF assms, of x] contents_le[OF assms] assms
  by (cases "length (contents q) = cap") force+

lemma push_all_ok:
  "inv q \<Longrightarrow> length (contents q) + length xs \<le> cap \<Longrightarrow>
    inv (push_all xs q) \<and> contents (push_all xs q) = contents q @ xs"
proof (induction xs arbitrary: q)
  case (Cons x xs)
  then show ?case using push_inv[of q x] Cons.IH[of "snd (push x q)"] by auto
qed simp

text \<open>Everything that was pushed comes out once, in order, and the queue is empty again.\<close>

lemma fifo_order:
  assumes "length xs \<le> cap"
  shows "fst (pop_n (length xs) (push_all xs empty)) = map Some xs \<and>
    contents (snd (pop_n (length xs) (push_all xs empty))) = []"
  using push_all_ok[of empty xs] pop_n_ok[of "push_all xs empty" "length xs"] inv_empty contents_empty assms
  by auto

end

locale lossy_fifo = fifo cap inv contents empty pop
  for cap :: nat
    and inv :: "'q \<Rightarrow> bool"
    and contents :: "'q \<Rightarrow> 'a list"
    and empty :: 'q
    and pop :: "'q \<Rightarrow> 'a option \<times> 'q" +
  fixes push :: "'a \<Rightarrow> 'q \<Rightarrow> 'q"
  assumes push_inv: "inv q \<Longrightarrow> inv (push x q)"
    and push_contents: "inv q \<Longrightarrow> contents (push x q) =
      (if length (contents q) = cap then tl (contents q) else contents q) @ [x]"
    and cap_pos: "0 < cap"
begin

text \<open>After any number of pushes the queue holds the newest \<open>cap\<close> elements, oldest first.\<close>

lemma push_all_newest:
  "inv q \<Longrightarrow> inv (fold push xs q) \<and>
    contents (fold push xs q) = drop (length (contents q) + length xs - cap) (contents q @ xs)"
proof (induction xs arbitrary: q)
  case Nil
  then show ?case using contents_le[of q] by simp
next
  case (Cons x xs)
  let ?c = "contents q"
  have c: "contents (push x q) @ xs = (if length ?c = cap then tl (?c @ x # xs) else ?c @ x # xs)"
    using push_contents[OF Cons.prems, of x] cap_pos by (cases "contents q") auto
  have "length (contents (push x q)) = (if length ?c = cap then cap else Suc (length ?c))"
    using push_contents[OF Cons.prems, of x] cap_pos by simp
  then show ?case
    using Cons.IH[OF push_inv[OF Cons.prems]] c
    by (cases "length ?c = cap") (simp_all add: drop_Suc del: drop_append tl_append)
qed

end

end
