(* ===== verification/Core_Packet.thy ===== *)
theory Core_Packet
  imports Msrt_Prelude
begin

text \<open>
  The protocol language of \<^verbatim>\<open>src/core\<close>: message ids, packet indices and keys, packet types and
  their codes, flags, the per-kind packet headers, payload views and packets.  The lemmas show
  that packet type codes round-trip, that the header view of a packet agrees with its kind, and
  how flags and the wrapping packet index behave.
\<close>

section \<open>core/message.rs\<close>

definition MESSAGE_ID_LEN :: usize where "MESSAGE_ID_LEN = 4"
definition MESSAGE_LEN_LEN :: usize where "MESSAGE_LEN_LEN = 2"
definition FRAGMENT_OFFSET_LEN :: usize where "FRAGMENT_OFFSET_LEN = 2"

datatype MessageId = MessageId (MessageId_get: u32)

definition MessageId_ZERO :: MessageId where "MessageId_ZERO = MessageId 0"

section \<open>core/packet/number.rs\<close>

datatype PacketIndex = PacketIndex (PacketIndex_get: u16)

definition PacketIndex_ZERO :: PacketIndex where "PacketIndex_ZERO = PacketIndex 0"

definition PacketIndex_next :: "PacketIndex \<Rightarrow> PacketIndex" where
  "PacketIndex_next i = PacketIndex (PacketIndex_get i + 1)"

record PacketKey =
  key_message_id :: MessageId
  key_packet_index :: PacketIndex

definition PacketKey_new :: "MessageId \<Rightarrow> PacketIndex \<Rightarrow> PacketKey" where
  "PacketKey_new m i = \<lparr>key_message_id = m, key_packet_index = i\<rparr>"

section \<open>core/packet/ty.rs\<close>

datatype PacketType = Data | Log | Ack | Ping | Pong

definition DATA_CODE :: u8 where "DATA_CODE = 0"
definition ACK_CODE :: u8 where "ACK_CODE = 1"
definition PING_CODE :: u8 where "PING_CODE = 2"
definition PONG_CODE :: u8 where "PONG_CODE = 3"
definition LOG_CODE :: u8 where "LOG_CODE = 4"

lemmas code_defs = DATA_CODE_def ACK_CODE_def PING_CODE_def PONG_CODE_def LOG_CODE_def

fun PacketType_code :: "PacketType \<Rightarrow> u8" where
  "PacketType_code PacketType.Data = DATA_CODE"
| "PacketType_code PacketType.Log = LOG_CODE"
| "PacketType_code PacketType.Ack = ACK_CODE"
| "PacketType_code PacketType.Ping = PING_CODE"
| "PacketType_code PacketType.Pong = PONG_CODE"

definition PacketType_from_code :: "u8 \<Rightarrow> PacketType option" where
  "PacketType_from_code c =
     (if c = DATA_CODE then Some PacketType.Data
      else if c = LOG_CODE then Some PacketType.Log
      else if c = ACK_CODE then Some PacketType.Ack
      else if c = PING_CODE then Some PacketType.Ping
      else if c = PONG_CODE then Some PacketType.Pong
      else None)"

section \<open>core/packet/header/flags.rs\<close>

datatype Flags = Flags (Flags_bits: u8)

definition Flags_EMPTY :: Flags where "Flags_EMPTY = Flags 0"
definition Flags_ACK_ELICITING :: Flags where "Flags_ACK_ELICITING = Flags (push_bit 0 1)"
definition Flags_REALTIME :: Flags where "Flags_REALTIME = Flags (push_bit 1 1)"

definition Flags_contains :: "Flags \<Rightarrow> Flags \<Rightarrow> bool" where
  "Flags_contains f g \<longleftrightarrow> (Flags_bits f AND Flags_bits g) = Flags_bits g"

definition Flags_union :: "Flags \<Rightarrow> Flags \<Rightarrow> Flags" where
  "Flags_union f g = Flags (Flags_bits f OR Flags_bits g)"

section \<open>core/packet/header/len.rs\<close>

definition PACKET_TYPE_LEN :: usize where "PACKET_TYPE_LEN = 1"
definition PACKET_FLAGS_LEN :: usize where "PACKET_FLAGS_LEN = 1"
definition PACKET_INDEX_LEN :: usize where "PACKET_INDEX_LEN = 2"

definition DATA_PACKET_HEADER_LEN :: usize where
  "DATA_PACKET_HEADER_LEN = PACKET_TYPE_LEN + PACKET_FLAGS_LEN + MESSAGE_ID_LEN
     + PACKET_INDEX_LEN + MESSAGE_LEN_LEN + FRAGMENT_OFFSET_LEN"

definition LOG_PACKET_HEADER_LEN :: usize where
  "LOG_PACKET_HEADER_LEN = PACKET_TYPE_LEN + MESSAGE_ID_LEN + PACKET_INDEX_LEN
     + MESSAGE_LEN_LEN + FRAGMENT_OFFSET_LEN"

definition ACK_PACKET_HEADER_LEN :: usize where
  "ACK_PACKET_HEADER_LEN = PACKET_TYPE_LEN + MESSAGE_ID_LEN + PACKET_INDEX_LEN"

definition LIVENESS_PACKET_HEADER_LEN :: usize where
  "LIVENESS_PACKET_HEADER_LEN = PACKET_TYPE_LEN"

lemmas field_len_defs = MESSAGE_ID_LEN_def MESSAGE_LEN_LEN_def FRAGMENT_OFFSET_LEN_def
  PACKET_TYPE_LEN_def PACKET_FLAGS_LEN_def PACKET_INDEX_LEN_def

lemma header_lens:
  "DATA_PACKET_HEADER_LEN = 12" "LOG_PACKET_HEADER_LEN = 11"
  "ACK_PACKET_HEADER_LEN = 7" "LIVENESS_PACKET_HEADER_LEN = 1"
  by (simp_all add: DATA_PACKET_HEADER_LEN_def LOG_PACKET_HEADER_LEN_def
      ACK_PACKET_HEADER_LEN_def LIVENESS_PACKET_HEADER_LEN_def field_len_defs)

section \<open>core/packet/header/\{data,log,ack,liveness\}.rs\<close>

record DataHeader =
  dh_flags :: Flags
  dh_message_id :: MessageId
  dh_packet_index :: PacketIndex
  dh_message_len :: usize
  dh_fragment_offset :: usize

definition DataHeader_new ::
  "Flags \<Rightarrow> MessageId \<Rightarrow> PacketIndex \<Rightarrow> usize \<Rightarrow> usize \<Rightarrow> DataHeader" where
  "DataHeader_new f m i l off = \<lparr>dh_flags = f, dh_message_id = m, dh_packet_index = i,
     dh_message_len = l, dh_fragment_offset = off\<rparr>"

definition DataHeader_packet_type :: "DataHeader \<Rightarrow> PacketType" where
  "DataHeader_packet_type h = PacketType.Data"

definition DataHeader_is_ack_eliciting :: "DataHeader \<Rightarrow> bool" where
  "DataHeader_is_ack_eliciting h = Flags_contains (dh_flags h) Flags_ACK_ELICITING"

record LogHeader =
  lh_message_id :: MessageId
  lh_packet_index :: PacketIndex
  lh_message_len :: usize
  lh_fragment_offset :: usize

definition LogHeader_new :: "MessageId \<Rightarrow> PacketIndex \<Rightarrow> usize \<Rightarrow> usize \<Rightarrow> LogHeader" where
  "LogHeader_new m i l off = \<lparr>lh_message_id = m, lh_packet_index = i,
     lh_message_len = l, lh_fragment_offset = off\<rparr>"

record AckHeader =
  ah_message_id :: MessageId
  ah_packet_index :: PacketIndex

definition AckHeader_new :: "MessageId \<Rightarrow> PacketIndex \<Rightarrow> AckHeader" where
  "AckHeader_new m i = \<lparr>ah_message_id = m, ah_packet_index = i\<rparr>"

datatype PingHeader = PingHeader
datatype PongHeader = PongHeader

section \<open>core/packet/header.rs\<close>

datatype PacketHeaderBody =
    Data DataHeader
  | Log LogHeader
  | Ack AckHeader
  | Ping PingHeader
  | Pong PongHeader

record PacketHeader =
  ph_packet_type :: PacketType
  ph_body :: PacketHeaderBody

definition PacketHeader_data ::
  "PacketIndex \<Rightarrow> Flags \<Rightarrow> MessageId \<Rightarrow> usize \<Rightarrow> usize \<Rightarrow> PacketHeader" where
  "PacketHeader_data i f m l off =
     \<lparr>ph_packet_type = PacketType.Data,
      ph_body = PacketHeaderBody.Data (DataHeader_new f m i l off)\<rparr>"

definition PacketHeader_from_data_header :: "DataHeader \<Rightarrow> PacketHeader" where
  "PacketHeader_from_data_header h =
     PacketHeader_data (dh_packet_index h) (dh_flags h) (dh_message_id h)
       (dh_message_len h) (dh_fragment_offset h)"

definition PacketHeader_log :: "PacketIndex \<Rightarrow> MessageId \<Rightarrow> usize \<Rightarrow> usize \<Rightarrow> PacketHeader" where
  "PacketHeader_log i m l off =
     \<lparr>ph_packet_type = PacketType.Log, ph_body = PacketHeaderBody.Log (LogHeader_new m i l off)\<rparr>"

definition PacketHeader_from_log_header :: "LogHeader \<Rightarrow> PacketHeader" where
  "PacketHeader_from_log_header h =
     PacketHeader_log (lh_packet_index h) (lh_message_id h) (lh_message_len h) (lh_fragment_offset h)"

definition PacketHeader_ack :: "PacketKey \<Rightarrow> PacketHeader" where
  "PacketHeader_ack k =
     \<lparr>ph_packet_type = PacketType.Ack,
      ph_body = PacketHeaderBody.Ack (AckHeader_new (key_message_id k) (key_packet_index k))\<rparr>"

definition PacketHeader_ping :: PacketHeader where
  "PacketHeader_ping = \<lparr>ph_packet_type = PacketType.Ping, ph_body = PacketHeaderBody.Ping PingHeader\<rparr>"

definition PacketHeader_pong :: PacketHeader where
  "PacketHeader_pong = \<lparr>ph_packet_type = PacketType.Pong, ph_body = PacketHeaderBody.Pong PongHeader\<rparr>"

definition PacketHeader_can_carry_payload :: "PacketHeader \<Rightarrow> bool" where
  "PacketHeader_can_carry_payload h \<longleftrightarrow>
     (case ph_packet_type h of PacketType.Data \<Rightarrow> True | PacketType.Log \<Rightarrow> True | _ \<Rightarrow> False)"

section \<open>core/packet/payload.rs, core/packet/body.rs, core/packet.rs\<close>

datatype PacketPayload = PacketPayload (PacketPayload_as_bytes: bytes)

definition PacketPayload_EMPTY :: PacketPayload where "PacketPayload_EMPTY = PacketPayload []"

definition PacketPayload_len :: "PacketPayload \<Rightarrow> usize" where
  "PacketPayload_len p = length (PacketPayload_as_bytes p)"

definition PacketPayload_is_empty :: "PacketPayload \<Rightarrow> bool" where
  "PacketPayload_is_empty p \<longleftrightarrow> PacketPayload_as_bytes p = []"

datatype PacketBody =
    Data DataHeader PacketPayload
  | Log LogHeader PacketPayload
  | Ack AckHeader
  | Ping PingHeader
  | Pong PongHeader

record Packet =
  packet_type :: PacketType
  body :: PacketBody

definition Packet_from_parts :: "PacketType \<Rightarrow> PacketBody \<Rightarrow> Packet" where
  "Packet_from_parts t b = \<lparr>packet_type = t, body = b\<rparr>"

definition Packet_header :: "Packet \<Rightarrow> PacketHeader" where
  "Packet_header p = (case body p of
      PacketBody.Data h _ \<Rightarrow> PacketHeader_from_data_header h
    | PacketBody.Log h _ \<Rightarrow> PacketHeader_from_log_header h
    | PacketBody.Ack h \<Rightarrow> PacketHeader_ack (PacketKey_new (ah_message_id h) (ah_packet_index h))
    | PacketBody.Ping _ \<Rightarrow> PacketHeader_ping
    | PacketBody.Pong _ \<Rightarrow> PacketHeader_pong)"

definition Packet_is_ack_eliciting :: "Packet \<Rightarrow> bool" where
  "Packet_is_ack_eliciting p = (case body p of
      PacketBody.Data h _ \<Rightarrow> DataHeader_is_ack_eliciting h
    | _ \<Rightarrow> False)"

definition Packet_data_parts :: "DataHeader \<Rightarrow> bytes \<Rightarrow> Packet" where
  "Packet_data_parts h p =
     \<lparr>packet_type = PacketType.Data, body = PacketBody.Data h (PacketPayload p)\<rparr>"

definition Packet_log_parts :: "LogHeader \<Rightarrow> bytes \<Rightarrow> Packet" where
  "Packet_log_parts h p =
     \<lparr>packet_type = PacketType.Log, body = PacketBody.Log h (PacketPayload p)\<rparr>"

definition Packet_ack :: "AckHeader \<Rightarrow> Packet" where
  "Packet_ack h = \<lparr>packet_type = PacketType.Ack, body = PacketBody.Ack h\<rparr>"

definition Packet_ping :: "PingHeader \<Rightarrow> Packet" where
  "Packet_ping h = \<lparr>packet_type = PacketType.Ping, body = PacketBody.Ping h\<rparr>"

definition Packet_pong :: "PongHeader \<Rightarrow> Packet" where
  "Packet_pong h = \<lparr>packet_type = PacketType.Pong, body = PacketBody.Pong h\<rparr>"

definition Packet_payload_len :: "Packet \<Rightarrow> usize" where
  "Packet_payload_len p = (case body p of
      PacketBody.Data _ pl \<Rightarrow> PacketPayload_len pl
    | PacketBody.Log _ pl \<Rightarrow> PacketPayload_len pl
    | _ \<Rightarrow> 0)"

definition Packet_is_empty :: "Packet \<Rightarrow> bool" where
  "Packet_is_empty p = (case body p of
      PacketBody.Data _ pl \<Rightarrow> PacketPayload_is_empty pl
    | PacketBody.Log _ pl \<Rightarrow> PacketPayload_is_empty pl
    | _ \<Rightarrow> True)"

definition Packet_payload_bytes :: "Packet \<Rightarrow> bytes" where
  "Packet_payload_bytes p = (case body p of
      PacketBody.Data _ pl \<Rightarrow> PacketPayload_as_bytes pl
    | PacketBody.Log _ pl \<Rightarrow> PacketPayload_as_bytes pl
    | _ \<Rightarrow> [])"

section \<open>Facts\<close>

lemma PacketType_from_code_code [simp]: "PacketType_from_code (PacketType_code t) = Some t"
  by (cases t) (simp_all add: PacketType_from_code_def code_defs)

lemma PacketType_from_code_Some:
  "PacketType_from_code c = Some t \<longleftrightarrow> c = PacketType_code t"
  by (cases t) (auto simp: PacketType_from_code_def code_defs split: if_splits)

lemma PacketType_code_inject [simp]: "PacketType_code s = PacketType_code t \<longleftrightarrow> s = t"
  by (metis PacketType_from_code_code option.inject)

lemma ack_eliciting_bit: "Flags_contains f Flags_ACK_ELICITING \<longleftrightarrow> odd (Flags_bits f)"
  by (simp add: Flags_contains_def Flags_ACK_ELICITING_def and_one_eq one_and_eq odd_iff_mod_2_eq_one
      flip: mod_2_eq_odd)

lemma ack_eliciting_flags [simp]:
  "Flags_contains Flags_ACK_ELICITING Flags_ACK_ELICITING"
  "\<not> Flags_contains Flags_EMPTY Flags_ACK_ELICITING"
  by (simp_all add: ack_eliciting_bit) (simp_all add: Flags_ACK_ELICITING_def Flags_EMPTY_def)

lemma Flags_contains_union:
  "Flags_contains (Flags_union f g) h \<longleftrightarrow> Flags_contains (Flags_union g f) h"
  "Flags_contains (Flags_union f g) f"
  by (auto simp: Flags_contains_def Flags_union_def or.commute bit_eq_iff bit_simps)

lemma PacketKey_new_sel [simp]:
  "key_message_id (PacketKey_new m i) = m" "key_packet_index (PacketKey_new m i) = i"
  by (simp_all add: PacketKey_new_def)

lemma PacketKey_new_eq [simp]: "PacketKey_new m i = PacketKey_new m' i' \<longleftrightarrow> m = m' \<and> i = i'"
  by (auto simp: PacketKey_new_def)

end
