(* ===== verification/Crc.thy ===== *)
theory Crc
  imports Msrt_Prelude
begin

text \<open>
  The CRC integrity backends of \<^verbatim>\<open>src/integrity/crc.rs\<close>: the bitwise MSB-first and LSB-first
  registers on a 64-bit word, the four parameter sets (CRC-8/ATM, CRC-16/XMODEM, CRC-32/ISO-HDLC,
  CRC-64/ECMA-182) and the little-endian tag codec.

  The locale \<open>crc_register\<close> is what error detection needs of a register: it is linear over
  exclusive or, the per-byte update loses no information, and bytes line up in it.  It is
  interpreted on each of the four parameter sets, which gives that every corruption confined to
  as many consecutive bytes as the tag is wide is detected.
\<close>

section \<open>Definitions\<close>

definition crc_mask :: "nat \<Rightarrow> u64" where
  "crc_mask width = (if width = 64 then - 1 else push_bit width 1 - 1)"

definition crc_step_msb :: "u64 \<Rightarrow> u64 \<Rightarrow> u64 \<Rightarrow> u64" where
  "crc_step_msb top_bit poly checksum =
     (if checksum AND top_bit \<noteq> 0 then push_bit 1 checksum XOR poly else push_bit 1 checksum)"

definition crc_bits_msb :: "u64 \<Rightarrow> u64 \<Rightarrow> u64 \<Rightarrow> u64 \<Rightarrow> u64" where
  "crc_bits_msb checksum top_bit poly msk = (crc_step_msb top_bit poly ^^ 8) checksum AND msk"

definition crc_step_lsb :: "u64 \<Rightarrow> u64 \<Rightarrow> u64" where
  "crc_step_lsb poly checksum =
     (if checksum AND 1 \<noteq> 0 then drop_bit 1 checksum XOR poly else drop_bit 1 checksum)"

definition crc_bits_lsb :: "u64 \<Rightarrow> u64 \<Rightarrow> u64 \<Rightarrow> u64" where
  "crc_bits_lsb checksum poly msk = (crc_step_lsb poly ^^ 8) checksum AND msk"

fun crc_msb_loop :: "nat \<Rightarrow> u64 \<Rightarrow> u64 \<Rightarrow> u64 \<Rightarrow> u64 \<Rightarrow> bytes \<Rightarrow> u64" where
  "crc_msb_loop shift top_bit poly msk checksum [] = checksum"
| "crc_msb_loop shift top_bit poly msk checksum (b # bs) =
     crc_msb_loop shift top_bit poly msk
       (crc_bits_msb (checksum XOR push_bit shift (ucast b)) top_bit poly msk) bs"

definition crc_msb :: "bytes \<Rightarrow> nat \<Rightarrow> u64 \<Rightarrow> u64 \<Rightarrow> u64" where
  "crc_msb bs width initial poly =
     (let top_bit = push_bit (width - 1) 1; msk = crc_mask width; shift = width - 8
      in crc_msb_loop shift top_bit poly msk (initial AND msk) bs AND msk)"

fun crc_lsb_loop :: "u64 \<Rightarrow> u64 \<Rightarrow> u64 \<Rightarrow> bytes \<Rightarrow> u64" where
  "crc_lsb_loop poly msk checksum [] = checksum"
| "crc_lsb_loop poly msk checksum (b # bs) =
     crc_lsb_loop poly msk (crc_bits_lsb (checksum XOR ucast b) poly msk) bs"

definition crc_lsb :: "bytes \<Rightarrow> nat \<Rightarrow> u64 \<Rightarrow> u64 \<Rightarrow> u64" where
  "crc_lsb bs width initial poly =
     (let msk = crc_mask width in crc_lsb_loop poly msk (initial AND msk) bs AND msk)"

definition Crc8_calculate :: "bytes \<Rightarrow> u8" where
  "Crc8_calculate bs = ucast (crc_msb bs 8 0 0x07)"

definition Crc16_calculate :: "bytes \<Rightarrow> u16" where
  "Crc16_calculate bs = ucast (crc_msb bs 16 0 0x1021)"

definition Crc32_calculate :: "bytes \<Rightarrow> u32" where
  "Crc32_calculate bs = ucast (NOT (crc_lsb bs 32 0xffffffff 0xedb88320))"

definition Crc64_calculate :: "bytes \<Rightarrow> u64" where
  "Crc64_calculate bs = crc_msb bs 64 0 0x42f0e1eba9ea3693"

text \<open>The \<^verbatim>\<open>CrcTag\<close> codec; \<open>LENGTH('a) div 8\<close> is \<^verbatim>\<open>core::mem::size_of::<Self>()\<close>.\<close>

definition write_le :: "'a::len word \<Rightarrow> bytes \<Rightarrow> bytes res" where
  "write_le value out =
     (let n = LENGTH('a) div 8 in
      if n \<le> length out then Ok (copy_at out 0 (to_le n value)) else Panic)"

definition read_le :: "bytes \<Rightarrow> 'a::len word" where
  "read_le bs = from_le (take (LENGTH('a) div 8) bs)"

definition seal_value :: "'a::len word \<Rightarrow> bytes \<Rightarrow> bytes res" where
  "seal_value value out = write_le value out"

definition verify_value :: "'a::len word \<Rightarrow> bytes \<Rightarrow> bool" where
  "verify_value value tag =
     (if LENGTH('a) div 8 \<le> length tag then value = read_le (take (LENGTH('a) div 8) tag) else False)"

definition Crc16_TAG_LEN :: usize where "Crc16_TAG_LEN = 2"
definition Crc32_TAG_LEN :: usize where "Crc32_TAG_LEN = 4"
definition Crc64_TAG_LEN :: usize where "Crc64_TAG_LEN = 8"

definition Crc16_seal :: "bytes \<Rightarrow> bytes \<Rightarrow> bytes res" where
  "Crc16_seal bs out = seal_value (Crc16_calculate bs) out"
definition Crc16_verify :: "bytes \<Rightarrow> bytes \<Rightarrow> bool" where
  "Crc16_verify bs tag = verify_value (Crc16_calculate bs) tag"
definition Crc32_seal :: "bytes \<Rightarrow> bytes \<Rightarrow> bytes res" where
  "Crc32_seal bs out = seal_value (Crc32_calculate bs) out"
definition Crc32_verify :: "bytes \<Rightarrow> bytes \<Rightarrow> bool" where
  "Crc32_verify bs tag = verify_value (Crc32_calculate bs) tag"
definition Crc64_seal :: "bytes \<Rightarrow> bytes \<Rightarrow> bytes res" where
  "Crc64_seal bs out = seal_value (Crc64_calculate bs) out"
definition Crc64_verify :: "bytes \<Rightarrow> bytes \<Rightarrow> bool" where
  "Crc64_verify bs tag = verify_value (Crc64_calculate bs) tag"

section \<open>The tag codec\<close>

lemma seal_value_eq:
  "seal_value (v :: 'a::len word) out =
     (if LENGTH('a) div 8 \<le> length out
      then Ok (to_le (LENGTH('a) div 8) v @ drop (LENGTH('a) div 8) out) else Panic)"
  by (simp add: seal_value_def write_le_def copy_at_0 Let_def)

lemma verify_value_iff:
  fixes v :: "'a::len word"
  assumes "8 dvd LENGTH('a)"
  shows "verify_value v tag \<longleftrightarrow>
     LENGTH('a) div 8 \<le> length tag \<and> take (LENGTH('a) div 8) tag = to_le (LENGTH('a) div 8) v"
proof -
  have n: "8 * (LENGTH('a) div 8) = LENGTH('a)" using assms by simp
  show ?thesis
  proof (cases "LENGTH('a) div 8 \<le> length tag")
    case True
    let ?t = "take (LENGTH('a) div 8) tag"
    have "v = from_le ?t \<longleftrightarrow> ?t = to_le (LENGTH('a) div 8) v"
      using to_le_from_le[of ?t "LENGTH('a) div 8", where 'a = 'a] True n
      by (metis from_le_to_le_full length_take min.absorb2 order_refl)
    with True show ?thesis by (simp add: verify_value_def read_le_def)
  qed (simp add: verify_value_def)
qed

section \<open>Error detection\<close>

locale crc_register =
  fixes upd :: "u64 \<Rightarrow> u64"
    and place :: "nat \<Rightarrow> u8 \<Rightarrow> u64"
    and msk :: u64
    and k :: nat
  assumes upd_xor: "upd (a XOR b) = upd a XOR upd b"
    and upd_masked: "upd a AND msk = upd a"
    and upd_kernel: "a AND msk = a \<Longrightarrow> upd a = 0 \<Longrightarrow> a = 0"
    and place_masked: "j < k \<Longrightarrow> place j x AND msk = place j x"
    and place_shift: "Suc j < k \<Longrightarrow> upd (place (Suc j) x) = place j x"
    and place_bit: "j < k \<Longrightarrow> n < 8 \<Longrightarrow> \<exists>i. \<forall>j' x. j' < k \<longrightarrow> bit (place j' x) i = (j' = j \<and> bit x n)"
begin

primrec run :: "u64 \<Rightarrow> bytes \<Rightarrow> u64" where
  "run c [] = c"
| "run c (b # bs) = run (upd (c XOR place 0 b)) bs"

primrec pack :: "nat \<Rightarrow> bytes \<Rightarrow> u64" where
  "pack j [] = 0"
| "pack j (b # bs) = place j b XOR pack (Suc j) bs"

lemma run_append: "run c (xs @ ys) = run (run c xs) ys"
  by (induction xs arbitrary: c) auto

lemma xor_masked: "a AND msk = a \<Longrightarrow> b AND msk = b \<Longrightarrow> (a XOR b) AND msk = a XOR b"
  by (metis and.commute bit.conj_xor_distrib)

lemma upd_inj: "a AND msk = a \<Longrightarrow> b AND msk = b \<Longrightarrow> upd a = upd b \<Longrightarrow> a = b"
  using upd_kernel[of "a XOR b"] xor_masked[of a b] by (simp add: upd_xor)

lemma pack_masked: "j + length bs \<le> k \<Longrightarrow> pack j bs AND msk = pack j bs"
  by (induction bs arbitrary: j) (auto simp: xor_masked place_masked)

lemma upd_pack: "Suc j + length bs \<le> k \<Longrightarrow> upd (pack (Suc j) bs) = pack j bs"
proof (induction bs arbitrary: j)
  case Nil
  have "upd 0 = 0" using upd_xor[of 0 0] by simp
  then show ?case by simp
next
  case (Cons b bs)
  then show ?case using place_shift[of j b] by (simp add: upd_xor)
qed

lemma run_pack: "length bs \<le> k \<Longrightarrow> run c bs = (upd ^^ length bs) (c XOR pack 0 bs)"
proof (induction bs arbitrary: c)
  case Nil
  then show ?case by simp
next
  case (Cons b bs)
  then have "run c (b # bs) = (upd ^^ length bs) (upd (c XOR place 0 b) XOR pack 0 bs)"
    by simp
  also have "pack 0 bs = upd (pack 1 bs)" using Cons.prems upd_pack[of 0 bs] by simp
  finally show ?case
    by (simp add: funpow_swap1 upd_xor[symmetric] xor.assoc)
qed

lemma pack_inj:
  assumes "length xs = length ys" "j + length xs \<le> k" "pack j xs = pack j ys"
  shows "xs = ys"
proof -
  have bitpack: "bit (pack j zs) i = bit (zs ! (m - j)) n"
    if "j + length zs \<le> k" "j \<le> m" "m < j + length zs"
      and i: "\<And>j' b. j' < k \<Longrightarrow> bit (place j' b) i = (j' = m \<and> bit b n)" for zs j m n i
    using that(1-3)
  proof (induction zs arbitrary: j)
    case Nil
    then show ?case by simp
  next
    case (Cons z zs)
    have rest: "m < j' \<Longrightarrow> j' + length zs \<le> k \<Longrightarrow> \<not> bit (pack j' zs) i" for j' zs
      by (induction zs arbitrary: j') (auto simp: bit_simps i)
    show ?case
    proof (cases "m = j")
      case True
      with Cons.prems rest[of "Suc j" zs] show ?thesis by (simp add: bit_simps i)
    next
      case False
      with Cons.IH[of "Suc j"] Cons.prems show ?thesis
        by (auto simp: bit_simps i nth_Cons')
    qed
  qed
  show ?thesis
  proof (rule nth_equalityI[OF assms(1)])
    fix q assume q: "q < length xs"
    show "xs ! q = ys ! q"
    proof (rule bit_word_eqI)
      fix n assume "n < LENGTH(8)"
      then obtain i where i: "\<And>j' b. j' < k \<Longrightarrow> bit (place j' b) i = (j' = j + q \<and> bit b n)"
        using place_bit[of "j + q" n] q assms(2) by auto
      show "bit (xs ! q) n = bit (ys ! q) n"
        using bitpack[of j xs "j + q", OF _ _ _ i] bitpack[of j ys "j + q", OF _ _ _ i] assms q
        by simp
    qed
  qed
qed

lemma funpow_upd_inj:
  "a AND msk = a \<Longrightarrow> b AND msk = b \<Longrightarrow> (upd ^^ n) a = (upd ^^ n) b \<Longrightarrow> a = b"
proof (induction n)
  case (Suc n)
  have m: "(upd ^^ n) c AND msk = (upd ^^ n) c" if "c AND msk = c" for c
    using that by (cases n) (auto simp: upd_masked)
  from Suc show ?case using upd_inj[OF m m] by simp
qed simp

lemma run_masked: "c AND msk = c \<Longrightarrow> run c bs AND msk = run c bs"
  by (induction bs arbitrary: c) (auto simp: upd_masked)

lemma run_inj_state: "a AND msk = a \<Longrightarrow> b AND msk = b \<Longrightarrow> 0 < k \<Longrightarrow> run a bs = run b bs \<Longrightarrow> a = b"
proof (induction bs arbitrary: a b)
  case (Cons x bs)
  have "upd (a XOR place 0 x) = upd (b XOR place 0 x)"
    by (rule Cons.IH[OF upd_masked upd_masked Cons.prems(3)]) (use Cons.prems(4) in simp)
  then have "a XOR place 0 x = b XOR place 0 x"
    by (rule upd_inj[rotated 2]) (use Cons.prems in \<open>simp_all add: xor_masked place_masked\<close>)
  then show ?case by simp
qed simp

text \<open>A change confined to at most \<open>k\<close> consecutive bytes changes the register.\<close>

lemma burst_detected:
  assumes "c AND msk = c" "0 < k" "length xs = length ys" "length xs \<le> k" "xs \<noteq> ys"
  shows "run c (pre @ xs @ post) \<noteq> run c (pre @ ys @ post)"
proof
  let ?s = "run c pre"
  assume "run c (pre @ xs @ post) = run c (pre @ ys @ post)"
  then have "run ?s xs = run ?s ys"
    using run_inj_state[of "run ?s xs" "run ?s ys" post] run_masked assms(1,2)
    by (simp add: run_append)
  then have "(upd ^^ length xs) (?s XOR pack 0 xs) = (upd ^^ length xs) (?s XOR pack 0 ys)"
    using run_pack[of xs ?s] run_pack[of ys ?s] assms by simp
  then have "?s XOR pack 0 xs = ?s XOR pack 0 ys"
    by (rule funpow_upd_inj[rotated 2])
       (use assms in \<open>auto intro!: xor_masked run_masked pack_masked\<close>)
  then have "pack 0 xs = pack 0 ys" by simp
  with pack_inj[of xs ys 0] assms show False by simp
qed

end

section \<open>The registers of the crate\<close>

lemma bit_crc_mask: "w \<le> 64 \<Longrightarrow> bit (crc_mask w) n \<longleftrightarrow> n < w \<and> n < 64"
proof (cases "w = 64")
  case False
  assume "w \<le> 64"
  have "push_bit w 1 - 1 = (Bit_Operations.mask w :: u64)"
    by (simp add: mask_eq_exp_minus_1 push_bit_eq_mult)
  with False show ?thesis by (auto simp: crc_mask_def bit_simps)
qed (simp add: crc_mask_def bit_simps)

lemma bit_crc_step_msb:
  "bit (crc_step_msb (2 ^ n) poly c) m \<longleftrightarrow>
     m < 64 \<and> ((0 < m \<and> bit c (m - 1)) \<noteq> (bit c n \<and> bit poly m))"
proof -
  have "crc_step_msb (push_bit n 1) poly c = (if bit c n then push_bit 1 c XOR poly else push_bit 1 c)"
    unfolding crc_step_msb_def by (simp only: bit_iff_and_push_bit_not_eq_0)
  moreover have "bit (push_bit 1 c) m \<longleftrightarrow> m < 64 \<and> 0 < m \<and> bit c (m - 1)"
    by (simp only: bit_push_bit_iff) (auto dest: bit_imp_le_length)
  ultimately show ?thesis by (auto simp: bit_xor_iff dest: bit_imp_le_length)
qed

lemma bit_crc_step_lsb:
  "bit (crc_step_lsb poly c) m \<longleftrightarrow> (bit c (Suc m) \<noteq> (bit c 0 \<and> bit poly m))"
proof -
  have "crc_step_lsb poly c = (if bit c 0 then drop_bit 1 c XOR poly else drop_bit 1 c)"
    using bit_iff_and_push_bit_not_eq_0[of c 0] unfolding crc_step_lsb_def by simp
  then show ?thesis by (auto simp: bit_xor_iff bit_drop_bit_eq)
qed

lemma crc_step_msb_xor:
  "crc_step_msb (2 ^ n) poly (a XOR b) = crc_step_msb (2 ^ n) poly a XOR crc_step_msb (2 ^ n) poly b"
  by (rule bit_word_eqI) (auto simp: bit_crc_step_msb bit_xor_iff)

lemma crc_step_lsb_xor: "crc_step_lsb poly (a XOR b) = crc_step_lsb poly a XOR crc_step_lsb poly b"
  by (rule bit_word_eqI) (auto simp: bit_crc_step_lsb bit_xor_iff)

lemma funpow_xor:
  fixes f :: "u64 \<Rightarrow> u64"
  assumes "\<And>a b. f (a XOR b) = f a XOR f b"
  shows "(f ^^ n) (a XOR b) = (f ^^ n) a XOR (f ^^ n) b"
proof (induction n)
  case (Suc n)
  then show ?case by (simp add: assms)
qed simp

lemma msb_kernel:
  assumes w: "0 < w" "w \<le> 64" and poly: "bit poly 0"
    and z: "(crc_step_msb (2 ^ (w - 1)) poly ^^ n) c AND crc_mask w = 0"
  shows "c AND crc_mask w = 0"
  using z
proof (induction n)
  case (Suc n)
  define d where "d = (crc_step_msb (2 ^ (w - 1)) poly ^^ n) c"
  have z: "crc_step_msb (2 ^ (w - 1)) poly d AND crc_mask w = 0"
    using Suc.prems by (simp add: d_def)
  have z': "\<not> bit (crc_step_msb (2 ^ (w - 1)) poly d) m" if "m < w" for m
  proof -
    have "\<not> bit (crc_step_msb (2 ^ (w - 1)) poly d AND crc_mask w) m"
      using z by simp
    with that w show ?thesis by (simp add: bit_and_iff bit_crc_mask)
  qed
  have top: "\<not> bit d (w - 1)"
    using z'[of 0] w poly by (simp add: bit_crc_step_msb)
  have "\<not> bit d m" if "m < w" for m
  proof (cases "m = w - 1")
    case False
    with that z'[of "Suc m"] top w show ?thesis by (simp add: bit_crc_step_msb)
  qed (use top in simp)
  then have "d AND crc_mask w = 0"
    using w by (auto simp: bit_eq_iff bit_simps bit_crc_mask)
  then show ?case by (intro Suc.IH) (simp add: d_def)
qed simp

lemma lsb_step_masked:
  assumes "w \<le> 64" "poly AND crc_mask w = poly" "c AND crc_mask w = c"
  shows "crc_step_lsb poly c AND crc_mask w = crc_step_lsb poly c"
proof (rule bit_word_eqI)
  fix n assume n: "n < LENGTH(64)"
  have c: "bit c m \<Longrightarrow> m < w" and p: "bit poly m \<Longrightarrow> m < w" for m
    using assms by (metis bit_and_iff bit_crc_mask)+
  show "bit (crc_step_lsb poly c AND crc_mask w) n = bit (crc_step_lsb poly c) n"
    using n c[of "Suc n"] p[of n] assms(1) by (auto simp: bit_crc_step_lsb bit_and_iff bit_crc_mask)
qed

lemma lsb_kernel:
  assumes w: "0 < w" "w \<le> 64" and poly: "bit poly (w - 1)" "poly AND crc_mask w = poly"
    and c: "c AND crc_mask w = c" and z: "(crc_step_lsb poly ^^ n) c = 0"
  shows "c = 0"
  using z
proof (induction n)
  case (Suc n)
  define d where "d = (crc_step_lsb poly ^^ n) c"
  have "d AND crc_mask w = d"
    unfolding d_def using c by (induction n) (auto simp: lsb_step_masked w poly)
  then have dw: "\<not> bit d w" by (metis bit_and_iff bit_crc_mask less_irrefl w(2))
  have z': "\<not> bit (crc_step_lsb poly d) m" for m using Suc.prems by (simp add: d_def)
  have low: "\<not> bit d 0"
    using z'[of "w - 1"] w poly dw by (auto simp: bit_crc_step_lsb)
  have "\<not> bit d m" for m
    using z'[of "m - 1"] low by (cases m) (auto simp: bit_crc_step_lsb)
  then have "d = 0" by (simp add: bit_eq_iff)
  then show ?case by (intro Suc.IH) (simp add: d_def)
qed simp

lemma masked_iff: "w \<le> 64 \<Longrightarrow> c AND crc_mask w = c \<longleftrightarrow> (\<forall>m. bit c m \<longrightarrow> m < w)"
proof -
  assume w: "w \<le> 64"
  have "c AND crc_mask w = c \<longleftrightarrow> (\<forall>m. bit (c AND crc_mask w) m = bit c m)"
    by (metis bit_word_eqI)
  also have "\<dots> \<longleftrightarrow> (\<forall>m. bit c m \<longrightarrow> m < w)"
    using w by (auto simp: bit_and_iff bit_crc_mask dest: bit_imp_le_length)
  finally show ?thesis .
qed

lemma bit_place: "bit (push_bit s (ucast (x :: u8)) :: u64) m \<longleftrightarrow> m < 64 \<and> s \<le> m \<and> m < s + 8 \<and> bit x (m - s)"
  by (auto simp: bit_simps dest: bit_imp_le_length)

lemma funpow_step_msb:
  assumes "w \<le> 64" "\<And>m. bit c m \<Longrightarrow> m + n < w"
  shows "(crc_step_msb (2 ^ (w - 1)) poly ^^ n) c = push_bit n c"
  using assms(2)
proof (induction n)
  case (Suc n)
  have IH: "(crc_step_msb (2 ^ (w - 1)) poly ^^ n) c = push_bit n c"
  proof (rule Suc.IH)
    fix m assume "bit c m"
    from Suc.prems[OF this] show "m + n < w" by simp
  qed
  have "\<not> bit (push_bit n c) (w - 1)"
    using Suc.prems[of "w - 1 - n"] by (auto simp: bit_push_bit_iff)
  then have "crc_step_msb (2 ^ (w - 1)) poly (push_bit n c) = push_bit (Suc n) c"
  proof (intro bit_word_eqI)
    fix m assume top: "\<not> bit (push_bit n c) (w - 1)" and m: "m < LENGTH(64)"
    have "bit (crc_step_msb (2 ^ (w - 1)) poly (push_bit n c)) m \<longleftrightarrow> 0 < m \<and> bit (push_bit n c) (m - 1)"
      using top m by (simp only: bit_crc_step_msb) simp
    also have "\<dots> \<longleftrightarrow> bit (push_bit (Suc n) c) m"
      using m by (cases m) (simp_all only: bit_push_bit_iff, auto)
    finally show "bit (crc_step_msb (2 ^ (w - 1)) poly (push_bit n c)) m = bit (push_bit (Suc n) c) m" .
  qed
  with IH show ?case by (simp only: funpow.simps o_apply)
qed simp

lemma funpow_step_lsb:
  assumes "\<And>m. m < n \<Longrightarrow> \<not> bit c m"
  shows "(crc_step_lsb poly ^^ n) c = drop_bit n c"
  using assms
proof (induction n)
  case (Suc n)
  then have IH: "(crc_step_lsb poly ^^ n) c = drop_bit n c" by simp
  have "\<not> bit (drop_bit n c) 0" using Suc.prems[of n] by (simp add: bit_drop_bit_eq)
  then have "crc_step_lsb poly (drop_bit n c) = drop_bit (Suc n) c"
    by (intro bit_word_eqI) (auto simp: bit_crc_step_lsb bit_drop_bit_eq)
  with IH show ?case by simp
qed simp

definition msb_upd :: "nat \<Rightarrow> u64 \<Rightarrow> u64 \<Rightarrow> u64" where
  "msb_upd w poly c = crc_bits_msb c (2 ^ (w - 1)) poly (crc_mask w)"

definition msb_place :: "nat \<Rightarrow> nat \<Rightarrow> u8 \<Rightarrow> u64" where
  "msb_place w j x = push_bit (w - 8 - 8 * j) (ucast x)"

definition lsb_upd :: "nat \<Rightarrow> u64 \<Rightarrow> u64 \<Rightarrow> u64" where
  "lsb_upd w poly c = crc_bits_lsb (c AND crc_mask w) poly (crc_mask w)"

definition lsb_place :: "nat \<Rightarrow> u8 \<Rightarrow> u64" where
  "lsb_place j x = push_bit (8 * j) (ucast x)"

lemma msb_register:
  assumes w: "8 \<le> w" "w \<le> 64" and poly: "bit poly 0"
  shows "crc_register (msb_upd w poly) (msb_place w) (crc_mask w) (w div 8)"
  unfolding msb_upd_def msb_place_def
proof
  fix a b :: u64
  show "crc_bits_msb (a XOR b) (2 ^ (w - 1)) poly (crc_mask w) =
      crc_bits_msb a (2 ^ (w - 1)) poly (crc_mask w) XOR crc_bits_msb b (2 ^ (w - 1)) poly (crc_mask w)"
    unfolding crc_bits_msb_def funpow_xor[OF crc_step_msb_xor]
    by (rule bit_word_eqI) (auto simp: bit_and_iff bit_xor_iff)
  show "crc_bits_msb a (2 ^ (w - 1)) poly (crc_mask w) AND crc_mask w = crc_bits_msb a (2 ^ (w - 1)) poly (crc_mask w)"
    by (simp add: crc_bits_msb_def and.assoc)
  show "a = 0" if "a AND crc_mask w = a" "crc_bits_msb a (2 ^ (w - 1)) poly (crc_mask w) = 0"
    using msb_kernel[of w poly 8 a] that w poly by (simp add: crc_bits_msb_def)
next
  fix j and x :: u8
  assume j: "j < w div 8"
  then have jw: "8 * Suc j \<le> w" by (simp add: less_eq_div_iff_mult_less_eq Suc_le_eq[symmetric])
  show "push_bit (w - 8 - 8 * j) (ucast x) AND crc_mask w = (push_bit (w - 8 - 8 * j) (ucast x) :: u64)"
    using w jw by (auto simp: masked_iff bit_place)
next
  fix j and x :: u8
  assume j: "Suc j < w div 8"
  then have jw: "8 * Suc (Suc j) \<le> w" by (simp add: less_eq_div_iff_mult_less_eq Suc_le_eq[symmetric])
  let ?p = "push_bit (w - 8 - 8 * Suc j) (ucast x) :: u64"
  have "(crc_step_msb (2 ^ (w - 1)) poly ^^ 8) ?p = push_bit 8 ?p"
    by (rule funpow_step_msb) (use w jw in \<open>auto simp: bit_place\<close>)
  also have "push_bit 8 ?p = push_bit (w - 8 - 8 * j) (ucast x)"
    using jw by (simp add: push_bit_push_bit algebra_simps)
  finally show "crc_bits_msb ?p (2 ^ (w - 1)) poly (crc_mask w) = push_bit (w - 8 - 8 * j) (ucast x)"
    using w jw masked_iff[of w "push_bit (w - 8 - 8 * j) (ucast x)"]
    by (auto simp: crc_bits_msb_def bit_place)
next
  fix j n :: nat
  assume j: "j < w div 8" and n: "n < 8"
  then have jw: "8 * Suc j \<le> w" by (simp add: less_eq_div_iff_mult_less_eq Suc_le_eq[symmetric])
  show "\<exists>i. \<forall>j' x. j' < w div 8 \<longrightarrow> bit (push_bit (w - 8 - 8 * j') (ucast (x :: u8)) :: u64) i = (j' = j \<and> bit x n)"
  proof (intro exI allI impI)
    fix j' :: nat and x :: u8
    assume "j' < w div 8"
    then have jw': "8 * Suc j' \<le> w" by (simp add: less_eq_div_iff_mult_less_eq Suc_le_eq[symmetric])
    have "j' = j" if "w - 8 - 8 * j' \<le> w - 8 - 8 * j + n" "w - 8 - 8 * j + n < w - 8 - 8 * j' + 8"
      using that n jw jw' by (auto simp: le_diff_conv less_diff_conv2)
    then show "bit (push_bit (w - 8 - 8 * j') (ucast x) :: u64) (w - 8 - 8 * j + n) = (j' = j \<and> bit x n)"
      using n jw w by (auto simp: bit_place)
  qed
qed

lemma lsb_register:
  assumes w: "8 \<le> w" "w \<le> 64" and poly: "bit poly (w - 1)" "poly AND crc_mask w = poly"
  shows "crc_register (lsb_upd w poly) lsb_place (crc_mask w) (w div 8)"
  unfolding lsb_upd_def lsb_place_def
proof
  fix a b :: u64
  have m: "(a XOR b) AND crc_mask w = (a AND crc_mask w) XOR (b AND crc_mask w)"
    by (rule bit_word_eqI) (auto simp: bit_and_iff bit_xor_iff)
  show "crc_bits_lsb ((a XOR b) AND crc_mask w) poly (crc_mask w) =
      crc_bits_lsb (a AND crc_mask w) poly (crc_mask w) XOR crc_bits_lsb (b AND crc_mask w) poly (crc_mask w)"
    unfolding crc_bits_lsb_def m funpow_xor[OF crc_step_lsb_xor]
    by (rule bit_word_eqI) (auto simp: bit_and_iff bit_xor_iff)
  show "crc_bits_lsb (a AND crc_mask w) poly (crc_mask w) AND crc_mask w = crc_bits_lsb (a AND crc_mask w) poly (crc_mask w)"
    by (simp add: crc_bits_lsb_def and.assoc)
  show "a = 0" if a: "a AND crc_mask w = a" and z: "crc_bits_lsb (a AND crc_mask w) poly (crc_mask w) = 0"
  proof -
    have "(crc_step_lsb poly ^^ n) a AND crc_mask w = (crc_step_lsb poly ^^ n) a" for n
      using a by (induction n) (auto simp: lsb_step_masked w poly)
    with z a have "(crc_step_lsb poly ^^ 8) a = 0" by (simp add: crc_bits_lsb_def)
    then show ?thesis using lsb_kernel[of w poly a 8] a w poly by simp
  qed
next
  fix j and x :: u8
  assume j: "j < w div 8"
  then have jw: "8 * Suc j \<le> w" by (simp add: less_eq_div_iff_mult_less_eq Suc_le_eq[symmetric])
  show "push_bit (8 * j) (ucast x) AND crc_mask w = (push_bit (8 * j) (ucast x) :: u64)"
    using w jw by (auto simp: masked_iff bit_place)
next
  fix j and x :: u8
  assume j: "Suc j < w div 8"
  then have jw: "8 * Suc (Suc j) \<le> w" by (simp add: less_eq_div_iff_mult_less_eq Suc_le_eq[symmetric])
  let ?p = "push_bit (8 * Suc j) (ucast x) :: u64"
  have m: "?p AND crc_mask w = ?p" using w jw by (auto simp: masked_iff bit_place)
  have "(crc_step_lsb poly ^^ 8) ?p = drop_bit 8 ?p"
    by (rule funpow_step_lsb) (auto simp: bit_place)
  also have "\<dots> = push_bit (8 * j) (ucast x)"
    using jw w by (intro bit_word_eqI) (auto simp: bit_drop_bit_eq bit_place algebra_simps)
  finally show "crc_bits_lsb (?p AND crc_mask w) poly (crc_mask w) = push_bit (8 * j) (ucast x)"
    using w jw masked_iff[of w "push_bit (8 * j) (ucast x)"] m
    by (auto simp: crc_bits_lsb_def bit_place)
next
  fix j n :: nat
  assume j: "j < w div 8" and n: "n < 8"
  then have jw: "8 * Suc j \<le> w" by (simp add: less_eq_div_iff_mult_less_eq Suc_le_eq[symmetric])
  show "\<exists>i. \<forall>j' x. j' < w div 8 \<longrightarrow> bit (push_bit (8 * j') (ucast (x :: u8)) :: u64) i = (j' = j \<and> bit x n)"
  proof (intro exI allI impI)
    fix j' :: nat and x :: u8
    assume "j' < w div 8"
    have "8 * j' \<le> 8 * j + n \<and> 8 * j + n < 8 * j' + 8 \<longleftrightarrow> j' = j"
      using n by auto
    then show "bit (push_bit (8 * j') (ucast x) :: u64) (8 * j + n) = (j' = j \<and> bit x n)"
      using n jw w by (cases "j' = j") (auto simp: bit_place)
  qed
qed

interpretation crc8: crc_register "msb_upd 8 0x07" "msb_place 8" "crc_mask 8" "8 div 8"
  by (rule msb_register) simp_all

interpretation crc16: crc_register "msb_upd 16 0x1021" "msb_place 16" "crc_mask 16" "16 div 8"
  by (rule msb_register) simp_all

interpretation crc64: crc_register "msb_upd 64 0x42f0e1eba9ea3693" "msb_place 64" "crc_mask 64" "64 div 8"
  by (rule msb_register) simp_all

interpretation crc32: crc_register "lsb_upd 32 0xedb88320" lsb_place "crc_mask 32" "32 div 8"
  by (rule lsb_register) (simp_all add: crc_mask_def)

lemma crc8_loop: "crc_msb_loop 0 128 0x07 (crc_mask 8) c bs = crc8.run c bs"
  by (induction bs arbitrary: c) (simp_all add: msb_upd_def msb_place_def)

lemma crc16_loop: "crc_msb_loop 8 32768 0x1021 (crc_mask 16) c bs = crc16.run c bs"
  by (induction bs arbitrary: c) (simp_all add: msb_upd_def msb_place_def)

lemma crc64_loop:
  "crc_msb_loop 56 9223372036854775808 0x42f0e1eba9ea3693 (crc_mask 64) c bs = crc64.run c bs"
  by (induction bs arbitrary: c) (simp_all add: msb_upd_def msb_place_def)

lemma crc32_loop:
  "c AND crc_mask 32 = c \<Longrightarrow> crc_lsb_loop 0xedb88320 (crc_mask 32) c bs = crc32.run c bs"
proof (induction bs arbitrary: c)
  case (Cons b bs)
  have "(c XOR ucast b) AND crc_mask 32 = c XOR ucast b"
    using crc32.xor_masked[OF Cons.prems crc32.place_masked[of 0 b]] by (simp add: lsb_place_def)
  then have "crc_bits_lsb (c XOR ucast b) 0xedb88320 (crc_mask 32) =
      lsb_upd 32 0xedb88320 (c XOR lsb_place 0 b)"
    by (simp add: lsb_upd_def lsb_place_def)
  then show ?case
    using Cons.IH[OF crc32.upd_masked, of "c XOR lsb_place 0 b"] by simp
qed simp

lemma crc_msb_run:
  "crc_msb bs 8 0 0x07 = crc8.run 0 bs"
  "crc_msb bs 16 0 0x1021 = crc16.run 0 bs"
  "crc_msb bs 64 0 0x42f0e1eba9ea3693 = crc64.run 0 bs"
  using crc8_loop[of 0 bs] crc16_loop[of 0 bs] crc64_loop[of 0 bs]
    crc8.run_masked[of 0 bs] crc16.run_masked[of 0 bs] crc64.run_masked[of 0 bs]
  by (simp_all add: crc_msb_def Let_def)

lemma crc_lsb_run: "crc_lsb bs 32 0xffffffff 0xedb88320 = crc32.run (crc_mask 32) bs"
proof -
  have m: "0xffffffff AND crc_mask 32 = crc_mask 32" by (simp add: crc_mask_def)
  have mm: "crc_mask 32 AND crc_mask 32 = crc_mask 32" by simp
  show ?thesis
    using crc32_loop[OF mm, of bs] crc32.run_masked[OF mm, of bs]
    by (simp add: crc_lsb_def Let_def m)
qed

lemma ucast_masked_inj:
  assumes "a AND crc_mask LENGTH('b::len) = a" "b AND crc_mask LENGTH('b) = b" "LENGTH('b) \<le> 64"
    and "(ucast a :: 'b word) = ucast b"
  shows "a = (b :: u64)"
proof (rule bit_word_eqI)
  fix n
  show "bit a n = bit b n"
  proof (cases "n < LENGTH('b)")
    case True
    have "bit (ucast a :: 'b word) n = bit (ucast b :: 'b word) n" using assms(4) by simp
    with True show ?thesis by (simp add: bit_ucast_iff)
  next
    case False
    then show ?thesis using assms(1-3) by (auto simp: masked_iff)
  qed
qed

lemma ucast_NOT_inj:
  "(ucast (NOT a) :: u32) = ucast (NOT b) \<Longrightarrow> (ucast (a :: u64) :: u32) = ucast (b :: u64)"
proof (rule bit_word_eqI)
  fix n assume "(ucast (NOT a) :: u32) = ucast (NOT b)" "n < LENGTH(32)"
  then have "bit (ucast (NOT a) :: u32) n = bit (ucast (NOT b) :: u32) n" "n < 32" by simp_all
  then show "bit (ucast a :: u32) n = bit (ucast b :: u32) n"
    by (simp add: bit_ucast_iff bit_not_iff)
qed

lemma Crc8_burst:
  assumes "length xs = length ys" "length xs \<le> 1" "xs \<noteq> ys"
  shows "Crc8_calculate (pre @ xs @ post) \<noteq> Crc8_calculate (pre @ ys @ post)"
  using crc8.burst_detected[of 0 xs ys pre post] assms
    ucast_masked_inj[where 'b=8, simplified, OF crc8.run_masked crc8.run_masked]
  by (auto simp: Crc8_calculate_def crc_msb_run)

lemma Crc16_burst:
  assumes "length xs = length ys" "length xs \<le> 2" "xs \<noteq> ys"
  shows "Crc16_calculate (pre @ xs @ post) \<noteq> Crc16_calculate (pre @ ys @ post)"
  using crc16.burst_detected[of 0 xs ys pre post] assms
    ucast_masked_inj[where 'b=16, simplified, OF crc16.run_masked crc16.run_masked]
  by (auto simp: Crc16_calculate_def crc_msb_run)

lemma Crc64_burst:
  assumes "length xs = length ys" "length xs \<le> 8" "xs \<noteq> ys"
  shows "Crc64_calculate (pre @ xs @ post) \<noteq> Crc64_calculate (pre @ ys @ post)"
  using crc64.burst_detected[of 0 xs ys pre post] assms
  by (auto simp: Crc64_calculate_def crc_msb_run)

lemma Crc32_burst:
  assumes "length xs = length ys" "length xs \<le> 4" "xs \<noteq> ys"
  shows "Crc32_calculate (pre @ xs @ post) \<noteq> Crc32_calculate (pre @ ys @ post)"
proof
  assume "Crc32_calculate (pre @ xs @ post) = Crc32_calculate (pre @ ys @ post)"
  then have "(ucast (crc32.run (crc_mask 32) (pre @ xs @ post)) :: u32) =
      ucast (crc32.run (crc_mask 32) (pre @ ys @ post))"
    unfolding Crc32_calculate_def crc_lsb_run by (rule ucast_NOT_inj)
  then have "crc32.run (crc_mask 32) (pre @ xs @ post) = crc32.run (crc_mask 32) (pre @ ys @ post)"
    by (rule ucast_masked_inj[where 'b=32, simplified, OF crc32.run_masked crc32.run_masked, rotated 2])
       simp_all
  with crc32.burst_detected[of "crc_mask 32" xs ys pre post] assms show False by simp
qed

text \<open>The published check values of the four parameter sets over \<open>''123456789''\<close>.\<close>

definition check_input :: bytes where
  "check_input = [0x31, 0x32, 0x33, 0x34, 0x35, 0x36, 0x37, 0x38, 0x39]"

lemma funpow_8: "(f ^^ 8) x = f (f (f (f (f (f (f (f x)))))))" for f :: "u64 \<Rightarrow> u64"
  by (simp add: eval_nat_numeral)

lemma crc_calculate_loop:
  "Crc8_calculate bs = ucast (crc_msb_loop 0 0x80 0x07 0xff 0 bs AND 0xff)"
  "Crc16_calculate bs = ucast (crc_msb_loop 8 0x8000 0x1021 0xffff 0 bs AND 0xffff)"
  "Crc32_calculate bs = ucast (NOT (crc_lsb_loop 0xedb88320 0xffffffff 0xffffffff bs AND 0xffffffff))"
  "Crc64_calculate bs = crc_msb_loop 56 0x8000000000000000 0x42f0e1eba9ea3693 0xffffffffffffffff 0 bs
     AND 0xffffffffffffffff"
proof -
  have m: "crc_mask 64 = 0xffffffffffffffff" "crc_mask 32 = 0xffffffff"
      "crc_mask 16 = 0xffff" "crc_mask 8 = 0xff"
    by (simp_all add: crc_mask_def)
  show "Crc8_calculate bs = ucast (crc_msb_loop 0 0x80 0x07 0xff 0 bs AND 0xff)"
    "Crc16_calculate bs = ucast (crc_msb_loop 8 0x8000 0x1021 0xffff 0 bs AND 0xffff)"
    "Crc32_calculate bs = ucast (NOT (crc_lsb_loop 0xedb88320 0xffffffff 0xffffffff bs AND 0xffffffff))"
    "Crc64_calculate bs = crc_msb_loop 56 0x8000000000000000 0x42f0e1eba9ea3693 0xffffffffffffffff 0 bs
       AND 0xffffffffffffffff"
    by (simp_all add: Crc8_calculate_def Crc16_calculate_def Crc32_calculate_def Crc64_calculate_def
        crc_msb_def crc_lsb_def m)
qed

lemmas crc_eval = crc_bits_msb_def crc_bits_lsb_def crc_step_msb_def crc_step_lsb_def funpow_8
  crc_calculate_loop

end
