(* ===== verification/Sip.thy ===== *)
theory Sip
  imports Msrt_Prelude
begin

text \<open>
  The keyed tag backend of \<^verbatim>\<open>src/integrity/sip.rs\<close>: SipHash-2-4 with 128-bit output, the
  sealing of a tag and its constant-time comparison.  The lemmas show that the permutation loses
  no state and that the comparison loop accepts exactly the computed tag.
\<close>

section \<open>Definitions\<close>

record SipState =
  v0 :: u64
  v1 :: u64
  v2 :: u64
  v3 :: u64

definition SipTag_TAG_LEN :: usize where "SipTag_TAG_LEN = 16"
definition SipTag_KEY_LEN :: usize where "SipTag_KEY_LEN = 16"

text \<open>A \<^verbatim>\<open>SipTag\<close> is its key, an array of \<open>SipTag_KEY_LEN\<close> bytes.\<close>

record SipTag =
  sip_key :: bytes

definition DEFAULT_KEY :: bytes where
  "DEFAULT_KEY = [0x6d, 0x73, 0x72, 0x74, 0x2d, 0x61, 0x65, 0x61,
                  0x64, 0x2d, 0x76, 0x31, 0x2d, 0x74, 0x61, 0x67]"

definition SipTag_DEFAULT :: SipTag where "SipTag_DEFAULT = \<lparr>sip_key = DEFAULT_KEY\<rparr>"

definition SipTag_new :: "bytes \<Rightarrow> SipTag" where "SipTag_new k = \<lparr>sip_key = k\<rparr>"

definition SipState_round :: "SipState \<Rightarrow> SipState" where
  "SipState_round s =
    (let a0 = v0 s; a1 = v1 s; a2 = v2 s; a3 = v3 s;
         a0 = a0 + a1;
         a1 = word_rotl 13 a1;
         a1 = a1 XOR a0;
         a0 = word_rotl 32 a0;
         a2 = a2 + a3;
         a3 = word_rotl 16 a3;
         a3 = a3 XOR a2;
         a0 = a0 + a3;
         a3 = word_rotl 21 a3;
         a3 = a3 XOR a0;
         a2 = a2 + a1;
         a1 = word_rotl 17 a1;
         a1 = a1 XOR a2;
         a2 = word_rotl 32 a2
     in \<lparr>v0 = a0, v1 = a1, v2 = a2, v3 = a3\<rparr>)"

definition SipState_rounds :: "nat \<Rightarrow> SipState \<Rightarrow> SipState" where
  "SipState_rounds count s = (SipState_round ^^ count) s"

definition SipState_compress :: "SipState \<Rightarrow> u64 \<Rightarrow> SipState" where
  "SipState_compress s word =
    (let s = s\<lparr>v3 := v3 s XOR word\<rparr>;
         s = SipState_rounds 2 s
     in s\<lparr>v0 := v0 s XOR word\<rparr>)"

fun sip_tail :: "nat \<Rightarrow> u64 \<Rightarrow> bytes \<Rightarrow> u64" where
  "sip_tail index acc [] = acc"
| "sip_tail index acc (b # bs) = sip_tail (index + 1) (acc OR push_bit (index * 8) (ucast b)) bs"

definition SipState_finish :: "SipState \<Rightarrow> usize \<Rightarrow> bytes \<Rightarrow> bytes" where
  "SipState_finish s len tail =
    (let last_word = sip_tail 0 (push_bit 56 (of_nat len)) tail;
         s = SipState_compress s last_word;
         s = s\<lparr>v2 := v2 s XOR 0xee\<rparr>;
         s = SipState_rounds 4 s;
         left = v0 s XOR v1 s XOR v2 s XOR v3 s;
         s = s\<lparr>v1 := v1 s XOR 0xdd\<rparr>;
         s = SipState_rounds 4 s;
         right = v0 s XOR v1 s XOR v2 s XOR v3 s
     in to_le 8 left @ to_le 8 right)"

text \<open>The loop over \<^verbatim>\<open>chunks_exact(8)\<close>: the final state and the remainder.\<close>

fun sip_absorb :: "SipState \<Rightarrow> bytes \<Rightarrow> SipState \<times> bytes" where
  "sip_absorb s bs =
    (if 8 \<le> length bs then sip_absorb (SipState_compress s (from_le (take 8 bs))) (drop 8 bs)
     else (s, bs))"

declare sip_absorb.simps [simp del]

definition siphash24_128 :: "bytes \<Rightarrow> u64 \<Rightarrow> u64 \<Rightarrow> bytes" where
  "siphash24_128 bs k0 k1 =
    (let s = \<lparr>v0 = k0 XOR 0x736f6d6570736575,
              v1 = k1 XOR 0x646f72616e646f6d XOR 0xee,
              v2 = k0 XOR 0x6c7967656e657261,
              v3 = k1 XOR 0x7465646279746573\<rparr>;
         (s, remainder) = sip_absorb s bs
     in SipState_finish s (length bs) remainder)"

definition SipTag_keys :: "SipTag \<Rightarrow> u64 \<times> u64" where
  "SipTag_keys t = (from_le (slice (sip_key t) 0 8), from_le (slice (sip_key t) 8 16))"

definition SipTag_calculate :: "SipTag \<Rightarrow> bytes \<Rightarrow> bytes" where
  "SipTag_calculate t bs = (let (k0, k1) = SipTag_keys t in siphash24_128 bs k0 k1)"

definition SipTag_seal :: "SipTag \<Rightarrow> bytes \<Rightarrow> bytes \<Rightarrow> bytes res" where
  "SipTag_seal t bs out =
    (if SipTag_TAG_LEN \<le> length out then Ok (copy_at out 0 (SipTag_calculate t bs)) else Panic)"

fun ct_diff :: "u8 \<Rightarrow> bytes \<Rightarrow> bytes \<Rightarrow> u8" where
  "ct_diff diff (x # xs) (y # ys) = ct_diff (diff OR (x XOR y)) xs ys"
| "ct_diff diff _ _ = diff"

definition SipTag_verify :: "SipTag \<Rightarrow> bytes \<Rightarrow> bytes \<Rightarrow> bool" where
  "SipTag_verify t bs tag =
    (if SipTag_TAG_LEN \<le> length tag
     then ct_diff 0 (SipTag_calculate t bs) (take SipTag_TAG_LEN tag) = 0
     else False)"

section \<open>Facts\<close>

lemma length_SipTag_calculate [simp]: "length (SipTag_calculate t bs) = 16"
  by (simp add: SipTag_calculate_def siphash24_128_def SipState_finish_def Let_def split: prod.splits)

lemma ct_diff_eq_0: "length xs = length ys \<Longrightarrow> ct_diff d xs ys = 0 \<longleftrightarrow> d = 0 \<and> xs = ys"
proof (induction d xs ys rule: ct_diff.induct)
  case (1 d x xs y ys)
  then show ?case by (auto simp: or_eq_0_iff)
qed auto

lemma SipTag_verify_iff:
  "SipTag_verify t bs tag \<longleftrightarrow> 16 \<le> length tag \<and> take 16 tag = SipTag_calculate t bs"
  by (auto simp: SipTag_verify_def SipTag_TAG_LEN_def ct_diff_eq_0)

lemma SipTag_seal_eq:
  "SipTag_seal t bs out =
     (if 16 \<le> length out then Ok (SipTag_calculate t bs @ drop 16 out) else Panic)"
  by (simp add: SipTag_seal_def SipTag_TAG_LEN_def copy_at_0)

text \<open>The inverse of one round, which shows that the permutation is one.\<close>

definition SipState_unround :: "SipState \<Rightarrow> SipState" where
  "SipState_unround s =
    (let a0 = v0 s; a1 = v1 s; a2 = v2 s; a3 = v3 s;
         a2 = word_rotr 32 a2;
         a1 = word_rotr 17 (a1 XOR a2);
         a2 = a2 - a1;
         a3 = word_rotr 21 (a3 XOR a0);
         a0 = a0 - a3;
         a3 = word_rotr 16 (a3 XOR a2);
         a2 = a2 - a3;
         a0 = word_rotr 32 a0;
         a1 = word_rotr 13 (a1 XOR a0);
         a0 = a0 - a1
     in \<lparr>v0 = a0, v1 = a1, v2 = a2, v3 = a3\<rparr>)"

lemma rot_cancel [simp]: "word_rotr n (word_rotl n a) = a" "word_rotl n (word_rotr n a) = a"
  for a :: "'a::len word"
  by (simp_all add: word_rot_gal)

lemma xor_xor_cancel [simp]: "(a XOR b) XOR b = a" for a b :: "'a::len word"
  by (simp add: xor.assoc)

lemma unround_round: "SipState_unround (SipState_round s) = s"
  by (simp add: SipState_round_def SipState_unround_def Let_def)

lemma round_unround: "SipState_round (SipState_unround s) = s"
  by (simp add: SipState_round_def SipState_unround_def Let_def)

lemma bij_SipState_rounds: "bij (SipState_rounds n)"
proof -
  have "bij SipState_round"
    by (rule bijI') (metis unround_round, metis round_unround)
  then have "bij (SipState_round ^^ n)" by (rule bij_betw_funpow)
  moreover have "SipState_rounds n = SipState_round ^^ n" by (rule ext) (simp add: SipState_rounds_def)
  ultimately show ?thesis by simp
qed

lemma SipState_compress_inj: "SipState_compress s w = SipState_compress s' w \<Longrightarrow> s = s'"
proof -
  assume eq: "SipState_compress s w = SipState_compress s' w"
  have "SipState_rounds 2 (s\<lparr>v3 := v3 s XOR w\<rparr>) = SipState_rounds 2 (s'\<lparr>v3 := v3 s' XOR w\<rparr>)"
    using eq by (simp add: SipState_compress_def Let_def) (metis (no_types, lifting) SipState.ext_inject
        SipState.surjective SipState.update_convs(1) word_xor_cancel(2))
  then have "s\<lparr>v3 := v3 s XOR w\<rparr> = s'\<lparr>v3 := v3 s' XOR w\<rparr>"
    using bij_SipState_rounds[of 2] by (meson bij_betw_def inj_eq)
  then show ?thesis by (cases s; cases s') simp
qed

end
