(* ===== verification/Integrity.thy ===== *)
theory Integrity
  imports Crc Sip
begin

text \<open>
  The integrity selection of \<^verbatim>\<open>src/integrity.rs\<close>: \<open>IntegrityConfig\<close> and the dispatch of
  \<^verbatim>\<open>tag_len\<close>, \<^verbatim>\<open>seal\<close> and \<^verbatim>\<open>verify\<close> to the selected backend.  The locale \<open>integrity_backend\<close> is
  the contract the wire layer relies on; it is interpreted on the dispatch for every configuration.
\<close>

section \<open>Definitions\<close>

datatype IntegrityConfig = Crc16 | Crc32 | Crc64 | SipTag SipTag

definition IntegrityConfig_DEFAULT :: IntegrityConfig where
  "IntegrityConfig_DEFAULT = Crc16"

definition IntegrityConfig_crc16 :: IntegrityConfig where "IntegrityConfig_crc16 = Crc16"
definition IntegrityConfig_crc32 :: IntegrityConfig where "IntegrityConfig_crc32 = Crc32"
definition IntegrityConfig_crc64 :: IntegrityConfig where "IntegrityConfig_crc64 = Crc64"

definition IntegrityConfig_sip_tag :: IntegrityConfig where
  "IntegrityConfig_sip_tag = SipTag SipTag_DEFAULT"

definition IntegrityConfig_sip_tag_with_key :: "bytes \<Rightarrow> IntegrityConfig" where
  "IntegrityConfig_sip_tag_with_key k = SipTag (SipTag_new k)"

fun Integrity_tag_len :: "IntegrityConfig \<Rightarrow> usize" where
  "Integrity_tag_len Crc16 = Crc16_TAG_LEN"
| "Integrity_tag_len Crc32 = Crc32_TAG_LEN"
| "Integrity_tag_len Crc64 = Crc64_TAG_LEN"
| "Integrity_tag_len (SipTag t) = SipTag_TAG_LEN"

fun Integrity_seal :: "IntegrityConfig \<Rightarrow> bytes \<Rightarrow> bytes \<Rightarrow> bytes res" where
  "Integrity_seal Crc16 bs out = Crc16_seal bs out"
| "Integrity_seal Crc32 bs out = Crc32_seal bs out"
| "Integrity_seal Crc64 bs out = Crc64_seal bs out"
| "Integrity_seal (SipTag t) bs out = SipTag_seal t bs out"

fun Integrity_verify :: "IntegrityConfig \<Rightarrow> bytes \<Rightarrow> bytes \<Rightarrow> bool" where
  "Integrity_verify Crc16 bs tag = Crc16_verify bs tag"
| "Integrity_verify Crc32 bs tag = Crc32_verify bs tag"
| "Integrity_verify Crc64 bs tag = Crc64_verify bs tag"
| "Integrity_verify (SipTag t) bs tag = SipTag_verify t bs tag"

text \<open>The tag that \<^verbatim>\<open>seal\<close> writes, as a value.\<close>

fun Integrity_tag :: "IntegrityConfig \<Rightarrow> bytes \<Rightarrow> bytes" where
  "Integrity_tag Crc16 bs = to_le 2 (Crc16_calculate bs)"
| "Integrity_tag Crc32 bs = to_le 4 (Crc32_calculate bs)"
| "Integrity_tag Crc64 bs = to_le 8 (Crc64_calculate bs)"
| "Integrity_tag (SipTag t) bs = SipTag_calculate t bs"

lemmas tag_len_defs = Crc16_TAG_LEN_def Crc32_TAG_LEN_def Crc64_TAG_LEN_def SipTag_TAG_LEN_def

section \<open>The contract of a backend\<close>

locale integrity_backend =
  fixes tag_len :: nat
    and tag :: "bytes \<Rightarrow> bytes"
    and seal :: "bytes \<Rightarrow> bytes \<Rightarrow> bytes res"
    and verify :: "bytes \<Rightarrow> bytes \<Rightarrow> bool"
  assumes length_tag: "length (tag bs) = tag_len"
    and seal_short: "length out < tag_len \<Longrightarrow> seal bs out = Panic"
    and seal_ok: "tag_len \<le> length out \<Longrightarrow> seal bs out = Ok (tag bs @ drop tag_len out)"
    and verify_iff: "verify bs t \<longleftrightarrow> tag_len \<le> length t \<and> take tag_len t = tag bs"
begin

lemma verify_tag: "verify bs (tag bs @ rest)"
  by (simp add: verify_iff length_tag)

lemma verify_exact: "length t = tag_len \<Longrightarrow> verify bs t \<longleftrightarrow> t = tag bs"
  by (simp add: verify_iff)

lemma seal_verify: "seal bs out = Ok out' \<Longrightarrow> verify bs out'"
  by (cases "tag_len \<le> length out") (auto simp: seal_ok seal_short verify_tag)

lemma seal_exact: "length out = tag_len \<Longrightarrow> seal bs out = Ok (tag bs)"
  by (simp add: seal_ok)

lemma seal_panic_iff: "seal bs out = Panic \<longleftrightarrow> length out < tag_len"
  using seal_ok[of out bs] seal_short[of out bs] by (cases "tag_len \<le> length out") auto

lemma verify_differs: "tag bs \<noteq> tag bs' \<Longrightarrow> verify bs (tag bs @ rest) \<and> \<not> verify bs' (tag bs @ rest)"
  by (simp add: verify_tag) (simp add: verify_iff length_tag)

end

interpretation integrity: integrity_backend "Integrity_tag_len cfg" "Integrity_tag cfg"
    "Integrity_seal cfg" "Integrity_verify cfg" for cfg
proof (standard, goal_cases)
  case (1 bs)
  show ?case by (cases cfg) (simp_all add: tag_len_defs)
next
  case (2 out bs)
  then show ?case
    by (cases cfg) (simp_all add: tag_len_defs Crc16_seal_def Crc32_seal_def Crc64_seal_def
        seal_value_eq SipTag_seal_eq)
next
  case (3 out bs)
  then show ?case
    by (cases cfg) (simp_all add: tag_len_defs Crc16_seal_def Crc32_seal_def Crc64_seal_def
        seal_value_eq SipTag_seal_eq)
next
  case (4 bs t)
  show ?case
    by (cases cfg) (simp_all add: tag_len_defs Crc16_verify_def Crc32_verify_def Crc64_verify_def
        verify_value_iff SipTag_verify_iff)
qed

section \<open>Properties\<close>

lemma Integrity_tag_len_cases:
  "Integrity_tag_len cfg = 2 \<or> Integrity_tag_len cfg = 4 \<or> Integrity_tag_len cfg = 8
     \<or> Integrity_tag_len cfg = 16"
  by (cases cfg) (simp_all add: tag_len_defs)

lemma Integrity_tag_len_le: "Integrity_tag_len cfg \<le> 16"
  using Integrity_tag_len_cases[of cfg] by auto

text \<open>
  C35. Sealing and verifying agree for every backend.  There is one tag for the bytes, of the tag length of the backend: sealing
  panics on an output buffer shorter than that and otherwise writes the tag at its front and leaves the rest alone; verifying
  rejects every shorter buffer and accepts a longer one exactly when it starts with the tag.
\<close>

theorem seal_verify_agree:
  "\<exists>tag. length tag = Integrity_tag_len cfg \<and>
    (\<forall>out. Integrity_seal cfg bs out =
      (if length out < Integrity_tag_len cfg then Panic else Ok (tag @ drop (Integrity_tag_len cfg) out))) \<and>
    (\<forall>t. Integrity_verify cfg bs t \<longleftrightarrow> Integrity_tag_len cfg \<le> length t \<and> take (Integrity_tag_len cfg) t = tag)"
  by (rule exI[of _ "Integrity_tag cfg bs"])
     (simp add: integrity.length_tag integrity.seal_short integrity.seal_ok integrity.verify_iff not_less)

text \<open>
  C36. Burst detection: with a CRC backend, the tag sealed over one byte string is rejected for
  every other byte string that differs from it only inside a window of at most as many bytes as
  the tag has.
\<close>

theorem crc_burst_rejected:
  assumes "cfg \<in> {Crc16, Crc32, Crc64}" "length xs = length ys" "xs \<noteq> ys"
    and "length xs \<le> Integrity_tag_len cfg"
    and "Integrity_seal cfg (pre @ xs @ post) out = Ok tag"
  shows "Integrity_verify cfg (pre @ xs @ post) tag \<and> \<not> Integrity_verify cfg (pre @ ys @ post) tag"
proof -
  have "Integrity_tag cfg (pre @ xs @ post) \<noteq> Integrity_tag cfg (pre @ ys @ post)"
  proof
    assume "Integrity_tag cfg (pre @ xs @ post) = Integrity_tag cfg (pre @ ys @ post)"
    then have "from_le (Integrity_tag cfg (pre @ xs @ post)) = (from_le (Integrity_tag cfg (pre @ ys @ post)) :: u64)"
      "from_le (Integrity_tag cfg (pre @ xs @ post)) = (from_le (Integrity_tag cfg (pre @ ys @ post)) :: u32)"
      "from_le (Integrity_tag cfg (pre @ xs @ post)) = (from_le (Integrity_tag cfg (pre @ ys @ post)) :: u16)"
      by simp_all
    with assms show False
      using Crc16_burst[of xs ys pre post] Crc32_burst[of xs ys pre post] Crc64_burst[of xs ys pre post]
      by (auto simp: tag_len_defs)
  qed
  moreover have "\<exists>rest. tag = Integrity_tag cfg (pre @ xs @ post) @ rest"
    using assms(5) integrity.seal_ok[of cfg out] integrity.seal_short[of out cfg]
    by (cases "Integrity_tag_len cfg \<le> length out") auto
  ultimately show ?thesis using integrity.verify_differs by blast
qed

theorem crc_burst_rejected_witness:
  "Integrity_verify Crc16 [1, 2, 3] [0x31, 0x61] \<and> \<not> Integrity_verify Crc16 [1, 7, 9] [0x31, 0x61]"
proof -
  have "Crc16_calculate [1, 2, 3] = 0x6131" by (simp add: crc_eval)
  then have "Integrity_seal Crc16 ([1] @ [2, 3] @ []) [0, 0] = Ok [0x31, 0x61]"
    by (simp add: Crc16_seal_def seal_value_eq to_le_2)
  from crc_burst_rejected[OF _ _ _ _ this, of "[7, 9]"] show ?thesis
    by (simp add: Crc16_TAG_LEN_def)
qed

text \<open>
  The four CRC parameter sets give their published check values over the standard input.
\<close>

lemma crc_check_values:
  "Crc8_calculate check_input = 0xf4 \<and> Crc16_calculate check_input = 0x31c3 \<and>
   Crc32_calculate check_input = 0xcbf43926 \<and> Crc64_calculate check_input = 0x6c40df5f0b497347"
proof (intro conjI)
  show "Crc8_calculate check_input = 0xf4" by (simp add: crc_eval check_input_def)
  show "Crc16_calculate check_input = 0x31c3" by (simp add: crc_eval check_input_def)
  show "Crc32_calculate check_input = 0xcbf43926" by (simp add: crc_eval check_input_def)
  show "Crc64_calculate check_input = 0x6c40df5f0b497347" by (simp add: crc_eval check_input_def)
qed

text \<open>
  The SipHash permutation loses no state: any number of rounds is a bijection on the four
  64-bit words, and compressing a fixed word is injective in the state.
\<close>

lemma sip_state_preserved:
  "bij (SipState_rounds n) \<and> inj (\<lambda>s. SipState_compress s w)"
  using bij_SipState_rounds by (auto intro!: injI dest: SipState_compress_inj)

end
