(* ===== verification/Wire.thy ===== *)
theory Wire
  imports Core_Packet Integrity
begin

text \<open>
  The wire envelope of \<^verbatim>\<open>src/wire/envelope\<close>, the encoder and decoder boundaries of
  \<^verbatim>\<open>src/wire/codec\<close> and the resynchronisation state of \<^verbatim>\<open>src/wire/resync.rs\<close>.  \<open>wire_frame\<close> is
  the specification of one complete envelope: magic, packet length, CRC-8 of the length, packet
  bytes, integrity tag.  The engine's encoders produce such frames and the streaming decoder
  recognises exactly them.
\<close>

section \<open>wire/envelope/magic.rs\<close>

datatype EnvelopeMagic = EnvelopeMagic (EnvelopeMagic_bytes: bytes)

definition EnvelopeMagic_MSRT :: EnvelopeMagic where
  "EnvelopeMagic_MSRT = EnvelopeMagic [0xA5]"

definition EnvelopeMagic_matches_prefix :: "EnvelopeMagic \<Rightarrow> bytes \<Rightarrow> bool" where
  "EnvelopeMagic_matches_prefix m bs \<longleftrightarrow>
     take (length (EnvelopeMagic_bytes m)) bs = EnvelopeMagic_bytes m"

section \<open>wire/envelope/header.rs\<close>

definition WIRE_MAGIC_LEN :: usize where "WIRE_MAGIC_LEN = 1"
definition WIRE_HEADER_LEN :: usize where "WIRE_HEADER_LEN = WIRE_MAGIC_LEN + 1 + 1"
definition WIRE_PACKET_LEN_OFFSET :: usize where "WIRE_PACKET_LEN_OFFSET = WIRE_MAGIC_LEN"
definition WIRE_HEADER_CRC_OFFSET :: usize where "WIRE_HEADER_CRC_OFFSET = WIRE_PACKET_LEN_OFFSET + 1"

record EnvelopeHeader =
  magic :: EnvelopeMagic
  packet_len :: u8
  hdr_crc :: u8

definition header_crc :: "u8 \<Rightarrow> u8" where
  "header_crc l = Crc8_calculate [l]"

definition EnvelopeHeader_new :: "u8 \<Rightarrow> EnvelopeHeader" where
  "EnvelopeHeader_new l = \<lparr>magic = EnvelopeMagic_MSRT, packet_len = l, hdr_crc = header_crc l\<rparr>"

definition EnvelopeHeader_has_valid_header_crc :: "EnvelopeHeader \<Rightarrow> bool" where
  "EnvelopeHeader_has_valid_header_crc h \<longleftrightarrow> hdr_crc h = header_crc (packet_len h)"

definition EnvelopeHeader_total_len :: "EnvelopeHeader \<Rightarrow> usize \<Rightarrow> usize" where
  "EnvelopeHeader_total_len h tag_len = WIRE_HEADER_LEN + unat (packet_len h) + tag_len"

section \<open>wire/envelope.rs, wire/envelope/flags.rs\<close>

record WireEnvelope =
  we_header :: EnvelopeHeader
  we_packet_bytes :: bytes

definition WireEnvelope_new :: "EnvelopeHeader \<Rightarrow> bytes \<Rightarrow> WireEnvelope" where
  "WireEnvelope_new h bs = \<lparr>we_header = h, we_packet_bytes = bs\<rparr>"

definition WireEnvelope_total_len :: "WireEnvelope \<Rightarrow> usize \<Rightarrow> usize" where
  "WireEnvelope_total_len e tag_len = WIRE_HEADER_LEN + length (we_packet_bytes e) + tag_len"

definition WireEnvelope_has_valid_len :: "WireEnvelope \<Rightarrow> bool" where
  "WireEnvelope_has_valid_len e \<longleftrightarrow> unat (packet_len (we_header e)) = length (we_packet_bytes e)"

datatype WireFlags = WireFlags (WireFlags_bits: u8)

definition WireFlags_EMPTY :: WireFlags where "WireFlags_EMPTY = WireFlags 0"
definition WireFlags_CHECKSUM_PRESENT :: WireFlags where
  "WireFlags_CHECKSUM_PRESENT = WireFlags (push_bit 0 1)"

definition WireFlags_contains :: "WireFlags \<Rightarrow> WireFlags \<Rightarrow> bool" where
  "WireFlags_contains f g \<longleftrightarrow> (WireFlags_bits f AND WireFlags_bits g) = WireFlags_bits g"

definition WireFlags_union :: "WireFlags \<Rightarrow> WireFlags \<Rightarrow> WireFlags" where
  "WireFlags_union f g = WireFlags (WireFlags_bits f OR WireFlags_bits g)"

section \<open>wire/codec/encoder.rs, wire/codec/decoder.rs\<close>

record EncodeTarget =
  et_bytes :: bytes
  et_written :: usize

definition EncodeTarget_new :: "bytes \<Rightarrow> EncodeTarget" where
  "EncodeTarget_new bs = \<lparr>et_bytes = bs, et_written = 0\<rparr>"

definition EncodeTarget_written :: "EncodeTarget \<Rightarrow> bytes res" where
  "EncodeTarget_written t = split_at_fst (et_bytes t) (et_written t)"

definition EncodeTarget_capacity :: "EncodeTarget \<Rightarrow> usize" where
  "EncodeTarget_capacity t = length (et_bytes t)"

definition EncodeTarget_set_written :: "usize \<Rightarrow> EncodeTarget \<Rightarrow> unit res \<times> EncodeTarget" where
  "EncodeTarget_set_written n t =
     (if n > length (et_bytes t) then (Err Error_buffer_too_small, t)
      else (Ok (), t\<lparr>et_written := n\<rparr>))"

definition Encoder_encoded_len :: "Packet \<Rightarrow> usize" where
  "Encoder_encoded_len p =
     EnvelopeHeader_total_len (EnvelopeHeader_new (of_nat (Packet_payload_len p))) Crc16_TAG_LEN"

definition Encoder_envelope_for :: "Packet \<Rightarrow> WireEnvelope" where
  "Encoder_envelope_for p =
     WireEnvelope_new (EnvelopeHeader_new (of_nat (Packet_payload_len p))) (Packet_payload_bytes p)"

definition Decoder_has_header :: "bytes \<Rightarrow> bool" where
  "Decoder_has_header bs \<longleftrightarrow> length bs \<ge> WIRE_HEADER_LEN"

definition Decoder_expected_len :: "EnvelopeHeader \<Rightarrow> usize" where
  "Decoder_expected_len h = EnvelopeHeader_total_len h Crc16_TAG_LEN"

section \<open>wire/resync.rs\<close>

datatype ResyncState = Aligned | NeedMore | Scanning | Candidate usize

definition ResyncState_is_aligned :: "ResyncState \<Rightarrow> bool" where
  "ResyncState_is_aligned s \<longleftrightarrow> (case s of Aligned \<Rightarrow> True | _ \<Rightarrow> False)"

section \<open>The specification of a frame\<close>

definition wire_body :: "bytes \<Rightarrow> bytes" where
  "wire_body pkt = 0xA5 # of_nat (length pkt) # header_crc (of_nat (length pkt)) # pkt"

definition wire_frame :: "IntegrityConfig \<Rightarrow> bytes \<Rightarrow> bytes" where
  "wire_frame cfg pkt = wire_body pkt @ Integrity_tag cfg (wire_body pkt)"

lemma wire_lens [simp]:
  "WIRE_MAGIC_LEN = 1" "WIRE_HEADER_LEN = 3" "WIRE_PACKET_LEN_OFFSET = 1" "WIRE_HEADER_CRC_OFFSET = 2"
  by (simp_all add: WIRE_MAGIC_LEN_def WIRE_HEADER_LEN_def WIRE_PACKET_LEN_OFFSET_def
      WIRE_HEADER_CRC_OFFSET_def)

lemma magic_bytes [simp]: "EnvelopeMagic_bytes EnvelopeMagic_MSRT = [0xA5]"
  by (simp add: EnvelopeMagic_MSRT_def)

lemma length_wire_body [simp]: "length (wire_body pkt) = 3 + length pkt"
  by (simp add: wire_body_def)

lemma length_wire_frame [simp]:
  "length (wire_frame cfg pkt) = 3 + length pkt + Integrity_tag_len cfg"
  by (simp add: wire_frame_def integrity.length_tag)

lemma unat_of_nat_u8: "n < 256 \<Longrightarrow> unat (of_nat n :: u8) = n"
  by (simp add: unat_of_nat take_bit_eq_mod)

text \<open>The CRC-8 of the length byte tells any two lengths apart.\<close>

lemma header_crc_inj: "header_crc a = header_crc b \<longleftrightarrow> a = b"
  using Crc8_burst[of "[a]" "[b]" "[]" "[]"] by (auto simp: header_crc_def)

lemma EnvelopeHeader_new_valid: "EnvelopeHeader_has_valid_header_crc (EnvelopeHeader_new l)"
  by (simp add: EnvelopeHeader_has_valid_header_crc_def EnvelopeHeader_new_def)

lemma envelope_valid_iff:
  "WireEnvelope_has_valid_len (WireEnvelope_new (EnvelopeHeader_new (of_nat (length bs))) bs)
     \<longleftrightarrow> length bs < 256"
  by (auto simp: WireEnvelope_has_valid_len_def WireEnvelope_new_def EnvelopeHeader_new_def
      unat_of_nat take_bit_eq_mod)

end
