(* ===== verification/Streaming.thy ===== *)
theory Streaming
  imports Wire
begin

text \<open>
  The fixed-buffer streaming decoder of \<^verbatim>\<open>src/wire/codec/streaming.rs\<close>.  The concrete decoder
  keeps an array of \<open>N\<close> bytes, a fill level and a deferred consume count; \<open>stream_step\<close> is its
  specification on the plain list of unread bytes, and \<open>stream_drain\<close> repeats it until more
  input is needed.  The lemmas show that the decoder refines the specification, that draining
  terminates, that a packet is reported exactly when a valid frame stands at the front, and that
  the packets found do not depend on how the byte stream is cut into chunks.
\<close>

section \<open>Definitions\<close>

datatype StreamDecodeOutcome =
    NeedMore "usize option"
  | Packet bytes usize
  | Noise usize
  | Corrupted usize
  | Resync usize

record StreamingDecoder =
  sd_bytes :: bytes
  sd_len :: usize
  sd_pending_consume :: usize

definition StreamingDecoder_new :: "usize \<Rightarrow> StreamingDecoder" where
  "StreamingDecoder_new N = \<lparr>sd_bytes = replicate N 0, sd_len = 0, sd_pending_consume = 0\<rparr>"

definition StreamingDecoder_capacity :: "StreamingDecoder \<Rightarrow> usize" where
  "StreamingDecoder_capacity d = length (sd_bytes d)"

definition StreamingDecoder_clear :: "StreamingDecoder \<Rightarrow> StreamingDecoder" where
  "StreamingDecoder_clear d = d\<lparr>sd_len := 0, sd_pending_consume := 0\<rparr>"

definition StreamingDecoder_append :: "bytes \<Rightarrow> StreamingDecoder \<Rightarrow> unit res \<times> StreamingDecoder" where
  "StreamingDecoder_append bs d =
     (if sd_len d + length bs > length (sd_bytes d) then (Err Error_buffer_too_small, d)
      else (Ok (), d\<lparr>sd_bytes := copy_at (sd_bytes d) (sd_len d) bs, sd_len := sd_len d + length bs\<rparr>))"

text \<open>\<^verbatim>\<open>copy_within(count..len, 0)\<close> moves the unread bytes to the front.\<close>

definition StreamingDecoder_consume :: "usize \<Rightarrow> StreamingDecoder \<Rightarrow> StreamingDecoder" where
  "StreamingDecoder_consume n d =
     (let count = min n (sd_len d) in
      d\<lparr>sd_bytes := copy_at (sd_bytes d) 0 (slice (sd_bytes d) count (sd_len d)),
        sd_len := sd_len d - count\<rparr>)"

definition StreamingDecoder_consume_pending :: "StreamingDecoder \<Rightarrow> StreamingDecoder" where
  "StreamingDecoder_consume_pending d =
     (if sd_pending_consume d > 0
      then StreamingDecoder_consume (sd_pending_consume d) (d\<lparr>sd_pending_consume := 0\<rparr>) else d)"

text \<open>\<^verbatim>\<open>slice::windows\<close>: every contiguous slice of length \<open>n\<close>.\<close>

definition windows :: "nat \<Rightarrow> 'a list \<Rightarrow> 'a list list" where
  "windows n xs = map (\<lambda>i. take n (drop i xs)) [0..<length xs + 1 - n]"

definition find_magic :: "bytes \<Rightarrow> usize option" where
  "find_magic bs = position (\<lambda>w. w = EnvelopeMagic_bytes EnvelopeMagic_MSRT)
     (windows (length (EnvelopeMagic_bytes EnvelopeMagic_MSRT)) bs)"

definition header_from_bytes :: "bytes \<Rightarrow> EnvelopeHeader option" where
  "header_from_bytes bs =
     (if length bs < WIRE_MAGIC_LEN then None
      else if take WIRE_MAGIC_LEN bs \<noteq> EnvelopeMagic_bytes EnvelopeMagic_MSRT then None
      else if length bs \<le> WIRE_PACKET_LEN_OFFSET then None
      else if length bs \<le> WIRE_HEADER_CRC_OFFSET then None
      else Some \<lparr>magic = EnvelopeMagic_MSRT, packet_len = bs ! WIRE_PACKET_LEN_OFFSET,
             hdr_crc = bs ! WIRE_HEADER_CRC_OFFSET\<rparr>)"

definition StreamingDecoder_decode_buffer ::
  "IntegrityConfig \<Rightarrow> StreamingDecoder \<Rightarrow> StreamDecodeOutcome \<times> StreamingDecoder" where
  "StreamingDecoder_decode_buffer cfg d =
     (if sd_len d = 0 then (NeedMore None, d)
      else case find_magic (take (sd_len d) (sd_bytes d)) of
        None \<Rightarrow> (Noise (sd_len d), StreamingDecoder_consume (sd_len d) d)
      | Some off \<Rightarrow>
          if off > 0 then (Noise off, StreamingDecoder_consume off d)
          else if sd_len d < WIRE_HEADER_LEN then (NeedMore (Some (WIRE_HEADER_LEN - sd_len d)), d)
          else case header_from_bytes (take WIRE_HEADER_LEN (sd_bytes d)) of
            None \<Rightarrow> (Resync 1, StreamingDecoder_consume 1 d)
          | Some h \<Rightarrow>
              if \<not> EnvelopeHeader_has_valid_header_crc h
              then (Resync 1, StreamingDecoder_consume 1 d)
              else (let tag_len = Integrity_tag_len cfg;
                        total = EnvelopeHeader_total_len h tag_len in
                if total > length (sd_bytes d) then (Resync 1, StreamingDecoder_consume 1 d)
                else if sd_len d < total then (NeedMore (Some (total - sd_len d)), d)
                else if \<not> Integrity_verify cfg (take (total - tag_len) (sd_bytes d))
                            (slice (sd_bytes d) (total - tag_len) total)
                then (Corrupted total, d\<lparr>sd_pending_consume := total\<rparr>)
                else (Packet (slice (sd_bytes d) WIRE_HEADER_LEN
                               (WIRE_HEADER_LEN + unat (packet_len h))) total,
                      d\<lparr>sd_pending_consume := total\<rparr>)))"

definition StreamingDecoder_feed ::
  "IntegrityConfig \<Rightarrow> bytes \<Rightarrow> StreamingDecoder \<Rightarrow> StreamDecodeOutcome res \<times> StreamingDecoder" where
  "StreamingDecoder_feed cfg bs d =
     (case StreamingDecoder_append bs (StreamingDecoder_consume_pending d) of
        (Ok _, d') \<Rightarrow> (let (out, d'') = StreamingDecoder_decode_buffer cfg d' in (Ok out, d''))
      | (Err e, d') \<Rightarrow> (Err e, d')
      | (Panic, d') \<Rightarrow> (Panic, d'))"

section \<open>Specification on the list of unread bytes\<close>

definition sd_ok :: "StreamingDecoder \<Rightarrow> bool" where
  "sd_ok d \<longleftrightarrow> sd_pending_consume d \<le> sd_len d \<and> sd_len d \<le> length (sd_bytes d)"

definition sd_unread :: "StreamingDecoder \<Rightarrow> bytes" where
  "sd_unread d = drop (sd_pending_consume d) (take (sd_len d) (sd_bytes d))"

text \<open>
  One decoding step on the unread bytes: the outcome and the number of bytes it uses up.
\<close>

definition stream_step :: "IntegrityConfig \<Rightarrow> usize \<Rightarrow> bytes \<Rightarrow> StreamDecodeOutcome \<times> usize" where
  "stream_step cfg N buf =
     (if buf = [] then (NeedMore None, 0)
      else case position (\<lambda>b. b = 0xA5) buf of
        None \<Rightarrow> (Noise (length buf), length buf)
      | Some off \<Rightarrow>
          if off > 0 then (Noise off, off)
          else if length buf < 3 then (NeedMore (Some (3 - length buf)), 0)
          else if buf ! 2 \<noteq> header_crc (buf ! 1) then (Resync 1, 1)
          else (let tl = Integrity_tag_len cfg; n = unat (buf ! 1); total = 3 + n + tl in
            if total > N then (Resync 1, 1)
            else if length buf < total then (NeedMore (Some (total - length buf)), 0)
            else if take tl (drop (3 + n) buf) \<noteq> Integrity_tag cfg (take (3 + n) buf)
            then (Corrupted total, total)
            else (Packet (take n (drop 3 buf)) total, total)))"

fun is_NeedMore :: "StreamDecodeOutcome \<Rightarrow> bool" where
  "is_NeedMore (NeedMore _) = True"
| "is_NeedMore _ = False"

lemma position_le: "position p xs = Some i \<Longrightarrow> i < length xs"
  by (simp add: position_Some)

lemma stream_step_bounds:
  assumes "stream_step cfg N buf = (out, k)"
  shows "k \<le> length buf" "\<not> is_NeedMore out \<Longrightarrow> 0 < k" "is_NeedMore out \<Longrightarrow> k = 0"
  using assms
  by (auto simp: stream_step_def Let_def position_Some split: if_splits option.splits
      dest: position_le)

function stream_drain :: "IntegrityConfig \<Rightarrow> usize \<Rightarrow> bytes \<Rightarrow> StreamDecodeOutcome list \<times> bytes" where
  "stream_drain cfg N buf =
     (let (out, k) = stream_step cfg N buf in
      if is_NeedMore out then ([], buf)
      else (let (outs, rest) = stream_drain cfg N (drop k buf) in (out # outs, rest)))"
  by pat_completeness auto
termination
proof (relation "measure (\<lambda>(_, _, buf). length buf)", goal_cases)
  case (2 cfg N buf x y z)
  then show ?case
    using stream_step_bounds[of cfg N buf] by (cases "stream_step cfg N buf") fastforce
qed simp

declare stream_drain.simps [simp del]

text \<open>The packets among a list of outcomes.\<close>

fun packets_of :: "StreamDecodeOutcome list \<Rightarrow> bytes list" where
  "packets_of [] = []"
| "packets_of (Packet p _ # os) = p # packets_of os"
| "packets_of (_ # os) = packets_of os"

section \<open>The decoder refines the specification\<close>

lemma windows_1: "windows 1 xs = map (\<lambda>x. [x]) xs"
  by (rule nth_equalityI) (auto simp: windows_def take_Suc hd_drop_conv_nth)

lemma position_map: "position p (map f xs) = position (p \<circ> f) xs"
  by (induction xs) auto

lemma find_magic_eq: "find_magic bs = position (\<lambda>b. b = 0xA5) bs"
  by (simp add: find_magic_def windows_1 position_map comp_def flip: One_nat_def)

lemma header_from_bytes_eq:
  "header_from_bytes bs =
     (if 3 \<le> length bs \<and> bs ! 0 = 0xA5
      then Some \<lparr>magic = EnvelopeMagic_MSRT, packet_len = bs ! 1, hdr_crc = bs ! 2\<rparr> else None)"
  by (cases bs) (auto simp: header_from_bytes_def)

lemma consume_unread:
  assumes "sd_len d \<le> length (sd_bytes d)" "k \<le> sd_len d" "sd_pending_consume d = 0"
  shows "sd_ok (StreamingDecoder_consume k d)"
    and "sd_unread (StreamingDecoder_consume k d) = drop k (take (sd_len d) (sd_bytes d))"
    and "length (sd_bytes (StreamingDecoder_consume k d)) = length (sd_bytes d)"
    and "sd_pending_consume (StreamingDecoder_consume k d) = 0"
    and "sd_len (StreamingDecoder_consume k d) = sd_len d - k"
  using assms
  by (simp_all add: StreamingDecoder_consume_def sd_ok_def sd_unread_def copy_at_0 slice_def
      min_def drop_take)

lemma consume_pending_unread:
  assumes "sd_ok d"
  shows "sd_ok (StreamingDecoder_consume_pending d)"
    and "take (sd_len (StreamingDecoder_consume_pending d)) (sd_bytes (StreamingDecoder_consume_pending d))
          = sd_unread d"
    and "sd_len (StreamingDecoder_consume_pending d) = length (sd_unread d)"
    and "length (sd_bytes (StreamingDecoder_consume_pending d)) = length (sd_bytes d)"
    and "sd_pending_consume (StreamingDecoder_consume_pending d) = 0"
  using assms consume_unread[of "d\<lparr>sd_pending_consume := 0\<rparr>" "sd_pending_consume d"]
  by (auto simp: StreamingDecoder_consume_pending_def sd_ok_def sd_unread_def)

lemma decode_buffer_refines:
  assumes "sd_len d \<le> length (sd_bytes d)" "sd_pending_consume d = 0"
    and buf: "buf = take (sd_len d) (sd_bytes d)"
    and dec: "StreamingDecoder_decode_buffer cfg d = (out, d')"
  shows "out = fst (stream_step cfg (length (sd_bytes d)) buf) \<and> sd_ok d' \<and>
    length (sd_bytes d') = length (sd_bytes d) \<and>
    sd_unread d' = drop (snd (stream_step cfg (length (sd_bytes d)) buf)) buf"
proof -
  have len: "length buf = sd_len d" using assms by simp
  then have emp: "sd_len d = 0 \<longleftrightarrow> buf = []" by auto
  have unread: "sd_unread d = buf" "sd_ok d" using assms by (simp_all add: sd_unread_def sd_ok_def)
  have pend: "sd_ok (d\<lparr>sd_pending_consume := k\<rparr>)" "sd_unread (d\<lparr>sd_pending_consume := k\<rparr>) = drop k buf"
    if "k \<le> sd_len d" for k using assms that by (simp_all add: sd_unread_def sd_ok_def)
  note c = consume_unread[OF assms(1) _ assms(2), folded buf]
  have nth: "sd_bytes d ! i = buf ! i" if "i < sd_len d" for i using that buf by simp
  have tk: "take i (sd_bytes d) = take i buf" if "i \<le> sd_len d" for i using that buf by simp
  have sl: "slice (sd_bytes d) i j = take (j - i) (drop i buf)" if "j \<le> sd_len d" for i j
    using that buf by (simp add: slice_def drop_take min_def)
  have eq: "StreamingDecoder_decode_buffer cfg d =
      (case stream_step cfg (length (sd_bytes d)) buf of (out, k) \<Rightarrow>
        (out, case out of NeedMore _ \<Rightarrow> d | Packet _ _ \<Rightarrow> d\<lparr>sd_pending_consume := k\<rparr>
           | Corrupted _ \<Rightarrow> d\<lparr>sd_pending_consume := k\<rparr> | _ \<Rightarrow> StreamingDecoder_consume k d))"
  proof (cases "position (\<lambda>b. b = 0xA5) buf")
    case None
    then show ?thesis
      using len emp by (auto simp: StreamingDecoder_decode_buffer_def stream_step_def find_magic_eq
          simp flip: buf)
  next
    case (Some off)
    then have "off = 0 \<Longrightarrow> buf ! 0 = 0xA5" by (auto simp: position_Some)
    with Some show ?thesis
      using len emp
      by (auto simp: StreamingDecoder_decode_buffer_def stream_step_def find_magic_eq
        header_from_bytes_eq EnvelopeHeader_has_valid_header_crc_def EnvelopeHeader_total_len_def
        integrity.verify_iff integrity.length_tag Let_def min_def nth tk sl simp flip: buf)
  qed
  obtain k where k: "stream_step cfg (length (sd_bytes d)) buf = (out, k)"
    using eq dec by (cases "stream_step cfg (length (sd_bytes d)) buf") auto
  have "k \<le> sd_len d" "is_NeedMore out \<Longrightarrow> k = 0"
    using stream_step_bounds[OF k] len by auto
  with k eq dec show ?thesis
    using unread pend c by (cases out) auto
qed

lemma StreamingDecoder_new_ok [simp]:
  "sd_ok (StreamingDecoder_new N)" "sd_unread (StreamingDecoder_new N) = []"
  "StreamingDecoder_capacity (StreamingDecoder_new N) = N"
  by (simp_all add: StreamingDecoder_new_def sd_ok_def sd_unread_def StreamingDecoder_capacity_def)

lemma StreamingDecoder_clear_ok [simp]:
  "sd_ok (StreamingDecoder_clear d)" "sd_unread (StreamingDecoder_clear d) = []"
  "StreamingDecoder_capacity (StreamingDecoder_clear d) = StreamingDecoder_capacity d"
  by (simp_all add: StreamingDecoder_clear_def sd_ok_def sd_unread_def StreamingDecoder_capacity_def)

lemma sd_unread_le: "sd_ok d \<Longrightarrow> length (sd_unread d) \<le> StreamingDecoder_capacity d"
  by (auto simp: sd_ok_def sd_unread_def StreamingDecoder_capacity_def)

lemma feed_overflow:
  assumes "sd_ok d" "length (sd_unread d) + length bs > StreamingDecoder_capacity d"
    and "StreamingDecoder_feed cfg bs d = (r, d')"
  shows "r = Err Error_buffer_too_small" "sd_ok d'" "sd_unread d' = sd_unread d"
    "StreamingDecoder_capacity d' = StreamingDecoder_capacity d"
  using assms consume_pending_unread[OF assms(1)]
  by (auto simp: StreamingDecoder_feed_def StreamingDecoder_append_def StreamingDecoder_capacity_def
      sd_unread_def[of "StreamingDecoder_consume_pending d"] sd_ok_def)

lemma feed_step:
  assumes "sd_ok d" "length (sd_unread d) + length bs \<le> StreamingDecoder_capacity d"
    and "StreamingDecoder_feed cfg bs d = (r, d')"
    and "stream_step cfg (StreamingDecoder_capacity d) (sd_unread d @ bs) = (out, k)"
  shows "r = Ok out" "sd_ok d'" "sd_unread d' = drop k (sd_unread d @ bs)"
    "StreamingDecoder_capacity d' = StreamingDecoder_capacity d"
proof -
  note cp = consume_pending_unread[OF assms(1)]
  define d1 where "d1 = StreamingDecoder_consume_pending d"
  define d2 where "d2 = d1\<lparr>sd_bytes := copy_at (sd_bytes d1) (sd_len d1) bs, sd_len := sd_len d1 + length bs\<rparr>"
  note cp1 = cp[folded d1_def]
  have fits: "sd_len d1 + length bs \<le> length (sd_bytes d1)"
    using cp1 assms(2) by (simp add: StreamingDecoder_capacity_def)
  have d2: "sd_len d2 \<le> length (sd_bytes d2)" "sd_pending_consume d2 = 0"
    "length (sd_bytes d2) = length (sd_bytes d)" "take (sd_len d2) (sd_bytes d2) = sd_unread d @ bs"
    using fits cp1 by (simp_all add: d2_def take_copy_at)
  have "StreamingDecoder_append bs d1 = (Ok (), d2)"
    using fits by (simp add: StreamingDecoder_append_def d2_def)
  then have feed: "StreamingDecoder_feed cfg bs d =
      (let (out, d'') = StreamingDecoder_decode_buffer cfg d2 in (Ok out, d''))"
    by (simp add: StreamingDecoder_feed_def flip: d1_def)
  obtain o' d3 where dec: "StreamingDecoder_decode_buffer cfg d2 = (o', d3)" by fastforce
  from decode_buffer_refines[OF d2(1,2) d2(4)[symmetric] dec] feed dec assms(3,4) d2(3)
  show "r = Ok out" "sd_ok d'" "sd_unread d' = drop k (sd_unread d @ bs)"
    "StreamingDecoder_capacity d' = StreamingDecoder_capacity d"
    by (auto simp: StreamingDecoder_capacity_def)
qed

section \<open>Frames and steps\<close>

lemma stream_step_frame:
  assumes "length pkt < 256" "3 + length pkt + Integrity_tag_len cfg \<le> N"
  shows "stream_step cfg N (wire_frame cfg pkt @ rest)
    = (Packet pkt (length (wire_frame cfg pkt)), length (wire_frame cfg pkt))"
proof -
  define buf where "buf = wire_frame cfg pkt @ rest"
  have "take (length pkt) (drop 3 buf) = pkt"
    by (simp add: buf_def wire_frame_def wire_body_def)
  moreover have "take (3 + length pkt) buf = wire_body pkt"
    "take (Integrity_tag_len cfg) (drop (3 + length pkt) buf) = Integrity_tag cfg (wire_body pkt)"
    by (simp_all add: buf_def wire_frame_def integrity.length_tag)
  moreover have "buf \<noteq> []" "position (\<lambda>b. b = 0xA5) buf = Some 0" "buf ! 1 = of_nat (length pkt)"
    "buf ! 2 = header_crc (of_nat (length pkt))"
    by (simp_all add: buf_def wire_frame_def wire_body_def)
  moreover have "3 + length pkt + Integrity_tag_len cfg \<le> length buf"
    by (simp add: buf_def)
  ultimately show ?thesis
    using assms unfolding stream_step_def buf_def[symmetric] by (simp add: unat_of_nat_u8 Let_def)
qed

lemma stream_step_PacketD:
  assumes "stream_step cfg N buf = (Packet pkt n, k)"
  shows "buf = wire_frame cfg pkt @ drop k buf" "k = length (wire_frame cfg pkt)" "n = k"
    "length pkt < 256" "k \<le> N"
proof -
  let ?n = "unat (buf ! 1)"
  from assms have h: "position (\<lambda>b. b = 0xA5) buf = Some 0" "3 \<le> length buf"
      "buf ! 2 = header_crc (buf ! 1)" "3 + ?n + Integrity_tag_len cfg \<le> N"
      "3 + ?n + Integrity_tag_len cfg \<le> length buf"
      "take (Integrity_tag_len cfg) (drop (3 + ?n) buf) = Integrity_tag cfg (take (3 + ?n) buf)"
      "pkt = take ?n (drop 3 buf)" "k = 3 + ?n + Integrity_tag_len cfg" "n = k"
    by (auto simp: stream_step_def Let_def split: if_splits option.splits)
  then have len: "length pkt = ?n" by simp
  obtain a b c r where buf: "buf = a # b # c # r"
    using h(2) by (cases buf; cases "tl buf"; cases "tl (tl buf)") auto
  have body: "take (3 + ?n) buf = wire_body pkt"
    using h(1,3,7) len buf by (auto simp: wire_body_def numeral_3_eq_3 split: if_splits)
  have k: "drop k buf = drop (Integrity_tag_len cfg) (drop (3 + ?n) buf)"
    by (simp add: h(8) ac_simps)
  have "buf = take (3 + ?n) buf @ take (Integrity_tag_len cfg) (drop (3 + ?n) buf) @ drop k buf"
    unfolding k append_take_drop_id by (rule refl)
  then show "buf = wire_frame cfg pkt @ drop k buf"
    using h(6) body by (simp add: wire_frame_def)
  show "k = length (wire_frame cfg pkt)" "n = k" "k \<le> N" using h len by simp_all
  show "length pkt < 256" using len unsigned_less[of "buf ! 1"] by simp
qed

text \<open>Further input does not change a step that already used up bytes, except for trailing noise.\<close>

lemma position_append:
  "position p (xs @ ys) = (case position p xs of Some i \<Rightarrow> Some i
     | None \<Rightarrow> map_option (\<lambda>i. length xs + i) (position p ys))"
  by (induction xs) (auto simp: option.map_comp comp_def map_option_case split: option.splits)

lemma stream_step_append:
  assumes "stream_step cfg N buf = (out, k)" "\<not> is_NeedMore out" "position (\<lambda>b. b = 0xA5) buf \<noteq> None"
  shows "stream_step cfg N (buf @ ext) = (out, k)"
proof -
  obtain i where i: "position (\<lambda>b. b = 0xA5) buf = Some i" "buf \<noteq> []"
    using assms(3) by (cases buf) auto
  then have i': "position (\<lambda>b. b = 0xA5) (buf @ ext) = Some i" by (simp add: position_append)
  show ?thesis
  proof (cases "i = 0 \<and> 3 \<le> length buf")
    case True
    then have nth: "(buf @ ext) ! 1 = buf ! 1" "(buf @ ext) ! 2 = buf ! 2" by (simp_all add: nth_append)
    show ?thesis
      using assms(1,2) i i' True
      by (auto simp: stream_step_def nth[simplified] Let_def split: if_split_asm)
  next
    case False
    then show ?thesis using assms(1,2) i i' by (auto simp: stream_step_def split: if_splits)
  qed
qed

lemma stream_drain_NeedMore:
  "is_NeedMore (fst (stream_step cfg N buf)) \<Longrightarrow> stream_drain cfg N buf = ([], buf)"
  by (subst stream_drain.simps) (auto split: prod.splits)

lemma stream_drain_step:
  "stream_step cfg N buf = (out, k) \<Longrightarrow> \<not> is_NeedMore out \<Longrightarrow>
    stream_drain cfg N buf =
      (out # fst (stream_drain cfg N (drop k buf)), snd (stream_drain cfg N (drop k buf)))"
  by (subst stream_drain.simps) (auto split: prod.splits)

lemma stream_drain_Nil [simp]: "stream_drain cfg N [] = ([], [])"
  by (rule stream_drain_NeedMore) (simp add: stream_step_def)

lemma packets_of_append: "packets_of (xs @ ys) = packets_of xs @ packets_of ys"
  by (induction xs rule: packets_of.induct) auto

lemma position_None_drop: "position p xs = None \<Longrightarrow> position p (drop k xs) = None"
  by (auto simp: position_None dest: in_set_dropD)

text \<open>Bytes without a magic byte change neither the packets found nor the bytes kept.\<close>

lemma drain_noise:
  assumes "0xA5 \<notin> set noise"
  shows "packets_of (fst (stream_drain cfg N (noise @ ext))) = packets_of (fst (stream_drain cfg N ext))
    \<and> snd (stream_drain cfg N (noise @ ext)) = snd (stream_drain cfg N ext)"
proof (cases "noise = []")
  case False
  have none: "position (\<lambda>b. b = 0xA5) noise = None"
    using assms by (auto simp: position_None)
  show ?thesis
  proof (cases "position (\<lambda>b. b = 0xA5) ext")
    case None
    with none False have "stream_step cfg N (noise @ ext) = (Noise (length (noise @ ext)), length (noise @ ext))"
      by (simp add: stream_step_def position_append)
    moreover have "stream_step cfg N ext = (Noise (length ext), length ext)" if "ext \<noteq> []"
      using None that by (simp add: stream_step_def)
    ultimately show ?thesis
      by (cases "ext = []") (simp_all add: stream_drain_step)
  next
    case (Some i)
    with none False have s: "stream_step cfg N (noise @ ext) = (Noise (length noise + i), length noise + i)"
      by (simp add: stream_step_def position_append)
    have "stream_step cfg N ext = (Noise i, i)" if "i > 0"
      using Some that by (auto simp: stream_step_def)
    then show ?thesis
      using s by (cases "i = 0") (simp_all add: stream_drain_step)
  qed
qed simp

lemma drain_append:
  "packets_of (fst (stream_drain cfg N (buf @ ext))) =
     packets_of (fst (stream_drain cfg N buf))
       @ packets_of (fst (stream_drain cfg N (snd (stream_drain cfg N buf) @ ext)))
   \<and> snd (stream_drain cfg N (buf @ ext)) = snd (stream_drain cfg N (snd (stream_drain cfg N buf) @ ext))"
proof (induction cfg N buf rule: stream_drain.induct)
  case (1 cfg N buf)
  obtain out k where s: "stream_step cfg N buf = (out, k)" by fastforce
  show ?case
  proof (cases "is_NeedMore out")
    case True
    then show ?thesis by (simp add: stream_drain_NeedMore s)
  next
    case nm: False
    show ?thesis
    proof (cases "position (\<lambda>b. b = 0xA5) buf")
      case None
      then have "buf \<noteq> [] \<Longrightarrow> stream_step cfg N buf = (Noise (length buf), length buf)"
        by (simp add: stream_step_def)
      moreover have "0xA5 \<notin> set buf" using None by (auto simp: position_None)
      ultimately show ?thesis
        using drain_noise[of buf cfg N ext] by (cases "buf = []") (simp_all add: stream_drain_step)
    next
      case (Some i)
      with s nm have s2: "stream_step cfg N (buf @ ext) = (out, k)"
        by (intro stream_step_append) auto
      have k: "k \<le> length buf" using stream_step_bounds[OF s] by simp
      show ?thesis
        using 1[OF s[symmetric] refl nm] k
        by (cases out) (simp_all add: stream_drain_step[OF s nm] stream_drain_step[OF s2 nm])
    qed
  qed
qed

section \<open>Running the decoder over chunks\<close>

lemma length_sd_unread: "sd_ok d \<Longrightarrow> length (sd_unread d) = sd_len d - sd_pending_consume d"
  by (simp add: sd_unread_def sd_ok_def)

text \<open>Every outcome but \<^verbatim>\<open>NeedMore\<close> uses up bytes, in whatever state the decoder is.\<close>

lemma feed_decreases:
  assumes "StreamingDecoder_feed cfg bs d = (Ok out, d')" "\<not> is_NeedMore out"
  shows "sd_len d' - sd_pending_consume d' < length bs + (sd_len d - sd_pending_consume d)"
proof -
  define d1 where "d1 = StreamingDecoder_consume_pending d"
  have d1: "sd_len d1 = sd_len d - sd_pending_consume d" "sd_pending_consume d1 = 0"
    by (auto simp: d1_def StreamingDecoder_consume_pending_def StreamingDecoder_consume_def Let_def)
  define d2 where "d2 = d1\<lparr>sd_bytes := copy_at (sd_bytes d1) (sd_len d1) bs, sd_len := sd_len d1 + length bs\<rparr>"
  have fits: "sd_len d1 + length bs \<le> length (sd_bytes d1)"
    and dec: "StreamingDecoder_decode_buffer cfg d2 = (out, d')"
    using assms(1)
    by (auto simp: StreamingDecoder_feed_def StreamingDecoder_append_def d2_def d1_def
        split: if_splits prod.splits)
  have d2: "sd_len d2 \<le> length (sd_bytes d2)" "sd_pending_consume d2 = 0"
    using fits d1 by (simp_all add: d2_def)
  obtain k where k: "stream_step cfg (length (sd_bytes d2)) (take (sd_len d2) (sd_bytes d2)) = (out, k)"
    using decode_buffer_refines[OF d2 refl dec] by (metis prod.collapse)
  have "length (sd_unread d') = sd_len d2 - k" "sd_ok d'"
    using decode_buffer_refines[OF d2 refl dec] k d2 by auto
  moreover have "0 < k" "k \<le> sd_len d2"
    using stream_step_bounds[OF k] assms(2) d2 by auto
  moreover have "sd_len d2 = length bs + (sd_len d - sd_pending_consume d)"
    using d1 by (simp add: d2_def)
  ultimately show ?thesis
    using length_sd_unread[of d'] by linarith
qed

text \<open>
  Feed a chunk and then empty input until more bytes are needed, as the receive loop of the
  engine does.
\<close>

function decoder_run ::
  "IntegrityConfig \<Rightarrow> bytes \<Rightarrow> StreamingDecoder \<Rightarrow> StreamDecodeOutcome list \<times> unit res \<times> StreamingDecoder" where
  "decoder_run cfg bs d =
     (case StreamingDecoder_feed cfg bs d of
        (Ok out, d') \<Rightarrow>
          if is_NeedMore out then ([], Ok (), d')
          else (case decoder_run cfg [] d' of (outs, r) \<Rightarrow> (out # outs, r))
      | (Err e, d') \<Rightarrow> ([], Err e, d')
      | (Panic, d') \<Rightarrow> ([], Panic, d'))"
  by pat_completeness auto
termination
  by (relation "measure (\<lambda>(_, bs, d). length bs + (sd_len d - sd_pending_consume d))")
     (auto intro: feed_decreases[OF sym])

declare decoder_run.simps [simp del]

fun decoder_run_all ::
  "IntegrityConfig \<Rightarrow> bytes list \<Rightarrow> StreamingDecoder \<Rightarrow> StreamDecodeOutcome list \<times> unit res \<times> StreamingDecoder" where
  "decoder_run_all cfg [] d = ([], Ok (), d)"
| "decoder_run_all cfg (c # cs) d =
     (case decoder_run cfg c d of
        (outs, Ok _, d') \<Rightarrow> (case decoder_run_all cfg cs d' of (outs', r) \<Rightarrow> (outs @ outs', r))
      | (outs, Err e, d') \<Rightarrow> (outs, Err e, d')
      | (outs, Panic, d') \<Rightarrow> (outs, Panic, d'))"

lemma decoder_run_drain:
  "sd_ok d \<Longrightarrow> length (sd_unread d) + length bs \<le> StreamingDecoder_capacity d \<Longrightarrow>
   \<exists>d'. decoder_run cfg bs d =
      (fst (stream_drain cfg (StreamingDecoder_capacity d) (sd_unread d @ bs)), Ok (), d') \<and> sd_ok d' \<and>
     sd_unread d' = snd (stream_drain cfg (StreamingDecoder_capacity d) (sd_unread d @ bs)) \<and>
     StreamingDecoder_capacity d' = StreamingDecoder_capacity d"
proof (induction cfg bs d rule: decoder_run.induct)
  case (1 cfg bs d)
  let ?N = "StreamingDecoder_capacity d"
  obtain r d' where f: "StreamingDecoder_feed cfg bs d = (r, d')" by fastforce
  obtain out k where s: "stream_step cfg ?N (sd_unread d @ bs) = (out, k)" by fastforce
  note fs = feed_step[OF 1(2,3) f s]
  show ?case
  proof (cases "is_NeedMore out")
    case True
    then have "decoder_run cfg bs d = ([], Ok (), d')" "k = 0"
      using f fs stream_step_bounds[OF s] by (simp_all add: decoder_run.simps[of cfg bs d])
    then show ?thesis using True fs s by (simp add: stream_drain_NeedMore)
  next
    case False
    have "length (sd_unread d') + length ([] :: bytes) \<le> StreamingDecoder_capacity d'"
      using sd_unread_le[OF fs(2)] by simp
    from 1(1)[OF f[symmetric] fs(1) False fs(2) this] obtain d'' where
      "decoder_run cfg [] d' = (fst (stream_drain cfg ?N (sd_unread d')), Ok (), d'')" "sd_ok d''"
      "sd_unread d'' = snd (stream_drain cfg ?N (sd_unread d'))" "StreamingDecoder_capacity d'' = ?N"
      using fs(4) by auto
    then show ?thesis
      using False f fs by (simp add: decoder_run.simps[of cfg bs d] stream_drain_step[OF s False])
  qed
qed

text \<open>After draining, the bytes kept are an incomplete frame, hence fewer than a maximal frame.\<close>

lemma stream_drain_rest:
  "is_NeedMore (fst (stream_step cfg N (snd (stream_drain cfg N buf))))"
proof (induction cfg N buf rule: stream_drain.induct)
  case (1 cfg N buf)
  obtain out k where s: "stream_step cfg N buf = (out, k)" by fastforce
  show ?case
    using 1[OF s[symmetric] refl] s
    by (cases "is_NeedMore out") (simp_all add: stream_drain_NeedMore stream_drain_step[OF s])
qed

lemma NeedMore_length:
  assumes "is_NeedMore (fst (stream_step cfg N buf))"
  shows "length buf < 258 + Integrity_tag_len cfg"
proof -
  have "unat (buf ! 1) < 256" using unsigned_less[of "buf ! 1"] by simp
  then show ?thesis
    using assms by (auto simp: stream_step_def Let_def split: if_splits option.splits)
qed

lemma decoder_run_all_drain:
  assumes "sd_ok d" "is_NeedMore (fst (stream_step cfg N (sd_unread d)))"
    and "N = StreamingDecoder_capacity d"
    and "\<forall>c\<in>set chunks. length c + 257 + Integrity_tag_len cfg \<le> N"
  shows "\<exists>outs d'. decoder_run_all cfg chunks d = (outs, Ok (), d') \<and> sd_ok d' \<and>
    packets_of outs = packets_of (fst (stream_drain cfg N (sd_unread d @ concat chunks))) \<and>
    sd_unread d' = snd (stream_drain cfg N (sd_unread d @ concat chunks))"
  using assms
proof (induction chunks arbitrary: d)
  case Nil
  then show ?case by (simp add: stream_drain_NeedMore)
next
  case (Cons c cs)
  have "length (sd_unread d) + length c \<le> N"
    using NeedMore_length[OF Cons.prems(2)] Cons.prems(4) by simp
  then obtain d1 where d1: "decoder_run cfg c d = (fst (stream_drain cfg N (sd_unread d @ c)), Ok (), d1)"
    "sd_ok d1" "sd_unread d1 = snd (stream_drain cfg N (sd_unread d @ c))" "StreamingDecoder_capacity d1 = N"
    using decoder_run_drain[of d c cfg] Cons.prems by auto
  then obtain outs d' where "decoder_run_all cfg cs d1 = (outs, Ok (), d') \<and> sd_ok d' \<and>
    packets_of outs = packets_of (fst (stream_drain cfg N (sd_unread d1 @ concat cs))) \<and>
    sd_unread d' = snd (stream_drain cfg N (sd_unread d1 @ concat cs))"
    using Cons.IH[of d1] Cons.prems stream_drain_rest by auto
  then show ?case
    using d1 drain_append[of cfg N "sd_unread d @ c" "concat cs"] by (simp add: packets_of_append)
qed

text \<open>A stream in which every packet's frame is preceded by bytes without a magic byte.\<close>

definition noisy_frames :: "IntegrityConfig \<Rightarrow> (bytes \<times> bytes) list \<Rightarrow> bytes" where
  "noisy_frames cfg items = concat (map (\<lambda>(noise, pkt). noise @ wire_frame cfg pkt) items)"

lemma drain_noisy_frames:
  assumes "\<forall>(noise, pkt)\<in>set items. 0xA5 \<notin> set noise \<and> length pkt < 256 \<and>
      3 + length pkt + Integrity_tag_len cfg \<le> N"
  shows "packets_of (fst (stream_drain cfg N (noisy_frames cfg items))) = map snd items \<and>
    snd (stream_drain cfg N (noisy_frames cfg items)) = []"
  using assms
proof (induction items)
  case Nil
  then show ?case by (simp add: noisy_frames_def)
next
  case (Cons item items)
  obtain noise pkt where i: "item = (noise, pkt)" by fastforce
  have nf: "noisy_frames cfg (item # items) = noise @ wire_frame cfg pkt @ noisy_frames cfg items"
    by (simp add: noisy_frames_def i)
  have s: "stream_step cfg N (wire_frame cfg pkt @ noisy_frames cfg items)
    = (Packet pkt (length (wire_frame cfg pkt)), length (wire_frame cfg pkt))"
    using Cons.prems i by (intro stream_step_frame) auto
  have "0xA5 \<notin> set noise" using Cons.prems i by auto
  then show ?case
    using drain_noise[of noise cfg N "wire_frame cfg pkt @ noisy_frames cfg items"]
      stream_drain_step[OF s] Cons i nf by simp
qed

section \<open>Properties\<close>

text \<open>
  C11. Refinement: feeding the fixed-buffer decoder is one specification step on the list of
  unread bytes, or the error \<^verbatim>\<open>BufferTooSmall\<close> with the unread bytes kept when the input does not
  fit; the buffer invariant holds afterwards.
\<close>

theorem feed_refines:
  assumes "sd_ok d"
  shows "case StreamingDecoder_feed cfg bs d of (r, d') \<Rightarrow>
    sd_ok d' \<and> StreamingDecoder_capacity d' = StreamingDecoder_capacity d \<and>
    (if length (sd_unread d) + length bs \<le> StreamingDecoder_capacity d
     then (case stream_step cfg (StreamingDecoder_capacity d) (sd_unread d @ bs) of (out, k) \<Rightarrow>
             r = Ok out \<and> sd_unread d' = drop k (sd_unread d @ bs))
     else r = Err Error_buffer_too_small \<and> sd_unread d' = sd_unread d)"
proof -
  obtain r d' where f: "StreamingDecoder_feed cfg bs d = (r, d')" by fastforce
  obtain out k where s: "stream_step cfg (StreamingDecoder_capacity d) (sd_unread d @ bs) = (out, k)"
    by fastforce
  show ?thesis
    using feed_overflow[OF assms _ f] feed_step[OF assms _ f s]
    by (cases "length (sd_unread d) + length bs \<le> StreamingDecoder_capacity d") (simp_all add: f s)
qed

theorem feed_refines_witness:
  "fst (StreamingDecoder_feed Crc16 [1, 2] (StreamingDecoder_new 8)) = Ok (Noise 2) \<and>
   fst (StreamingDecoder_feed Crc16 [1, 2] (StreamingDecoder_new 1)) = Err Error_buffer_too_small"
  using feed_refines[where d = "StreamingDecoder_new 8" and cfg = Crc16 and bs = "[1, 2]"]
    feed_refines[where d = "StreamingDecoder_new 1" and cfg = Crc16 and bs = "[1, 2]"]
  by (auto simp: stream_step_def split: prod.splits)

text \<open>
  C27. A packet is reported exactly when the unread bytes start with the complete valid frame of
  that packet and the frame fits the buffer; the bytes after the frame stay unread.
\<close>

theorem packet_iff_frame:
  assumes "sd_ok d" "length (sd_unread d) + length bs \<le> StreamingDecoder_capacity d"
  shows "(\<exists>d'. StreamingDecoder_feed cfg bs d = (Ok (Packet pkt n), d') \<and> sd_unread d' = rest) \<longleftrightarrow>
    sd_unread d @ bs = wire_frame cfg pkt @ rest \<and> n = length (wire_frame cfg pkt) \<and> length pkt < 256"
proof -
  obtain r d' where f: "StreamingDecoder_feed cfg bs d = (r, d')" by fastforce
  obtain out k where s: "stream_step cfg (StreamingDecoder_capacity d) (sd_unread d @ bs) = (out, k)"
    by fastforce
  note fs = feed_step[OF assms f s]
  show ?thesis
  proof
    assume "\<exists>d'. StreamingDecoder_feed cfg bs d = (Ok (Packet pkt n), d') \<and> sd_unread d' = rest"
    with f fs have "out = Packet pkt n" "rest = drop k (sd_unread d @ bs)" by auto
    with stream_step_PacketD[of cfg _ "sd_unread d @ bs" pkt n k] s
    show "sd_unread d @ bs = wire_frame cfg pkt @ rest \<and> n = length (wire_frame cfg pkt) \<and> length pkt < 256"
      by auto
  next
    assume a: "sd_unread d @ bs = wire_frame cfg pkt @ rest \<and> n = length (wire_frame cfg pkt) \<and> length pkt < 256"
    then have "length (wire_frame cfg pkt) \<le> StreamingDecoder_capacity d"
      using assms(2) by (metis length_append le_add1 order_trans)
    with a have "stream_step cfg (StreamingDecoder_capacity d) (sd_unread d @ bs) = (Packet pkt n, n)"
      using stream_step_frame by simp
    with a s f fs show "\<exists>d'. StreamingDecoder_feed cfg bs d = (Ok (Packet pkt n), d') \<and> sd_unread d' = rest"
      by auto
  qed
qed

theorem packet_iff_frame_witness:
  "\<exists>d'. StreamingDecoder_feed Crc16 (wire_frame Crc16 [7] @ [1]) (StreamingDecoder_new 64)
    = (Ok (Packet [7] 6), d') \<and> sd_unread d' = [1]"
  using packet_iff_frame[where d = "StreamingDecoder_new 64" and bs = "wire_frame Crc16 [7] @ [1]"
      and cfg = Crc16 and pkt = "[7]" and n = 6 and rest = "[1]"]
  by (simp add: Crc16_TAG_LEN_def)

text \<open>
  Chunking is irrelevant: two ways of cutting the same byte stream into chunks, whatever the
  bytes, make a fresh decoder report the same packets in the same order and keep the same unread
  bytes, and neither ever fails, as long as each chunk leaves room for one incomplete frame.
\<close>

theorem chunking_irrelevant:
  assumes "concat cs = concat cs'"
    and "\<forall>c\<in>set (cs @ cs'). length c + 257 + Integrity_tag_len cfg \<le> N"
  shows "\<exists>outs d outs' d'. decoder_run_all cfg cs (StreamingDecoder_new N) = (outs, Ok (), d) \<and>
    decoder_run_all cfg cs' (StreamingDecoder_new N) = (outs', Ok (), d') \<and>
    packets_of outs = packets_of outs' \<and> sd_unread d = sd_unread d'"
proof -
  have nm: "is_NeedMore (fst (stream_step cfg N (sd_unread (StreamingDecoder_new N))))"
    by (simp add: stream_step_def)
  show ?thesis
    using decoder_run_all_drain[of "StreamingDecoder_new N" cfg N cs]
      decoder_run_all_drain[of "StreamingDecoder_new N" cfg N cs'] assms nm by auto
qed

theorem chunking_irrelevant_witness:
  "\<exists>outs d outs' d'. decoder_run_all Crc16 [[0xA5, 1], [7, 9]] (StreamingDecoder_new 2048) = (outs, Ok (), d) \<and>
    decoder_run_all Crc16 [[0xA5], [1, 7, 9]] (StreamingDecoder_new 2048) = (outs', Ok (), d') \<and>
    packets_of outs = packets_of outs' \<and> sd_unread d = sd_unread d'"
  by (rule chunking_irrelevant) (simp_all add: Crc16_TAG_LEN_def)

text \<open>
  C29. Frame round trip: a stream of frames, each preceded by arbitrary noise without a magic
  byte and cut anywhere into chunks that leave room for one frame in the decoder's buffer, yields exactly the framed packets in
  order, with no error and no byte left over.
\<close>

theorem frames_survive_chunking:
  assumes "concat chunks = noisy_frames cfg items"
    and "\<forall>(noise, pkt)\<in>set items. 0xA5 \<notin> set noise \<and> length pkt < 256"
    and "\<forall>c\<in>set chunks. length c + 257 + Integrity_tag_len cfg \<le> N"
    and "258 + Integrity_tag_len cfg \<le> N"
  shows "\<exists>outs d. decoder_run_all cfg chunks (StreamingDecoder_new N) = (outs, Ok (), d) \<and>
    packets_of outs = map snd items \<and> sd_unread d = []"
proof -
  have nm: "is_NeedMore (fst (stream_step cfg N (sd_unread (StreamingDecoder_new N))))"
    by (simp add: stream_step_def)
  have "\<forall>(noise, pkt)\<in>set items. 0xA5 \<notin> set noise \<and> length pkt < 256 \<and>
      3 + length pkt + Integrity_tag_len cfg \<le> N"
    using assms(2,4) by fastforce
  from drain_noisy_frames[OF this] show ?thesis
    using decoder_run_all_drain[of "StreamingDecoder_new N" cfg N chunks] assms nm by auto
qed

theorem frames_survive_chunking_witness:
  "\<exists>outs d. decoder_run_all Crc16 [[1, 2] @ take 3 (wire_frame Crc16 [7]), drop 3 (wire_frame Crc16 [7])]
      (StreamingDecoder_new 2048) = (outs, Ok (), d) \<and>
    packets_of outs = [[7]] \<and> sd_unread d = []"
  using frames_survive_chunking[of
      "[[1, 2] @ take 3 (wire_frame Crc16 [7]), drop 3 (wire_frame Crc16 [7])]" Crc16 "[([1, 2], [7])]" 2048]
  by (simp add: noisy_frames_def Crc16_TAG_LEN_def)

end
