(* ===== verification/Reliability.thy ===== *)
theory Reliability
  imports Core_Packet
begin

text \<open>
  The reliability vocabulary of \<^verbatim>\<open>src/reliability\<close>: fragment ranges, packet states, the ACK
  tracker, the duplicate detector, the retry-limit policy and the RTT-based recovery timer.  The
  locale \<open>ack_tracker\<close> is the contract of the \<^verbatim>\<open>AckTracker\<close> trait, \<open>recent_keys\<close> that of \<^verbatim>\<open>Dedup\<close>;
  both are interpreted on the fixed-capacity implementations.
\<close>

section \<open>reliability/message\<close>

datatype Rel_MessageKey = Rel_MessageKey (rel_message_id: MessageId)

record FragmentRange =
  fr_offset :: u32
  fr_len :: u32

definition FragmentRange_new :: "u32 \<Rightarrow> u32 \<Rightarrow> FragmentRange" where
  "FragmentRange_new off l = \<lparr>fr_offset = off, fr_len = l\<rparr>"

definition FragmentRange_end :: "FragmentRange \<Rightarrow> u32" where
  "FragmentRange_end r = saturating_add (fr_offset r) (fr_len r)"

definition FragmentRange_is_empty :: "FragmentRange \<Rightarrow> bool" where
  "FragmentRange_is_empty r \<longleftrightarrow> fr_len r = 0"

definition FragmentRange_fits_in :: "FragmentRange \<Rightarrow> u32 \<Rightarrow> bool" where
  "FragmentRange_fits_in r l \<longleftrightarrow> fr_offset r \<le> l \<and> FragmentRange_end r \<le> l"

record Rel_MessageFragment =
  rf_key :: Rel_MessageKey
  rf_message_len :: u32
  rf_range :: FragmentRange

definition Rel_MessageFragment_new :: "Rel_MessageKey \<Rightarrow> u32 \<Rightarrow> FragmentRange \<Rightarrow> Rel_MessageFragment" where
  "Rel_MessageFragment_new k l r = \<lparr>rf_key = k, rf_message_len = l, rf_range = r\<rparr>"

text \<open>\<^verbatim>\<open>u32::try_from(usize)\<close>, \<^verbatim>\<open>u16::try_from\<close> and \<^verbatim>\<open>u8::try_from\<close> with the error of the caller.\<close>

definition try_from :: "ErrorKind \<Rightarrow> usize \<Rightarrow> 'a::len word res" where
  "try_from k n = (if n < 2 ^ LENGTH('a) then Ok (of_nat n) else Err (Error_new k))"

definition MessageFragment_try_from_data_header :: "DataHeader \<Rightarrow> usize \<Rightarrow> Rel_MessageFragment res" where
  "MessageFragment_try_from_data_header h payload_len =
     res_bind (try_from Reliability payload_len) (\<lambda>l.
     res_bind (try_from Reliability (dh_message_len h)) (\<lambda>message_len.
     res_bind (try_from Reliability (dh_fragment_offset h)) (\<lambda>off.
       let range = FragmentRange_new off l in
       if \<not> FragmentRange_fits_in range message_len then Err (Error_new Reliability)
       else Ok (Rel_MessageFragment_new (Rel_MessageKey (dh_message_id h)) message_len range))))"

datatype MessageStatus = Pending | Complete | Invalid | Dropped

section \<open>reliability/policy.rs, packet/state.rs, packet/event.rs, packet/window.rs\<close>

datatype ReliabilityMode = Reliable | BestEffort | LatestOnly | Deadline

datatype PacketState = Unknown | InFlight | Acked | Lost | Dropped

datatype PacketReliabilityEvent =
    Sent PacketKey | Acked PacketKey | Duplicate PacketKey
  | TimedOut PacketKey | Retransmit PacketKey | Dropped PacketKey

datatype WindowDecision = Accept | Reject | TooOld | TooNew

section \<open>reliability/packet/ack.rs\<close>

datatype AckOutcome = NewlyAcked PacketKey | AlreadyAcked PacketKey | Ignored PacketKey

record TrackedPacket =
  tp_key :: PacketKey
  tp_state :: PacketState

datatype PacketAckTracker = PacketAckTracker (at_packets: "TrackedPacket option list")

definition PacketAckTracker_new :: "usize \<Rightarrow> PacketAckTracker" where
  "PacketAckTracker_new N = PacketAckTracker (replicate N None)"

definition PacketAckTracker_try_on_packet_sent ::
  "PacketKey \<Rightarrow> PacketAckTracker \<Rightarrow> unit res \<times> PacketAckTracker" where
  "PacketAckTracker_try_on_packet_sent k t =
     (let ps = at_packets t; entry = \<lparr>tp_key = k, tp_state = InFlight\<rparr> in
      if length ps = 0 then (Err (Error_new Reliability), t)
      else case slot_pos tp_key k ps of
        Some i \<Rightarrow> (Ok (), PacketAckTracker (ps[i := Some entry]))
      | None \<Rightarrow> (case slot_free ps of
          Some i \<Rightarrow> (Ok (), PacketAckTracker (ps[i := Some entry]))
        | None \<Rightarrow> (Err (Error_new Reliability), t)))"

definition PacketAckTracker_on_packet_sent :: "PacketKey \<Rightarrow> PacketAckTracker \<Rightarrow> PacketAckTracker" where
  "PacketAckTracker_on_packet_sent k t = snd (PacketAckTracker_try_on_packet_sent k t)"

definition PacketAckTracker_apply_ack ::
  "PacketKey \<Rightarrow> PacketAckTracker \<Rightarrow> AckOutcome \<times> PacketAckTracker" where
  "PacketAckTracker_apply_ack k t =
     (case slot_pos tp_key k (at_packets t) of
        None \<Rightarrow> (Ignored k, t)
      | Some i \<Rightarrow> (case at_packets t ! i of
          None \<Rightarrow> (Ignored k, t)
        | Some tracked \<Rightarrow> (case tp_state tracked of
            InFlight \<Rightarrow> (NewlyAcked k,
              PacketAckTracker ((at_packets t)[i := Some (tracked\<lparr>tp_state := PacketState.Acked\<rparr>)]))
          | PacketState.Acked \<Rightarrow> (AlreadyAcked k, t)
          | _ \<Rightarrow> (Ignored k, t))))"

definition PacketAckTracker_state_of :: "PacketAckTracker \<Rightarrow> PacketKey \<Rightarrow> PacketState" where
  "PacketAckTracker_state_of t k =
     (case find (\<lambda>tracked. tp_key tracked = k) (flatten (at_packets t)) of
        Some tracked \<Rightarrow> tp_state tracked | None \<Rightarrow> Unknown)"

section \<open>reliability/packet/dedup.rs\<close>

datatype DedupDecision = Accept | Duplicate

record PacketDedup =
  pd_packets :: "PacketKey option list"
  pd_next :: usize
  pd_len :: usize

definition PacketDedup_new :: "usize \<Rightarrow> PacketDedup" where
  "PacketDedup_new N = \<lparr>pd_packets = replicate N None, pd_next = 0, pd_len = 0\<rparr>"

definition PacketDedup_is_duplicate :: "PacketDedup \<Rightarrow> PacketKey \<Rightarrow> bool" where
  "PacketDedup_is_duplicate d k \<longleftrightarrow> (\<exists>known\<in>set (flatten (pd_packets d)). known = k)"

definition PacketDedup_observe_packet ::
  "PacketKey \<Rightarrow> PacketDedup \<Rightarrow> DedupDecision res \<times> PacketDedup" where
  "PacketDedup_observe_packet k d =
     (let N = length (pd_packets d) in
      if N = 0 then (Err (Error_new Reliability), d)
      else if PacketDedup_is_duplicate d k then (Ok DedupDecision.Duplicate, d)
      else (Ok DedupDecision.Accept,
            d\<lparr>pd_packets := (pd_packets d)[pd_next d := Some k],
              pd_next := (pd_next d + 1) mod N,
              pd_len := min (pd_len d + 1) N\<rparr>))"

definition PacketDedup_observe :: "PacketKey \<Rightarrow> PacketDedup \<Rightarrow> DedupDecision \<times> PacketDedup" where
  "PacketDedup_observe k d = (case PacketDedup_observe_packet k d of
     (Ok x, d') \<Rightarrow> (x, d') | (_, d') \<Rightarrow> (DedupDecision.Duplicate, d'))"

section \<open>reliability/packet/timeout.rs, reliability/packet/retransmit.rs\<close>

record TimeoutEvent =
  te_key :: PacketKey
  te_elapsed_ticks :: u64
  te_attempts :: u8

definition TimeoutEvent_new :: "PacketKey \<Rightarrow> u64 \<Rightarrow> u8 \<Rightarrow> TimeoutEvent" where
  "TimeoutEvent_new k e a = \<lparr>te_key = k, te_elapsed_ticks = e, te_attempts = a\<rparr>"

datatype RetransmitDecision = Retransmit PacketKey | Wait PacketKey | Drop PacketKey

datatype RetryLimitPolicy = RetryLimitPolicy (max_attempts: u8)

definition RetryLimitPolicy_on_timeout :: "RetryLimitPolicy \<Rightarrow> TimeoutEvent \<Rightarrow> RetransmitDecision" where
  "RetryLimitPolicy_on_timeout p e =
     (if te_attempts e < max_attempts p then RetransmitDecision.Retransmit (te_key e)
      else Drop (te_key e))"

definition RetryLimitPolicy_should_retransmit :: "RetryLimitPolicy \<Rightarrow> PacketKey \<Rightarrow> bool" where
  "RetryLimitPolicy_should_retransmit p k \<longleftrightarrow> max_attempts p > 0"

section \<open>reliability/recovery/dynamic.rs\<close>

definition DEFAULT_INITIAL_RTT_MS :: u64 where "DEFAULT_INITIAL_RTT_MS = 333"
definition DEFAULT_MAX_ACK_DELAY_MS :: u64 where "DEFAULT_MAX_ACK_DELAY_MS = 25"
definition DEFAULT_TIMER_GRANULARITY_MS :: u64 where "DEFAULT_TIMER_GRANULARITY_MS = 1"
definition DEFAULT_MAX_BACKOFF_EXPONENT :: u8 where "DEFAULT_MAX_BACKOFF_EXPONENT = 16"

record DynamicRecoveryConfig =
  initial_rtt_ms :: u64
  max_ack_delay_ms :: u64
  timer_granularity_ms :: u64
  max_backoff_exponent :: u8

definition DynamicRecoveryConfig_default :: DynamicRecoveryConfig where
  "DynamicRecoveryConfig_default =
     \<lparr>initial_rtt_ms = DEFAULT_INITIAL_RTT_MS, max_ack_delay_ms = DEFAULT_MAX_ACK_DELAY_MS,
      timer_granularity_ms = DEFAULT_TIMER_GRANULARITY_MS,
      max_backoff_exponent = DEFAULT_MAX_BACKOFF_EXPONENT\<rparr>"

record DynamicRecoveryState =
  latest_rtt_ms :: u64
  smoothed_rtt_ms :: "u64 option"
  rtt_var_ms :: u64
  min_rtt_ms :: u64

definition DynamicRecoveryState_new :: "DynamicRecoveryConfig \<Rightarrow> DynamicRecoveryState" where
  "DynamicRecoveryState_new c =
     \<lparr>latest_rtt_ms = initial_rtt_ms c, smoothed_rtt_ms = None,
      rtt_var_ms = initial_rtt_ms c div 2, min_rtt_ms = initial_rtt_ms c\<rparr>"

definition abs_diff :: "'a::len word \<Rightarrow> 'a word \<Rightarrow> 'a word" where
  "abs_diff a b = (if a < b then b - a else a - b)"

text \<open>The products and sums are plain \<^verbatim>\<open>u64\<close> operators: they wrap in a release build.\<close>

definition DynamicRecoveryState_observe_ack :: "u64 \<Rightarrow> DynamicRecoveryState \<Rightarrow> DynamicRecoveryState" where
  "DynamicRecoveryState_observe_ack sample s =
     (let s1 = s\<lparr>latest_rtt_ms := sample, min_rtt_ms := min (min_rtt_ms s) sample\<rparr> in
      case smoothed_rtt_ms s of
        None \<Rightarrow> s1\<lparr>smoothed_rtt_ms := Some sample, rtt_var_ms := sample div 2\<rparr>
      | Some smoothed \<Rightarrow>
          s1\<lparr>rtt_var_ms := (3 * rtt_var_ms s + abs_diff smoothed sample) div 4,
             smoothed_rtt_ms := Some ((7 * smoothed + sample) div 8)\<rparr>)"

definition DynamicRecoveryState_rtt_ms :: "DynamicRecoveryState \<Rightarrow> u64" where
  "DynamicRecoveryState_rtt_ms s = (case smoothed_rtt_ms s of Some r \<Rightarrow> r | None \<Rightarrow> latest_rtt_ms s)"

definition DynamicRecoveryState_pto_base_ms :: "DynamicRecoveryState \<Rightarrow> DynamicRecoveryConfig \<Rightarrow> u64" where
  "DynamicRecoveryState_pto_base_ms s c =
     (let granularity = max 1 (timer_granularity_ms c) in
      saturating_add (DynamicRecoveryState_rtt_ms s)
        (max (saturating_mul (rtt_var_ms s) 4) granularity))"

definition checked_shl_1 :: "nat \<Rightarrow> u64 option" where
  "checked_shl_1 n = (if n < 64 then Some (push_bit n 1) else None)"

definition DynamicRecoveryState_timeout_ms ::
  "DynamicRecoveryState \<Rightarrow> DynamicRecoveryConfig \<Rightarrow> u8 \<Rightarrow> u64" where
  "DynamicRecoveryState_timeout_ms s c attempts =
     (let exponent = min attempts (max_backoff_exponent c);
          backoff = (case checked_shl_1 (unat exponent) of Some b \<Rightarrow> b | None \<Rightarrow> - 1) in
      saturating_mul (saturating_add (DynamicRecoveryState_pto_base_ms s c) (max_ack_delay_ms c)) backoff)"

section \<open>The contract of an ACK tracker\<close>

locale ack_tracker =
  fixes sent :: "PacketKey \<Rightarrow> 't \<Rightarrow> 't option"
    and ack :: "PacketKey \<Rightarrow> 't \<Rightarrow> AckOutcome \<times> 't"
    and state_of :: "'t \<Rightarrow> PacketKey \<Rightarrow> PacketState"
  assumes sent_state: "sent k t = Some t' \<Longrightarrow> state_of t' = (state_of t)(k := InFlight)"
    and ack_inflight: "state_of t k = InFlight \<Longrightarrow>
      \<exists>t'. ack k t = (NewlyAcked k, t') \<and> state_of t' = (state_of t)(k := PacketState.Acked)"
    and ack_acked: "state_of t k = PacketState.Acked \<Longrightarrow> ack k t = (AlreadyAcked k, t)"
    and ack_other: "state_of t k \<notin> {InFlight, PacketState.Acked} \<Longrightarrow> ack k t = (Ignored k, t)"
begin

fun acks :: "PacketKey list \<Rightarrow> 't \<Rightarrow> AckOutcome list \<times> 't" where
  "acks [] t = ([], t)"
| "acks (k # ks) t = (case ack k t of (r, t1) \<Rightarrow> case acks ks t1 of (rs, t2) \<Rightarrow> (r # rs, t2))"

lemma ack_state:
  "state_of (snd (ack k t)) = (if state_of t k = InFlight then (state_of t)(k := PacketState.Acked) else state_of t)"
proof (cases "state_of t k = InFlight")
  case True
  then show ?thesis using ack_inflight[OF True] by auto
next
  case False
  then show ?thesis
    using ack_acked[of t k] ack_other[of t k] by (cases "state_of t k = PacketState.Acked") auto
qed

text \<open>However often and in whatever order ACKs arrive, each packet in flight is newly acked once.\<close>

lemma newly_acked_once:
  "count_list (fst (acks ks t)) (NewlyAcked k) = (if state_of t k = InFlight \<and> k \<in> set ks then 1 else 0)"
proof (induction ks arbitrary: t)
  case Nil
  then show ?case by simp
next
  case (Cons j ks)
  obtain r t1 where r: "ack j t = (r, t1)" by fastforce
  obtain rs t2 where rs: "acks ks t1 = (rs, t2)" by fastforce
  have st: "state_of t1 = (if state_of t j = InFlight then (state_of t)(j := PacketState.Acked) else state_of t)"
    using ack_state[of j t] r by simp
  have "r = NewlyAcked k \<longleftrightarrow> j = k \<and> state_of t k = InFlight"
    using ack_inflight[of t j] ack_acked[of t j] ack_other[of t j] r by force
  with Cons.IH[of t1] st r rs show ?case by auto
qed

end

definition tracker_sent :: "PacketKey \<Rightarrow> PacketAckTracker \<Rightarrow> PacketAckTracker option" where
  "tracker_sent k t = (case PacketAckTracker_try_on_packet_sent k t of (Ok _, t') \<Rightarrow> Some t' | _ \<Rightarrow> None)"

lemma state_of_lookup:
  "PacketAckTracker_state_of t k =
     (case slot_lookup tp_key k (at_packets t) of Some p \<Rightarrow> tp_state p | None \<Rightarrow> Unknown)"
  by (simp add: PacketAckTracker_state_of_def slot_lookup_find)

interpretation tracker: ack_tracker tracker_sent PacketAckTracker_apply_ack PacketAckTracker_state_of
proof (standard, goal_cases)
  case (1 k t t')
  then show ?case
    by (auto simp: tracker_sent_def PacketAckTracker_try_on_packet_sent_def Let_def state_of_lookup
        fun_eq_iff slot_lookup_replace slot_lookup_insert split: if_splits option.splits
        dest!: slot_free_Some)
next
  case (2 t k)
  then obtain p where p: "slot_lookup tp_key k (at_packets t) = Some p" "tp_state p = InFlight"
    by (auto simp: state_of_lookup split: option.splits)
  then obtain i where i: "slot_pos tp_key k (at_packets t) = Some i" "at_packets t ! i = Some p"
    by (auto simp: slot_lookup_def split: option.splits)
  have k: "tp_key p = k" using slot_lookup_SomeD[OF p(1)] by simp
  then show ?case
    using p i slot_lookup_replace[of tp_key "p\<lparr>tp_state := PacketState.Acked\<rparr>" "at_packets t" i]
    by (auto simp: PacketAckTracker_apply_ack_def state_of_lookup fun_eq_iff)
next
  case (3 t k)
  then obtain p i where "slot_pos tp_key k (at_packets t) = Some i" "at_packets t ! i = Some p"
    "tp_state p = PacketState.Acked"
    by (auto simp: state_of_lookup slot_lookup_def split: option.splits)
  then show ?case by (simp add: PacketAckTracker_apply_ack_def)
next
  case (4 t k)
  then show ?case
    by (auto simp: PacketAckTracker_apply_ack_def state_of_lookup slot_lookup_def
        split: option.splits PacketState.splits)
qed

section \<open>The contract of a duplicate detector\<close>

text \<open>\<open>recent d\<close> is the list of the keys remembered, oldest first.\<close>

locale recent_keys =
  fixes cap :: nat
    and inv :: "'d \<Rightarrow> bool"
    and recent :: "'d \<Rightarrow> 'k list"
    and observe :: "'k \<Rightarrow> 'd \<Rightarrow> DedupDecision \<times> 'd"
  assumes recent_le: "inv d \<Longrightarrow> length (recent d) \<le> cap"
    and observe_known: "inv d \<Longrightarrow> k \<in> set (recent d) \<Longrightarrow> observe k d = (DedupDecision.Duplicate, d)"
    and observe_new: "inv d \<Longrightarrow> k \<notin> set (recent d) \<Longrightarrow>
      \<exists>d'. observe k d = (DedupDecision.Accept, d') \<and> inv d' \<and>
        recent d' = (if length (recent d) = cap then tl (recent d) else recent d) @ [k]"
begin

fun run :: "'k list \<Rightarrow> 'd \<Rightarrow> 'k list \<times> 'd" where
  "run [] d = ([], d)"
| "run (k # ks) d = (case observe k d of (r, d1) \<Rightarrow> case run ks d1 of (acc, d2) \<Rightarrow>
     ((if r = DedupDecision.Accept then k # acc else acc), d2))"

text \<open>
  Whatever keys arrive, the keys remembered afterwards are the last \<open>cap\<close> of those remembered
  before followed by the accepted ones.
\<close>

lemma run_recent:
  "inv d \<Longrightarrow> 0 < cap \<Longrightarrow> run ks d = (acc, d') \<Longrightarrow>
    inv d' \<and> recent d' = drop (length (recent d) + length acc - cap) (recent d @ acc)"
proof (induction ks arbitrary: d acc)
  case Nil
  then show ?case using recent_le[of d] by simp
next
  case (Cons k ks)
  obtain r d1 where r: "observe k d = (r, d1)" by fastforce
  obtain acc1 d2 where run: "run ks d1 = (acc1, d2)" by fastforce
  show ?case
  proof (cases "k \<in> set (recent d)")
    case True
    then have "d1 = d" "r = DedupDecision.Duplicate" using observe_known[of d k] Cons.prems r by auto
    then show ?thesis using Cons r run by auto
  next
    case False
    then have d1: "r = DedupDecision.Accept" "inv d1"
      "recent d1 = (if length (recent d) = cap then tl (recent d) else recent d) @ [k]"
      using observe_new[of d k] Cons.prems r by auto
    with Cons.IH[of d1 acc1] Cons.prems r run have
      "inv d'" "acc = k # acc1"
      "recent d' = drop (length (recent d1) + length acc1 - cap) (recent d1 @ acc1)" by auto
    note IH = this
    show ?thesis
    proof (cases "length (recent d) = cap")
      case True
      then have "recent d1 @ acc1 = tl (recent d @ acc)" "length (recent d1) = cap"
        using d1(3) IH(2) Cons.prems(2) by (cases "recent d"; simp)+
      with IH True have "recent d' = drop (Suc (length acc1)) (recent d @ acc)"
        by (simp only: drop_Suc) simp
      with IH True show ?thesis by simp
    next
      case False
      with d1(3) IH(2) have "recent d1 @ acc1 = recent d @ acc"
        "length (recent d1) + length acc1 = length (recent d) + length acc" by simp_all
      with IH show ?thesis by metis
    qed
  qed
qed

text \<open>A key just accepted is still a duplicate after fewer than \<open>cap\<close> further acceptances.\<close>

lemma remembered:
  assumes "inv d" "0 < cap" "k \<in> set (recent d)" "recent d = xs @ k # ys"
    and "run ks d = (acc, d')" "length ys + length acc < cap"
  shows "k \<in> set (recent d')"
proof -
  have "recent d' = drop (length (recent d) + length acc - cap) (xs @ k # ys @ acc)"
    using run_recent[OF assms(1,2,5)] assms(4) by simp
  moreover have "length (recent d) + length acc - cap \<le> length xs"
    using assms(4,6) by simp
  ultimately show ?thesis by (auto simp: drop_append)
qed

end

text \<open>The keys remembered by the ring of \<open>PacketDedup\<close>, oldest first.\<close>

definition dedup_head :: "PacketDedup \<Rightarrow> nat" where
  "dedup_head d = (if pd_len d < length (pd_packets d) then 0 else pd_next d)"

definition dedup_recent :: "PacketDedup \<Rightarrow> PacketKey list" where
  "dedup_recent d = ring_list (pd_packets d) (dedup_head d) (pd_len d)"

definition dedup_ok :: "nat \<Rightarrow> PacketDedup \<Rightarrow> bool" where
  "dedup_ok N d \<longleftrightarrow> 0 < N \<and> length (pd_packets d) = N \<and>
     ring_ok (pd_packets d) (dedup_head d) (pd_len d) \<and>
     (pd_len d < N \<longrightarrow> pd_next d = pd_len d \<and> (\<forall>i. pd_len d \<le> i \<and> i < N \<longrightarrow> pd_packets d ! i = None))"

lemma dedup_ok_new: "0 < N \<Longrightarrow> dedup_ok N (PacketDedup_new N)" "dedup_recent (PacketDedup_new N) = []"
  by (auto simp: dedup_ok_def PacketDedup_new_def dedup_head_def dedup_recent_def)

lemma in_set_flatten_nth: "x \<in> set (flatten xs) \<longleftrightarrow> (\<exists>k<length xs. xs ! k = Some x)"
  unfolding in_set_flatten by (simp add: in_set_conv_nth)

lemma ring_list_set_full:
  assumes "ring_ok xs h (length xs)"
  shows "set (ring_list xs h (length xs)) = set (flatten xs)"
proof -
  let ?n = "length xs"
  have h: "h < ?n" using assms by (simp add: ring_ok_def)
  have some: "xs ! ((h + i) mod ?n) = Some (ring_list xs h ?n ! i)" if "i < ?n" for i
    using assms that by (auto simp: ring_ok_def nth_ring_list)
  have "x \<in> set (flatten xs) \<longleftrightarrow> (\<exists>k<?n. xs ! k = Some x)" for x
    by (rule in_set_flatten_nth)
  also have "\<dots> x \<longleftrightarrow> (\<exists>i<?n. xs ! ((h + i) mod ?n) = Some x)" for x
  proof (intro iffI; elim exE conjE)
    fix k assume k: "k < ?n" "xs ! k = Some x"
    have "(h + (k + (?n - h)) mod ?n) mod ?n = k" using k h by (simp add: mod_simps)
    with k h show "\<exists>i<?n. xs ! ((h + i) mod ?n) = Some x"
      by (intro exI[of _ "(k + (?n - h)) mod ?n"] conjI mod_less_divisor) (linarith, simp)
  qed (use h ring_index_less in blast)
  also have "\<dots> x \<longleftrightarrow> x \<in> set (ring_list xs h ?n)" for x
    using some by (auto simp: in_set_conv_nth)
  finally show ?thesis by blast
qed

lemma dedup_recent_set:
  assumes "dedup_ok N d"
  shows "set (dedup_recent d) = set (flatten (pd_packets d))"
proof (cases "pd_len d < N")
  case True
  then have inv: "\<And>i. i < pd_len d \<Longrightarrow> pd_packets d ! i \<noteq> None" "dedup_head d = 0"
      "\<And>i. pd_len d \<le> i \<Longrightarrow> i < N \<Longrightarrow> pd_packets d ! i = None" "length (pd_packets d) = N"
    using assms by (auto simp: dedup_ok_def ring_ok_def dedup_head_def)
  have "x \<in> set (flatten (pd_packets d)) \<longleftrightarrow> (\<exists>i<pd_len d. pd_packets d ! i = Some x)" for x
    unfolding in_set_flatten_nth using inv True by (metis not_le option.distinct(1) order.strict_trans)
  then show ?thesis
    using inv True by (force simp: dedup_recent_def ring_list_def image_iff)
next
  case False
  with assms have "pd_len d = N" by (auto simp: dedup_ok_def ring_ok_def)
  with assms show ?thesis
    using ring_list_set_full[of "pd_packets d" "dedup_head d"] by (simp add: dedup_ok_def dedup_recent_def)
qed

lemma is_duplicate_recent: "dedup_ok N d \<Longrightarrow> PacketDedup_is_duplicate d k \<longleftrightarrow> k \<in> set (dedup_recent d)"
  by (simp add: PacketDedup_is_duplicate_def dedup_recent_set)

lemma dedup_observe_new:
  assumes "dedup_ok N d" "k \<notin> set (dedup_recent d)"
  shows "\<exists>d'. PacketDedup_observe_packet k d = (Ok DedupDecision.Accept, d') \<and> dedup_ok N d' \<and>
    dedup_recent d' = (if length (dedup_recent d) = N then tl (dedup_recent d) else dedup_recent d) @ [k]"
proof -
  let ?xs = "pd_packets d"
  define d' where "d' = d\<lparr>pd_packets := ?xs[pd_next d := Some k], pd_next := (pd_next d + 1) mod N,
      pd_len := min (pd_len d + 1) N\<rparr>"
  have N: "0 < N" "length ?xs = N" "pd_len d \<le> N" and ok: "ring_ok ?xs (dedup_head d) (pd_len d)"
    using assms by (auto simp: dedup_ok_def ring_ok_def)
  have obs: "PacketDedup_observe_packet k d = (Ok DedupDecision.Accept, d')"
    using assms N by (simp add: PacketDedup_observe_packet_def is_duplicate_recent d'_def)
  have "dedup_ok N d' \<and>
    dedup_recent d' = (if length (dedup_recent d) = N then tl (dedup_recent d) else dedup_recent d) @ [k]"
  proof (cases "pd_len d < N")
    case True
    then have nx: "pd_next d = pd_len d" "dedup_head d = 0"
      and none: "\<And>i. pd_len d \<le> i \<Longrightarrow> i < N \<Longrightarrow> ?xs ! i = None"
      using assms N by (auto simp: dedup_ok_def dedup_head_def)
    have "pd_len d + 1 < N \<or> pd_len d + 1 = N" using True by auto
    then have head: "dedup_head d' = 0" using N nx by (elim disjE) (simp_all add: dedup_head_def d'_def)
    have "ring_ok (?xs[pd_len d := Some k]) 0 (pd_len d + 1)"
      "ring_list (?xs[pd_len d := Some k]) 0 (pd_len d + 1) = ring_list ?xs 0 (pd_len d) @ [k]"
      using ring_push[of ?xs 0 "pd_len d" k] ok True N nx by simp_all
    then show ?thesis
      using True N nx none head by (auto simp: dedup_ok_def dedup_recent_def d'_def nth_list_update)
  next
    case False
    then have l: "pd_len d = N" "dedup_head d = pd_next d" using N by (auto simp: dedup_head_def)
    with ring_overwrite[of ?xs "pd_next d" k] ok N
    show ?thesis
      by (simp add: dedup_ok_def dedup_recent_def dedup_head_def d'_def)
  qed
  with obs show ?thesis by blast
qed

interpretation dedup: recent_keys N "dedup_ok N" dedup_recent PacketDedup_observe for N
proof (standard, goal_cases)
  case (1 d)
  then show ?case by (simp add: dedup_ok_def dedup_recent_def ring_ok_def)
next
  case (2 d k)
  then show ?case
    using is_duplicate_recent[of N d k]
    by (simp add: PacketDedup_observe_def PacketDedup_observe_packet_def) (simp add: dedup_ok_def)
next
  case (3 d k)
  then show ?case using dedup_observe_new[of N d k] by (auto simp: PacketDedup_observe_def)
qed

section \<open>Arithmetic of ranges and timers\<close>

lemma unat_try_from: "try_from k n = Ok (w :: 'a::len word) \<longleftrightarrow> n < 2 ^ LENGTH('a) \<and> w = of_nat n"
  by (auto simp: try_from_def)

lemma unat_of_nat_fits: "n < 2 ^ LENGTH('a) \<Longrightarrow> unat (of_nat n :: 'a::len word) = n"
  by (simp add: unat_of_nat take_bit_nat_eq_self)

lemma fits_in_iff:
  "FragmentRange_fits_in r l \<longleftrightarrow> min (unat (fr_offset r) + unat (fr_len r)) (2 ^ 32 - 1) \<le> unat l"
  using unat_lt2p[of "fr_offset r"]
  by (auto simp: FragmentRange_fits_in_def FragmentRange_end_def word_le_nat_alt unat_saturating_add min_def)

lemma unat_abs_diff: "unat (abs_diff a b) = (if unat a < unat b then unat b - unat a else unat a - unat b)"
  by (auto simp: abs_diff_def word_less_nat_alt unat_sub word_le_nat_alt)

lemma abs_diff_less: "unat a < M \<Longrightarrow> unat b < M \<Longrightarrow> unat (abs_diff a b) < M"
  by (auto simp: unat_abs_diff)

lemma unat_checked_shl_1:
  "unat (case checked_shl_1 n of Some b \<Rightarrow> b | None \<Rightarrow> - 1) = min (2 ^ n) (2 ^ 64 - 1)"
proof (cases "n < 64")
  case True
  have "(2::nat) ^ n < 2 ^ 64" using True by (intro power_strict_increasing) auto
  moreover have "unat (push_bit n (1::u64)) = take_bit 64 (2 ^ n)"
    by (subst unsigned_push_bit_eq) (simp add: push_bit_eq_mult)
  ultimately have "unat (push_bit n (1::u64)) = 2 ^ n" using True by (simp add: take_bit_nat_eq_self)
  with \<open>(2::nat) ^ n < 2 ^ 64\<close> show ?thesis using True by (simp add: checked_shl_1_def min_def)
next
  case False
  then have "(2::nat) ^ 64 \<le> 2 ^ n" by (intro power_increasing) auto
  then show ?thesis using False by (simp add: checked_shl_1_def unat_minus_one_max min_def)
qed

lemma pto_base_pos: "0 < unat (DynamicRecoveryState_pto_base_ms s c)"
proof -
  have "1 \<le> max (saturating_mul (rtt_var_ms s) 4) (max 1 (timer_granularity_ms c))"
    by (simp add: le_max_iff_disj)
  then have "1 \<le> unat (max (saturating_mul (rtt_var_ms s) 4) (max 1 (timer_granularity_ms c)))"
    by (simp add: word_le_nat_alt)
  then show ?thesis
    by (simp add: DynamicRecoveryState_pto_base_ms_def Let_def unat_saturating_add)
qed

lemma min_mult_min:
  "0 < B \<Longrightarrow> min (B * min e M) M = min (B * e) (M::nat)"
proof (cases "e \<le> M")
  case False
  moreover assume "0 < B"
  then have "M \<le> B * M" "e \<le> B * e" by simp_all
  ultimately have "min (B * min e M) M = M" "min (B * e) M = M"
    by (simp_all only: min.absorb2 min.absorb1 linorder_not_le less_imp_le order.trans)
  then show ?thesis by simp
qed simp

text \<open>The RTT estimator computes without wrap-around while its values stay below \<open>2 ^ 60\<close>.\<close>

lemma observe_ack_nat:
  fixes sample smoothed :: u64
  assumes "unat sample < 2 ^ 60" "unat smoothed < 2 ^ 60" "unat (rtt_var_ms s) < 2 ^ 60"
    and "smoothed_rtt_ms s = Some smoothed"
  obtains smoothed' where
    "smoothed_rtt_ms (DynamicRecoveryState_observe_ack sample s) = Some smoothed'"
    "unat smoothed' = (7 * unat smoothed + unat sample) div 8"
    "unat (rtt_var_ms (DynamicRecoveryState_observe_ack sample s)) =
       (3 * unat (rtt_var_ms s) + unat (abs_diff smoothed sample)) div 4"
proof -
  have d: "unat (abs_diff smoothed sample) < 2 ^ 60"
    by (rule abs_diff_less) (use assms in simp_all)
  have a: "unat (7 * smoothed + sample) = 7 * unat smoothed + unat sample"
    using assms by (simp add: unat_word_ariths)
  have b: "unat (3 * rtt_var_ms s + abs_diff smoothed sample) =
      3 * unat (rtt_var_ms s) + unat (abs_diff smoothed sample)"
    using assms d by (simp add: unat_word_ariths)
  show thesis
    by (rule that[of "(7 * smoothed + sample) div 8"]) (use assms a b in \<open>simp_all add: DynamicRecoveryState_observe_ack_def unat_div\<close>)
qed

section \<open>Sequences of observations\<close>

fun PacketAckTracker_apply_acks :: "PacketKey list \<Rightarrow> PacketAckTracker \<Rightarrow> AckOutcome list \<times> PacketAckTracker" where
  "PacketAckTracker_apply_acks [] t = ([], t)"
| "PacketAckTracker_apply_acks (k # ks) t =
     (case PacketAckTracker_apply_ack k t of (r, t1) \<Rightarrow>
      case PacketAckTracker_apply_acks ks t1 of (rs, t2) \<Rightarrow> (r # rs, t2))"

lemma apply_acks_eq: "PacketAckTracker_apply_acks ks t = tracker.acks ks t"
  by (induction ks arbitrary: t) (simp_all split: prod.splits)

text \<open>The keys accepted from a list of observed keys, and the detector afterwards.\<close>

fun PacketDedup_accepted :: "PacketKey list \<Rightarrow> PacketDedup \<Rightarrow> PacketKey list \<times> PacketDedup" where
  "PacketDedup_accepted [] d = ([], d)"
| "PacketDedup_accepted (k # ks) d =
     (case PacketDedup_observe k d of (r, d1) \<Rightarrow>
      case PacketDedup_accepted ks d1 of (acc, d2) \<Rightarrow>
        ((if r = DedupDecision.Accept then k # acc else acc), d2))"

lemma dedup_accepted_eq: "PacketDedup_accepted ks d = dedup.run ks d"
  by (induction ks arbitrary: d) (simp_all split: prod.splits)

section \<open>Properties\<close>

text \<open>
  Each packet in flight is reported newly acknowledged exactly once, however often and in
  whatever order its ACKs arrive; all its other ACKs and those of unknown packets are reported
  as already acked or ignored.
\<close>

theorem ack_counted_once:
  "count_list (fst (PacketAckTracker_apply_acks ks t)) (NewlyAcked k) =
     (if PacketAckTracker_state_of t k = InFlight \<and> k \<in> set ks then 1 else 0)"
  unfolding apply_acks_eq by (rule tracker.newly_acked_once)

text \<open>
  Sending: the ACK tracker with \<open>N\<close> slots records a packet unless every slot holds another
  packet; recording it makes exactly this packet in flight, and failing changes nothing.
\<close>

lemma tracker_sent_iff:
  "case PacketAckTracker_try_on_packet_sent k t of (r, t') \<Rightarrow>
     if k \<in> tp_key ` set (flatten (at_packets t)) \<or> length (flatten (at_packets t)) < length (at_packets t)
     then r = Ok () \<and> PacketAckTracker_state_of t' = (PacketAckTracker_state_of t)(k := InFlight)
     else r = Err (Error_new Reliability) \<and> t' = t"
proof -
  obtain r t' where rt: "PacketAckTracker_try_on_packet_sent k t = (r, t')" by fastforce
  have len: "length (flatten (at_packets t)) \<le> length (at_packets t)" by (rule length_flatten_le)
  have "r = Ok () \<longleftrightarrow> k \<in> tp_key ` set (flatten (at_packets t)) \<or> length (flatten (at_packets t)) < length (at_packets t)"
    and "r \<noteq> Ok () \<Longrightarrow> r = Err (Error_new Reliability) \<and> t' = t"
    using rt len slot_pos_None[of tp_key k "at_packets t"] slot_free_None[of "at_packets t"]
    by (auto simp: PacketAckTracker_try_on_packet_sent_def Let_def split: if_splits option.splits)
  moreover have "r = Ok () \<Longrightarrow> PacketAckTracker_state_of t' = (PacketAckTracker_state_of t)(k := InFlight)"
    using tracker.sent_state[of k t t'] rt by (simp add: tracker_sent_def)
  ultimately show ?thesis by (simp add: rt)
qed

text \<open>
  C37. The duplicate detector of capacity \<open>N\<close> remembers exactly the last \<open>N\<close> accepted keys: after
  any sequence of observations a key is a duplicate iff it is among them.
\<close>

theorem dedup_remembers_last:
  assumes "0 < N" "PacketDedup_accepted ks (PacketDedup_new N) = (acc, d)"
  shows "PacketDedup_is_duplicate d k \<longleftrightarrow> k \<in> set (drop (length acc - N) acc)"
  using dedup.run_recent[of N "PacketDedup_new N" ks acc d] assms dedup_ok_new[of N]
    is_duplicate_recent[of N d k]
  by (simp add: dedup_accepted_eq)

theorem dedup_remembers_last_witness:
  "PacketDedup_accepted (map (\<lambda>i. PacketKey_new (MessageId i) PacketIndex_ZERO) [1, 1, 2, 3]) (PacketDedup_new 2)
     = (map (\<lambda>i. PacketKey_new (MessageId i) PacketIndex_ZERO) [1, 2, 3],
        snd (PacketDedup_accepted (map (\<lambda>i. PacketKey_new (MessageId i) PacketIndex_ZERO) [1, 1, 2, 3]) (PacketDedup_new 2)))
   \<and> \<not> PacketDedup_is_duplicate
       (snd (PacketDedup_accepted (map (\<lambda>i. PacketKey_new (MessageId i) PacketIndex_ZERO) [1, 1, 2, 3]) (PacketDedup_new 2)))
       (PacketKey_new (MessageId 1) PacketIndex_ZERO)"
proof -
  let ?ks = "map (\<lambda>i. PacketKey_new (MessageId i) PacketIndex_ZERO) [1, 1, 2, 3]"
  let ?acc = "map (\<lambda>i. PacketKey_new (MessageId i) PacketIndex_ZERO) [1, 2, 3]"
  let ?d = "snd (PacketDedup_accepted ?ks (PacketDedup_new 2))"
  have "PacketDedup_accepted ?ks (PacketDedup_new 2) = (?acc, ?d)"
    by (simp add: PacketDedup_observe_def PacketDedup_observe_packet_def PacketDedup_is_duplicate_def
        PacketDedup_new_def numeral_2_eq_2)
  with dedup_remembers_last[of 2 ?ks ?acc ?d] show ?thesis by simp
qed

text \<open>
  C38. The recovery timeout is the base timeout plus the ACK delay, doubled once per attempt up
  to the configured exponent and capped at the largest \<^verbatim>\<open>u64\<close>; it is never zero.
\<close>

theorem timeout_backoff:
  "unat (DynamicRecoveryState_timeout_ms s c attempts) =
     min (unat (saturating_add (DynamicRecoveryState_pto_base_ms s c) (max_ack_delay_ms c))
           * 2 ^ min (unat attempts) (unat (max_backoff_exponent c))) (2 ^ 64 - 1)
   \<and> 0 < DynamicRecoveryState_timeout_ms s c attempts"
proof -
  let ?B = "unat (saturating_add (DynamicRecoveryState_pto_base_ms s c) (max_ack_delay_ms c))"
  have B: "0 < ?B" using pto_base_pos[of s c] by (simp add: unat_saturating_add)
  have e: "unat (min attempts (max_backoff_exponent c)) = min (unat attempts) (unat (max_backoff_exponent c))"
    by (auto simp: min_def word_le_nat_alt)
  have "unat (DynamicRecoveryState_timeout_ms s c attempts) =
     min (?B * 2 ^ min (unat attempts) (unat (max_backoff_exponent c))) (2 ^ 64 - 1)"
    using min_mult_min[OF B, of _ "2 ^ 64 - 1"]
    by (simp add: DynamicRecoveryState_timeout_ms_def unat_saturating_mul e unat_checked_shl_1)
  moreover from this B have "0 < unat (DynamicRecoveryState_timeout_ms s c attempts)" by simp
  ultimately show ?thesis by (simp add: word_less_nat_alt)
qed

text \<open>
  The smoothed RTT never leaves the interval spanned by its old value and the new sample,
  and neither it nor the variance wraps, as long as all three inputs are below \<open>2 ^ 60\<close>.
\<close>

theorem smoothed_rtt_between:
  fixes sample smoothed :: u64
  assumes "unat sample < 2 ^ 60" "unat smoothed < 2 ^ 60" "unat (rtt_var_ms s) < 2 ^ 60"
    and "smoothed_rtt_ms s = Some smoothed"
  shows "min smoothed sample \<le> DynamicRecoveryState_rtt_ms (DynamicRecoveryState_observe_ack sample s) \<and>
    DynamicRecoveryState_rtt_ms (DynamicRecoveryState_observe_ack sample s) \<le> max smoothed sample \<and>
    unat (rtt_var_ms (DynamicRecoveryState_observe_ack sample s)) < 2 ^ 60"
proof -
  obtain r where r: "smoothed_rtt_ms (DynamicRecoveryState_observe_ack sample s) = Some r"
    "unat r = (7 * unat smoothed + unat sample) div 8"
    "unat (rtt_var_ms (DynamicRecoveryState_observe_ack sample s)) =
       (3 * unat (rtt_var_ms s) + unat (abs_diff smoothed sample)) div 4"
    using observe_ack_nat[OF assms] by metis
  have "unat (abs_diff smoothed sample) < 2 ^ 60"
    by (rule abs_diff_less) (use assms in simp_all)
  with r(3) assms(3) have "unat (rtt_var_ms (DynamicRecoveryState_observe_ack sample s)) < 2 ^ 60" by simp
  moreover have "min smoothed sample \<le> r" "r \<le> max smoothed sample"
    using r(2) by (auto simp: min_def max_def word_le_nat_alt)
  ultimately show ?thesis using r(1) by (simp add: DynamicRecoveryState_rtt_ms_def)
qed

theorem smoothed_rtt_between_witness:
  "min 100 20 \<le> DynamicRecoveryState_rtt_ms (DynamicRecoveryState_observe_ack 20
       \<lparr>latest_rtt_ms = 100, smoothed_rtt_ms = Some 100, rtt_var_ms = 50, min_rtt_ms = 100\<rparr>)"
  using smoothed_rtt_between[of 20 100
      "\<lparr>latest_rtt_ms = 100, smoothed_rtt_ms = Some 100, rtt_var_ms = 50, min_rtt_ms = 100\<rparr>"]
  by simp

text \<open>
  A fragment descriptor is built from a data header exactly when all three sizes fit 32 bits
  and the fragment ends within the message; the one exception is the message length \<open>2 ^ 32 - 1\<close>,
  where the saturated end of a longer range is accepted too.
\<close>

lemma fragment_descriptor_iff:
  assumes "dh_message_len h \<noteq> 2 ^ 32 - 1"
  shows "(\<exists>f. MessageFragment_try_from_data_header h n = Ok f \<and>
      unat (fr_offset (rf_range f)) = dh_fragment_offset h \<and> unat (fr_len (rf_range f)) = n) \<longleftrightarrow>
    dh_fragment_offset h + n \<le> dh_message_len h \<and> dh_message_len h < 2 ^ 32"
proof (cases "n < 2 ^ 32 \<and> dh_message_len h < 2 ^ 32 \<and> dh_fragment_offset h < 2 ^ 32")
  case True
  then have "FragmentRange_fits_in (FragmentRange_new (of_nat (dh_fragment_offset h)) (of_nat n))
      (of_nat (dh_message_len h)) \<longleftrightarrow> dh_fragment_offset h + n \<le> dh_message_len h"
    using assms by (auto simp: fits_in_iff FragmentRange_new_def unat_of_nat_fits min_def)
  with True show ?thesis
    by (auto simp: MessageFragment_try_from_data_header_def try_from_def Rel_MessageFragment_new_def
        FragmentRange_new_def unat_of_nat_fits)
next
  case False
  then show ?thesis
    by (auto simp: MessageFragment_try_from_data_header_def try_from_def)
qed

end
