(* ===== verification/Packet_Codec.thy ===== *)
theory Packet_Codec
  imports Streaming Reliability
begin

text \<open>
  The engine's configuration (\<^verbatim>\<open>src/engine/config.rs\<close>) and its packet byte layout: the decoder
  of \<^verbatim>\<open>src/engine/codec/packet.rs\<close> and the encoders of \<^verbatim>\<open>src/engine/codec/outgoing.rs\<close>.  The
  encoders write into a caller-provided buffer; the model returns the length written together
  with the new buffer, and drops the buffer on an error as every caller does.  The lemmas show
  that what the encoders write is one wire frame, that decoding it gives back the header and the
  payload, and that the decoder accepts nothing but such layouts.
\<close>

section \<open>engine/config.rs\<close>

definition MAX_WIRE_BYTES :: usize where "MAX_WIRE_BYTES = 128"
definition MAX_EVENTS :: usize where "MAX_EVENTS = 16"
definition MAX_INGRESS_BYTES :: usize where "MAX_INGRESS_BYTES = MAX_WIRE_BYTES * MAX_EVENTS"
definition MAX_MESSAGE_BYTES :: usize where "MAX_MESSAGE_BYTES = 256"
definition MAX_MESSAGE_EVENTS :: usize where "MAX_MESSAGE_EVENTS = 16"
definition MAX_IN_FLIGHT_PACKETS :: usize where "MAX_IN_FLIGHT_PACKETS = 16"
definition MAX_PENDING_ACKS :: usize where "MAX_PENDING_ACKS = 16"
definition MAX_REASSEMBLY_MESSAGES :: usize where "MAX_REASSEMBLY_MESSAGES = 4"
definition DEFAULT_FRAGMENT_BYTES :: usize where "DEFAULT_FRAGMENT_BYTES = 64"
definition DEFAULT_MAX_RETRANSMIT_ATTEMPTS :: u8 where "DEFAULT_MAX_RETRANSMIT_ATTEMPTS = 5"
definition DEFAULT_RETRANSMIT_TIMEOUT_MS :: u64 where "DEFAULT_RETRANSMIT_TIMEOUT_MS = 50"
definition DEFAULT_REASSEMBLY_TIMEOUT_MS :: u64 where "DEFAULT_REASSEMBLY_TIMEOUT_MS = 2000"

lemma max_consts [simp]:
  "MAX_WIRE_BYTES = 128" "MAX_EVENTS = 16" "MAX_INGRESS_BYTES = 2048" "MAX_MESSAGE_BYTES = 256"
  "MAX_MESSAGE_EVENTS = 16" "MAX_IN_FLIGHT_PACKETS = 16" "MAX_PENDING_ACKS = 16"
  "MAX_REASSEMBLY_MESSAGES = 4"
  by (simp_all add: MAX_WIRE_BYTES_def MAX_EVENTS_def MAX_INGRESS_BYTES_def MAX_MESSAGE_BYTES_def
      MAX_MESSAGE_EVENTS_def MAX_IN_FLIGHT_PACKETS_def MAX_PENDING_ACKS_def MAX_REASSEMBLY_MESSAGES_def)

text \<open>
  The field \<open>dynamic_recovery\<close> exists only with the crate feature of that name: \<open>None\<close> is a build
  without it.
\<close>

record EngineConfig =
  initial_message_id :: MessageId
  fragment_bytes :: usize
  max_retransmit_attempts :: u8
  retransmit_timeout_ms :: u64
  reassembly_timeout_ms :: u64
  integrity :: IntegrityConfig
  dynamic_recovery :: "DynamicRecoveryConfig option"

definition EngineConfig_default :: "DynamicRecoveryConfig option \<Rightarrow> EngineConfig" where
  "EngineConfig_default dyn =
     \<lparr>initial_message_id = MessageId_ZERO, fragment_bytes = DEFAULT_FRAGMENT_BYTES,
      max_retransmit_attempts = DEFAULT_MAX_RETRANSMIT_ATTEMPTS,
      retransmit_timeout_ms = DEFAULT_RETRANSMIT_TIMEOUT_MS,
      reassembly_timeout_ms = DEFAULT_REASSEMBLY_TIMEOUT_MS,
      integrity = IntegrityConfig_DEFAULT, dynamic_recovery = dyn\<rparr>"

section \<open>engine/codec/packet.rs\<close>

record MessageFragment =
  mf_packet_type :: PacketType
  mf_packet_index :: PacketIndex
  mf_ack_eliciting :: bool
  mf_message_id :: MessageId
  mf_message_len :: usize
  mf_fragment_offset :: usize
  mf_bytes :: bytes

record DecodedAck =
  da_key :: PacketKey

record DecodedData =
  dd_header :: DataHeader
  dd_fragment :: MessageFragment

record DecodedLog =
  dl_header :: LogHeader
  dl_fragment :: MessageFragment

datatype PacketDecode =
    Data DecodedData
  | Log DecodedLog
  | Ack DecodedAck
  | Ping
  | Pong
  | Malformed

record PacketBytes =
  pb_bytes :: bytes
  pb_len :: usize

definition PacketBytes_try_from_slice :: "bytes \<Rightarrow> PacketBytes res" where
  "PacketBytes_try_from_slice bs =
     (if length bs > MAX_WIRE_BYTES then Err Error_buffer_too_small
      else Ok \<lparr>pb_bytes = copy_at (replicate MAX_WIRE_BYTES 0) 0 bs, pb_len = length bs\<rparr>)"

definition PacketBytes_as_bytes :: "PacketBytes \<Rightarrow> bytes res" where
  "PacketBytes_as_bytes p = split_at_fst (pb_bytes p) (pb_len p)"

text \<open>\<^verbatim>\<open>bytes.get(i)\<close> and \<^verbatim>\<open>from_le_bytes(bytes.get(i..j)?.try_into().ok()?)\<close>.\<close>

definition get_byte :: "bytes \<Rightarrow> nat \<Rightarrow> u8 option" where
  "get_byte bs i = (if i < length bs then Some (bs ! i) else None)"

definition get_le :: "bytes \<Rightarrow> nat \<Rightarrow> nat \<Rightarrow> 'a::len word option" where
  "get_le bs i j = (if i \<le> j \<and> j \<le> length bs \<and> 8 * (j - i) = LENGTH('a)
     then Some (from_le (slice bs i j)) else None)"

definition data_header_from_bytes :: "bytes \<Rightarrow> DataHeader option" where
  "data_header_from_bytes bs =
     (if length bs < DATA_PACKET_HEADER_LEN then None
      else Option.bind (get_byte bs 1) (\<lambda>flags.
           Option.bind (get_le bs 2 6) (\<lambda>message_id :: u32.
           Option.bind (get_le bs 6 8) (\<lambda>packet_index :: u16.
           Option.bind (get_le bs 8 10) (\<lambda>message_len :: u16.
           Option.bind (get_le bs 10 12) (\<lambda>fragment_offset :: u16.
             Some (DataHeader_new (Flags flags) (MessageId message_id) (PacketIndex packet_index)
                    (unat message_len) (unat fragment_offset))))))))"

definition log_header_from_bytes :: "bytes \<Rightarrow> LogHeader option" where
  "log_header_from_bytes bs =
     (if length bs < LOG_PACKET_HEADER_LEN then None
      else Option.bind (get_le bs 1 5) (\<lambda>message_id :: u32.
           Option.bind (get_le bs 5 7) (\<lambda>packet_index :: u16.
           Option.bind (get_le bs 7 9) (\<lambda>message_len :: u16.
           Option.bind (get_le bs 9 11) (\<lambda>fragment_offset :: u16.
             Some (LogHeader_new (MessageId message_id) (PacketIndex packet_index)
                    (unat message_len) (unat fragment_offset)))))))"

definition ack_from_packet_bytes :: "bytes \<Rightarrow> DecodedAck option" where
  "ack_from_packet_bytes bs =
     (if length bs \<noteq> ACK_PACKET_HEADER_LEN then None
      else Option.bind (get_byte bs 0) (\<lambda>code.
        if code \<noteq> PacketType_code PacketType.Ack then None
        else Option.bind (get_le bs 1 5) (\<lambda>message_id :: u32.
             Option.bind (get_le bs 5 7) (\<lambda>packet_index :: u16.
               Some \<lparr>da_key = PacketKey_new (MessageId message_id) (PacketIndex packet_index)\<rparr>))))"

text \<open>\<^verbatim>\<open>checked_add\<close> on offsets below \<open>2 ^ 16\<close> and slices in memory does not overflow \<^verbatim>\<open>usize\<close>.\<close>

definition data_fragment_from_packet_bytes :: "DataHeader \<Rightarrow> bytes \<Rightarrow> MessageFragment option" where
  "data_fragment_from_packet_bytes h bs =
     (if length bs < DATA_PACKET_HEADER_LEN then None
      else let fragment = drop DATA_PACKET_HEADER_LEN bs in
        if dh_fragment_offset h + length fragment > dh_message_len h then None
        else Some \<lparr>mf_packet_type = PacketType.Data, mf_packet_index = dh_packet_index h,
               mf_ack_eliciting = DataHeader_is_ack_eliciting h, mf_message_id = dh_message_id h,
               mf_message_len = dh_message_len h, mf_fragment_offset = dh_fragment_offset h,
               mf_bytes = fragment\<rparr>)"

definition log_fragment_from_packet_bytes :: "LogHeader \<Rightarrow> bytes \<Rightarrow> MessageFragment option" where
  "log_fragment_from_packet_bytes h bs =
     (if length bs < LOG_PACKET_HEADER_LEN then None
      else let fragment = drop LOG_PACKET_HEADER_LEN bs in
        if lh_fragment_offset h + length fragment > lh_message_len h then None
        else Some \<lparr>mf_packet_type = PacketType.Log, mf_packet_index = lh_packet_index h,
               mf_ack_eliciting = False, mf_message_id = lh_message_id h,
               mf_message_len = lh_message_len h, mf_fragment_offset = lh_fragment_offset h,
               mf_bytes = fragment\<rparr>)"

definition data_from_packet_bytes :: "bytes \<Rightarrow> DecodedData option" where
  "data_from_packet_bytes bs =
     Option.bind (data_header_from_bytes bs) (\<lambda>header.
     Option.bind (data_fragment_from_packet_bytes header bs) (\<lambda>fragment.
       Some \<lparr>dd_header = header, dd_fragment = fragment\<rparr>))"

definition log_from_packet_bytes :: "bytes \<Rightarrow> DecodedLog option" where
  "log_from_packet_bytes bs =
     Option.bind (log_header_from_bytes bs) (\<lambda>header.
     Option.bind (log_fragment_from_packet_bytes header bs) (\<lambda>fragment.
       Some \<lparr>dl_header = header, dl_fragment = fragment\<rparr>))"

definition liveness_from_packet_bytes :: "bytes \<Rightarrow> PacketType option" where
  "liveness_from_packet_bytes bs =
     (if length bs \<noteq> LIVENESS_PACKET_HEADER_LEN then None
      else Option.bind (get_byte bs 0) (\<lambda>code.
           Option.bind (PacketType_from_code code) (\<lambda>packet_type.
             case packet_type of PacketType.Ping \<Rightarrow> Some packet_type
             | PacketType.Pong \<Rightarrow> Some packet_type | _ \<Rightarrow> None)))"

definition decode_packet_bytes :: "bytes \<Rightarrow> PacketDecode" where
  "decode_packet_bytes bs =
     (case Option.bind (get_byte bs 0) PacketType_from_code of
        Some PacketType.Ack \<Rightarrow>
          (case ack_from_packet_bytes bs of Some a \<Rightarrow> PacketDecode.Ack a | None \<Rightarrow> Malformed)
      | Some PacketType.Ping \<Rightarrow>
          (case liveness_from_packet_bytes bs of
             Some PacketType.Ping \<Rightarrow> PacketDecode.Ping
           | Some PacketType.Pong \<Rightarrow> PacketDecode.Pong | _ \<Rightarrow> Malformed)
      | Some PacketType.Pong \<Rightarrow>
          (case liveness_from_packet_bytes bs of
             Some PacketType.Ping \<Rightarrow> PacketDecode.Ping
           | Some PacketType.Pong \<Rightarrow> PacketDecode.Pong | _ \<Rightarrow> Malformed)
      | None \<Rightarrow> Malformed
      | Some PacketType.Data \<Rightarrow>
          (case data_from_packet_bytes bs of Some d \<Rightarrow> PacketDecode.Data d | None \<Rightarrow> Malformed)
      | Some PacketType.Log \<Rightarrow>
          (case log_from_packet_bytes bs of Some l \<Rightarrow> PacketDecode.Log l | None \<Rightarrow> Malformed))"

definition PacketBytes_decode :: "PacketBytes \<Rightarrow> PacketDecode res" where
  "PacketBytes_decode p = res_bind (PacketBytes_as_bytes p) (\<lambda>bs. Ok (decode_packet_bytes bs))"

section \<open>engine/codec/outgoing.rs: encoders\<close>

definition ACK_PACKET_LEN :: usize where "ACK_PACKET_LEN = ACK_PACKET_HEADER_LEN"
definition LIVENESS_PACKET_LEN :: usize where "LIVENESS_PACKET_LEN = LIVENESS_PACKET_HEADER_LEN"

text \<open>The first three bytes of an envelope, written in place.\<close>

definition write_envelope_header :: "EnvelopeHeader \<Rightarrow> bytes \<Rightarrow> bytes" where
  "write_envelope_header h out =
     (copy_at out 0 (EnvelopeMagic_bytes EnvelopeMagic_MSRT))
       [WIRE_PACKET_LEN_OFFSET := packet_len h, WIRE_HEADER_CRC_OFFSET := hdr_crc h]"

text \<open>\<^verbatim>\<open>out[..total_len].split_at_mut(total_len - tag_len)\<close> followed by \<^verbatim>\<open>integrity.seal\<close>.\<close>

definition seal_envelope :: "IntegrityConfig \<Rightarrow> usize \<Rightarrow> bytes \<Rightarrow> (usize \<times> bytes) res" where
  "seal_envelope cfg total_len out =
     (let authenticated = take (total_len - Integrity_tag_len cfg) out;
          tag = slice out (total_len - Integrity_tag_len cfg) total_len in
      res_bind (Integrity_seal cfg authenticated tag) (\<lambda>tag'.
        Ok (total_len, authenticated @ tag' @ drop total_len out)))"

definition encode_fragment_header :: "PacketHeader \<Rightarrow> bytes \<Rightarrow> bytes res" where
  "encode_fragment_header header packet =
     (if packet = [] then Panic
      else let packet = packet[0 := PacketType_code (ph_packet_type header)] in
        case ph_body header of
          PacketHeaderBody.Data h \<Rightarrow>
            if length packet < DATA_PACKET_HEADER_LEN then Err Error_buffer_too_small
            else res_bind (try_from Engine (dh_message_len h)) (\<lambda>message_len :: u16.
                 res_bind (try_from Engine (dh_fragment_offset h)) (\<lambda>fragment_offset :: u16.
                   let p1 = packet[1 := Flags_bits (dh_flags h)];
                       p2 = copy_at p1 2 (to_le 4 (MessageId_get (dh_message_id h)));
                       p3 = copy_at p2 6 (to_le 2 (PacketIndex_get (dh_packet_index h)));
                       p4 = copy_at p3 8 (to_le 2 message_len);
                       p5 = copy_at p4 10 (to_le 2 fragment_offset) in
                   Ok p5))
        | PacketHeaderBody.Log h \<Rightarrow>
            if length packet < LOG_PACKET_HEADER_LEN then Err Error_buffer_too_small
            else res_bind (try_from Engine (lh_message_len h)) (\<lambda>message_len :: u16.
                 res_bind (try_from Engine (lh_fragment_offset h)) (\<lambda>fragment_offset :: u16.
                   let p2 = copy_at packet 1 (to_le 4 (MessageId_get (lh_message_id h)));
                       p3 = copy_at p2 5 (to_le 2 (PacketIndex_get (lh_packet_index h)));
                       p4 = copy_at p3 7 (to_le 2 message_len);
                       p5 = copy_at p4 9 (to_le 2 fragment_offset) in
                   Ok p5))
        | _ \<Rightarrow> Err (Error_new Engine))"

definition encode_message_fragment ::
  "PacketHeader \<Rightarrow> bytes \<Rightarrow> bytes \<Rightarrow> IntegrityConfig \<Rightarrow> (usize \<times> bytes) res" where
  "encode_message_fragment header fragment out cfg =
     (let write = (\<lambda>header_len.
        res_bind (try_from Engine (header_len + length fragment)) (\<lambda>pl :: u8.
          let eh = EnvelopeHeader_new pl;
              total = EnvelopeHeader_total_len eh (Integrity_tag_len cfg) in
          if length out < total then Err Error_buffer_too_small
          else let out1 = write_envelope_header eh out in
            res_bind (encode_fragment_header header (drop WIRE_HEADER_LEN out1)) (\<lambda>packet.
              seal_envelope cfg total
                (take WIRE_HEADER_LEN out1 @ copy_at packet header_len fragment)))) in
      case ph_body header of
        PacketHeaderBody.Data _ \<Rightarrow> write DATA_PACKET_HEADER_LEN
      | PacketHeaderBody.Log _ \<Rightarrow> write LOG_PACKET_HEADER_LEN
      | _ \<Rightarrow> Err (Error_new Engine))"

definition packet_header_for_fragment ::
  "PacketType \<Rightarrow> PacketIndex \<Rightarrow> MessageId \<Rightarrow> usize \<Rightarrow> usize \<Rightarrow> ReliabilityMode \<Rightarrow> PacketHeader res" where
  "packet_header_for_fragment t i m l off mode =
     (case t of
        PacketType.Data \<Rightarrow> Ok (PacketHeader_data i
          (if mode = Reliable then Flags_ACK_ELICITING else Flags_EMPTY) m l off)
      | PacketType.Log \<Rightarrow> Ok (PacketHeader_log i m l off)
      | _ \<Rightarrow> Err (Error_new Engine))"

definition encode_ack_packet :: "PacketKey \<Rightarrow> bytes \<Rightarrow> IntegrityConfig \<Rightarrow> (usize \<times> bytes) res" where
  "encode_ack_packet key out cfg =
     res_bind (try_from Engine ACK_PACKET_LEN) (\<lambda>pl :: u8.
       let eh = EnvelopeHeader_new pl;
           total = EnvelopeHeader_total_len eh (Integrity_tag_len cfg) in
       if length out < total then Err Error_buffer_too_small
       else let out1 = write_envelope_header eh out;
                p0 = (drop WIRE_HEADER_LEN out1)[0 := PacketType_code PacketType.Ack];
                p1 = copy_at p0 1 (to_le 4 (MessageId_get (key_message_id key)));
                p2 = copy_at p1 5 (to_le 2 (PacketIndex_get (key_packet_index key))) in
            seal_envelope cfg total (take WIRE_HEADER_LEN out1 @ p2))"

definition encode_liveness_packet :: "PacketType \<Rightarrow> bytes \<Rightarrow> IntegrityConfig \<Rightarrow> (usize \<times> bytes) res" where
  "encode_liveness_packet t out cfg =
     res_bind (try_from Engine LIVENESS_PACKET_LEN) (\<lambda>pl :: u8.
       let eh = EnvelopeHeader_new pl;
           total = EnvelopeHeader_total_len eh (Integrity_tag_len cfg) in
       if length out < total then Err Error_buffer_too_small
       else let out1 = write_envelope_header eh out;
                p0 = (drop WIRE_HEADER_LEN out1)[0 := PacketType_code t] in
            seal_envelope cfg total (take WIRE_HEADER_LEN out1 @ p0))"

definition reliability_mode :: "PacketType \<Rightarrow> ReliabilityMode res" where
  "reliability_mode t = (case t of PacketType.Data \<Rightarrow> Ok Reliable | PacketType.Log \<Rightarrow> Ok BestEffort
     | _ \<Rightarrow> Err (Error_new Engine))"

definition max_fragment_bytes :: "PacketType \<Rightarrow> usize \<Rightarrow> usize res" where
  "max_fragment_bytes t tag_len =
     (let room = (\<lambda>header_len.
        if WIRE_HEADER_LEN + header_len + tag_len \<le> MAX_WIRE_BYTES
        then Ok (MAX_WIRE_BYTES - WIRE_HEADER_LEN - header_len - tag_len) else Panic) in
      case t of
        PacketType.Data \<Rightarrow> room DATA_PACKET_HEADER_LEN
      | PacketType.Log \<Rightarrow> room LOG_PACKET_HEADER_LEN
      | _ \<Rightarrow> Err (Error_new Engine))"

definition fragment_count :: "usize \<Rightarrow> usize \<Rightarrow> usize" where
  "fragment_count message_len fragment_len =
     (if message_len = 0 then 1 else (message_len + fragment_len - 1) div fragment_len)"

section \<open>The layouts as specifications\<close>

definition data_packet :: "DataHeader \<Rightarrow> bytes \<Rightarrow> bytes" where
  "data_packet h payload = [DATA_CODE, Flags_bits (dh_flags h)]
     @ to_le 4 (MessageId_get (dh_message_id h)) @ to_le 2 (PacketIndex_get (dh_packet_index h))
     @ to_le 2 (of_nat (dh_message_len h) :: u16) @ to_le 2 (of_nat (dh_fragment_offset h) :: u16)
     @ payload"

definition log_packet :: "LogHeader \<Rightarrow> bytes \<Rightarrow> bytes" where
  "log_packet h payload = [LOG_CODE]
     @ to_le 4 (MessageId_get (lh_message_id h)) @ to_le 2 (PacketIndex_get (lh_packet_index h))
     @ to_le 2 (of_nat (lh_message_len h) :: u16) @ to_le 2 (of_nat (lh_fragment_offset h) :: u16)
     @ payload"

definition ack_packet :: "PacketKey \<Rightarrow> bytes" where
  "ack_packet k = [ACK_CODE] @ to_le 4 (MessageId_get (key_message_id k))
     @ to_le 2 (PacketIndex_get (key_packet_index k))"

definition data_fragment :: "DataHeader \<Rightarrow> bytes \<Rightarrow> MessageFragment" where
  "data_fragment h payload =
     \<lparr>mf_packet_type = PacketType.Data, mf_packet_index = dh_packet_index h,
      mf_ack_eliciting = DataHeader_is_ack_eliciting h, mf_message_id = dh_message_id h,
      mf_message_len = dh_message_len h, mf_fragment_offset = dh_fragment_offset h,
      mf_bytes = payload\<rparr>"

definition log_fragment :: "LogHeader \<Rightarrow> bytes \<Rightarrow> MessageFragment" where
  "log_fragment h payload =
     \<lparr>mf_packet_type = PacketType.Log, mf_packet_index = lh_packet_index h,
      mf_ack_eliciting = False, mf_message_id = lh_message_id h,
      mf_message_len = lh_message_len h, mf_fragment_offset = lh_fragment_offset h,
      mf_bytes = payload\<rparr>"

lemma packet_lengths [simp]:
  "length (data_packet h p) = 12 + length p" "length (log_packet l p) = 11 + length p"
  "length (ack_packet k) = 7"
  by (simp_all add: data_packet_def log_packet_def ack_packet_def)

section \<open>Encoding in place\<close>

lemma update_0: "xs \<noteq> [] \<Longrightarrow> xs[0 := v] = v # drop (Suc 0) xs"
  by (cases xs) simp_all

lemma write_envelope_header_eq:
  assumes "3 \<le> length out"
  shows "write_envelope_header h out = [0xA5, packet_len h, hdr_crc h] @ drop 3 out"
proof -
  obtain a b c rest where "out = a # b # c # rest"
    using assms by (cases out; cases "tl out"; cases "tl (tl out)") auto
  then show ?thesis by (simp add: write_envelope_header_def copy_at_def numeral_2_eq_2)
qed

lemma seal_envelope_eq:
  assumes "Integrity_tag_len cfg \<le> n" "n \<le> length out"
  shows "seal_envelope cfg n out =
    Ok (n, take (n - Integrity_tag_len cfg) out @
      Integrity_tag cfg (take (n - Integrity_tag_len cfg) out) @ drop n out)"
proof -
  have "length (slice out (n - Integrity_tag_len cfg) n) = Integrity_tag_len cfg" using assms by simp
  from integrity.seal_exact[OF this] show ?thesis by (simp add: seal_envelope_def Let_def)
qed

text \<open>Sealing an envelope whose packet part has been written gives a frame.\<close>

lemma seal_frame:
  assumes "length pkt < 256" "n = 3 + length pkt + Integrity_tag_len cfg" "n \<le> 3 + length pkt + length rest"
  shows "seal_envelope cfg n ([0xA5, of_nat (length pkt), header_crc (of_nat (length pkt))] @ pkt @ rest) =
    Ok (n, wire_frame cfg pkt @ drop (Integrity_tag_len cfg) rest)"
proof -
  let ?out = "[0xA5, of_nat (length pkt), header_crc (of_nat (length pkt))] @ pkt @ rest"
  have out: "?out = wire_body pkt @ rest" by (simp add: wire_body_def)
  have "take (n - Integrity_tag_len cfg) ?out = wire_body pkt" "drop n ?out = drop (Integrity_tag_len cfg) rest"
    unfolding out using assms(2) by simp_all
  then show ?thesis
    using seal_envelope_eq[of cfg n ?out] assms by (simp add: wire_frame_def)
qed

text \<open>Field after field, the header writes fill the buffer from the left.\<close>

lemma copy_fields:
  assumes "length pre = i" "length src = n"
  shows "copy_at (pre @ drop i buf) i src = pre @ src @ drop (n + i) buf"
  using assms by (simp add: copy_at_def)

lemma encode_data_header:
  assumes "ph_body ph = PacketHeaderBody.Data h" "ph_packet_type ph = PacketType.Data" "12 \<le> length packet"
    and "dh_message_len h < 2 ^ 16" "dh_fragment_offset h < 2 ^ 16"
  shows "encode_fragment_header ph packet = Ok (data_packet h [] @ drop 12 packet)"
proof -
  have ne: "packet \<noteq> []" "2 \<le> length packet" using assms(3) by auto
  note steps = copy_fields[of "[c, f]" 2 "to_le 4 (w::u32)" 4 packet for c f w]
    copy_fields[of "[c, f] @ to_le 4 (w::u32)" 6 "to_le 2 (v::u16)" 2 packet for c f w v]
    copy_fields[of "[c, f] @ to_le 4 (w::u32) @ to_le 2 (v::u16)" 8 "to_le 2 (u::u16)" 2 packet for c f w v u]
    copy_fields[of "[c, f] @ to_le 4 (w::u32) @ to_le 2 (v::u16) @ to_le 2 (u::u16)" 10 "to_le 2 (t::u16)" 2 packet
      for c f w v u t]
  show ?thesis
    using assms ne
    by (simp add: encode_fragment_header_def header_lens try_from_def data_packet_def Let_def
        update_0 steps[simplified] flip: numeral_2_eq_2)
qed

lemma encode_log_header:
  assumes "ph_body ph = PacketHeaderBody.Log h" "ph_packet_type ph = PacketType.Log" "11 \<le> length packet"
    and "lh_message_len h < 2 ^ 16" "lh_fragment_offset h < 2 ^ 16"
  shows "encode_fragment_header ph packet = Ok (log_packet h [] @ drop 11 packet)"
proof -
  have ne: "packet \<noteq> []" using assms(3) by auto
  note steps = copy_fields[of "[c]" 1 "to_le 4 (w::u32)" 4 packet for c w]
    copy_fields[of "[c] @ to_le 4 (w::u32)" 5 "to_le 2 (v::u16)" 2 packet for c w v]
    copy_fields[of "[c] @ to_le 4 (w::u32) @ to_le 2 (v::u16)" 7 "to_le 2 (u::u16)" 2 packet for c w v u]
    copy_fields[of "[c] @ to_le 4 (w::u32) @ to_le 2 (v::u16) @ to_le 2 (u::u16)" 9 "to_le 2 (t::u16)" 2 packet
      for c w v u t]
  show ?thesis
    using assms ne
    by (simp add: encode_fragment_header_def header_lens try_from_def log_packet_def Let_def
        update_0 steps[simplified])
qed

text \<open>What the encoders compute: an error, or one frame at the front of the buffer.\<close>

lemma envelope_sel [simp]:
  "packet_len (EnvelopeHeader_new l) = l" "hdr_crc (EnvelopeHeader_new l) = header_crc l"
  "EnvelopeHeader_total_len (EnvelopeHeader_new l) n = 3 + unat l + n"
  by (simp_all add: EnvelopeHeader_new_def EnvelopeHeader_total_len_def)

text \<open>The part the fragment encoders share, once the header writer is known.\<close>

lemma encode_fragment_common:
  assumes "header_len + length payload < 256" "n = 3 + header_len + length payload + Integrity_tag_len cfg"
    and "n \<le> length out" "0 < header_len" "length pkt = header_len"
    and "encode_fragment_header ph (drop 3 out) = Ok (pkt @ drop header_len (drop 3 out))"
  shows "res_bind (try_from Engine (header_len + length payload)) (\<lambda>pl :: u8.
          let eh = EnvelopeHeader_new pl;
              total = EnvelopeHeader_total_len eh (Integrity_tag_len cfg) in
          if length out < total then Err Error_buffer_too_small
          else let out1 = write_envelope_header eh out in
            res_bind (encode_fragment_header ph (drop WIRE_HEADER_LEN out1)) (\<lambda>packet.
              seal_envelope cfg total
                (take WIRE_HEADER_LEN out1 @ copy_at packet header_len payload)))
    = Ok (n, wire_frame cfg (pkt @ payload) @ drop n out)"
proof -
  define w :: u8 where "w = of_nat (header_len + length payload)"
  have w: "try_from Engine (header_len + length payload) = Ok w" "unat w = header_len + length payload"
    using assms(1) by (simp_all only: try_from_def w_def unat_of_nat_u8) simp
  have out1: "write_envelope_header (EnvelopeHeader_new w) out = [0xA5, w, header_crc w] @ drop 3 out"
    using write_envelope_header_eq[of out "EnvelopeHeader_new w"] assms by simp
  have copy: "copy_at (pkt @ drop header_len (drop 3 out)) header_len payload
      = (pkt @ payload) @ drop (length payload + header_len) (drop 3 out)"
    using copy_fields[of pkt header_len payload "length payload" "drop 3 out"] assms(5) by simp
  have "seal_envelope cfg n ([0xA5, w, header_crc w] @ (pkt @ payload) @ drop (length payload + header_len) (drop 3 out))
    = Ok (n, wire_frame cfg (pkt @ payload) @ drop n out)"
    using seal_frame[of "pkt @ payload" n cfg "drop (length payload + header_len) (drop 3 out)"] assms
    by (simp add: w_def ac_simps)
  moreover have "EnvelopeHeader_total_len (EnvelopeHeader_new w) (Integrity_tag_len cfg) = n"
    using w(2) assms(2) by simp
  ultimately show ?thesis
    using assms(3,6) out1 copy by (simp add: w(1))
qed

lemma encode_data_fragment:
  assumes "ph_body ph = PacketHeaderBody.Data h" "ph_packet_type ph = PacketType.Data"
    and "dh_message_len h < 2 ^ 16" "dh_fragment_offset h < 2 ^ 16"
    and "12 + length payload < 256" "n = 15 + length payload + Integrity_tag_len cfg" "n \<le> length out"
  shows "encode_message_fragment ph payload out cfg = Ok (n, wire_frame cfg (data_packet h payload) @ drop n out)"
proof -
  have "data_packet h payload = data_packet h [] @ payload" by (simp add: data_packet_def)
  then show ?thesis
    using encode_fragment_common[of 12 payload n cfg out "data_packet h []" ph]
      encode_data_header[OF assms(1,2), of "drop 3 out"] assms
    by (simp add: encode_message_fragment_def header_lens)
qed

lemma encode_log_fragment:
  assumes "ph_body ph = PacketHeaderBody.Log h" "ph_packet_type ph = PacketType.Log"
    and "lh_message_len h < 2 ^ 16" "lh_fragment_offset h < 2 ^ 16"
    and "11 + length payload < 256" "n = 14 + length payload + Integrity_tag_len cfg" "n \<le> length out"
  shows "encode_message_fragment ph payload out cfg = Ok (n, wire_frame cfg (log_packet h payload) @ drop n out)"
proof -
  have "log_packet h payload = log_packet h [] @ payload" by (simp add: log_packet_def)
  then show ?thesis
    using encode_fragment_common[of 11 payload n cfg out "log_packet h []" ph]
      encode_log_header[OF assms(1,2), of "drop 3 out"] assms
    by (simp add: encode_message_fragment_def header_lens)
qed

lemma encode_ack_packet_eq:
  "encode_ack_packet k out cfg =
     (if length out < 10 + Integrity_tag_len cfg then Err Error_buffer_too_small
      else Ok (10 + Integrity_tag_len cfg,
             wire_frame cfg (ack_packet k) @ drop (10 + Integrity_tag_len cfg) out))"
proof (cases "length out < 10 + Integrity_tag_len cfg")
  case True
  then show ?thesis by (simp add: encode_ack_packet_def ACK_PACKET_LEN_def header_lens try_from_def)
next
  case False
  have out1: "write_envelope_header (EnvelopeHeader_new 7) out = [0xA5, 7, header_crc 7] @ drop 3 out"
    using write_envelope_header_eq[of out "EnvelopeHeader_new 7"] False by simp
  note steps = copy_fields[of "[c]" 1 "to_le 4 (w::u32)" 4 "drop 3 out" for c w]
    copy_fields[of "[c] @ to_le 4 (w::u32)" 5 "to_le 2 (v::u16)" 2 "drop 3 out" for c w v]
  have "copy_at (copy_at ((drop 3 out)[0 := ACK_CODE]) 1 (to_le 4 (MessageId_get (key_message_id k)))) 5
      (to_le 2 (PacketIndex_get (key_packet_index k))) = ack_packet k @ drop 10 out"
    using False steps by (simp add: update_0 ack_packet_def)
  moreover have "seal_envelope cfg (10 + Integrity_tag_len cfg) ([0xA5, 7, header_crc 7] @ ack_packet k @ drop 10 out)
    = Ok (10 + Integrity_tag_len cfg, wire_frame cfg (ack_packet k) @ drop (10 + Integrity_tag_len cfg) out)"
    using seal_frame[of "ack_packet k" "10 + Integrity_tag_len cfg" cfg "drop 10 out"] False
    by (simp add: ac_simps)
  ultimately show ?thesis
    using False out1 by (simp add: encode_ack_packet_def ACK_PACKET_LEN_def header_lens try_from_def Let_def)
qed

lemma encode_liveness_packet_eq:
  "encode_liveness_packet t out cfg =
     (if length out < 4 + Integrity_tag_len cfg then Err Error_buffer_too_small
      else Ok (4 + Integrity_tag_len cfg,
             wire_frame cfg [PacketType_code t] @ drop (4 + Integrity_tag_len cfg) out))"
proof (cases "length out < 4 + Integrity_tag_len cfg")
  case True
  then show ?thesis
    by (simp add: encode_liveness_packet_def LIVENESS_PACKET_LEN_def header_lens try_from_def)
next
  case False
  have out1: "write_envelope_header (EnvelopeHeader_new 1) out = [0xA5, 1, header_crc 1] @ drop 3 out"
    using write_envelope_header_eq[of out "EnvelopeHeader_new 1"] False by simp
  have "(drop 3 out)[0 := PacketType_code t] = [PacketType_code t] @ drop 4 out"
    using False by (simp add: update_0)
  moreover have "seal_envelope cfg (4 + Integrity_tag_len cfg) ([0xA5, 1, header_crc 1] @ [PacketType_code t] @ drop 4 out)
    = Ok (4 + Integrity_tag_len cfg, wire_frame cfg [PacketType_code t] @ drop (4 + Integrity_tag_len cfg) out)"
    using seal_frame[of "[PacketType_code t]" "4 + Integrity_tag_len cfg" cfg "drop 4 out"] False
    by (simp add: ac_simps)
  ultimately show ?thesis
    using False out1
    by (simp add: encode_liveness_packet_def LIVENESS_PACKET_LEN_def header_lens try_from_def Let_def)
qed

section \<open>Decoding\<close>

lemma get_byte_simps [simp]:
  "get_byte (x # xs) 0 = Some x" "get_byte [] i = None" "get_byte (x # y # xs) (Suc 0) = Some y"
  by (simp_all add: get_byte_def)

lemma get_le_append:
  assumes "length pre = i" "i + n = j" "8 * n = LENGTH('a::len)"
  shows "get_le (pre @ to_le n (w :: 'a word) @ rest) i j = Some w"
  using assms by (auto simp: get_le_def slice_def)

lemma decode_data_packet:
  assumes "dh_message_len h < 2 ^ 16" "dh_fragment_offset h + length payload \<le> dh_message_len h"
  shows "decode_packet_bytes (data_packet h payload) =
    PacketDecode.Data \<lparr>dd_header = h, dd_fragment = data_fragment h payload\<rparr>"
proof -
  obtain f m i l off where h: "h = DataHeader_new (Flags f) (MessageId m) (PacketIndex i) l off"
    by (cases h) (metis DataHeader_new_def Flags.exhaust MessageId.exhaust PacketIndex.exhaust)
  have lens: "l < 2 ^ 16" "off < 2 ^ 16" using assms by (simp_all add: h DataHeader_new_def)
  then have un: "unat (of_nat l :: u16) = l" "unat (of_nat off :: u16) = off"
    by (simp_all add: unat_of_nat_fits)
  note gets = get_le_append[of "[c, f]" 2 4 6 m r for c r]
    get_le_append[of "[c, f] @ to_le 4 m" 6 2 8 i r for c r]
    get_le_append[of "[c, f] @ to_le 4 m @ to_le 2 i" 8 2 10 "of_nat l :: u16" r for c r]
    get_le_append[of "[c, f] @ to_le 4 m @ to_le 2 i @ to_le 2 (of_nat l :: u16)" 10 2 12 "of_nat off :: u16" r for c r]
  have "data_header_from_bytes (data_packet h payload) = Some h"
    by (simp add: data_header_from_bytes_def header_lens data_packet_def h DataHeader_new_def
        gets[simplified] un)
  moreover have "drop 12 (data_packet h payload) = payload"
    by (simp add: data_packet_def)
  moreover have "get_byte (data_packet h payload) 0 = Some (PacketType_code PacketType.Data)"
    by (simp add: data_packet_def)
  ultimately show ?thesis
    using assms
    by (simp add: decode_packet_bytes_def data_from_packet_bytes_def data_fragment_from_packet_bytes_def
        header_lens data_fragment_def del: PacketType_code.simps)
qed

lemma decode_log_packet:
  assumes "lh_message_len h < 2 ^ 16" "lh_fragment_offset h + length payload \<le> lh_message_len h"
  shows "decode_packet_bytes (log_packet h payload) =
    PacketDecode.Log \<lparr>dl_header = h, dl_fragment = log_fragment h payload\<rparr>"
proof -
  obtain m i l off where h: "h = LogHeader_new (MessageId m) (PacketIndex i) l off"
    by (cases h) (metis LogHeader_new_def MessageId.exhaust PacketIndex.exhaust)
  have lens: "l < 2 ^ 16" "off < 2 ^ 16" using assms by (simp_all add: h LogHeader_new_def)
  then have un: "unat (of_nat l :: u16) = l" "unat (of_nat off :: u16) = off"
    by (simp_all add: unat_of_nat_fits)
  note gets = get_le_append[of "[c]" 1 4 5 m r for c r]
    get_le_append[of "[c] @ to_le 4 m" 5 2 7 i r for c r]
    get_le_append[of "[c] @ to_le 4 m @ to_le 2 i" 7 2 9 "of_nat l :: u16" r for c r]
    get_le_append[of "[c] @ to_le 4 m @ to_le 2 i @ to_le 2 (of_nat l :: u16)" 9 2 11 "of_nat off :: u16" r for c r]
  have "log_header_from_bytes (log_packet h payload) = Some h"
    by (simp add: log_header_from_bytes_def header_lens log_packet_def h LogHeader_new_def
        gets[simplified] un)
  moreover have "drop 11 (log_packet h payload) = payload"
    by (simp add: log_packet_def)
  moreover have "get_byte (log_packet h payload) 0 = Some (PacketType_code PacketType.Log)"
    by (simp add: log_packet_def)
  ultimately show ?thesis
    using assms
    by (simp add: decode_packet_bytes_def log_from_packet_bytes_def log_fragment_from_packet_bytes_def
        header_lens log_fragment_def del: PacketType_code.simps)
qed

lemma decode_ack_packet: "decode_packet_bytes (ack_packet k) = PacketDecode.Ack \<lparr>da_key = k\<rparr>"
proof -
  obtain m i where k: "k = PacketKey_new (MessageId m) (PacketIndex i)"
    by (cases k) (metis PacketKey_new_def MessageId.exhaust PacketIndex.exhaust)
  show ?thesis
    using get_le_append[of "[ACK_CODE]" 1 4 5 m "to_le 2 i"] get_le_append[of "[ACK_CODE] @ to_le 4 m" 5 2 7 i "[]"]
      PacketType_from_code_code[of PacketType.Ack]
    by (simp add: decode_packet_bytes_def ack_from_packet_bytes_def header_lens ack_packet_def k)
qed

lemma decode_liveness:
  "decode_packet_bytes [PacketType_code PacketType.Ping] = PacketDecode.Ping"
  "decode_packet_bytes [PacketType_code PacketType.Pong] = PacketDecode.Pong"
  using PacketType_from_code_code[of PacketType.Ping] PacketType_from_code_code[of PacketType.Pong]
  by (simp_all add: decode_packet_bytes_def liveness_from_packet_bytes_def header_lens)

text \<open>Whatever is decoded was laid out as specified.\<close>

lemma get_leD:
  assumes "get_le bs i j = Some (w :: 'a::len word)"
  shows "slice bs i j = to_le (j - i) w" "j \<le> length bs" "i \<le> j"
  using assms to_le_from_le[of "slice bs i j" "j - i", where 'a = 'a]
  by (auto simp: get_le_def split: if_splits)

lemma slice_chain: "i \<le> j \<Longrightarrow> j \<le> k \<Longrightarrow> slice bs i j @ slice bs j k = slice bs i k"
  using take_add[of "j - i" "k - j" "drop i bs"] by (simp add: slice_def)

lemma data_header_from_bytesD:
  assumes "data_header_from_bytes bs = Some h" "get_byte bs 0 = Some DATA_CODE"
  shows "bs = data_packet h (drop 12 bs)" "dh_message_len h < 2 ^ 16" "dh_fragment_offset h < 2 ^ 16"
proof -
  obtain f m i l off where g: "get_byte bs 1 = Some f" "get_le bs 2 6 = Some (m::u32)"
      "get_le bs 6 8 = Some (i::u16)" "get_le bs 8 10 = Some (l::u16)" "get_le bs 10 12 = Some (off::u16)"
    and h: "h = DataHeader_new (Flags f) (MessageId m) (PacketIndex i) (unat l) (unat off)"
    and len: "12 \<le> length bs"
    using assms(1) by (auto simp: data_header_from_bytes_def header_lens bind_eq_Some_conv split: if_splits)
  show "dh_message_len h < 2 ^ 16" "dh_fragment_offset h < 2 ^ 16"
    using unat_lt2p[of l] unat_lt2p[of off] by (simp_all add: h DataHeader_new_def)
  obtain a b rest where bs: "bs = a # b # rest" using len by (cases bs; cases "tl bs") auto
  then have ab: "a = DATA_CODE" "b = f" using assms(2) g(1) by (simp_all add: get_byte_def)
  have "bs = [a, b] @ slice bs 2 12 @ drop 12 bs"
    by (simp add: bs slice_def numeral_2_eq_2)
  also have "slice bs 2 12 = slice bs 2 6 @ slice bs 6 8 @ slice bs 8 10 @ slice bs 10 12"
    by (simp add: slice_chain)
  also have "\<dots> = to_le 4 m @ to_le 2 i @ to_le 2 l @ to_le 2 off"
    using g(2-)[THEN get_leD(1)] by simp
  finally show "bs = data_packet h (drop 12 bs)"
    by (simp add: data_packet_def h DataHeader_new_def ab)
qed

lemma log_header_from_bytesD:
  assumes "log_header_from_bytes bs = Some h" "get_byte bs 0 = Some LOG_CODE"
  shows "bs = log_packet h (drop 11 bs)" "lh_message_len h < 2 ^ 16" "lh_fragment_offset h < 2 ^ 16"
proof -
  obtain m i l off where g: "get_le bs 1 5 = Some (m::u32)"
      "get_le bs 5 7 = Some (i::u16)" "get_le bs 7 9 = Some (l::u16)" "get_le bs 9 11 = Some (off::u16)"
    and h: "h = LogHeader_new (MessageId m) (PacketIndex i) (unat l) (unat off)"
    and len: "11 \<le> length bs"
    using assms(1) by (auto simp: log_header_from_bytes_def header_lens bind_eq_Some_conv split: if_splits)
  show "lh_message_len h < 2 ^ 16" "lh_fragment_offset h < 2 ^ 16"
    using unat_lt2p[of l] unat_lt2p[of off] by (simp_all add: h LogHeader_new_def)
  obtain a rest where bs: "bs = a # rest" using len by (cases bs) auto
  then have a: "a = LOG_CODE" using assms(2) by (simp add: get_byte_def)
  have "bs = [a] @ slice bs 1 11 @ drop 11 bs"
    by (simp add: bs slice_def)
  also have "slice bs 1 11 = slice bs 1 5 @ slice bs 5 7 @ slice bs 7 9 @ slice bs 9 11"
    by (simp add: slice_chain)
  also have "\<dots> = to_le 4 m @ to_le 2 i @ to_le 2 l @ to_le 2 off"
    using g[THEN get_leD(1)] by simp
  finally show "bs = log_packet h (drop 11 bs)"
    by (simp add: log_packet_def h LogHeader_new_def a)
qed

lemma ack_from_packet_bytesD:
  assumes "ack_from_packet_bytes bs = Some a"
  shows "bs = ack_packet (da_key a)"
proof -
  obtain m i where g: "get_byte bs 0 = Some ACK_CODE" "get_le bs 1 5 = Some (m::u32)" "get_le bs 5 7 = Some (i::u16)"
    and a: "a = \<lparr>da_key = PacketKey_new (MessageId m) (PacketIndex i)\<rparr>" and len: "length bs = 7"
    using assms by (auto simp: ack_from_packet_bytes_def header_lens bind_eq_Some_conv split: if_splits)
  obtain c rest where bs: "bs = c # rest" using len by (cases bs) auto
  have "bs = [c] @ slice bs 1 7" using len by (simp add: bs slice_def)
  also have "slice bs 1 7 = slice bs 1 5 @ slice bs 5 7" by (simp add: slice_chain)
  also have "\<dots> = to_le 4 m @ to_le 2 i" using g(2-)[THEN get_leD(1)] by simp
  finally show ?thesis using g(1) bs by (simp add: ack_packet_def a get_byte_def)
qed

lemma liveness_from_packet_bytesD:
  assumes "liveness_from_packet_bytes bs = Some t"
  shows "bs = [PacketType_code t]" "t = PacketType.Ping \<or> t = PacketType.Pong"
proof -
  obtain c t' where "bs = [c]" "PacketType_from_code c = Some t'"
    "(case t' of PacketType.Ping \<Rightarrow> Some t' | PacketType.Pong \<Rightarrow> Some t' | _ \<Rightarrow> None) = Some t"
    using assms
    by (auto simp: liveness_from_packet_bytes_def header_lens bind_eq_Some_conv get_byte_def length_Suc_conv
        split: if_split_asm)
  then have "bs = [c]" "PacketType_from_code c = Some t" "t = PacketType.Ping \<or> t = PacketType.Pong"
    by (cases t'; simp)+
  then show "bs = [PacketType_code t]" "t = PacketType.Ping \<or> t = PacketType.Pong"
    by (auto simp: PacketType_from_code_Some)
qed

text \<open>The bytes of a decoded packet, and the side condition its sizes meet.\<close>

fun layout :: "PacketDecode \<Rightarrow> bytes" where
  "layout (PacketDecode.Data d) = data_packet (dd_header d) (mf_bytes (dd_fragment d))"
| "layout (PacketDecode.Log l) = log_packet (dl_header l) (mf_bytes (dl_fragment l))"
| "layout (PacketDecode.Ack a) = ack_packet (da_key a)"
| "layout PacketDecode.Ping = [PING_CODE]"
| "layout PacketDecode.Pong = [PONG_CODE]"
| "layout Malformed = []"

lemma decode_DataD:
  assumes "decode_packet_bytes bs = PacketDecode.Data d"
  shows "bs = data_packet (dd_header d) (mf_bytes (dd_fragment d))"
    "dd_fragment d = data_fragment (dd_header d) (mf_bytes (dd_fragment d))"
    "dh_message_len (dd_header d) < 2 ^ 16"
    "dh_fragment_offset (dd_header d) + length (mf_bytes (dd_fragment d)) \<le> dh_message_len (dd_header d)"
proof -
  have *: "get_byte bs 0 = Some DATA_CODE" "data_from_packet_bytes bs = Some d"
    using assms
    by (auto simp: decode_packet_bytes_def bind_eq_Some_conv PacketType_from_code_Some
        split: option.splits PacketType.splits)
  then have h: "data_header_from_bytes bs = Some (dd_header d)"
    and f: "data_fragment_from_packet_bytes (dd_header d) bs = Some (dd_fragment d)"
    by (auto simp: data_from_packet_bytes_def bind_eq_Some_conv)
  from f have "dd_fragment d = data_fragment (dd_header d) (drop 12 bs)"
    and le: "dh_fragment_offset (dd_header d) + length (drop 12 bs) \<le> dh_message_len (dd_header d)"
    by (auto simp: data_fragment_from_packet_bytes_def header_lens data_fragment_def Let_def split: if_splits)
  then have "mf_bytes (dd_fragment d) = drop 12 bs" "dd_fragment d = data_fragment (dd_header d) (drop 12 bs)"
    by (simp_all add: data_fragment_def)
  with le data_header_from_bytesD[OF h *(1)] show
    "bs = data_packet (dd_header d) (mf_bytes (dd_fragment d))"
    "dd_fragment d = data_fragment (dd_header d) (mf_bytes (dd_fragment d))"
    "dh_message_len (dd_header d) < 2 ^ 16"
    "dh_fragment_offset (dd_header d) + length (mf_bytes (dd_fragment d)) \<le> dh_message_len (dd_header d)"
    by simp_all
qed

lemma decode_LogD:
  assumes "decode_packet_bytes bs = PacketDecode.Log l"
  shows "bs = log_packet (dl_header l) (mf_bytes (dl_fragment l))"
    "dl_fragment l = log_fragment (dl_header l) (mf_bytes (dl_fragment l))"
    "lh_message_len (dl_header l) < 2 ^ 16"
    "lh_fragment_offset (dl_header l) + length (mf_bytes (dl_fragment l)) \<le> lh_message_len (dl_header l)"
proof -
  have *: "get_byte bs 0 = Some LOG_CODE" "log_from_packet_bytes bs = Some l"
    using assms
    by (auto simp: decode_packet_bytes_def bind_eq_Some_conv PacketType_from_code_Some
        split: option.splits PacketType.splits)
  then have h: "log_header_from_bytes bs = Some (dl_header l)"
    and f: "log_fragment_from_packet_bytes (dl_header l) bs = Some (dl_fragment l)"
    by (auto simp: log_from_packet_bytes_def bind_eq_Some_conv)
  from f have "dl_fragment l = log_fragment (dl_header l) (drop 11 bs)"
    and le: "lh_fragment_offset (dl_header l) + length (drop 11 bs) \<le> lh_message_len (dl_header l)"
    by (auto simp: log_fragment_from_packet_bytes_def header_lens log_fragment_def Let_def split: if_splits)
  then have "mf_bytes (dl_fragment l) = drop 11 bs" "dl_fragment l = log_fragment (dl_header l) (drop 11 bs)"
    by (simp_all add: log_fragment_def)
  with le log_header_from_bytesD[OF h *(1)] show
    "bs = log_packet (dl_header l) (mf_bytes (dl_fragment l))"
    "dl_fragment l = log_fragment (dl_header l) (mf_bytes (dl_fragment l))"
    "lh_message_len (dl_header l) < 2 ^ 16"
    "lh_fragment_offset (dl_header l) + length (mf_bytes (dl_fragment l)) \<le> lh_message_len (dl_header l)"
    by simp_all
qed

lemma decode_layout:
  assumes "decode_packet_bytes bs = d" "d \<noteq> Malformed"
  shows "layout d = bs"
proof (cases d)
  case (Data x)
  then show ?thesis using decode_DataD(1) assms by simp
next
  case (Log x)
  then show ?thesis using decode_LogD(1) assms by simp
next
  case (Ack x)
  then have "ack_from_packet_bytes bs = Some x"
    using assms by (auto simp: decode_packet_bytes_def split: option.splits PacketType.splits)
  then show ?thesis using ack_from_packet_bytesD Ack by simp
next
  case Ping
  then have "liveness_from_packet_bytes bs = Some PacketType.Ping"
    using assms by (auto simp: decode_packet_bytes_def split: option.splits PacketType.splits)
  then show ?thesis using liveness_from_packet_bytesD(1)[of bs PacketType.Ping] Ping by simp
next
  case Pong
  then have "liveness_from_packet_bytes bs = Some PacketType.Pong"
    using assms by (auto simp: decode_packet_bytes_def split: option.splits PacketType.splits)
  then show ?thesis using liveness_from_packet_bytesD(1)[of bs PacketType.Pong] Pong by simp
qed (use assms in simp)

section \<open>Fragment sizes\<close>

lemma max_fragment_bytes_ok:
  "max_fragment_bytes PacketType.Data (Integrity_tag_len cfg) = Ok (113 - Integrity_tag_len cfg)"
  "max_fragment_bytes PacketType.Log (Integrity_tag_len cfg) = Ok (114 - Integrity_tag_len cfg)"
  using Integrity_tag_len_le[of cfg] by (simp_all add: max_fragment_bytes_def header_lens Let_def)

lemma try_from_slice_decode:
  "length bs \<le> MAX_WIRE_BYTES \<Longrightarrow>
    res_bind (PacketBytes_try_from_slice bs) PacketBytes_decode = Ok (decode_packet_bytes bs)"
  by (simp add: PacketBytes_try_from_slice_def PacketBytes_decode_def PacketBytes_as_bytes_def
      split_at_fst_def copy_at_0)

text \<open>
  An encoder call on buffer \<open>out\<close> wrote one frame at its front, left the rest alone, and the
  framed packet decodes to \<open>d\<close>.
\<close>

definition writes_frame :: "(usize \<times> bytes) res \<Rightarrow> bytes \<Rightarrow> IntegrityConfig \<Rightarrow> PacketDecode \<Rightarrow> bool" where
  "writes_frame r out cfg d \<longleftrightarrow> (\<exists>pkt n. r = Ok (n, wire_frame cfg pkt @ drop n out) \<and>
     n = length (wire_frame cfg pkt) \<and> n \<le> length out \<and> decode_packet_bytes pkt = d)"

lemma writes_frameI:
  "r = Ok (n, wire_frame cfg pkt @ drop n out) \<Longrightarrow> n = length (wire_frame cfg pkt) \<Longrightarrow> n \<le> length out \<Longrightarrow>
    decode_packet_bytes pkt = d \<Longrightarrow> writes_frame r out cfg d"
  unfolding writes_frame_def by blast

section \<open>Properties\<close>

text \<open>
  C30. Data round trip: encoding a data fragment whose sizes fit writes exactly one wire frame at
  the front of the output buffer and leaves the rest of it alone; decoding the framed packet gives
  back the header, the acknowledgement request and the payload.
\<close>

theorem data_fragment_roundtrip:
  assumes "dh_message_len h < 2 ^ 16" "dh_fragment_offset h + length payload \<le> dh_message_len h"
    and "12 + length payload < 256" "15 + length payload + Integrity_tag_len cfg \<le> length out"
  shows "writes_frame (encode_message_fragment (PacketHeader_from_data_header h) payload out cfg) out cfg
    (PacketDecode.Data \<lparr>dd_header = h, dd_fragment = data_fragment h payload\<rparr>)"
proof (rule writes_frameI)
  show "encode_message_fragment (PacketHeader_from_data_header h) payload out cfg
      = Ok (15 + length payload + Integrity_tag_len cfg,
          wire_frame cfg (data_packet h payload) @ drop (15 + length payload + Integrity_tag_len cfg) out)"
    by (rule encode_data_fragment)
       (use assms in \<open>simp_all add: PacketHeader_from_data_header_def PacketHeader_data_def DataHeader_new_def\<close>)
  show "decode_packet_bytes (data_packet h payload) =
      PacketDecode.Data \<lparr>dd_header = h, dd_fragment = data_fragment h payload\<rparr>"
    using assms by (intro decode_data_packet)
qed (use assms in simp_all)

theorem data_fragment_roundtrip_witness:
  "writes_frame (encode_message_fragment
      (PacketHeader_from_data_header (DataHeader_new Flags_ACK_ELICITING (MessageId 9) (PacketIndex 1) 8 2))
      [1, 2, 3] (replicate 128 0) Crc32) (replicate 128 0) Crc32
    (PacketDecode.Data
      \<lparr>dd_header = DataHeader_new Flags_ACK_ELICITING (MessageId 9) (PacketIndex 1) 8 2,
       dd_fragment = data_fragment (DataHeader_new Flags_ACK_ELICITING (MessageId 9) (PacketIndex 1) 8 2) [1, 2, 3]\<rparr>)"
  by (rule data_fragment_roundtrip) (simp_all add: DataHeader_new_def Crc32_TAG_LEN_def)

text \<open>
  Log round trip: the same for log fragments, whose header has no flags and which never ask
  for an acknowledgement.
\<close>

lemma log_fragment_roundtrip:
  assumes "lh_message_len h < 2 ^ 16" "lh_fragment_offset h + length payload \<le> lh_message_len h"
    and "11 + length payload < 256" "14 + length payload + Integrity_tag_len cfg \<le> length out"
  shows "writes_frame (encode_message_fragment (PacketHeader_from_log_header h) payload out cfg) out cfg
    (PacketDecode.Log \<lparr>dl_header = h, dl_fragment = log_fragment h payload\<rparr>)"
proof (rule writes_frameI)
  show "encode_message_fragment (PacketHeader_from_log_header h) payload out cfg
      = Ok (14 + length payload + Integrity_tag_len cfg,
          wire_frame cfg (log_packet h payload) @ drop (14 + length payload + Integrity_tag_len cfg) out)"
    by (rule encode_log_fragment)
       (use assms in \<open>simp_all add: PacketHeader_from_log_header_def PacketHeader_log_def LogHeader_new_def\<close>)
  show "decode_packet_bytes (log_packet h payload) =
      PacketDecode.Log \<lparr>dl_header = h, dl_fragment = log_fragment h payload\<rparr>"
    using assms by (intro decode_log_packet)
qed (use assms in simp_all)

text \<open>
  C31. ACK and liveness packets: the encoders fail only on a buffer that is too small and
  otherwise write one frame, and decoding the framed packet gives back the acknowledged key, or
  Ping, or Pong.
\<close>

theorem control_packet_roundtrip:
  "(if length out < 10 + Integrity_tag_len cfg
    then encode_ack_packet k out cfg = Err Error_buffer_too_small
    else writes_frame (encode_ack_packet k out cfg) out cfg (PacketDecode.Ack \<lparr>da_key = k\<rparr>)) \<and>
   (if length out < 4 + Integrity_tag_len cfg
    then encode_liveness_packet PacketType.Ping out cfg = Err Error_buffer_too_small \<and>
      encode_liveness_packet PacketType.Pong out cfg = Err Error_buffer_too_small
    else writes_frame (encode_liveness_packet PacketType.Ping out cfg) out cfg PacketDecode.Ping \<and>
      writes_frame (encode_liveness_packet PacketType.Pong out cfg) out cfg PacketDecode.Pong)"
proof -
  have "writes_frame (encode_ack_packet k out cfg) out cfg (PacketDecode.Ack \<lparr>da_key = k\<rparr>)"
    if "\<not> length out < 10 + Integrity_tag_len cfg"
    by (rule writes_frameI[where n = "10 + Integrity_tag_len cfg", OF _ _ _ decode_ack_packet]) (use that in \<open>simp_all add: encode_ack_packet_eq\<close>)
  moreover have "writes_frame (encode_liveness_packet t out cfg) out cfg (decode_packet_bytes [PacketType_code t])"
    if "\<not> length out < 4 + Integrity_tag_len cfg" for t
    by (rule writes_frameI[where n = "4 + Integrity_tag_len cfg", OF _ _ _ refl]) (use that in \<open>simp_all add: encode_liveness_packet_eq\<close>)
  ultimately show ?thesis
    using decode_liveness encode_ack_packet_eq[of k out cfg] encode_liveness_packet_eq[of _ out cfg]
    by metis
qed

text \<open>
  C32. The decoder accepts only canonical layouts: bytes that decode to anything but \<open>Malformed\<close>
  are exactly the layout of what was decoded, so two different byte strings never decode to the
  same packet.
\<close>

theorem decode_is_canonical:
  "decode_packet_bytes bs = Malformed \<or> layout (decode_packet_bytes bs) = bs"
  using decode_layout by blast

end
