(* ===== verification/Recovery.thy ===== *)
theory Recovery
  imports Packet_Codec
begin

text \<open>
  The sender's loss-recovery state: the fixed table of packets waiting for an acknowledgement
  (\<^verbatim>\<open>src/engine/state/recovery/inflight.rs\<close>) and the recovery state around it
  (\<^verbatim>\<open>src/engine/state/recovery.rs\<close>).  The table is refined to a partial map from packet keys to
  packets; the locale \<open>packet_table\<close> states what the engine relies on, and is interpreted on the
  slot array.
\<close>

section \<open>engine/state/recovery/inflight.rs\<close>

record InFlightPacket =
  if_key :: PacketKey
  if_packet_type :: PacketType
  if_message_id :: MessageId
  if_bytes :: bytes
  if_len :: usize
  if_attempts :: u8
  if_last_sent_ms :: u64
  if_sent :: bool

record InFlightPackets =
  ifs_packets :: "InFlightPacket option list"
  ifs_len :: usize

definition InFlightPackets_new :: InFlightPackets where
  "InFlightPackets_new = \<lparr>ifs_packets = replicate MAX_IN_FLIGHT_PACKETS None, ifs_len = 0\<rparr>"

definition InFlightPackets_track :: "InFlightPacket \<Rightarrow> InFlightPackets \<Rightarrow> unit res \<times> InFlightPackets" where
  "InFlightPackets_track p s =
     (case slot_pos if_key (if_key p) (ifs_packets s) of
        Some i \<Rightarrow> (Ok (), s\<lparr>ifs_packets := (ifs_packets s)[i := Some p]\<rparr>)
      | None \<Rightarrow>
          (case slot_free (ifs_packets s) of
             Some i \<Rightarrow> (Ok (), s\<lparr>ifs_packets := (ifs_packets s)[i := Some p], ifs_len := ifs_len s + 1\<rparr>)
           | None \<Rightarrow> (Err (Error_new Engine), s)))"

definition InFlightPackets_apply_ack :: "PacketKey \<Rightarrow> InFlightPackets \<Rightarrow> InFlightPackets" where
  "InFlightPackets_apply_ack k s =
     (case slot_pos if_key k (ifs_packets s) of
        Some i \<Rightarrow> s\<lparr>ifs_packets := (ifs_packets s)[i := None], ifs_len := ifs_len s - 1\<rparr>
      | None \<Rightarrow> s)"

definition InFlightPackets_packets :: "InFlightPackets \<Rightarrow> InFlightPacket list" where
  "InFlightPackets_packets s = flatten (ifs_packets s)"

definition InFlightPackets_packet :: "PacketKey \<Rightarrow> InFlightPackets \<Rightarrow> InFlightPacket option" where
  "InFlightPackets_packet k s = find (\<lambda>p. if_key p = k) (flatten (ifs_packets s))"

definition InFlightPackets_len :: "InFlightPackets \<Rightarrow> usize" where
  "InFlightPackets_len s = ifs_len s"

text \<open>\<^verbatim>\<open>MAX_IN_FLIGHT_PACKETS - self.len\<close> panics on underflow; the invariant below rules it out.\<close>

definition InFlightPackets_available :: "InFlightPackets \<Rightarrow> usize" where
  "InFlightPackets_available s = MAX_IN_FLIGHT_PACKETS - ifs_len s"

text \<open>The loop of \<^verbatim>\<open>remove_message\<close> over the slots and the counter.\<close>

fun remove_message_slots ::
  "PacketType \<Rightarrow> MessageId \<Rightarrow> InFlightPacket option list \<Rightarrow> usize \<Rightarrow> InFlightPacket option list \<times> usize" where
  "remove_message_slots t m [] n = ([], n)"
| "remove_message_slots t m (slot # slots) n =
     (if (case slot of Some p \<Rightarrow> if_packet_type p = t \<and> if_message_id p = m | None \<Rightarrow> False)
      then (case remove_message_slots t m slots (n - 1) of (slots', n') \<Rightarrow> (None # slots', n'))
      else (case remove_message_slots t m slots n of (slots', n') \<Rightarrow> (slot # slots', n')))"

definition InFlightPackets_remove_message :: "PacketType \<Rightarrow> MessageId \<Rightarrow> InFlightPackets \<Rightarrow> InFlightPackets" where
  "InFlightPackets_remove_message t m s =
     (case remove_message_slots t m (ifs_packets s) (ifs_len s) of
        (slots, n) \<Rightarrow> \<lparr>ifs_packets = slots, ifs_len = n\<rparr>)"

definition InFlightPackets_note_sent :: "PacketKey \<Rightarrow> u64 \<Rightarrow> InFlightPackets \<Rightarrow> InFlightPackets" where
  "InFlightPackets_note_sent k now s =
     (case slot_pos if_key k (ifs_packets s) of
        Some i \<Rightarrow> s\<lparr>ifs_packets := (ifs_packets s)[i := map_option
          (\<lambda>p. p\<lparr>if_sent := True, if_last_sent_ms := now\<rparr>) (ifs_packets s ! i)]\<rparr>
      | None \<Rightarrow> s)"

definition InFlightPackets_note_retransmit_sent :: "PacketKey \<Rightarrow> u64 \<Rightarrow> InFlightPackets \<Rightarrow> InFlightPackets" where
  "InFlightPackets_note_retransmit_sent k now s =
     (case slot_pos if_key k (ifs_packets s) of
        Some i \<Rightarrow> s\<lparr>ifs_packets := (ifs_packets s)[i := map_option
          (\<lambda>p. p\<lparr>if_sent := True, if_attempts := saturating_add (if_attempts p) 1, if_last_sent_ms := now\<rparr>)
            (ifs_packets s ! i)]\<rparr>
      | None \<Rightarrow> s)"

section \<open>engine/state/recovery.rs\<close>

text \<open>The field \<open>rs_dynamic\<close> is present in a build with dynamic recovery only.\<close>

record RecoveryState =
  rs_in_flight :: InFlightPackets
  rs_last_tick_ms :: "u64 option"
  rs_dynamic :: "DynamicRecoveryState option"

definition RecoveryState_new :: "DynamicRecoveryConfig option \<Rightarrow> RecoveryState" where
  "RecoveryState_new c =
     \<lparr>rs_in_flight = InFlightPackets_new, rs_last_tick_ms = None,
      rs_dynamic = map_option DynamicRecoveryState_new c\<rparr>"

definition RecoveryState_track :: "InFlightPacket \<Rightarrow> RecoveryState \<Rightarrow> unit res \<times> RecoveryState" where
  "RecoveryState_track p s =
     (case InFlightPackets_track p (rs_in_flight s) of (r, f) \<Rightarrow> (r, s\<lparr>rs_in_flight := f\<rparr>))"

definition RecoveryState_apply_ack :: "PacketKey \<Rightarrow> RecoveryState \<Rightarrow> RecoveryState" where
  "RecoveryState_apply_ack k s = s\<lparr>rs_in_flight := InFlightPackets_apply_ack k (rs_in_flight s)\<rparr>"

definition RecoveryState_apply_ack_at :: "PacketKey \<Rightarrow> u64 \<Rightarrow> RecoveryState \<Rightarrow> RecoveryState" where
  "RecoveryState_apply_ack_at k now s =
     (let s1 = (case InFlightPackets_packet k (rs_in_flight s) of
                  Some p \<Rightarrow> if if_sent p
                    then s\<lparr>rs_dynamic := map_option
                      (DynamicRecoveryState_observe_ack (saturating_sub now (if_last_sent_ms p))) (rs_dynamic s)\<rparr>
                    else s
                | None \<Rightarrow> s) in
      RecoveryState_apply_ack k s1)"

definition RecoveryState_packets :: "RecoveryState \<Rightarrow> InFlightPacket list" where
  "RecoveryState_packets s = InFlightPackets_packets (rs_in_flight s)"

definition RecoveryState_in_flight_len :: "RecoveryState \<Rightarrow> usize" where
  "RecoveryState_in_flight_len s = InFlightPackets_len (rs_in_flight s)"

definition RecoveryState_available_in_flight :: "RecoveryState \<Rightarrow> usize" where
  "RecoveryState_available_in_flight s = InFlightPackets_available (rs_in_flight s)"

definition RecoveryState_should_tick :: "u64 \<Rightarrow> RecoveryState \<Rightarrow> bool \<times> RecoveryState" where
  "RecoveryState_should_tick now s =
     (if rs_last_tick_ms s = Some now then (False, s) else (True, s\<lparr>rs_last_tick_ms := Some now\<rparr>))"

definition RecoveryState_remove_message :: "PacketType \<Rightarrow> MessageId \<Rightarrow> RecoveryState \<Rightarrow> RecoveryState" where
  "RecoveryState_remove_message t m s = s\<lparr>rs_in_flight := InFlightPackets_remove_message t m (rs_in_flight s)\<rparr>"

definition RecoveryState_note_sent :: "PacketKey \<Rightarrow> u64 \<Rightarrow> RecoveryState \<Rightarrow> RecoveryState" where
  "RecoveryState_note_sent k now s = s\<lparr>rs_in_flight := InFlightPackets_note_sent k now (rs_in_flight s)\<rparr>"

definition RecoveryState_note_retransmit_sent :: "PacketKey \<Rightarrow> u64 \<Rightarrow> RecoveryState \<Rightarrow> RecoveryState" where
  "RecoveryState_note_retransmit_sent k now s =
     s\<lparr>rs_in_flight := InFlightPackets_note_retransmit_sent k now (rs_in_flight s)\<rparr>"

definition RecoveryState_dynamic_timeout_ms ::
  "DynamicRecoveryState \<Rightarrow> DynamicRecoveryConfig \<Rightarrow> u8 \<Rightarrow> u64" where
  "RecoveryState_dynamic_timeout_ms d c attempts = DynamicRecoveryState_timeout_ms d c attempts"

section \<open>The contract of the packet table\<close>

text \<open>
  What the engine relies on: the table is a partial map from keys to packets with at most \<open>cap\<close>
  entries, tracking a packet fails only when the table is full of other packets, and removing
  entries by key or by a property of the packet removes exactly those.
\<close>

locale packet_table =
  fixes cap :: nat
    and inv :: "'t \<Rightarrow> bool"
    and lookup :: "'t \<Rightarrow> 'k \<Rightarrow> 'p option"
    and size :: "'t \<Rightarrow> nat"
    and key :: "'p \<Rightarrow> 'k"
    and empty :: 't
    and track :: "'p \<Rightarrow> 't \<Rightarrow> bool \<times> 't"
    and ack :: "'k \<Rightarrow> 't \<Rightarrow> 't"
  assumes inv_empty: "inv empty"
    and lookup_empty: "lookup empty k = None"
    and size_eq: "inv t \<Longrightarrow> finite (dom (lookup t)) \<and> size t = card (dom (lookup t))"
    and size_le: "inv t \<Longrightarrow> size t \<le> cap"
    and track_ok: "inv t \<Longrightarrow> key p \<in> dom (lookup t) \<or> size t < cap \<Longrightarrow>
      \<exists>t'. track p t = (True, t') \<and> inv t' \<and> lookup t' = (lookup t)(key p \<mapsto> p)"
    and track_full: "inv t \<Longrightarrow> key p \<notin> dom (lookup t) \<Longrightarrow> size t = cap \<Longrightarrow> track p t = (False, t)"
    and ack_ok: "inv t \<Longrightarrow> inv (ack k t) \<and> lookup (ack k t) = (lookup t)(k := None)"
begin

primrec track_all :: "'p list \<Rightarrow> 't \<Rightarrow> bool \<times> 't" where
  "track_all [] t = (True, t)"
| "track_all (p # ps) t = (case track p t of (ok, t') \<Rightarrow> if ok then track_all ps t' else (False, t'))"

lemma size_empty: "size empty = 0"
  using size_eq[OF inv_empty] lookup_empty by (simp add: dom_def)

lemma size_track:
  assumes "inv t" "key p \<notin> dom (lookup t)" "track p t = (True, t')" "inv t'" "lookup t' = (lookup t)(key p \<mapsto> p)"
  shows "size t' = Suc (size t)"
  using size_eq[OF assms(1)] size_eq[OF assms(4)] assms(2,5) by simp

lemma size_ack: "inv t \<Longrightarrow> size (ack k t) \<le> size t"
  using size_eq[of t] size_eq[of "ack k t"] ack_ok[of t k] by (simp add: card_Diff1_le)

text \<open>A batch of new packets that fits is tracked as a whole.\<close>

lemma track_all_ok:
  "inv t \<Longrightarrow> distinct (map key ps) \<Longrightarrow> key ` set ps \<inter> dom (lookup t) = {} \<Longrightarrow> size t + length ps \<le> cap \<Longrightarrow>
    \<exists>t'. track_all ps t = (True, t') \<and> inv t' \<and> size t' = size t + length ps \<and>
      lookup t' = (\<lambda>k. case find (\<lambda>p. key p = k) ps of Some p \<Rightarrow> Some p | None \<Rightarrow> lookup t k)"
proof (induction ps arbitrary: t)
  case (Cons p ps)
  obtain t1 where t1: "track p t = (True, t1)" "inv t1" "lookup t1 = (lookup t)(key p \<mapsto> p)"
    using track_ok[of t p] Cons.prems by auto
  have s1: "size t1 = Suc (size t)" using size_track[of t p t1] t1 Cons.prems by auto
  obtain t' where "track_all ps t1 = (True, t')" "inv t'" "size t' = size t1 + length ps"
    "lookup t' = (\<lambda>k. case find (\<lambda>p. key p = k) ps of Some p \<Rightarrow> Some p | None \<Rightarrow> lookup t1 k)"
    using Cons.IH[OF t1(2)] Cons.prems s1 t1(3) by (auto simp del: fun_upd_apply)
  moreover have "find (\<lambda>q. key q = key p) ps = None"
    using Cons.prems(2) by (auto simp: find_None_iff image_iff)
  ultimately show ?case
    using t1 s1 by (auto simp: fun_eq_iff split: option.splits)
qed auto

text \<open>Acknowledging every tracked key empties the table, whatever the order and repetitions.\<close>

lemma ack_all_ok:
  "inv t \<Longrightarrow> inv (fold ack ks t) \<and> lookup (fold ack ks t) = (lookup t) |` (- set ks)"
proof (induction ks arbitrary: t)
  case (Cons k ks)
  then show ?case
    using ack_ok[of t k] by (auto simp: restrict_map_def fun_eq_iff)
qed (simp add: restrict_map_def)

lemma ack_all_empty:
  assumes "inv t" "dom (lookup t) \<subseteq> set ks"
  shows "size (fold ack ks t) = 0"
proof -
  have "lookup (fold ack ks t) = Map.empty"
    using ack_all_ok[OF assms(1), of ks] assms(2) by (auto simp: restrict_map_def fun_eq_iff dom_def)
  then show ?thesis using size_eq[of "fold ack ks t"] ack_all_ok[OF assms(1), of ks] by simp
qed

end

section \<open>The slot array as a partial map\<close>

definition inflight_ok :: "InFlightPackets \<Rightarrow> bool" where
  "inflight_ok s \<longleftrightarrow> length (ifs_packets s) = MAX_IN_FLIGHT_PACKETS \<and>
     ifs_len s = length (flatten (ifs_packets s)) \<and> distinct (map if_key (flatten (ifs_packets s)))"

definition inflight_map :: "InFlightPackets \<Rightarrow> PacketKey \<Rightarrow> InFlightPacket option" where
  "inflight_map s k = slot_lookup if_key k (ifs_packets s)"

definition inflight_track :: "InFlightPacket \<Rightarrow> InFlightPackets \<Rightarrow> bool \<times> InFlightPackets" where
  "inflight_track p s = (case InFlightPackets_track p s of (r, s') \<Rightarrow> (r = Ok (), s'))"

lemma inflight_ok_new [simp]: "inflight_ok InFlightPackets_new"
  by (simp add: inflight_ok_def InFlightPackets_new_def)

lemma packet_is_lookup: "InFlightPackets_packet k s = inflight_map s k"
  by (simp add: InFlightPackets_packet_def inflight_map_def slot_lookup_find)

lemma dom_inflight_map: "dom (inflight_map s) = if_key ` set (flatten (ifs_packets s))"
  by (auto simp: inflight_map_def dom_def slot_lookup_None slot_pos_None)

lemma inflight_map_Some:
  assumes "inflight_ok s"
  shows "inflight_map s k = Some p \<longleftrightarrow> p \<in> set (InFlightPackets_packets s) \<and> if_key p = k"
proof
  assume "inflight_map s k = Some p"
  then show "p \<in> set (InFlightPackets_packets s) \<and> if_key p = k"
    using slot_lookup_SomeD by (fastforce simp: inflight_map_def InFlightPackets_packets_def)
next
  assume p: "p \<in> set (InFlightPackets_packets s) \<and> if_key p = k"
  then have "k \<in> dom (inflight_map s)" by (auto simp: dom_inflight_map InFlightPackets_packets_def)
  then obtain q where q: "inflight_map s k = Some q" by auto
  then have "q \<in> set (flatten (ifs_packets s))" "if_key q = k"
    using slot_lookup_SomeD by (fastforce simp: inflight_map_def)+
  moreover have "inj_on if_key (set (flatten (ifs_packets s)))"
    using assms by (simp add: inflight_ok_def distinct_map)
  ultimately have "q = p" using p by (auto simp: InFlightPackets_packets_def inj_on_def)
  then show "inflight_map s k = Some p" using q by simp
qed

lemma inflight_len_card:
  assumes "inflight_ok s"
  shows "ifs_len s = card (dom (inflight_map s))"
proof -
  have "card (if_key ` set (flatten (ifs_packets s))) = length (map if_key (flatten (ifs_packets s)))"
    using assms distinct_card[of "map if_key (flatten (ifs_packets s))"] by (simp add: inflight_ok_def)
  then show ?thesis using assms by (simp add: dom_inflight_map inflight_ok_def)
qed

lemma inflight_update:
  assumes "inflight_ok s" "slot_pos if_key k (ifs_packets s) = Some i" "if_key p = k"
  shows "inflight_ok (s\<lparr>ifs_packets := (ifs_packets s)[i := Some p]\<rparr>)"
    "inflight_map (s\<lparr>ifs_packets := (ifs_packets s)[i := Some p]\<rparr>) = (inflight_map s)(k \<mapsto> p)"
proof -
  obtain u where u: "i < length (ifs_packets s)" "ifs_packets s ! i = Some u" "if_key u = k"
    using slot_pos_Some[OF assms(2)] by blast
  show "inflight_ok (s\<lparr>ifs_packets := (ifs_packets s)[i := Some p]\<rparr>)"
    by (rule flatten_replace[OF u(1,2)]) (use assms u in \<open>auto simp: inflight_ok_def\<close>)
  show "inflight_map (s\<lparr>ifs_packets := (ifs_packets s)[i := Some p]\<rparr>) = (inflight_map s)(k \<mapsto> p)"
    using slot_lookup_replace[of if_key p "ifs_packets s" i] assms(2,3)
    by (auto simp: inflight_map_def fun_eq_iff)
qed

lemma inflight_remove:
  assumes "inflight_ok s"
  shows "inflight_ok (InFlightPackets_apply_ack k s)"
    "inflight_map (InFlightPackets_apply_ack k s) = (inflight_map s)(k := None)"
proof -
  have "inflight_ok (InFlightPackets_apply_ack k s) \<and>
    inflight_map (InFlightPackets_apply_ack k s) = (inflight_map s)(k := None)"
  proof (cases "slot_pos if_key k (ifs_packets s)")
    case None
    then have "inflight_map s k = None" by (simp add: inflight_map_def slot_lookup_None)
    then show ?thesis using None assms by (auto simp: InFlightPackets_apply_ack_def)
  next
    case (Some i)
    obtain u where u: "i < length (ifs_packets s)" "ifs_packets s ! i = Some u" "if_key u = k"
      using slot_pos_Some[OF Some] by blast
    have "inflight_ok (InFlightPackets_apply_ack k s)"
      by (rule flatten_replace[OF u(1,2)])
         (use assms Some u(3) in \<open>auto simp: inflight_ok_def InFlightPackets_apply_ack_def\<close>)
    then show ?thesis
      using slot_lookup_remove[of if_key "ifs_packets s" k i] Some assms
      by (auto simp: inflight_map_def InFlightPackets_apply_ack_def inflight_ok_def fun_eq_iff)
  qed
  then show "inflight_ok (InFlightPackets_apply_ack k s)"
    "inflight_map (InFlightPackets_apply_ack k s) = (inflight_map s)(k := None)" by auto
qed

lemma inflight_track_cases:
  assumes "inflight_ok s"
  obtains (ok) s' where "InFlightPackets_track p s = (Ok (), s')" "inflight_ok s'"
      "inflight_map s' = (inflight_map s)(if_key p \<mapsto> p)"
      "if_key p \<in> dom (inflight_map s) \<or> ifs_len s < MAX_IN_FLIGHT_PACKETS"
  | (full) "InFlightPackets_track p s = (Err (Error_new Engine), s)" "if_key p \<notin> dom (inflight_map s)"
      "ifs_len s = MAX_IN_FLIGHT_PACKETS"
proof (cases "slot_pos if_key (if_key p) (ifs_packets s)")
  case (Some i)
  then have "if_key p \<in> dom (inflight_map s)"
    by (auto simp: inflight_map_def dom_def slot_lookup_None)
  then show thesis
    using ok inflight_update[OF assms Some] Some by (simp add: InFlightPackets_track_def)
next
  case pos: None
  then have new: "if_key p \<notin> dom (inflight_map s)" by (simp add: dom_inflight_map slot_pos_None)
  show thesis
  proof (cases "slot_free (ifs_packets s)")
    case None
    then have "ifs_len s = MAX_IN_FLIGHT_PACKETS" using assms by (simp add: slot_free_None inflight_ok_def)
    then show thesis using full pos new None by (simp add: InFlightPackets_track_def)
  next
    case (Some i)
    then have i: "i < length (ifs_packets s)" "ifs_packets s ! i = None" by (auto dest: slot_free_Some)
    let ?s' = "s\<lparr>ifs_packets := (ifs_packets s)[i := Some p], ifs_len := ifs_len s + 1\<rparr>"
    have "if_key p \<notin> if_key ` set (flatten (ifs_packets s))" using pos by (simp add: slot_pos_None)
    moreover obtain ys zs where "flatten (ifs_packets s) = ys @ zs"
      "\<And>v. flatten ((ifs_packets s)[i := Some v]) = ys @ v # zs" using flatten_insert[OF i] by metis
    ultimately have "inflight_ok ?s'" using assms by (auto simp: inflight_ok_def)
    moreover have "inflight_map ?s' = (inflight_map s)(if_key p \<mapsto> p)"
      using slot_lookup_insert[OF pos i] by (auto simp: inflight_map_def fun_eq_iff)
    moreover have "ifs_len s < MAX_IN_FLIGHT_PACKETS"
      using Some slot_free_None[of "ifs_packets s"] length_flatten_le[of "ifs_packets s"] assms
      by (auto simp: inflight_ok_def)
    ultimately show thesis using ok pos Some by (simp add: InFlightPackets_track_def)
  qed
qed

interpretation inflight: packet_table MAX_IN_FLIGHT_PACKETS inflight_ok inflight_map InFlightPackets_len if_key
    InFlightPackets_new inflight_track InFlightPackets_apply_ack
proof (standard, goal_cases)
  case (2 k)
  show ?case by (simp add: inflight_map_def InFlightPackets_new_def slot_lookup_find)
next
  case (3 t)
  then show ?case by (simp add: InFlightPackets_len_def inflight_len_card) (simp add: dom_inflight_map)
next
  case (4 t)
  then show ?case using length_flatten_le[of "ifs_packets t"] by (simp add: InFlightPackets_len_def inflight_ok_def)
next
  case (5 t p)
  show ?case
    by (rule inflight_track_cases[OF 5(1), of p]) (use 5 in \<open>auto simp: inflight_track_def InFlightPackets_len_def\<close>)
next
  case (6 t p)
  show ?case
    by (rule inflight_track_cases[OF 6(1), of p]) (use 6 in \<open>auto simp: inflight_track_def InFlightPackets_len_def\<close>)
next
  case (7 t k)
  then show ?case using inflight_remove by simp
qed simp

text \<open>Removing a message clears its packets and counts them down.\<close>

definition of_message :: "PacketType \<Rightarrow> MessageId \<Rightarrow> InFlightPacket \<Rightarrow> bool" where
  "of_message t m p \<longleftrightarrow> if_packet_type p = t \<and> if_message_id p = m"

lemma remove_message_slots:
  "length (flatten slots) \<le> n \<Longrightarrow> remove_message_slots t m slots n =
    (map (\<lambda>s. case s of Some p \<Rightarrow> if of_message t m p then None else s | None \<Rightarrow> None) slots,
     n - length (filter (of_message t m) (flatten slots)))"
proof (induction slots arbitrary: n)
  case (Cons s slots)
  then show ?case by (cases s) (auto simp: of_message_def)
qed simp

lemma flatten_remove:
  "flatten (map (\<lambda>s. case s of Some p \<Rightarrow> if P p then None else s | None \<Rightarrow> None) slots) =
    filter (\<lambda>p. \<not> P p) (flatten slots)"
  by (induction slots rule: flatten.induct) auto

lemma inflight_map_filter:
  assumes "inflight_ok s" "flatten (ifs_packets s') = filter P (flatten (ifs_packets s))" "inflight_ok s'"
  shows "inflight_map s' k = (case inflight_map s k of Some p \<Rightarrow> if P p then Some p else None | None \<Rightarrow> None)"
proof -
  have "inflight_map s' k = Some p \<longleftrightarrow> inflight_map s k = Some p \<and> P p" for p
    using assms by (auto simp: inflight_map_Some InFlightPackets_packets_def)
  note eq = this
  show ?thesis
  proof (cases "inflight_map s k")
    case None
    then show ?thesis using eq[of "the (inflight_map s' k)"] by (cases "inflight_map s' k") simp_all
  next
    case (Some p)
    then show ?thesis using eq[of p] eq[of "the (inflight_map s' k)"] by (cases "inflight_map s' k") auto
  qed
qed

lemma inflight_remove_message:
  assumes "inflight_ok s"
  shows "inflight_ok (InFlightPackets_remove_message t m s)"
    "InFlightPackets_packets (InFlightPackets_remove_message t m s) =
       filter (\<lambda>p. \<not> of_message t m p) (InFlightPackets_packets s)"
    "inflight_map (InFlightPackets_remove_message t m s) k =
      (case inflight_map s k of Some p \<Rightarrow> if of_message t m p then None else Some p | None \<Rightarrow> None)"
proof -
  let ?s = "InFlightPackets_remove_message t m s" and ?ps = "flatten (ifs_packets s)"
  have s: "ifs_packets ?s = map (\<lambda>s. case s of Some p \<Rightarrow> if of_message t m p then None else s | None \<Rightarrow> None)
      (ifs_packets s)" "ifs_len ?s = ifs_len s - length (filter (of_message t m) ?ps)"
    using assms remove_message_slots[of "ifs_packets s" "ifs_len s" t m]
    by (simp_all add: InFlightPackets_remove_message_def inflight_ok_def)
  have f: "flatten (ifs_packets ?s) = filter (\<lambda>p. \<not> of_message t m p) ?ps"
    by (simp add: s(1) flatten_remove)
  have "length ?ps - length (filter (of_message t m) ?ps) = length (filter (\<lambda>p. \<not> of_message t m p) ?ps)"
    using sum_length_filter_compl[of "of_message t m" ?ps] by simp
  then show ok: "inflight_ok ?s"
    using assms f s by (auto simp: inflight_ok_def distinct_map_filter)
  show "InFlightPackets_packets ?s = filter (\<lambda>p. \<not> of_message t m p) (InFlightPackets_packets s)"
    by (simp add: InFlightPackets_packets_def f)
  show "inflight_map ?s k = (case inflight_map s k of Some p \<Rightarrow> if of_message t m p then None else Some p | None \<Rightarrow> None)"
    using inflight_map_filter[OF assms f ok, of k] by (auto split: option.splits)
qed

text \<open>Noting a transmission updates the packet of the key, if it is still tracked.\<close>

lemma inflight_note:
  assumes "inflight_ok s" "\<And>p. if_key (f p) = if_key p"
    and "s' = (case slot_pos if_key k (ifs_packets s) of
        Some i \<Rightarrow> s\<lparr>ifs_packets := (ifs_packets s)[i := map_option f (ifs_packets s ! i)]\<rparr> | None \<Rightarrow> s)"
  shows "inflight_ok s'" "inflight_map s' = (inflight_map s)(k := map_option f (inflight_map s k))"
proof -
  have "inflight_ok s' \<and> inflight_map s' = (inflight_map s)(k := map_option f (inflight_map s k))"
  proof (cases "slot_pos if_key k (ifs_packets s)")
    case None
    then have "inflight_map s k = None" by (simp add: inflight_map_def slot_lookup_None)
    then show ?thesis using None assms by auto
  next
    case (Some i)
    obtain u where u: "i < length (ifs_packets s)" "ifs_packets s ! i = Some u" "if_key u = k"
      using slot_pos_Some[OF Some] by blast
    then have "inflight_map s k = Some u" by (simp add: inflight_map_def slot_lookup_def Some)
    then show ?thesis using inflight_update[OF assms(1) Some, of "f u"] assms u Some by simp
  qed
  then show "inflight_ok s'" "inflight_map s' = (inflight_map s)(k := map_option f (inflight_map s k))" by auto
qed

lemmas inflight_note_sent = inflight_note[OF _ _ InFlightPackets_note_sent_def]
lemmas inflight_note_retransmit_sent = inflight_note[OF _ _ InFlightPackets_note_retransmit_sent_def]

lemma inflight_fold_track:
  "fst (inflight.track_all ps s) \<Longrightarrow>
    fold (\<lambda>p s. snd (InFlightPackets_track p s)) ps s = snd (inflight.track_all ps s)"
  by (induction ps arbitrary: s) (auto simp: inflight_track_def split: prod.splits if_splits)

section \<open>Properties\<close>

text \<open>
  C12. The in-flight table is a partial map from packet keys to packets with at most 16 entries:
  tracking adds or replaces an entry and fails, changing nothing, exactly when 16 other packets
  are tracked; an ACK removes exactly its key; removing a message removes exactly its packets;
  noting a transmission updates only the packet of its key; the free capacity is 16 less the
  number of entries.
\<close>

theorem inflight_refines_map:
  assumes "inflight_ok s"
  shows "(case InFlightPackets_track p s of (r, s') \<Rightarrow> inflight_ok s' \<and>
      (if if_key p \<in> dom (inflight_map s) \<or> card (dom (inflight_map s)) < MAX_IN_FLIGHT_PACKETS
       then r = Ok () \<and> inflight_map s' = (inflight_map s)(if_key p \<mapsto> p)
       else r = Err (Error_new Engine) \<and> s' = s))
    \<and> inflight_ok (InFlightPackets_apply_ack k s)
    \<and> inflight_map (InFlightPackets_apply_ack k s) = (inflight_map s)(k := None)
    \<and> inflight_ok (InFlightPackets_remove_message t m s)
    \<and> inflight_map (InFlightPackets_remove_message t m s) =
        (\<lambda>k. case inflight_map s k of Some p \<Rightarrow> if of_message t m p then None else Some p | None \<Rightarrow> None)
    \<and> inflight_ok (InFlightPackets_note_sent k now s)
    \<and> inflight_map (InFlightPackets_note_sent k now s) = (inflight_map s)(k :=
         map_option (\<lambda>p. p\<lparr>if_sent := True, if_last_sent_ms := now\<rparr>) (inflight_map s k))
    \<and> inflight_ok (InFlightPackets_note_retransmit_sent k now s)
    \<and> inflight_map (InFlightPackets_note_retransmit_sent k now s) = (inflight_map s)(k :=
         map_option (\<lambda>p. p\<lparr>if_sent := True, if_attempts := saturating_add (if_attempts p) 1, if_last_sent_ms := now\<rparr>)
           (inflight_map s k))
    \<and> InFlightPackets_available s = MAX_IN_FLIGHT_PACKETS - card (dom (inflight_map s))"
proof -
  have "case InFlightPackets_track p s of (r, s') \<Rightarrow> inflight_ok s' \<and>
      (if if_key p \<in> dom (inflight_map s) \<or> card (dom (inflight_map s)) < MAX_IN_FLIGHT_PACKETS
       then r = Ok () \<and> inflight_map s' = (inflight_map s)(if_key p \<mapsto> p)
       else r = Err (Error_new Engine) \<and> s' = s)"
    by (rule inflight_track_cases[OF assms, of p]) (use assms inflight_len_card[OF assms] in auto)
  moreover have "inflight_map (InFlightPackets_remove_message t m s) =
        (\<lambda>k. case inflight_map s k of Some p \<Rightarrow> if of_message t m p then None else Some p | None \<Rightarrow> None)"
    using inflight_remove_message(3)[OF assms] by (rule ext)
  moreover have "InFlightPackets_available s = MAX_IN_FLIGHT_PACKETS - card (dom (inflight_map s))"
    by (simp add: InFlightPackets_available_def inflight_len_card[OF assms])
  ultimately show ?thesis
    using inflight_remove[OF assms, of k] inflight_remove_message(1)[OF assms]
      inflight_note_sent[OF assms, where k = k and now = now]
      inflight_note_retransmit_sent[OF assms, where k = k and now = now] by auto
qed

theorem inflight_refines_map_witness:
  "inflight_map (InFlightPackets_apply_ack (PacketKey_new (MessageId 1) PacketIndex_ZERO) InFlightPackets_new) =
    (inflight_map InFlightPackets_new)(PacketKey_new (MessageId 1) PacketIndex_ZERO := None)"
  using inflight_refines_map[OF inflight_ok_new, of _ "PacketKey_new (MessageId 1) PacketIndex_ZERO"] by blast

text \<open>
  Recovery: 16 or fewer packets with distinct keys are all tracked from an empty table, and
  once each of their keys has been acknowledged, in any order and any number of times, the table
  is empty again and its whole capacity is free.
\<close>

theorem acks_free_table:
  assumes "length ps \<le> MAX_IN_FLIGHT_PACKETS" "distinct (map if_key ps)" "if_key ` set ps \<subseteq> set ks"
  shows "InFlightPackets_available (fold InFlightPackets_apply_ack ks
      (fold (\<lambda>p s. snd (InFlightPackets_track p s)) ps InFlightPackets_new)) = MAX_IN_FLIGHT_PACKETS
    \<and> set (InFlightPackets_packets (fold (\<lambda>p s. snd (InFlightPackets_track p s)) ps InFlightPackets_new)) = set ps"
proof -
  obtain t where t: "inflight.track_all ps InFlightPackets_new = (True, t)" "inflight_ok t"
    "inflight_map t = (\<lambda>k. case find (\<lambda>p. if_key p = k) ps of Some p \<Rightarrow> Some p | None \<Rightarrow> None)"
    using inflight.track_all_ok[of InFlightPackets_new ps] assms(1,2) inflight.size_empty
    by (auto simp: dom_def inflight.lookup_empty cong: option.case_cong)
  have e: "fold (\<lambda>p s. snd (InFlightPackets_track p s)) ps InFlightPackets_new = t"
    using inflight_fold_track[of ps InFlightPackets_new] t(1) by simp
  have d: "dom (inflight_map t) = if_key ` set ps"
    by (auto simp: t(3) dom_def find_None_iff split: option.splits)
  have a: "InFlightPackets_available (fold InFlightPackets_apply_ack ks
      (fold (\<lambda>p s. snd (InFlightPackets_track p s)) ps InFlightPackets_new)) = MAX_IN_FLIGHT_PACKETS"
    using inflight.ack_all_empty[OF t(2)] d assms(3) e
    by (simp add: InFlightPackets_available_def InFlightPackets_len_def)
  have "p \<in> set (InFlightPackets_packets t) \<longleftrightarrow> p \<in> set ps" for p
  proof -
    have "p \<in> set (InFlightPackets_packets t) \<longleftrightarrow> find (\<lambda>q. if_key q = if_key p) ps = Some p"
      using inflight_map_Some[OF t(2), of "if_key p" p] t(3) by (auto split: option.splits)
    also have "\<dots> \<longleftrightarrow> p \<in> set ps"
      using assms(2) by (auto simp: find_Some_iff in_set_conv_nth distinct_conv_nth)
    finally show ?thesis .
  qed
  then show ?thesis using a e by auto
qed

theorem acks_free_table_witness:
  "InFlightPackets_available (fold InFlightPackets_apply_ack
      [PacketKey_new (MessageId 5) PacketIndex_ZERO, PacketKey_new (MessageId 5) PacketIndex_ZERO]
      (fold (\<lambda>p s. snd (InFlightPackets_track p s))
        [\<lparr>if_key = PacketKey_new (MessageId 5) PacketIndex_ZERO, if_packet_type = PacketType.Data,
          if_message_id = MessageId 5, if_bytes = [], if_len = 0, if_attempts = 0, if_last_sent_ms = 0,
          if_sent = True\<rparr>] InFlightPackets_new)) = MAX_IN_FLIGHT_PACKETS"
  using acks_free_table[of "[\<lparr>if_key = PacketKey_new (MessageId 5) PacketIndex_ZERO, if_packet_type = PacketType.Data,
          if_message_id = MessageId 5, if_bytes = [], if_len = 0, if_attempts = 0, if_last_sent_ms = 0,
          if_sent = True\<rparr>]" "[PacketKey_new (MessageId 5) PacketIndex_ZERO, PacketKey_new (MessageId 5) PacketIndex_ZERO]"]
  by simp

end
