(* ===== verification/Message_Ids.thy ===== *)
theory Message_Ids
  imports Core_Packet
begin

text \<open>
  The message-id generator of \<^verbatim>\<open>src/engine/state/numbers.rs\<close>, a linear congruential generator on
  32-bit words.  The lemmas show that it has full period, so ids repeat only after \<open>2 ^ 32\<close>
  allocations.
\<close>

section \<open>engine/state/numbers.rs\<close>

definition MESSAGE_ID_MULTIPLIER :: u32 where "MESSAGE_ID_MULTIPLIER = 1664525"
definition MESSAGE_ID_INCREMENT :: u32 where "MESSAGE_ID_INCREMENT = 1013904223"

datatype NumberState = NumberState (message_id_state: u32)

definition NumberState_new :: "MessageId \<Rightarrow> NumberState" where
  "NumberState_new m = NumberState (MessageId_get m)"

definition NumberState_alloc_message_id :: "NumberState \<Rightarrow> MessageId \<times> NumberState" where
  "NumberState_alloc_message_id s =
     (let x = message_id_state s * MESSAGE_ID_MULTIPLIER + MESSAGE_ID_INCREMENT in
      (MessageId x, NumberState x))"

text \<open>The ids of \<open>n\<close> successive allocations.\<close>

primrec alloc_ids :: "nat \<Rightarrow> NumberState \<Rightarrow> MessageId list" where
  "alloc_ids 0 s = []"
| "alloc_ids (Suc n) s = (case NumberState_alloc_message_id s of (m, s') \<Rightarrow> m # alloc_ids n s')"

section \<open>Linear congruential generators modulo a power of two\<close>

text \<open>
  With a multiplier congruent to 1 modulo 4 and an odd increment, \<open>2 ^ k\<close> steps add \<open>2 ^ k\<close> modulo
  \<open>2 ^ (k + 1)\<close>.
\<close>

lemma lcg_pow:
  fixes a c :: int
  assumes "a mod 4 = 1" "odd c"
  shows "\<exists>q r. \<forall>x. ((\<lambda>x. a * x + c) ^^ (2 ^ k)) x = (1 + 2 ^ (k + 2) * q) * x + (2 ^ k + 2 ^ (k + 1) * r)"
proof (induction k)
  case 0
  obtain q r where "a = 1 + 4 * q" "c = 1 + 2 * r"
    using assms by (metis oddE add.commute div_mult_mod_eq mult.commute)
  then show ?case by (intro exI[of _ q] exI[of _ r]) simp
next
  case (Suc k)
  define f where "f = (\<lambda>x. a * x + c)"
  obtain q r where g: "\<And>x. (f ^^ (2 ^ k)) x = (1 + 2 ^ (k + 2) * q) * x + (2 ^ k + 2 ^ (k + 1) * r)"
    using Suc by (auto simp: f_def)
  have gg: "(f ^^ (2 ^ Suc k)) x = (f ^^ (2 ^ k)) ((f ^^ (2 ^ k)) x)" for x
    by (simp add: mult_2 funpow_add)
  define p :: int where "p = 2 ^ k"
  have pk: "2 ^ (k + 2) = 4 * p" "2 ^ (k + 1) = 2 * p" "2 ^ Suc k = 2 * p" "2 ^ (Suc k + 2) = 8 * p" "2 ^ (Suc k + 1) = 4 * p"
    by (simp_all add: p_def power_add)
  have "(f ^^ (2 ^ Suc k)) x = (1 + 8 * p * (q + 2 * p * q * q)) * x + (2 * p + 4 * p * (r + p * q + 2 * p * q * r))" for x
    unfolding gg g pk p_def[symmetric] by (simp add: algebra_simps power2_eq_square)
  then show ?case unfolding pk f_def by metis
qed

lemma affine_iter:
  fixes g :: "int \<Rightarrow> int"
  assumes "\<And>x. M dvd g x - x - d"
  shows "M dvd (g ^^ m) x - x - int m * d"
proof (induction m)
  case 0
  then show ?case by simp
next
  case (Suc m)
  have "M dvd (g ((g ^^ m) x) - (g ^^ m) x - d) + ((g ^^ m) x - x - int m * d)"
    using assms Suc by (intro dvd_add)
  then show ?case by (simp add: algebra_simps)
qed

lemma odd_part: "0 < (n::nat) \<Longrightarrow> \<exists>k m. n = m * 2 ^ k \<and> odd m"
proof (induction n rule: less_induct)
  case (less n)
  show ?case
  proof (cases "odd n")
    case True
    then show ?thesis by (intro exI[of _ 0] exI[of _ n]) simp
  next
    case False
    then obtain h where h: "n = 2 * h" by (auto elim: evenE)
    with less(2) have "h < n" "0 < h" by auto
    from less(1)[OF this] obtain k m where "h = m * 2 ^ k" "odd m" by auto
    with h show ?thesis by (intro exI[of _ "Suc k"] exI[of _ m]) simp
  qed
qed

lemma lcg_no_short_cycle:
  fixes a c x :: int
  assumes "a mod 4 = 1" "odd c" "0 < n" "n < 2 ^ b"
  shows "\<not> 2 ^ b dvd ((\<lambda>x. a * x + c) ^^ n) x - x"
proof
  define f where "f = (\<lambda>x. a * x + c)"
  assume "2 ^ b dvd ((\<lambda>x. a * x + c) ^^ n) x - x"
  then have dvd: "2 ^ b dvd (f ^^ n) x - x" by (simp add: f_def)
  obtain k m where n: "n = m * 2 ^ k" "odd m" using odd_part[OF assms(3)] by auto
  have "2 ^ k \<le> n" using n by (cases m) auto
  then have "k < b" using assms(4) by (metis order.strict_trans1 power_less_imp_less_exp one_less_numeral_iff semiring_norm(76))
  obtain q r where g: "\<And>x. (f ^^ (2 ^ k)) x = (1 + 2 ^ (k + 2) * q) * x + (2 ^ k + 2 ^ (k + 1) * r)"
    using lcg_pow[OF assms(1,2), of k] by (auto simp: f_def)
  have step: "2 ^ (k + 1) dvd (f ^^ (2 ^ k)) y - y - 2 ^ k" for y
  proof -
    have "(f ^^ (2 ^ k)) y - y - 2 ^ k = 2 ^ (k + 1) * (2 * q * y + r)"
      unfolding g by (simp add: algebra_simps power_add)
    then show ?thesis by simp
  qed
  have "2 ^ (k + 1) dvd (((f ^^ (2 ^ k)) ^^ m) x - x) - int m * 2 ^ k"
    by (rule affine_iter) (rule step)
  moreover have "((f ^^ (2 ^ k)) ^^ m) x = (f ^^ n) x"
    by (simp add: n(1) funpow_mult mult.commute)
  moreover have "(2::int) ^ (k + 1) dvd 2 ^ b"
    by (rule le_imp_power_dvd) (use \<open>k < b\<close> in simp)
  then have "2 ^ (k + 1) dvd (f ^^ n) x - x" using dvd by (rule dvd_trans)
  ultimately have "2 ^ (k + 1) dvd int m * 2 ^ k"
    using dvd_diff[of "2 ^ (k + 1)" "(f ^^ n) x - x" "(f ^^ n) x - x - int m * 2 ^ k"] by simp
  then have "2 dvd int m" by simp
  with n(2) show False by simp
qed

section \<open>The generator has full period\<close>

definition id_step :: "u32 \<Rightarrow> u32" where
  "id_step x = x * MESSAGE_ID_MULTIPLIER + MESSAGE_ID_INCREMENT"

lemma id_step_iter: "(id_step ^^ n) (of_int x) = of_int (((\<lambda>x. 1664525 * x + 1013904223) ^^ n) x)"
  by (induction n) (simp_all add: id_step_def MESSAGE_ID_MULTIPLIER_def MESSAGE_ID_INCREMENT_def mult.commute)

lemma id_step_no_short_cycle:
  assumes "0 < n" "n < 2 ^ 32"
  shows "(id_step ^^ n) w \<noteq> w"
proof
  assume "(id_step ^^ n) w = w"
  then have "(of_int (((\<lambda>x. 1664525 * x + 1013904223) ^^ n) (uint w)) :: u32) = of_int (uint w)"
    using id_step_iter[of n "uint w"] by simp
  then have "2 ^ 32 dvd ((\<lambda>x. 1664525 * x + 1013904223) ^^ n) (uint w) - uint w"
    by (simp only: word_of_int_eq_iff take_bit_eq_mod mod_eq_dvd_iff) simp
  then show False
    using lcg_no_short_cycle[of 1664525 1013904223 n 32 "uint w"] assms by simp
qed

lemma alloc_message_id_eq:
  "NumberState_alloc_message_id s =
     (MessageId (id_step (message_id_state s)), NumberState (id_step (message_id_state s)))"
  by (simp add: NumberState_alloc_message_id_def id_step_def Let_def)

lemma length_alloc_ids [simp]: "length (alloc_ids n s) = n"
  by (induction n arbitrary: s) (simp_all add: alloc_message_id_eq)

lemma alloc_ids_nth:
  "i < n \<Longrightarrow> alloc_ids n s ! i = MessageId ((id_step ^^ Suc i) (message_id_state s))"
proof (induction n arbitrary: i s)
  case (Suc n)
  then show ?case
    by (cases i) (simp_all add: alloc_message_id_eq funpow_swap1)
qed simp

lemma alloc_ids_distinct:
  assumes "n \<le> 2 ^ 32"
  shows "distinct (alloc_ids n s)"
proof -
  define x where "x = message_id_state s"
  have ne: "(id_step ^^ Suc i) x \<noteq> (id_step ^^ Suc j) x" if "i < j" "j < n" for i j
  proof -
    have "(id_step ^^ Suc j) x = (id_step ^^ (j - i)) ((id_step ^^ Suc i) x)"
      using that funpow_add[of "j - i" "Suc i" id_step] by simp
    moreover have "0 < j - i" "j - i < 2 ^ 32" using that assms by auto
    ultimately show ?thesis using id_step_no_short_cycle by metis
  qed
  show ?thesis
    unfolding distinct_conv_nth
  proof (intro allI impI)
    fix i j assume "i < length (alloc_ids n s)" "j < length (alloc_ids n s)" "i \<noteq> j"
    then show "alloc_ids n s ! i \<noteq> alloc_ids n s ! j"
      using alloc_ids_nth[of i n s] alloc_ids_nth[of j n s] ne[of i j] ne[of j i] by (cases "i < j") (simp_all add: x_def)
  qed
qed

section \<open>Properties\<close>

text \<open>
  C34. Message ids are unique: up to \<open>2 ^ 32\<close> successive allocations, from any seed, give pairwise
  different ids.
\<close>

theorem message_ids_unique:
  assumes "n \<le> 2 ^ 32"
  shows "distinct (alloc_ids n (NumberState_new seed))"
  by (rule alloc_ids_distinct[OF assms])

theorem message_ids_unique_witness: "distinct (alloc_ids 3 (NumberState_new (MessageId 0)))"
  using message_ids_unique[of 3 "MessageId 0"] by simp

end
