(* ===== verification/Engine_Queues.thy ===== *)
theory Engine_Queues
  imports Packet_Codec Message_Ids
begin

text \<open>
  The bounded queues of the engine: pending ACK keys (\<^verbatim>\<open>src/engine/state/ack.rs\<close>), complete messages
  (\<^verbatim>\<open>state/message.rs\<close>), the scheduler's event queues and the scheduler itself
  (\<^verbatim>\<open>state/scheduler.rs\<close>, \<^verbatim>\<open>scheduler/event.rs\<close>, \<^verbatim>\<open>scheduler/queue.rs\<close>), with the clock.  Each ring buffer is refined to the list of its elements by interpreting the
  locales \<open>bounded_fifo\<close> and \<open>lossy_fifo\<close>; the scheduler is refined to four lists.
\<close>

section \<open>engine.rs: events\<close>

record MessageEvent =
  me_packet_type :: PacketType
  me_message_id :: MessageId
  me_bytes :: bytes
  me_len :: usize

definition MessageEvent_as_bytes :: "MessageEvent \<Rightarrow> bytes res" where
  "MessageEvent_as_bytes m = split_at_fst (me_bytes m) (me_len m)"

datatype SendFailureReason = RetryLimitReached

record SendFailedEvent =
  sf_packet_type :: PacketType
  sf_message_id :: MessageId
  sf_reason :: SendFailureReason

section \<open>engine/state/ack.rs\<close>

record AckState =
  ak_keys :: "PacketKey option list"
  ak_head :: usize
  ak_len :: usize

definition AckState_new :: AckState where
  "AckState_new = \<lparr>ak_keys = replicate MAX_PENDING_ACKS None, ak_head = 0, ak_len = 0\<rparr>"

definition AckState_observe :: "PacketKey \<Rightarrow> AckState \<Rightarrow> bool \<times> AckState" where
  "AckState_observe k s =
     (if ak_len s = MAX_PENDING_ACKS then (False, s)
      else (True, s\<lparr>ak_keys := (ak_keys s)[(ak_head s + ak_len s) mod MAX_PENDING_ACKS := Some k],
                    ak_len := ak_len s + 1\<rparr>))"

definition AckState_is_pending :: "AckState \<Rightarrow> bool" where
  "AckState_is_pending s \<longleftrightarrow> ak_len s \<noteq> 0"

definition AckState_pop :: "AckState \<Rightarrow> PacketKey option \<times> AckState" where
  "AckState_pop s =
     (if ak_len s = 0 then (None, s)
      else let s1 = s\<lparr>ak_keys := (ak_keys s)[ak_head s := None],
                      ak_head := (ak_head s + 1) mod MAX_PENDING_ACKS,
                      ak_len := ak_len s - 1\<rparr> in
        (ak_keys s ! ak_head s, if ak_len s1 = 0 then s1\<lparr>ak_head := 0\<rparr> else s1))"

section \<open>engine/state/message.rs\<close>

record MessageState =
  ms_messages :: "MessageEvent option list"
  ms_head :: usize
  ms_len :: usize

definition MessageState_new :: MessageState where
  "MessageState_new = \<lparr>ms_messages = replicate MAX_MESSAGE_EVENTS None, ms_head = 0, ms_len = 0\<rparr>"

definition MessageState_push :: "MessageEvent \<Rightarrow> MessageState \<Rightarrow> MessageState" where
  "MessageState_push m s =
     (if ms_len s = MAX_MESSAGE_EVENTS
      then s\<lparr>ms_messages := (ms_messages s)[ms_head s := Some m],
             ms_head := (ms_head s + 1) mod MAX_MESSAGE_EVENTS\<rparr>
      else s\<lparr>ms_messages := (ms_messages s)[(ms_head s + ms_len s) mod MAX_MESSAGE_EVENTS := Some m],
             ms_len := ms_len s + 1\<rparr>)"

definition MessageState_pop :: "MessageState \<Rightarrow> MessageEvent option \<times> MessageState" where
  "MessageState_pop s =
     (if ms_len s = 0 then (None, s)
      else (ms_messages s ! ms_head s,
            s\<lparr>ms_messages := (ms_messages s)[ms_head s := None],
              ms_head := (ms_head s + 1) mod MAX_MESSAGE_EVENTS,
              ms_len := ms_len s - 1\<rparr>))"

section \<open>engine/state/clock.rs\<close>

datatype ClockState = ClockState (ClockState_now_ms: u64)

definition ClockState_new :: ClockState where "ClockState_new = ClockState 0"

definition ClockState_update :: "u64 \<Rightarrow> ClockState \<Rightarrow> ClockState" where
  "ClockState_update now c = ClockState now"

section \<open>engine/state/scheduler/event.rs\<close>

datatype WritePriority = Control | Retransmit | NewData

record WriteEvent =
  wr_key :: PacketKey
  wr_bytes :: bytes
  wr_len :: usize
  wr_attempts :: u8
  wr_priority :: WritePriority

definition WriteEvent_as_bytes :: "WriteEvent \<Rightarrow> bytes res" where
  "WriteEvent_as_bytes w = split_at_fst (wr_bytes w) (wr_len w)"

datatype EngineOutput = Write WriteEvent | SendFailed SendFailedEvent

section \<open>engine/state/scheduler/queue.rs\<close>

record EventQueue =
  eq_events :: "EngineOutput option list"
  eq_head :: usize
  eq_len :: usize

definition EventQueue_new :: EventQueue where
  "EventQueue_new = \<lparr>eq_events = replicate MAX_EVENTS None, eq_head = 0, eq_len = 0\<rparr>"

definition EventQueue_push :: "EngineOutput \<Rightarrow> EventQueue \<Rightarrow> unit res \<times> EventQueue" where
  "EventQueue_push e q =
     (if eq_len q = MAX_EVENTS then (Err (Error_new Engine), q)
      else (Ok (), q\<lparr>eq_events := (eq_events q)[(eq_head q + eq_len q) mod MAX_EVENTS := Some e],
                     eq_len := eq_len q + 1\<rparr>))"

definition EventQueue_pop :: "EventQueue \<Rightarrow> EngineOutput option \<times> EventQueue" where
  "EventQueue_pop q =
     (if eq_len q = 0 then (None, q)
      else (eq_events q ! eq_head q,
            q\<lparr>eq_events := (eq_events q)[eq_head q := None],
              eq_head := (eq_head q + 1) mod MAX_EVENTS,
              eq_len := eq_len q - 1\<rparr>))"

definition EventQueue_physical_index :: "EventQueue \<Rightarrow> usize \<Rightarrow> usize" where
  "EventQueue_physical_index q off = (eq_head q + off) mod MAX_EVENTS"

definition is_redundant_write :: "WriteEvent \<Rightarrow> WriteEvent \<Rightarrow> bool" where
  "is_redundant_write current incoming \<longleftrightarrow> wr_key current = wr_key incoming"

text \<open>The \<^verbatim>\<open>while\<close> loop of \<^verbatim>\<open>replace_redundant_write\<close>, from an offset on.\<close>

function EventQueue_replace_from :: "WriteEvent \<Rightarrow> usize \<Rightarrow> EventQueue \<Rightarrow> bool \<times> EventQueue" where
  "EventQueue_replace_from write off q =
     (if off < eq_len q
      then (let index = EventQueue_physical_index q off in
            case eq_events q ! index of
              Some (Write current) \<Rightarrow>
                if is_redundant_write current write
                then (True, q\<lparr>eq_events := (eq_events q)[index := Some (Write write)]\<rparr>)
                else EventQueue_replace_from write (off + 1) q
            | _ \<Rightarrow> EventQueue_replace_from write (off + 1) q)
      else (False, q))"
  by pat_completeness auto
termination by (relation "measure (\<lambda>(_, off, q). eq_len q - off)") auto

declare EventQueue_replace_from.simps [simp del]

definition EventQueue_replace_redundant_write :: "EngineOutput \<Rightarrow> EventQueue \<Rightarrow> bool \<times> EventQueue" where
  "EventQueue_replace_redundant_write e q =
     (case e of Write write \<Rightarrow> EventQueue_replace_from write 0 q | _ \<Rightarrow> (False, q))"

datatype QueueKind = Control | Retransmit | NewData | Local

definition queue_for_event :: "EngineOutput \<Rightarrow> QueueKind" where
  "queue_for_event e = (case e of
      Write w \<Rightarrow> (case wr_priority w of
          WritePriority.Control \<Rightarrow> QueueKind.Control
        | WritePriority.Retransmit \<Rightarrow> QueueKind.Retransmit
        | WritePriority.NewData \<Rightarrow> QueueKind.NewData)
    | SendFailed _ \<Rightarrow> QueueKind.Local)"

section \<open>engine/state/scheduler.rs\<close>

record SchedulerState =
  sc_control :: EventQueue
  sc_retransmit :: EventQueue
  sc_new_data :: EventQueue
  sc_local :: EventQueue

definition SchedulerState_new :: SchedulerState where
  "SchedulerState_new = \<lparr>sc_control = EventQueue_new, sc_retransmit = EventQueue_new,
     sc_new_data = EventQueue_new, sc_local = EventQueue_new\<rparr>"

definition SchedulerState_len :: "SchedulerState \<Rightarrow> usize" where
  "SchedulerState_len s =
     eq_len (sc_control s) + eq_len (sc_retransmit s) + eq_len (sc_new_data s) + eq_len (sc_local s)"

text \<open>\<^verbatim>\<open>MAX_EVENTS - self.len()\<close> panics on underflow; the invariant below rules it out.\<close>

definition SchedulerState_available :: "SchedulerState \<Rightarrow> usize" where
  "SchedulerState_available s = MAX_EVENTS - SchedulerState_len s"

definition SchedulerState_replace_redundant_write ::
  "EngineOutput \<Rightarrow> SchedulerState \<Rightarrow> bool \<times> SchedulerState" where
  "SchedulerState_replace_redundant_write e s =
     (case EventQueue_replace_redundant_write e (sc_control s) of
        (True, q) \<Rightarrow> (True, s\<lparr>sc_control := q\<rparr>)
      | (False, _) \<Rightarrow>
     (case EventQueue_replace_redundant_write e (sc_retransmit s) of
        (True, q) \<Rightarrow> (True, s\<lparr>sc_retransmit := q\<rparr>)
      | (False, _) \<Rightarrow>
     (case EventQueue_replace_redundant_write e (sc_new_data s) of
        (True, q) \<Rightarrow> (True, s\<lparr>sc_new_data := q\<rparr>)
      | (False, _) \<Rightarrow>
     (case EventQueue_replace_redundant_write e (sc_local s) of
        (True, q) \<Rightarrow> (True, s\<lparr>sc_local := q\<rparr>)
      | (False, _) \<Rightarrow> (False, s)))))"

definition SchedulerState_push :: "EngineOutput \<Rightarrow> SchedulerState \<Rightarrow> unit res \<times> SchedulerState" where
  "SchedulerState_push e s =
     (case SchedulerState_replace_redundant_write e s of
        (True, s') \<Rightarrow> (Ok (), s')
      | (False, _) \<Rightarrow>
          if SchedulerState_len s = MAX_EVENTS then (Err (Error_new Engine), s)
          else case queue_for_event e of
            QueueKind.Control \<Rightarrow> (case EventQueue_push e (sc_control s) of (r, q) \<Rightarrow> (r, s\<lparr>sc_control := q\<rparr>))
          | QueueKind.Retransmit \<Rightarrow> (case EventQueue_push e (sc_retransmit s) of (r, q) \<Rightarrow> (r, s\<lparr>sc_retransmit := q\<rparr>))
          | QueueKind.NewData \<Rightarrow> (case EventQueue_push e (sc_new_data s) of (r, q) \<Rightarrow> (r, s\<lparr>sc_new_data := q\<rparr>))
          | QueueKind.Local \<Rightarrow> (case EventQueue_push e (sc_local s) of (r, q) \<Rightarrow> (r, s\<lparr>sc_local := q\<rparr>)))"

definition SchedulerState_pop_urgent :: "SchedulerState \<Rightarrow> EngineOutput option \<times> SchedulerState" where
  "SchedulerState_pop_urgent s =
     (case EventQueue_pop (sc_control s) of
        (Some e, q) \<Rightarrow> (Some e, s\<lparr>sc_control := q\<rparr>)
      | (None, q1) \<Rightarrow>
     (case EventQueue_pop (sc_retransmit s) of
        (Some e, q) \<Rightarrow> (Some e, s\<lparr>sc_control := q1, sc_retransmit := q\<rparr>)
      | (None, q2) \<Rightarrow>
     (case EventQueue_pop (sc_local s) of
        (e, q) \<Rightarrow> (e, s\<lparr>sc_control := q1, sc_retransmit := q2, sc_local := q\<rparr>))))"

section \<open>The ring buffers as lists\<close>

lemma ring_ok_0 [simp]: "ring_ok xs h 0 \<longleftrightarrow> h < length xs"
  by (simp add: ring_ok_def)

definition ack_ok :: "AckState \<Rightarrow> bool" where
  "ack_ok s \<longleftrightarrow> length (ak_keys s) = MAX_PENDING_ACKS \<and> ring_ok (ak_keys s) (ak_head s) (ak_len s)"

definition ack_list :: "AckState \<Rightarrow> PacketKey list" where
  "ack_list s = ring_list (ak_keys s) (ak_head s) (ak_len s)"

definition messages_ok :: "MessageState \<Rightarrow> bool" where
  "messages_ok s \<longleftrightarrow> length (ms_messages s) = MAX_MESSAGE_EVENTS \<and> ring_ok (ms_messages s) (ms_head s) (ms_len s)"

definition message_list :: "MessageState \<Rightarrow> MessageEvent list" where
  "message_list s = ring_list (ms_messages s) (ms_head s) (ms_len s)"

definition queue_ok :: "EventQueue \<Rightarrow> bool" where
  "queue_ok q \<longleftrightarrow> length (eq_events q) = MAX_EVENTS \<and> ring_ok (eq_events q) (eq_head q) (eq_len q)"

definition queue_list :: "EventQueue \<Rightarrow> EngineOutput list" where
  "queue_list q = ring_list (eq_events q) (eq_head q) (eq_len q)"

lemma ring_ok_le: "ring_ok xs h n \<Longrightarrow> n \<le> length xs"
  by (simp add: ring_ok_def)

lemma ring_pop_Cons:
  assumes "ring_ok xs h n" "ring_list xs h n = y # ys"
  shows "0 < n" "xs ! h = Some y" "ring_ok (xs[h := None]) ((h + 1) mod length xs) (n - 1)"
    "ring_list (xs[h := None]) ((h + 1) mod length xs) (n - 1) = ys"
proof -
  show n: "0 < n" using assms(2) by (cases n) auto
  show "xs ! h = Some y" "ring_ok (xs[h := None]) ((h + 1) mod length xs) (n - 1)"
    "ring_list (xs[h := None]) ((h + 1) mod length xs) (n - 1) = ys"
    using ring_pop[OF assms(1) n] assms(2) by simp_all
qed

lemma ring_list_Nil: "ring_list xs h n = [] \<longleftrightarrow> n = 0"
  by (metis length_0_conv length_ring_list)

interpretation acks: bounded_fifo MAX_PENDING_ACKS ack_ok ack_list AckState_new AckState_pop AckState_observe
proof (standard, goal_cases)
  case 1
  show ?case by (simp add: ack_ok_def AckState_new_def)
next
  case 2
  show ?case by (simp add: ack_list_def AckState_new_def)
next
  case (3 q)
  then show ?case by (auto simp: ack_ok_def ack_list_def dest: ring_ok_le)
next
  case (4 q)
  then show ?case by (simp add: ack_list_def ring_list_Nil AckState_pop_def)
next
  case (5 q x xs)
  note p = ring_pop_Cons[of "ak_keys q" "ak_head q" "ak_len q" x xs]
  show ?case
    using 5 p ring_list_Nil[of "(ak_keys q)[ak_head q := None]" "(ak_head q + 1) mod 16" "ak_len q - 1"]
    by (auto simp: ack_ok_def ack_list_def AckState_pop_def Let_def)
next
  case (6 q x)
  then show ?case by (simp add: ack_list_def AckState_observe_def)
next
  case (7 q x)
  then show ?case
    using ring_push[of "ak_keys q" "ak_head q" "ak_len q" x]
    by (simp add: ack_ok_def ack_list_def AckState_observe_def)
qed

interpretation messages: lossy_fifo MAX_MESSAGE_EVENTS messages_ok message_list MessageState_new
    MessageState_pop MessageState_push
proof (standard, goal_cases)
  case 1
  show ?case by (simp add: messages_ok_def MessageState_new_def)
next
  case 2
  show ?case by (simp add: message_list_def MessageState_new_def)
next
  case (3 q)
  then show ?case by (auto simp: messages_ok_def message_list_def dest: ring_ok_le)
next
  case (4 q)
  then show ?case by (simp add: message_list_def ring_list_Nil MessageState_pop_def)
next
  case (5 q x xs)
  then show ?case
    using ring_pop_Cons[of "ms_messages q" "ms_head q" "ms_len q" x xs]
    by (auto simp: messages_ok_def message_list_def MessageState_pop_def)
next
  case (6 q x)
  then show ?case
    using ring_push(1)[of "ms_messages q" "ms_head q" "ms_len q" x] ring_overwrite(1)[of "ms_messages q" "ms_head q" x]
      ring_ok_le[of "ms_messages q" "ms_head q" "ms_len q"]
    by (cases "ms_len q = 16") (auto simp: messages_ok_def MessageState_push_def)
next
  case (7 q x)
  then show ?case
    using ring_push(2)[of "ms_messages q" "ms_head q" "ms_len q" x] ring_overwrite(2)[of "ms_messages q" "ms_head q" x]
      ring_ok_le[of "ms_messages q" "ms_head q" "ms_len q"]
    by (cases "ms_len q = 16") (auto simp: messages_ok_def message_list_def MessageState_push_def)
next
  case 8
  show ?case by simp
qed

text \<open>The result of pushing on an event queue, as a truth value.\<close>

definition queue_push :: "EngineOutput \<Rightarrow> EventQueue \<Rightarrow> bool \<times> EventQueue" where
  "queue_push e q = (case EventQueue_push e q of (r, q') \<Rightarrow> (r = Ok (), q'))"

interpretation events: bounded_fifo MAX_EVENTS queue_ok queue_list EventQueue_new EventQueue_pop queue_push
proof (standard, goal_cases)
  case 1
  show ?case by (simp add: queue_ok_def EventQueue_new_def)
next
  case 2
  show ?case by (simp add: queue_list_def EventQueue_new_def)
next
  case (3 q)
  then show ?case by (auto simp: queue_ok_def queue_list_def dest: ring_ok_le)
next
  case (4 q)
  then show ?case by (simp add: queue_list_def ring_list_Nil EventQueue_pop_def)
next
  case (5 q x xs)
  then show ?case
    using ring_pop_Cons[of "eq_events q" "eq_head q" "eq_len q" x xs]
    by (auto simp: queue_ok_def queue_list_def EventQueue_pop_def)
next
  case (6 q x)
  then show ?case by (simp add: queue_list_def queue_push_def EventQueue_push_def)
next
  case (7 q x)
  then show ?case
    using ring_push[of "eq_events q" "eq_head q" "eq_len q" x]
    by (simp add: queue_ok_def queue_list_def queue_push_def EventQueue_push_def)
qed

section \<open>Replacing a queued write\<close>

fun write_key :: "EngineOutput \<Rightarrow> PacketKey option" where
  "write_key (Write w) = Some (wr_key w)"
| "write_key (SendFailed _) = None"

definition write_keys :: "EngineOutput list \<Rightarrow> PacketKey list" where
  "write_keys es = flatten (map write_key es)"

definition put :: "WriteEvent \<Rightarrow> EngineOutput \<Rightarrow> EngineOutput" where
  "put w e = (if write_key e = Some (wr_key w) then Write w else e)"

lemma write_keys_simps [simp]:
  "write_keys [] = []" "write_keys (Write w # es) = wr_key w # write_keys es"
  "write_keys (SendFailed f # es) = write_keys es" "write_keys (xs @ ys) = write_keys xs @ write_keys ys"
  by (simp_all add: write_keys_def)

lemma write_key_put [simp]: "write_key (put w e) = write_key e"
  by (simp add: put_def)

lemma write_keys_put [simp]: "write_keys (map (put w) es) = write_keys es"
  by (simp add: write_keys_def comp_def)

lemma in_write_keys: "k \<in> set (write_keys es) \<longleftrightarrow> (\<exists>e\<in>set es. write_key e = Some k)"
  by (auto simp: write_keys_def in_set_flatten) (metis image_eqI)

lemma put_other: "wr_key w \<notin> set (write_keys es) \<Longrightarrow> map (put w) es = es"
  by (auto simp: put_def in_write_keys intro: map_idI)

text \<open>With at most one write per key, replacing the first match replaces every match.\<close>

lemma position_put:
  assumes "distinct (write_keys es)" "position (\<lambda>e. write_key e = Some (wr_key w)) es = Some i"
  shows "es[i := Write w] = map (put w) es"
  using assms
proof (induction es arbitrary: i)
  case (Cons e es)
  show ?case
  proof (cases "write_key e = Some (wr_key w)")
    case True
    then obtain u where "e = Write u" "wr_key u = wr_key w" by (cases e) auto
    with Cons.prems True show ?thesis using put_other[of w es] by (auto simp: put_def[of w "Write u"])
  next
    case False
    then obtain j where "i = Suc j" "position (\<lambda>e. write_key e = Some (wr_key w)) es = Some j"
      using Cons.prems(2) by auto
    moreover have "distinct (write_keys es)" using Cons.prems(1) by (cases e) auto
    ultimately show ?thesis using Cons.IH False by (simp add: put_def)
  qed
qed simp

lemma queue_nth:
  assumes "queue_ok q" "i < eq_len q"
  shows "eq_events q ! ((eq_head q + i) mod MAX_EVENTS) = Some (queue_list q ! i)"
  using assms by (auto simp: queue_ok_def queue_list_def ring_ok_def nth_ring_list)

lemma replace_from_eq:
  "queue_ok q \<Longrightarrow> off \<le> eq_len q \<Longrightarrow> EventQueue_replace_from w off q =
     (case position (\<lambda>e. write_key e = Some (wr_key w)) (drop off (queue_list q)) of
        None \<Rightarrow> (False, q)
      | Some j \<Rightarrow> (True, q\<lparr>eq_events := (eq_events q)[(eq_head q + (off + j)) mod MAX_EVENTS := Some (Write w)]\<rparr>))"
proof (induction "eq_len q - off" arbitrary: off rule: less_induct)
  case less
  show ?case
  proof (cases "off < eq_len q")
    case True
    have nth: "eq_events q ! EventQueue_physical_index q off = Some (queue_list q ! off)"
      using queue_nth[OF less(2) True] by (simp add: EventQueue_physical_index_def)
    have drop: "drop off (queue_list q) = queue_list q ! off # drop (Suc off) (queue_list q)"
      using True by (simp add: Cons_nth_drop_Suc queue_list_def)
    have IH: "EventQueue_replace_from w (off + 1) q =
     (case position (\<lambda>e. write_key e = Some (wr_key w)) (drop (off + 1) (queue_list q)) of
        None \<Rightarrow> (False, q)
      | Some j \<Rightarrow> (True, q\<lparr>eq_events := (eq_events q)[(eq_head q + (off + 1 + j)) mod MAX_EVENTS := Some (Write w)]\<rparr>))"
      using less(1)[of "off + 1"] less(2) True by simp
    show ?thesis
    proof (cases "write_key (queue_list q ! off) = Some (wr_key w)")
      case key: True
      then obtain u where "queue_list q ! off = Write u" "wr_key u = wr_key w"
        by (cases "queue_list q ! off") auto
      then show ?thesis
        using True nth drop
        by (simp add: EventQueue_replace_from.simps[of w off q] is_redundant_write_def EventQueue_physical_index_def Let_def)
    next
      case False
      then have "EventQueue_replace_from w off q = EventQueue_replace_from w (off + 1) q"
        using True nth
        by (cases "queue_list q ! off")
           (simp_all add: EventQueue_replace_from.simps[of w off q] is_redundant_write_def Let_def)
      then show ?thesis using IH drop False by (auto split: option.splits)
    qed
  next
    case False
    then show ?thesis by (simp add: EventQueue_replace_from.simps[of w off q] queue_list_def)
  qed
qed

lemma queue_replace:
  assumes "queue_ok q" "distinct (write_keys (queue_list q))"
    and "EventQueue_replace_redundant_write (Write w) q = (b, q')"
  shows "b \<longleftrightarrow> wr_key w \<in> set (write_keys (queue_list q))" "queue_ok q'" "eq_len q' = eq_len q"
    "queue_list q' = map (put w) (queue_list q)" "\<not> b \<Longrightarrow> q' = q"
proof -
  let ?pos = "position (\<lambda>e. write_key e = Some (wr_key w)) (queue_list q)"
  have eq: "(b, q') = (case ?pos of None \<Rightarrow> (False, q)
      | Some j \<Rightarrow> (True, q\<lparr>eq_events := (eq_events q)[(eq_head q + j) mod MAX_EVENTS := Some (Write w)]\<rparr>))"
    using assms(3) replace_from_eq[OF assms(1), of 0 w]
    by (auto simp: EventQueue_replace_redundant_write_def split: option.splits)
  show b: "b \<longleftrightarrow> wr_key w \<in> set (write_keys (queue_list q))"
    using eq position_None[of "\<lambda>e. write_key e = Some (wr_key w)" "queue_list q"]
    by (auto simp: in_write_keys split: option.splits)
  show "eq_len q' = eq_len q" "\<not> b \<Longrightarrow> q' = q" using eq by (auto split: option.splits)
  have "queue_ok q' \<and> queue_list q' = map (put w) (queue_list q)"
  proof (cases ?pos)
    case None
    then show ?thesis using eq b assms(1) by (simp add: put_other)
  next
    case (Some j)
    then have j: "j < eq_len q" by (auto simp: position_Some queue_list_def)
    have "queue_list q' = (queue_list q)[j := Write w]" "queue_ok q'"
      using eq Some j assms(1) ring_list_update[of j "eq_events q" "eq_len q" "eq_head q" "Write w"]
      by (auto simp: queue_list_def queue_ok_def ring_ok_def nth_list_update)
    then show ?thesis using position_put[OF assms(2) Some] by simp
  qed
  then show "queue_ok q'" "queue_list q' = map (put w) (queue_list q)" by auto
qed

section \<open>The scheduler as four lists\<close>

definition sched_view :: "SchedulerState \<Rightarrow> QueueKind \<Rightarrow> EngineOutput list" where
  "sched_view s k = queue_list (case k of QueueKind.Control \<Rightarrow> sc_control s
     | QueueKind.Retransmit \<Rightarrow> sc_retransmit s | QueueKind.NewData \<Rightarrow> sc_new_data s
     | QueueKind.Local \<Rightarrow> sc_local s)"

definition view_events :: "(QueueKind \<Rightarrow> EngineOutput list) \<Rightarrow> EngineOutput list" where
  "view_events v = v QueueKind.Control @ v QueueKind.Retransmit @ v QueueKind.NewData @ v QueueKind.Local"

definition sched_ok :: "SchedulerState \<Rightarrow> bool" where
  "sched_ok s \<longleftrightarrow> queue_ok (sc_control s) \<and> queue_ok (sc_retransmit s) \<and> queue_ok (sc_new_data s) \<and>
     queue_ok (sc_local s) \<and> SchedulerState_len s \<le> MAX_EVENTS \<and>
     distinct (write_keys (view_events (sched_view s)))"

definition spec_push :: "EngineOutput \<Rightarrow> (QueueKind \<Rightarrow> EngineOutput list) \<Rightarrow> bool \<times> (QueueKind \<Rightarrow> EngineOutput list)" where
  "spec_push e v =
     (if \<exists>w. e = Write w \<and> wr_key w \<in> set (write_keys (view_events v))
      then (True, \<lambda>k. map (case e of Write w \<Rightarrow> put w | SendFailed _ \<Rightarrow> id) (v k))
      else if length (view_events v) = MAX_EVENTS then (False, v)
      else (True, v(queue_for_event e := v (queue_for_event e) @ [e])))"

lemma sched_view_simps [simp]:
  "sched_view s QueueKind.Control = queue_list (sc_control s)"
  "sched_view s QueueKind.Retransmit = queue_list (sc_retransmit s)"
  "sched_view s QueueKind.NewData = queue_list (sc_new_data s)"
  "sched_view s QueueKind.Local = queue_list (sc_local s)"
  by (simp_all add: sched_view_def)

lemma length_queue_list [simp]: "length (queue_list q) = eq_len q"
  by (simp add: queue_list_def)

lemma length_view_events [simp]: "length (view_events (sched_view s)) = SchedulerState_len s"
  by (simp add: view_events_def SchedulerState_len_def)

lemma view_eqI:
  assumes "v QueueKind.Control = v' QueueKind.Control" "v QueueKind.Retransmit = v' QueueKind.Retransmit"
    "v QueueKind.NewData = v' QueueKind.NewData" "v QueueKind.Local = v' QueueKind.Local"
  shows "v = v'"
proof
  fix k show "v k = v' k" using assms by (cases k) auto
qed

lemma view_events_map: "view_events (\<lambda>k. map f (v k)) = map f (view_events v)"
  by (simp add: view_events_def)

lemma replace_SendFailed [simp]: "SchedulerState_replace_redundant_write (SendFailed f) s = (False, s)"
  by (simp add: SchedulerState_replace_redundant_write_def EventQueue_replace_redundant_write_def)

lemma sched_replace:
  assumes "sched_ok s" "SchedulerState_replace_redundant_write (Write w) s = (b, s')"
  shows "b \<longleftrightarrow> wr_key w \<in> set (write_keys (view_events (sched_view s)))"
    "b \<Longrightarrow> sched_view s' = (\<lambda>k. map (put w) (sched_view s k))" "b \<Longrightarrow> sched_ok s'"
proof -
  have ok: "queue_ok (sc_control s)" "queue_ok (sc_retransmit s)" "queue_ok (sc_new_data s)" "queue_ok (sc_local s)"
    and d: "distinct (write_keys (queue_list (sc_control s)))" "distinct (write_keys (queue_list (sc_retransmit s)))"
      "distinct (write_keys (queue_list (sc_new_data s)))" "distinct (write_keys (queue_list (sc_local s)))"
    and disj: "distinct (write_keys (view_events (sched_view s)))"
    using assms(1) by (auto simp: sched_ok_def view_events_def)
  obtain b1 q1 b2 q2 b3 q3 b4 q4 where
    r: "EventQueue_replace_redundant_write (Write w) (sc_control s) = (b1, q1)"
      "EventQueue_replace_redundant_write (Write w) (sc_retransmit s) = (b2, q2)"
      "EventQueue_replace_redundant_write (Write w) (sc_new_data s) = (b3, q3)"
      "EventQueue_replace_redundant_write (Write w) (sc_local s) = (b4, q4)" by fastforce
  note R = queue_replace[OF ok(1) d(1) r(1)] queue_replace[OF ok(2) d(2) r(2)]
    queue_replace[OF ok(3) d(3) r(3)] queue_replace[OF ok(4) d(4) r(4)]
  have bs: "b \<longleftrightarrow> b1 \<or> b2 \<or> b3 \<or> b4" and
    s': "s' = (if b1 then s\<lparr>sc_control := q1\<rparr> else if b2 then s\<lparr>sc_retransmit := q2\<rparr>
       else if b3 then s\<lparr>sc_new_data := q3\<rparr> else if b4 then s\<lparr>sc_local := q4\<rparr> else s)"
    using assms(2) r by (auto simp: SchedulerState_replace_redundant_write_def split: bool.splits)
  show b: "b \<longleftrightarrow> wr_key w \<in> set (write_keys (view_events (sched_view s)))"
    using bs R(1,6,11,16) by (auto simp: view_events_def)
  have other: "\<not> b1 \<Longrightarrow> map (put w) (queue_list (sc_control s)) = queue_list (sc_control s)"
    "\<not> b2 \<Longrightarrow> map (put w) (queue_list (sc_retransmit s)) = queue_list (sc_retransmit s)"
    "\<not> b3 \<Longrightarrow> map (put w) (queue_list (sc_new_data s)) = queue_list (sc_new_data s)"
    "\<not> b4 \<Longrightarrow> map (put w) (queue_list (sc_local s)) = queue_list (sc_local s)"
    using R(1,6,11,16) put_other by auto
  have one: "b1 \<Longrightarrow> \<not> b2 \<and> \<not> b3 \<and> \<not> b4" "b2 \<Longrightarrow> \<not> b3 \<and> \<not> b4" "b3 \<Longrightarrow> \<not> b4"
    using R(1,6,11,16) disj by (auto simp: view_events_def)
  show v: "sched_view s' = (\<lambda>k. map (put w) (sched_view s k))" if "b"
  proof (rule view_eqI)
    show "sched_view s' QueueKind.Control = map (put w) (sched_view s QueueKind.Control)"
      using s' R(4) other(1) by simp
    show "sched_view s' QueueKind.Retransmit = map (put w) (sched_view s QueueKind.Retransmit)"
      using s' R(9) other(2) one by auto
    show "sched_view s' QueueKind.NewData = map (put w) (sched_view s QueueKind.NewData)"
      using s' R(14) other(3) one by auto
    show "sched_view s' QueueKind.Local = map (put w) (sched_view s QueueKind.Local)"
      using s' R(19) other(4) one by auto
  qed
  have ok': "queue_ok (sc_control s') \<and> queue_ok (sc_retransmit s') \<and> queue_ok (sc_new_data s') \<and> queue_ok (sc_local s')"
    using s' ok R by auto
  have "SchedulerState_len s' = SchedulerState_len s"
    using s' R(3,8,13,18) by (auto simp: SchedulerState_len_def)
  then show "sched_ok s'" if "b"
    using ok' v[OF that] assms(1) by (auto simp: sched_ok_def view_events_map)
qed

lemma queue_push_ok:
  assumes "queue_ok q" "eq_len q < MAX_EVENTS" "EventQueue_push e q = (r, q')"
  shows "r = Ok ()" "queue_ok q'" "queue_list q' = queue_list q @ [e]" "eq_len q' = eq_len q + 1"
proof -
  show "r = Ok ()" using assms by (simp add: EventQueue_push_def)
  then show "queue_ok q'" "queue_list q' = queue_list q @ [e]"
    using events.push_inv[OF assms(1), of e] assms(2,3) by (simp_all add: queue_push_def)
  then show "eq_len q' = eq_len q + 1" by (metis length_append_singleton length_queue_list Suc_eq_plus1)
qed

lemma sched_push_new:
  assumes "sched_ok s" "SchedulerState_len s < MAX_EVENTS"
    and "SchedulerState_replace_redundant_write e s = (False, s1)"
    and "SchedulerState_push e s = (r, s')"
  shows "r = Ok ()" "SchedulerState_len s' = SchedulerState_len s + 1"
    "queue_ok (sc_control s') \<and> queue_ok (sc_retransmit s') \<and> queue_ok (sc_new_data s') \<and> queue_ok (sc_local s')"
    "sched_view s' = (sched_view s)(queue_for_event e := sched_view s (queue_for_event e) @ [e])"
proof -
  have len: "eq_len (sc_control s) < MAX_EVENTS" "eq_len (sc_retransmit s) < MAX_EVENTS"
    "eq_len (sc_new_data s) < MAX_EVENTS" "eq_len (sc_local s) < MAX_EVENTS"
    using assms(2) by (auto simp: SchedulerState_len_def)
  have ok: "queue_ok (sc_control s)" "queue_ok (sc_retransmit s)" "queue_ok (sc_new_data s)" "queue_ok (sc_local s)"
    using assms(1) by (auto simp: sched_ok_def)
  have "r = Ok () \<and> SchedulerState_len s' = SchedulerState_len s + 1 \<and>
    (queue_ok (sc_control s') \<and> queue_ok (sc_retransmit s') \<and> queue_ok (sc_new_data s') \<and> queue_ok (sc_local s')) \<and>
    sched_view s' = (sched_view s)(queue_for_event e := sched_view s (queue_for_event e) @ [e])"
  proof (cases "queue_for_event e")
    case Control
    obtain r' q where p: "EventQueue_push e (sc_control s) = (r', q)" by fastforce
    then have "r = r'" "s' = s\<lparr>sc_control := q\<rparr>"
      using assms(2,3,4) Control by (simp_all add: SchedulerState_push_def)
    then show ?thesis
      using queue_push_ok[OF ok(1) len(1) p] ok Control by (auto simp: SchedulerState_len_def intro: view_eqI)
  next
    case Retransmit
    obtain r' q where p: "EventQueue_push e (sc_retransmit s) = (r', q)" by fastforce
    then have "r = r'" "s' = s\<lparr>sc_retransmit := q\<rparr>"
      using assms(2,3,4) Retransmit by (simp_all add: SchedulerState_push_def)
    then show ?thesis
      using queue_push_ok[OF ok(2) len(2) p] ok Retransmit by (auto simp: SchedulerState_len_def intro: view_eqI)
  next
    case NewData
    obtain r' q where p: "EventQueue_push e (sc_new_data s) = (r', q)" by fastforce
    then have "r = r'" "s' = s\<lparr>sc_new_data := q\<rparr>"
      using assms(2,3,4) NewData by (simp_all add: SchedulerState_push_def)
    then show ?thesis
      using queue_push_ok[OF ok(3) len(3) p] ok NewData by (auto simp: SchedulerState_len_def intro: view_eqI)
  next
    case Local
    obtain r' q where p: "EventQueue_push e (sc_local s) = (r', q)" by fastforce
    then have "r = r'" "s' = s\<lparr>sc_local := q\<rparr>"
      using assms(2,3,4) Local by (simp_all add: SchedulerState_push_def)
    then show ?thesis
      using queue_push_ok[OF ok(4) len(4) p] ok Local by (auto simp: SchedulerState_len_def intro: view_eqI)
  qed
  then show "r = Ok ()" "SchedulerState_len s' = SchedulerState_len s + 1"
    "queue_ok (sc_control s') \<and> queue_ok (sc_retransmit s') \<and> queue_ok (sc_new_data s') \<and> queue_ok (sc_local s')"
    "sched_view s' = (sched_view s)(queue_for_event e := sched_view s (queue_for_event e) @ [e])" by blast+
qed

lemma write_keys_view_snoc:
  assumes "distinct (write_keys (view_events v))"
    and "\<And>w. e = Write w \<Longrightarrow> wr_key w \<notin> set (write_keys (view_events v))"
  shows "distinct (write_keys (view_events (v(k := v k @ [e]))))"
proof (cases e)
  case (Write w)
  then show ?thesis using assms by (cases k) (auto simp: view_events_def)
next
  case (SendFailed f)
  then show ?thesis using assms(1) by (cases k) (auto simp: view_events_def)
qed

lemma sched_ok_new [simp]: "sched_ok SchedulerState_new"
  "view_events (sched_view SchedulerState_new) = []"
  using events.inv_empty events.contents_empty
  by (simp_all add: sched_ok_def SchedulerState_new_def view_events_def SchedulerState_len_def EventQueue_new_def
      queue_list_def)

text \<open>
  One push on the scheduler: the three outcomes, in terms of the four lists.
\<close>

lemma sched_push:
  assumes "sched_ok s" "SchedulerState_push e s = (r, s')"
  shows "sched_ok s'" "r = Ok () \<or> r = Err (Error_new Engine) \<and> s' = s"
    "spec_push e (sched_view s) = (r = Ok (), sched_view s')"
proof -
  let ?red = "\<exists>w. e = Write w \<and> wr_key w \<in> set (write_keys (view_events (sched_view s)))"
  obtain b s1 where b: "SchedulerState_replace_redundant_write e s = (b, s1)" by fastforce
  have red: "b \<longleftrightarrow> ?red"
    using sched_replace(1)[OF assms(1)] b by (cases e) auto
  have "sched_ok s' \<and> (r = Ok () \<or> r = Err (Error_new Engine) \<and> s' = s) \<and>
    spec_push e (sched_view s) = (r = Ok (), sched_view s')"
  proof (cases b)
    case True
    then obtain w where w: "e = Write w" using red by auto
    have "r = Ok ()" "s' = s1" using assms(2) b True by (simp_all add: SchedulerState_push_def)
    then show ?thesis
      using sched_replace(2,3)[OF assms(1), of w b s1] b w True red by (auto simp: spec_push_def)
  next
    case False
    then have nr: "\<not> ?red" using red by simp
    show ?thesis
    proof (cases "SchedulerState_len s = MAX_EVENTS")
      case True
      then have "r = Err (Error_new Engine)" "s' = s"
        using assms(2) b False by (simp_all add: SchedulerState_push_def)
      then show ?thesis using nr True assms(1) by (simp add: spec_push_def)
    next
      case lt: False
      then have lt': "SchedulerState_len s < MAX_EVENTS" using assms(1) by (auto simp: sched_ok_def)
      have b0: "SchedulerState_replace_redundant_write e s = (False, s1)" using b False by simp
      note P = sched_push_new[OF assms(1) lt' b0 assms(2)]
      have "distinct (write_keys (view_events (sched_view s')))"
        unfolding P(4) by (rule write_keys_view_snoc) (use nr assms(1) in \<open>auto simp: sched_ok_def\<close>)
      then have "sched_ok s'" using P(2,3) lt' by (auto simp: sched_ok_def)
      then show ?thesis using P(1,4) nr lt by (auto simp: spec_push_def)
    qed
  qed
  then show "sched_ok s'" "r = Ok () \<or> r = Err (Error_new Engine) \<and> s' = s"
    "spec_push e (sched_view s) = (r = Ok (), sched_view s')" by auto
qed

lemma queue_pop_list:
  assumes "queue_ok q" "EventQueue_pop q = (r, q')"
  shows "queue_ok q'" "queue_list q' = tl (queue_list q)"
    "r = (case queue_list q of [] \<Rightarrow> None | e # es \<Rightarrow> Some e)" "r = None \<Longrightarrow> q' = q"
  using events.pop_inv[OF assms(1)] events.pop_fst[OF assms(1)] events.pop_empty[OF assms(1)] assms(2)
  by (auto split: list.splits)

text \<open>The urgent queues are served in the order control, retransmit, local.\<close>

definition spec_pop :: "QueueKind list \<Rightarrow> (QueueKind \<Rightarrow> EngineOutput list) \<Rightarrow>
    EngineOutput option \<times> (QueueKind \<Rightarrow> EngineOutput list)" where
  "spec_pop ks v = (case find (\<lambda>k. v k \<noteq> []) ks of
      None \<Rightarrow> (None, v) | Some k \<Rightarrow> (Some (hd (v k)), v(k := tl (v k))))"

lemma sched_ok_pop:
  assumes "sched_ok s" "sched_view s' = (sched_view s)(k := tl (sched_view s k))"
    and "queue_ok (sc_control s')" "queue_ok (sc_retransmit s')" "queue_ok (sc_new_data s')" "queue_ok (sc_local s')"
  shows "sched_ok s'"
proof -
  have keys: "set (write_keys (tl es)) \<subseteq> set (write_keys es)" for es
    by (cases es) (auto simp: in_write_keys)
  have dk: "distinct (write_keys (tl es))" if "distinct (write_keys es)" for es
  proof (cases es)
    case (Cons e es')
    with that show ?thesis by (cases e) auto
  qed simp
  have "SchedulerState_len s' = length (view_events ((sched_view s)(k := tl (sched_view s k))))"
    using assms(2) length_view_events[of s'] by simp
  also have "\<dots> \<le> length (view_events (sched_view s))"
    by (cases k) (simp_all add: view_events_def)
  finally have "SchedulerState_len s' \<le> MAX_EVENTS" using assms(1) by (simp add: sched_ok_def)
  moreover have "distinct (write_keys (view_events ((sched_view s)(k := tl (sched_view s k)))))"
    using assms(1) keys[of "sched_view s k"] dk[of "sched_view s k"]
    by (cases k) (auto simp: sched_ok_def view_events_def)
  ultimately show ?thesis using assms by (simp add: sched_ok_def)
qed

lemma sched_pop_urgent:
  assumes "sched_ok s" "SchedulerState_pop_urgent s = (r, s')"
  shows "spec_pop [QueueKind.Control, QueueKind.Retransmit, QueueKind.Local] (sched_view s) = (r, sched_view s')"
    "sched_ok s'"
proof -
  have ok: "queue_ok (sc_control s)" "queue_ok (sc_retransmit s)" "queue_ok (sc_new_data s)" "queue_ok (sc_local s)"
    using assms(1) by (auto simp: sched_ok_def)
  obtain r1 q1 r2 q2 r3 q3 where
    p: "EventQueue_pop (sc_control s) = (r1, q1)" "EventQueue_pop (sc_retransmit s) = (r2, q2)"
      "EventQueue_pop (sc_local s) = (r3, q3)" by fastforce
  note P = queue_pop_list[OF ok(1) p(1)] queue_pop_list[OF ok(2) p(2)] queue_pop_list[OF ok(4) p(3)]
  consider (c) e where "r1 = Some e" "queue_list (sc_control s) \<noteq> []" "hd (queue_list (sc_control s)) = e"
      "r = Some e" "s' = s\<lparr>sc_control := q1\<rparr>"
    | (t) e where "r1 = None" "queue_list (sc_control s) = []" "r2 = Some e"
      "queue_list (sc_retransmit s) \<noteq> []" "hd (queue_list (sc_retransmit s)) = e"
      "r = Some e" "s' = s\<lparr>sc_retransmit := q2\<rparr>"
    | (l) "r1 = None" "queue_list (sc_control s) = []" "r2 = None" "queue_list (sc_retransmit s) = []"
      "r = r3" "s' = s\<lparr>sc_local := q3\<rparr>"
    using assms(2) p P(3,4,7,8) by (auto simp: SchedulerState_pop_urgent_def split: option.splits list.splits)
  then have "spec_pop [QueueKind.Control, QueueKind.Retransmit, QueueKind.Local] (sched_view s) = (r, sched_view s')
    \<and> (\<exists>k. sched_view s' = (sched_view s)(k := tl (sched_view s k)))"
  proof cases
    case c
    then have "sched_view s' = (sched_view s)(QueueKind.Control := tl (sched_view s QueueKind.Control))"
      by (intro view_eqI) (use P in auto)
    then show ?thesis using c by (auto simp: spec_pop_def intro: exI[of _ QueueKind.Control])
  next
    case t
    then have "sched_view s' = (sched_view s)(QueueKind.Retransmit := tl (sched_view s QueueKind.Retransmit))"
      by (intro view_eqI) (use P in auto)
    then show ?thesis using t by (auto simp: spec_pop_def intro: exI[of _ QueueKind.Retransmit])
  next
    case l
    then have v: "sched_view s' = (sched_view s)(QueueKind.Local := tl (sched_view s QueueKind.Local))"
      by (intro view_eqI) (use P in auto)
    then show ?thesis
      using l P(11) by (cases "queue_list (sc_local s)") (auto simp: spec_pop_def intro!: view_eqI exI[of _ QueueKind.Local])
  qed
  then show "spec_pop [QueueKind.Control, QueueKind.Retransmit, QueueKind.Local] (sched_view s) = (r, sched_view s')" ..
  then show "sched_ok s'"
    using \<open>_ \<and> (\<exists>k. _)\<close> sched_ok_pop[OF assms(1)] ok P assms(2) p
    by (auto simp: SchedulerState_pop_urgent_def split: option.splits)
qed

section \<open>Sequences of queue operations\<close>

text \<open>Popping \<open>n\<close> pending ACK keys.\<close>

primrec AckState_pops :: "nat \<Rightarrow> AckState \<Rightarrow> PacketKey option list \<times> AckState" where
  "AckState_pops 0 s = ([], s)"
| "AckState_pops (Suc n) s =
     (case AckState_pop s of (k, s') \<Rightarrow> case AckState_pops n s' of (ks, r) \<Rightarrow> (k # ks, r))"

lemma AckState_pops_eq: "AckState_pops n s = acks.pop_n n s"
  by (induction n arbitrary: s) (simp_all split: prod.splits)

lemma observe_fold_eq: "fold (\<lambda>k s. snd (AckState_observe k s)) ks s = acks.push_all ks s"
  by (induction ks arbitrary: s) simp_all

section \<open>Properties\<close>

text \<open>
  C14. Scheduler refinement: pushing an event replaces the queued write of the same packet in
  place, or reports \<^verbatim>\<open>Engine\<close> and changes nothing when 16 events are queued, or appends the event
  to the queue of its priority; the queues stay well-formed and at most one write per packet key
  is queued.
\<close>

theorem scheduler_push_refines:
  assumes "sched_ok s"
  shows "case SchedulerState_push e s of (r, s') \<Rightarrow>
    sched_ok s' \<and> spec_push e (sched_view s) = (r = Ok (), sched_view s') \<and>
    (r = Ok () \<or> r = Err (Error_new Engine) \<and> s' = s)"
  using sched_push[OF assms] by (cases "SchedulerState_push e s") simp

theorem scheduler_push_refines_witness:
  "case SchedulerState_push (SendFailed \<lparr>sf_packet_type = PacketType.Data, sf_message_id = MessageId 1,
       sf_reason = RetryLimitReached\<rparr>) SchedulerState_new of (r, s') \<Rightarrow> r = Ok () \<and> sched_ok s'"
  using scheduler_push_refines[OF sched_ok_new(1), of "SendFailed \<lparr>sf_packet_type = PacketType.Data,
      sf_message_id = MessageId 1, sf_reason = RetryLimitReached\<rparr>"]
  by (auto simp: spec_push_def SchedulerState_len_def SchedulerState_new_def EventQueue_new_def split: prod.splits)

text \<open>
  Priority: the urgent pop takes the oldest control event, else the oldest retransmission,
  else the oldest local event, and leaves all other events in place.
\<close>

theorem pop_urgent_priority:
  assumes "sched_ok s"
  shows "case SchedulerState_pop_urgent s of (r, s') \<Rightarrow>
    sched_ok s' \<and>
    spec_pop [QueueKind.Control, QueueKind.Retransmit, QueueKind.Local] (sched_view s) = (r, sched_view s')"
  using sched_pop_urgent[OF assms] by (cases "SchedulerState_pop_urgent s") simp

theorem pop_urgent_priority_witness:
  "fst (SchedulerState_pop_urgent SchedulerState_new) = None"
  using pop_urgent_priority[OF sched_ok_new(1)]
  by (auto simp: spec_pop_def SchedulerState_new_def EventQueue_new_def queue_list_def split: prod.splits)

text \<open>
  The pending-ACK queue is first in, first out and loses nothing: up to 16 observed keys,
  duplicates included, are popped again in the order they were observed, and the queue is idle
  afterwards.
\<close>

lemma ack_queue_fifo:
  assumes "length ks \<le> MAX_PENDING_ACKS"
  shows "case AckState_pops (length ks) (fold (\<lambda>k s. snd (AckState_observe k s)) ks AckState_new) of (popped, s) \<Rightarrow>
    popped = map Some ks \<and> \<not> AckState_is_pending s"
  using acks.fifo_order[OF assms]
  by (auto simp: AckState_pops_eq observe_fold_eq ack_list_def ring_list_Nil AckState_is_pending_def
      split: prod.splits)

text \<open>
  C33. The delivery queue keeps the newest 16 complete messages: after any pushes it holds exactly
  the last 16 of them, oldest first, so an unread message is dropped when a 17th arrives.
\<close>

theorem delivery_queue_newest:
  "message_list (fold MessageState_push ms MessageState_new) = drop (length ms - MAX_MESSAGE_EVENTS) ms"
  using messages.push_all_newest[OF messages.inv_empty, of ms] by (simp add: messages.contents_empty)

end
