(* ===== verification/Reassembly.thy ===== *)
theory Reassembly
  imports Engine_Queues
begin

text \<open>
  Message reassembly (\<^verbatim>\<open>src/engine/state/reassembly.rs\<close>): a fixed table of slots, each collecting
  the fragments of one message.  The table is refined to a partial map from message keys to slots;
  the lemmas show that fragments complete a message in any order, that messages do not disturb each
  other while at most four are incomplete, and, through the locale \<open>reassembler\<close>, that only
  genuine messages are ever delivered.
\<close>

section \<open>engine/state/reassembly.rs\<close>

record MessageKey =
  mk_packet_type :: PacketType
  mk_message_id :: MessageId

definition MessageKey_ZERO :: MessageKey where
  "MessageKey_ZERO = \<lparr>mk_packet_type = PacketType.Data, mk_message_id = MessageId_ZERO\<rparr>"

record ReassemblySlot =
  rl_active :: bool
  rl_key :: MessageKey
  rl_expected_len :: usize
  rl_updated_at_ms :: u64
  rl_last_seen :: bool
  rl_received :: "bool list"
  rl_bytes :: bytes

definition ReassemblySlot_new :: ReassemblySlot where
  "ReassemblySlot_new = \<lparr>rl_active = False, rl_key = MessageKey_ZERO, rl_expected_len = 0,
     rl_updated_at_ms = 0, rl_last_seen = False, rl_received = replicate MAX_MESSAGE_BYTES False,
     rl_bytes = replicate MAX_MESSAGE_BYTES 0\<rparr>"

definition ReassemblySlot_start :: "MessageKey \<Rightarrow> usize \<Rightarrow> u64 \<Rightarrow> ReassemblySlot" where
  "ReassemblySlot_start k expected_len now = \<lparr>rl_active = True, rl_key = k, rl_expected_len = expected_len,
     rl_updated_at_ms = now, rl_last_seen = False, rl_received = replicate MAX_MESSAGE_BYTES False,
     rl_bytes = replicate MAX_MESSAGE_BYTES 0\<rparr>"

definition ReassemblySlot_is_complete :: "ReassemblySlot \<Rightarrow> bool res" where
  "ReassemblySlot_is_complete s =
     (if \<not> rl_last_seen s then Ok False
      else if rl_expected_len s \<le> length (rl_received s)
      then Ok (list_all (\<lambda>r. r) (take (rl_expected_len s) (rl_received s)))
      else Panic)"

definition ReassemblySlot_observe ::
  "MessageFragment \<Rightarrow> u64 \<Rightarrow> ReassemblySlot \<Rightarrow> MessageEvent option res \<times> ReassemblySlot" where
  "ReassemblySlot_observe f now s =
     (if rl_expected_len s \<noteq> mf_message_len f then (Err (Error_new Engine), s)
      else let frag_end = mf_fragment_offset f + length (mf_bytes f) in
        if frag_end > rl_expected_len s \<or> frag_end > MAX_MESSAGE_BYTES then (Err (Error_new Engine), s)
        else
          let s = s\<lparr>rl_bytes := copy_at (rl_bytes s) (mf_fragment_offset f) (mf_bytes f),
                    rl_updated_at_ms := now\<rparr>;
              s = s\<lparr>rl_received := copy_at (rl_received s) (mf_fragment_offset f)
                      (replicate (length (mf_bytes f)) True)\<rparr>;
              s = (if frag_end = rl_expected_len s then s\<lparr>rl_last_seen := True\<rparr> else s)
          in case ReassemblySlot_is_complete s of
               Ok True \<Rightarrow>
                 (Ok (Some \<lparr>me_packet_type = mk_packet_type (rl_key s), me_message_id = mk_message_id (rl_key s),
                            me_bytes = rl_bytes s, me_len = rl_expected_len s\<rparr>), ReassemblySlot_new)
             | Ok False \<Rightarrow> (Ok None, s)
             | Err e \<Rightarrow> (Err e, s)
             | Panic \<Rightarrow> (Panic, s))"

record ReassemblyState =
  ra_slots :: "ReassemblySlot list"

definition ReassemblyState_new :: ReassemblyState where
  "ReassemblyState_new = \<lparr>ra_slots = replicate MAX_REASSEMBLY_MESSAGES ReassemblySlot_new\<rparr>"

definition ReassemblyState_find_slot :: "ReassemblyState \<Rightarrow> MessageKey \<Rightarrow> usize option" where
  "ReassemblyState_find_slot s k = position (\<lambda>slot. rl_active slot \<and> rl_key slot = k) (ra_slots s)"

text \<open>The loop of \<^verbatim>\<open>oldest_slot\<close>, with the index and time stamp of the oldest slot so far.\<close>

fun oldest_from :: "usize \<Rightarrow> u64 \<Rightarrow> usize \<Rightarrow> ReassemblySlot list \<Rightarrow> usize" where
  "oldest_from oldest_index oldest_updated_at index [] = oldest_index"
| "oldest_from oldest_index oldest_updated_at index (slot # slots) =
     (if rl_updated_at_ms slot < oldest_updated_at
      then oldest_from index (rl_updated_at_ms slot) (index + 1) slots
      else oldest_from oldest_index oldest_updated_at (index + 1) slots)"

definition ReassemblyState_oldest_slot :: "ReassemblyState \<Rightarrow> usize" where
  "ReassemblyState_oldest_slot s = oldest_from 0 (- 1) 0 (ra_slots s)"

definition ReassemblyState_allocate_slot ::
  "MessageKey \<Rightarrow> MessageFragment \<Rightarrow> u64 \<Rightarrow> ReassemblyState \<Rightarrow> usize \<times> ReassemblyState" where
  "ReassemblyState_allocate_slot k f now s =
     (let index = (case position (\<lambda>slot. \<not> rl_active slot) (ra_slots s) of
                     Some i \<Rightarrow> i | None \<Rightarrow> ReassemblyState_oldest_slot s) in
      (index, s\<lparr>ra_slots := (ra_slots s)[index := ReassemblySlot_start k (mf_message_len f) now]\<rparr>))"

definition fragment_key :: "MessageFragment \<Rightarrow> MessageKey" where
  "fragment_key f = \<lparr>mk_packet_type = mf_packet_type f, mk_message_id = mf_message_id f\<rparr>"

definition ReassemblyState_observe ::
  "MessageFragment \<Rightarrow> u64 \<Rightarrow> ReassemblyState \<Rightarrow> MessageEvent option res \<times> ReassemblyState" where
  "ReassemblyState_observe f now s =
     (if mf_message_len f > MAX_MESSAGE_BYTES then (Err (Error_new Engine), s)
      else let k = fragment_key f;
               (index, s) = (case ReassemblyState_find_slot s k of
                   Some index \<Rightarrow> (index, s)
                 | None \<Rightarrow> ReassemblyState_allocate_slot k f now s) in
        case ReassemblySlot_observe f now (ra_slots s ! index) of
          (r, slot) \<Rightarrow> (r, s\<lparr>ra_slots := (ra_slots s)[index := slot]\<rparr>))"

definition ReassemblyState_expire :: "u64 \<Rightarrow> u64 \<Rightarrow> ReassemblyState \<Rightarrow> ReassemblyState" where
  "ReassemblyState_expire now timeout s =
     s\<lparr>ra_slots := map (\<lambda>slot. if rl_active slot \<and> timeout \<le> saturating_sub now (rl_updated_at_ms slot)
        then ReassemblySlot_new else slot) (ra_slots s)\<rparr>"

section \<open>One slot\<close>

text \<open>A slot holds a part of a message: the bytes at the received positions are the message's.\<close>

definition slot_ok :: "ReassemblySlot \<Rightarrow> bool" where
  "slot_ok s \<longleftrightarrow> length (rl_received s) = MAX_MESSAGE_BYTES \<and> length (rl_bytes s) = MAX_MESSAGE_BYTES \<and>
     (rl_active s \<longrightarrow> rl_expected_len s \<le> MAX_MESSAGE_BYTES)"

definition holds_part :: "bytes \<Rightarrow> ReassemblySlot \<Rightarrow> bool" where
  "holds_part msg s \<longleftrightarrow> rl_expected_len s = length msg \<and>
     (\<forall>i<length msg. rl_received s ! i \<longrightarrow> rl_bytes s ! i = msg ! i)"

text \<open>A fragment is genuine when it is the part of the message at its offset.\<close>

definition part_of :: "bytes \<Rightarrow> MessageFragment \<Rightarrow> bool" where
  "part_of msg f \<longleftrightarrow> mf_message_len f = length msg \<and>
     mf_fragment_offset f + length (mf_bytes f) \<le> length msg \<and>
     mf_bytes f = take (length (mf_bytes f)) (drop (mf_fragment_offset f) msg)"

definition covers :: "MessageFragment \<Rightarrow> nat \<Rightarrow> bool" where
  "covers f i \<longleftrightarrow> mf_fragment_offset f \<le> i \<and> i < mf_fragment_offset f + length (mf_bytes f)"

definition ends_message :: "MessageFragment \<Rightarrow> bool" where
  "ends_message f \<longleftrightarrow> mf_fragment_offset f + length (mf_bytes f) = mf_message_len f"

text \<open>The slot after a fragment was stored, before it is checked for completeness.\<close>

definition slot_store :: "MessageFragment \<Rightarrow> u64 \<Rightarrow> ReassemblySlot \<Rightarrow> ReassemblySlot" where
  "slot_store f now s =
     s\<lparr>rl_bytes := copy_at (rl_bytes s) (mf_fragment_offset f) (mf_bytes f), rl_updated_at_ms := now,
       rl_received := copy_at (rl_received s) (mf_fragment_offset f) (replicate (length (mf_bytes f)) True),
       rl_last_seen := (rl_last_seen s \<or> ends_message f)\<rparr>"

definition slot_done :: "ReassemblySlot \<Rightarrow> bool" where
  "slot_done s \<longleftrightarrow> rl_last_seen s \<and> (\<forall>i<rl_expected_len s. rl_received s ! i)"

definition slot_event :: "ReassemblySlot \<Rightarrow> MessageEvent" where
  "slot_event s = \<lparr>me_packet_type = mk_packet_type (rl_key s), me_message_id = mk_message_id (rl_key s),
     me_bytes = rl_bytes s, me_len = rl_expected_len s\<rparr>"

lemma is_complete_eq:
  "rl_expected_len s \<le> length (rl_received s) \<Longrightarrow> ReassemblySlot_is_complete s = Ok (slot_done s)"
  by (auto simp: ReassemblySlot_is_complete_def slot_done_def list_all_length)

lemma slot_store_ok:
  assumes "slot_ok s" "rl_active s" "mf_message_len f = rl_expected_len s"
    and "mf_fragment_offset f + length (mf_bytes f) \<le> mf_message_len f"
  shows "slot_ok (slot_store f now s)" "rl_active (slot_store f now s)"
    "rl_expected_len (slot_store f now s) = rl_expected_len s" "rl_key (slot_store f now s) = rl_key s"
    "i < rl_expected_len s \<Longrightarrow> rl_received (slot_store f now s) ! i \<longleftrightarrow> rl_received s ! i \<or> covers f i"
    "i < rl_expected_len s \<Longrightarrow> rl_bytes (slot_store f now s) ! i =
       (if covers f i then mf_bytes f ! (i - mf_fragment_offset f) else rl_bytes s ! i)"
    "rl_last_seen (slot_store f now s) \<longleftrightarrow> rl_last_seen s \<or> ends_message f"
    "rl_updated_at_ms (slot_store f now s) = now"
  using assms by (auto simp: slot_ok_def slot_store_def nth_copy_at covers_def)

lemma slot_observe_eq:
  assumes "slot_ok s" "rl_active s"
  shows "ReassemblySlot_observe f now s =
    (if mf_message_len f = rl_expected_len s \<and> mf_fragment_offset f + length (mf_bytes f) \<le> mf_message_len f
     then if slot_done (slot_store f now s) then (Ok (Some (slot_event (slot_store f now s))), ReassemblySlot_new)
          else (Ok None, slot_store f now s)
     else (Err (Error_new Engine), s))"
proof (cases "mf_message_len f = rl_expected_len s \<and> mf_fragment_offset f + length (mf_bytes f) \<le> mf_message_len f")
  case True
  let ?t = "slot_store f now s"
  have le: "rl_expected_len s \<le> MAX_MESSAGE_BYTES" using assms by (simp add: slot_ok_def)
  have ok: "slot_ok ?t" "rl_expected_len ?t = rl_expected_len s"
    using slot_store_ok[OF assms] True by simp_all
  then have "ReassemblySlot_is_complete ?t = Ok (slot_done ?t)"
    using le by (intro is_complete_eq) (simp add: slot_ok_def)
  moreover have "ReassemblySlot_observe f now s = (case ReassemblySlot_is_complete ?t of
       Ok True \<Rightarrow> (Ok (Some (slot_event ?t)), ReassemblySlot_new) | Ok False \<Rightarrow> (Ok None, ?t)
     | Err e \<Rightarrow> (Err e, ?t) | Panic \<Rightarrow> (Panic, ?t))"
    using True le
    by (cases s) (simp add: ReassemblySlot_observe_def Let_def slot_store_def slot_event_def ends_message_def
        split: res.split bool.split)
  ultimately show ?thesis using True by (auto split: bool.splits)
qed (use assms in \<open>auto simp: ReassemblySlot_observe_def slot_ok_def Let_def\<close>)

lemma slot_ok_start [simp]: "n \<le> MAX_MESSAGE_BYTES \<Longrightarrow> slot_ok (ReassemblySlot_start k n now)"
  and slot_ok_new [simp]: "slot_ok ReassemblySlot_new" "\<not> rl_active ReassemblySlot_new"
  and start_simps [simp]: "rl_active (ReassemblySlot_start k n now)" "rl_key (ReassemblySlot_start k n now) = k"
    "rl_expected_len (ReassemblySlot_start k n now) = n" "\<not> rl_last_seen (ReassemblySlot_start k n now)"
    "rl_updated_at_ms (ReassemblySlot_start k n now) = now"
    "i < MAX_MESSAGE_BYTES \<Longrightarrow> \<not> rl_received (ReassemblySlot_start k n now) ! i"
  by (simp_all add: slot_ok_def ReassemblySlot_start_def ReassemblySlot_new_def)

lemma holds_part_start: "length msg \<le> MAX_MESSAGE_BYTES \<Longrightarrow> holds_part msg (ReassemblySlot_start k (length msg) now)"
  by (auto simp: holds_part_def)

lemma part_of_nth: "part_of msg f \<Longrightarrow> covers f i \<Longrightarrow> mf_bytes f ! (i - mf_fragment_offset f) = msg ! i"
proof -
  assume p: "part_of msg f" and c: "covers f i"
  have "mf_bytes f ! (i - mf_fragment_offset f) =
      take (length (mf_bytes f)) (drop (mf_fragment_offset f) msg) ! (i - mf_fragment_offset f)"
    using p by (simp add: part_of_def)
  also have "\<dots> = drop (mf_fragment_offset f) msg ! (i - mf_fragment_offset f)"
    using c by (intro nth_take) (auto simp: covers_def)
  also have "\<dots> = msg ! i" using p c by (subst nth_drop) (auto simp: part_of_def covers_def)
  finally show ?thesis .
qed

lemma holds_part_store:
  assumes "slot_ok s" "rl_active s" "holds_part msg s" "part_of msg f"
  shows "holds_part msg (slot_store f now s)"
  using slot_store_ok[OF assms(1,2), of f] assms(3,4) part_of_nth[OF assms(4)]
  by (auto simp: holds_part_def part_of_def)

lemma slot_event_bytes:
  assumes "slot_ok s" "holds_part msg s" "slot_done s" "length msg \<le> MAX_MESSAGE_BYTES"
  shows "MessageEvent_as_bytes (slot_event s) = Ok msg"
proof -
  have "take (length msg) (rl_bytes s) = msg"
    using assms by (intro nth_equalityI) (auto simp: slot_ok_def holds_part_def slot_done_def)
  then show ?thesis
    using assms by (simp add: MessageEvent_as_bytes_def split_at_fst_def slot_event_def slot_ok_def holds_part_def)
qed

section \<open>The table as a partial map\<close>

definition reasm_entries :: "ReassemblyState \<Rightarrow> ReassemblySlot option list" where
  "reasm_entries s = map (\<lambda>slot. if rl_active slot then Some slot else None) (ra_slots s)"

definition reasm_map :: "ReassemblyState \<Rightarrow> MessageKey \<Rightarrow> ReassemblySlot option" where
  "reasm_map s k = slot_lookup rl_key k (reasm_entries s)"

definition reasm_ok :: "ReassemblyState \<Rightarrow> bool" where
  "reasm_ok s \<longleftrightarrow> length (ra_slots s) = MAX_REASSEMBLY_MESSAGES \<and> (\<forall>slot\<in>set (ra_slots s). slot_ok slot) \<and>
     distinct (map rl_key (flatten (reasm_entries s)))"

text \<open>One message on its own: its slot, if it has one, observes the fragment.\<close>

definition entry_observe ::
  "MessageFragment \<Rightarrow> u64 \<Rightarrow> ReassemblySlot option \<Rightarrow> MessageEvent option res \<times> ReassemblySlot option" where
  "entry_observe f now e =
     (case ReassemblySlot_observe f now (case e of Some slot \<Rightarrow> slot
          | None \<Rightarrow> ReassemblySlot_start (fragment_key f) (mf_message_len f) now) of
        (r, slot) \<Rightarrow> (r, if rl_active slot then Some slot else None))"

lemma reasm_entries_update:
  "reasm_entries (s\<lparr>ra_slots := (ra_slots s)[i := x]\<rparr>) = (reasm_entries s)[i := if rl_active x then Some x else None]"
  by (simp add: reasm_entries_def map_update)

lemma length_reasm_entries [simp]: "length (reasm_entries s) = length (ra_slots s)"
  by (simp add: reasm_entries_def)

lemma nth_reasm_entries:
  "i < length (ra_slots s) \<Longrightarrow> reasm_entries s ! i = (if rl_active (ra_slots s ! i) then Some (ra_slots s ! i) else None)"
  by (simp add: reasm_entries_def)

lemma find_slot_eq: "ReassemblyState_find_slot s k = slot_pos rl_key k (reasm_entries s)"
proof -
  have "position (\<lambda>slot. rl_active slot \<and> rl_key slot = k) xs =
    slot_pos rl_key k (map (\<lambda>slot. if rl_active slot then Some slot else None) xs)" for xs
    by (induction xs) auto
  then show ?thesis by (simp add: ReassemblyState_find_slot_def reasm_entries_def)
qed

lemma free_slot_eq: "position (\<lambda>slot. \<not> rl_active slot) (ra_slots s) = slot_free (reasm_entries s)"
proof -
  have "position (\<lambda>slot. \<not> rl_active slot) xs =
    slot_free (map (\<lambda>slot. if rl_active slot then Some slot else None) xs)" for xs
    by (induction xs) (auto simp: slot_free_def)
  then show ?thesis by (simp add: reasm_entries_def)
qed

lemma dom_reasm_map: "dom (reasm_map s) = rl_key ` set (flatten (reasm_entries s))"
  by (auto simp: reasm_map_def dom_def slot_lookup_None slot_pos_None)

lemma finite_reasm_map [simp]: "finite (dom (reasm_map s))"
  by (simp add: dom_reasm_map)

lemma card_reasm_map: "reasm_ok s \<Longrightarrow> card (dom (reasm_map s)) = length (flatten (reasm_entries s))"
  using distinct_card[of "map rl_key (flatten (reasm_entries s))"] by (simp add: dom_reasm_map reasm_ok_def)

lemma reasm_map_Some:
  assumes "reasm_ok s" "reasm_map s k = Some slot"
  shows "slot \<in> set (ra_slots s)" "rl_active slot" "rl_key slot = k" "slot_ok slot"
proof -
  have "rl_key slot = k" "Some slot \<in> set (reasm_entries s)"
    using slot_lookup_SomeD[of rl_key k "reasm_entries s" slot] assms(2)
    by (auto simp: reasm_map_def in_set_flatten)
  then show "slot \<in> set (ra_slots s)" "rl_active slot" "rl_key slot = k" "slot_ok slot"
    using assms(1) by (auto simp: reasm_entries_def reasm_ok_def split: if_splits)
qed

lemma oldest_from:
  "oldest_from oi ot n xs = oi \<and> (\<forall>x\<in>set xs. ot \<le> rl_updated_at_ms x) \<or>
   (\<exists>j<length xs. oldest_from oi ot n xs = n + j \<and> rl_updated_at_ms (xs ! j) < ot \<and>
      (\<forall>x\<in>set xs. rl_updated_at_ms (xs ! j) \<le> rl_updated_at_ms x))"
proof (induction xs arbitrary: oi ot n)
  case (Cons x xs)
  show ?case
  proof (cases "rl_updated_at_ms x < ot")
    case True
    from Cons.IH[of n "rl_updated_at_ms x" "n + 1"] show ?thesis
    proof (elim disjE exE conjE)
      assume "oldest_from n (rl_updated_at_ms x) (n + 1) xs = n" "\<forall>y\<in>set xs. rl_updated_at_ms x \<le> rl_updated_at_ms y"
      then show ?thesis using True by (intro disjI2 exI[of _ 0]) auto
    next
      fix j assume "j < length xs" "oldest_from n (rl_updated_at_ms x) (n + 1) xs = n + 1 + j"
        "rl_updated_at_ms (xs ! j) < rl_updated_at_ms x" "\<forall>y\<in>set xs. rl_updated_at_ms (xs ! j) \<le> rl_updated_at_ms y"
      then show ?thesis using True by (intro disjI2 exI[of _ "Suc j"]) auto
    qed
  next
    case False
    from Cons.IH[of oi ot "n + 1"] show ?thesis
    proof (elim disjE exE conjE)
      assume "oldest_from oi ot (n + 1) xs = oi" "\<forall>y\<in>set xs. ot \<le> rl_updated_at_ms y"
      then show ?thesis using False by (intro disjI1) auto
    next
      fix j assume "j < length xs" "oldest_from oi ot (n + 1) xs = n + 1 + j"
        "rl_updated_at_ms (xs ! j) < ot" "\<forall>y\<in>set xs. rl_updated_at_ms (xs ! j) \<le> rl_updated_at_ms y"
      then show ?thesis using False by (intro disjI2 exI[of _ "Suc j"]) auto
    qed
  qed
qed simp

lemma oldest_slot:
  assumes "ra_slots s \<noteq> []"
  shows "ReassemblyState_oldest_slot s < length (ra_slots s)"
    "x \<in> set (ra_slots s) \<Longrightarrow> rl_updated_at_ms (ra_slots s ! ReassemblyState_oldest_slot s) \<le> rl_updated_at_ms x"
proof -
  have max: "y \<le> (- 1 :: u64)" for y by simp
  show "ReassemblyState_oldest_slot s < length (ra_slots s)"
    "x \<in> set (ra_slots s) \<Longrightarrow> rl_updated_at_ms (ra_slots s ! ReassemblyState_oldest_slot s) \<le> rl_updated_at_ms x"
    using oldest_from[of 0 "- 1" 0 "ra_slots s"] assms
    by (auto simp: ReassemblyState_oldest_slot_def intro: order_trans[OF max])
qed

text \<open>The slot after an observation is free or still collects the same message.\<close>

lemma observe_slot_ok:
  assumes "slot_ok s" "rl_active s" "ReassemblySlot_observe f now s = (r, s')"
  shows "slot_ok s'" "rl_active s' \<Longrightarrow> rl_key s' = rl_key s"
  using assms slot_store_ok[OF assms(1,2), where f = f and now = now] by (auto simp: slot_observe_eq split: if_splits)

lemma entry_observe_ok:
  assumes "e = None \<or> (\<exists>s. e = Some s \<and> slot_ok s \<and> rl_active s \<and> rl_key s = fragment_key f)"
    and "mf_message_len f \<le> MAX_MESSAGE_BYTES" "entry_observe f now e = (r, Some s')"
  shows "slot_ok s'" "rl_active s'" "rl_key s' = fragment_key f"
proof -
  obtain s where s: "slot_ok s" "rl_active s" "rl_key s = fragment_key f"
    and "(case e of Some slot \<Rightarrow> slot | None \<Rightarrow> ReassemblySlot_start (fragment_key f) (mf_message_len f) now) = s"
    by (rule that[of "case e of Some slot \<Rightarrow> slot | None \<Rightarrow> ReassemblySlot_start (fragment_key f) (mf_message_len f) now"])
       (use assms(1,2) in auto)
  then have o: "ReassemblySlot_observe f now s = (r, s')" "rl_active s'"
    using assms(3) by (auto simp: entry_observe_def split: prod.splits if_splits)
  show "slot_ok s'" "rl_active s'" "rl_key s' = fragment_key f"
    using observe_slot_ok[OF s(1,2) o(1)] o(2) s(3) by simp_all
qed

lemma slot_pos_unique:
  "distinct (map key (flatten xs)) \<Longrightarrow> i < length xs \<Longrightarrow> xs ! i = Some v \<Longrightarrow> slot_pos key (key v) xs = Some i"
proof (induction xs arbitrary: i rule: flatten.induct)
  case (2 xs)
  then show ?case by (cases i) auto
next
  case (3 x xs)
  show ?case
  proof (cases i)
    case (Suc j)
    then have "v \<in> set (flatten xs)" using 3(3,4) by (simp add: in_set_flatten) (metis nth_mem)
    then show ?thesis using 3 Suc by auto
  qed (use 3 in auto)
qed simp

lemma reasm_put:
  assumes "reasm_ok s" "i < length (ra_slots s)" "slot_ok x"
    and "rl_active x \<Longrightarrow> rl_key x = k"
    and "slot_pos rl_key k (reasm_entries s) = Some i \<or>
      slot_pos rl_key k (reasm_entries s) = None \<and> reasm_entries s ! i = None"
  shows "reasm_ok (s\<lparr>ra_slots := (ra_slots s)[i := x]\<rparr>)"
    "reasm_map (s\<lparr>ra_slots := (ra_slots s)[i := x]\<rparr>) = (reasm_map s)(k := if rl_active x then Some x else None)"
proof -
  let ?s = "s\<lparr>ra_slots := (ra_slots s)[i := x]\<rparr>" and ?es = "reasm_entries s"
  have slots: "\<forall>slot\<in>set (ra_slots ?s). slot_ok slot" "length (ra_slots ?s) = MAX_REASSEMBLY_MESSAGES"
    using assms(1,2,3) set_update_subset_insert[of "ra_slots s" i x] by (auto simp: reasm_ok_def)
  have "distinct (map rl_key (flatten (reasm_entries ?s))) \<and>
    reasm_map ?s = (reasm_map s)(k := if rl_active x then Some x else None)"
    using assms(5)
  proof
    assume pos: "slot_pos rl_key k ?es = Some i"
    then obtain u where u: "i < length ?es" "?es ! i = Some u" "rl_key u = k" by (rule slot_pos_Some)
    obtain ys zs where f: "flatten ?es = ys @ u # zs" "\<And>v. flatten (?es[i := Some v]) = ys @ v # zs"
      "flatten (?es[i := None]) = ys @ zs" using flatten_replace[OF u(1,2)] by metis
    show ?thesis
    proof (cases "rl_active x")
      case True
      then show ?thesis
        using f u assms(1,4) slot_lookup_replace[of rl_key x ?es i] pos
        by (auto simp: reasm_ok_def reasm_entries_update reasm_map_def fun_eq_iff)
    next
      case False
      then show ?thesis
        using f u assms(1) slot_lookup_remove[of rl_key ?es k i] pos
        by (auto simp: reasm_ok_def reasm_entries_update reasm_map_def fun_eq_iff)
    qed
  next
    assume none: "slot_pos rl_key k ?es = None \<and> ?es ! i = None"
    have i: "i < length ?es" using assms(2) by simp
    obtain ys zs where f: "flatten ?es = ys @ zs" "\<And>v. flatten (?es[i := Some v]) = ys @ v # zs"
      using flatten_insert[OF i] none by metis
    show ?thesis
    proof (cases "rl_active x")
      case True
      then show ?thesis
        using f none assms(1,4) slot_lookup_insert[of rl_key x ?es i] i
        by (auto simp: reasm_ok_def reasm_entries_update reasm_map_def fun_eq_iff slot_pos_None)
    next
      case False
      then have e: "reasm_entries ?s = ?es" using none list_update_id[of ?es i] by (simp add: reasm_entries_update)
      have m: "reasm_map ?s = reasm_map s" by (rule ext) (simp only: reasm_map_def e)
      have "reasm_map s k = None" using none by (simp add: reasm_map_def slot_lookup_None)
      then have "(reasm_map s)(k := None) = reasm_map s" by (rule fun_upd_idem)
      moreover have "distinct (map rl_key (flatten ?es))" using assms(1) by (simp add: reasm_ok_def)
      ultimately show ?thesis unfolding m e using False by simp
    qed
  qed
  then show "reasm_ok ?s" "reasm_map ?s = (reasm_map s)(k := if rl_active x then Some x else None)"
    using slots by (auto simp: reasm_ok_def)
qed

text \<open>
  The state keeps a fragment in one of three places: the slot of its message, a free slot, or the slot of
  the message that was touched longest ago.
\<close>

lemma observe_started:
  assumes "mf_message_len f \<le> MAX_MESSAGE_BYTES"
    and "ReassemblySlot_observe f now (ReassemblySlot_start (fragment_key f) (mf_message_len f) now) = (r, x)"
  shows "slot_ok x" "rl_active x \<Longrightarrow> rl_key x = fragment_key f"
    and "entry_observe f now None = (r, if rl_active x then Some x else None)"
proof -
  let ?st = "ReassemblySlot_start (fragment_key f) (mf_message_len f) now"
  have st: "slot_ok ?st" "rl_active ?st" "rl_key ?st = fragment_key f" using assms(1) by simp_all
  show "slot_ok x" "rl_active x \<Longrightarrow> rl_key x = fragment_key f"
    using observe_slot_ok[OF st(1,2) assms(2)] st(3) by simp_all
  show "entry_observe f now None = (r, if rl_active x then Some x else None)"
    by (simp add: entry_observe_def assms(2))
qed

lemma observe_known:
  assumes "reasm_ok s" "mf_message_len f \<le> MAX_MESSAGE_BYTES" "ReassemblyState_observe f now s = (r, s')"
    and "slot_pos rl_key (fragment_key f) (reasm_entries s) = Some i"
  obtains e where "reasm_ok s'" "entry_observe f now (reasm_map s (fragment_key f)) = (r, e)"
    "reasm_map s' = (reasm_map s)(fragment_key f := e)" "fragment_key f \<in> dom (reasm_map s)"
proof -
  let ?k = "fragment_key f"
  obtain u where u: "i < length (reasm_entries s)" "reasm_entries s ! i = Some u" "rl_key u = ?k"
    using assms(4) by (rule slot_pos_Some)
  then have nth: "ra_slots s ! i = u" "rl_active u" by (auto simp: nth_reasm_entries split: if_splits)
  have "u \<in> set (ra_slots s)" using u(1) nth(1) by (metis length_reasm_entries nth_mem)
  then have uok: "slot_ok u" using assms(1) by (auto simp: reasm_ok_def)
  obtain r2 x where x: "ReassemblySlot_observe f now u = (r2, x)" by fastforce
  note xok = observe_slot_ok[OF uok nth(2) x]
  have s': "r = r2" "s' = s\<lparr>ra_slots := (ra_slots s)[i := x]\<rparr>"
    using assms(2-4) x nth by (simp_all add: ReassemblyState_observe_def find_slot_eq)
  have m: "reasm_map s ?k = Some u" by (simp add: reasm_map_def slot_lookup_def assms(4) u(2))
  show thesis
  proof (rule that)
    show "reasm_ok s'" "reasm_map s' = (reasm_map s)(?k := if rl_active x then Some x else None)"
      using reasm_put[OF assms(1), of i x ?k] u xok assms(4) s' by auto
    show "entry_observe f now (reasm_map s ?k) = (r, if rl_active x then Some x else None)"
      by (simp add: entry_observe_def m x s')
  qed (use m in blast)
qed

lemma observe_free:
  assumes "reasm_ok s" "mf_message_len f \<le> MAX_MESSAGE_BYTES" "ReassemblyState_observe f now s = (r, s')"
    and "slot_pos rl_key (fragment_key f) (reasm_entries s) = None" "slot_free (reasm_entries s) = Some i"
  obtains e where "reasm_ok s'" "entry_observe f now (reasm_map s (fragment_key f)) = (r, e)"
    "reasm_map s' = (reasm_map s)(fragment_key f := e)" "card (dom (reasm_map s)) < MAX_REASSEMBLY_MESSAGES"
proof -
  let ?k = "fragment_key f"
  have len: "length (ra_slots s) = 4" using assms(1) by (simp add: reasm_ok_def)
  obtain r1 x where x: "ReassemblySlot_observe f now (ReassemblySlot_start ?k (mf_message_len f) now) = (r1, x)"
    by fastforce
  note X = observe_started[OF assms(2) x]
  have i: "i < length (ra_slots s)" "reasm_entries s ! i = None" using assms(5) by (auto dest: slot_free_Some)
  have s': "r = r1" "s' = s\<lparr>ra_slots := (ra_slots s)[i := x]\<rparr>"
    using assms(2-5) x i(1)
    by (simp_all add: ReassemblyState_observe_def ReassemblyState_allocate_slot_def find_slot_eq free_slot_eq Let_def)
  have card: "card (dom (reasm_map s)) < MAX_REASSEMBLY_MESSAGES"
    using assms(5) slot_free_None[of "reasm_entries s"] length_flatten_le[of "reasm_entries s"] len
    by (simp add: card_reasm_map[OF assms(1)] order.order_iff_strict)
  have "?k \<notin> dom (reasm_map s)" using assms(4) by (auto simp: dom_reasm_map slot_pos_None)
  then have m: "reasm_map s ?k = None" by auto
  show thesis
    by (rule that[of "if rl_active x then Some x else None"])
       (use reasm_put[OF assms(1) i(1) X(1,2)] assms(4) i s' X(3) m card in auto)
qed

lemma observe_evict:
  assumes "reasm_ok s" "mf_message_len f \<le> MAX_MESSAGE_BYTES" "ReassemblyState_observe f now s = (r, s')"
    and "slot_pos rl_key (fragment_key f) (reasm_entries s) = None" "slot_free (reasm_entries s) = None"
  obtains e v where "reasm_ok s'" "entry_observe f now None = (r, e)"
    "reasm_map s' = (reasm_map s)(rl_key v := None, fragment_key f := e)"
    "card (dom (reasm_map s)) = MAX_REASSEMBLY_MESSAGES" "reasm_map s (rl_key v) = Some v"
    "\<forall>k u. reasm_map s k = Some u \<longrightarrow> rl_updated_at_ms v \<le> rl_updated_at_ms u"
proof -
  let ?k = "fragment_key f" and ?i = "ReassemblyState_oldest_slot s"
  let ?v = "ra_slots s ! ?i" and ?s0 = "s\<lparr>ra_slots := (ra_slots s)[?i := ReassemblySlot_new]\<rparr>"
  have len: "length (ra_slots s) = 4" and dist: "distinct (map rl_key (flatten (reasm_entries s)))"
    using assms(1) by (auto simp: reasm_ok_def)
  obtain r1 x where x: "ReassemblySlot_observe f now (ReassemblySlot_start ?k (mf_message_len f) now) = (r1, x)"
    by fastforce
  note X = observe_started[OF assms(2) x]
  have ne: "ra_slots s \<noteq> []" using len by auto
  have i: "?i < length (ra_slots s)" using oldest_slot(1)[OF ne] .
  have act: "rl_active ?v"
    using assms(5) i position_None[of "\<lambda>slot. \<not> rl_active slot" "ra_slots s"] by (auto simp: free_slot_eq)
  have s': "r = r1" "s' = ?s0\<lparr>ra_slots := (ra_slots ?s0)[?i := x]\<rparr>"
    using assms(2-5) x i
    by (simp_all add: ReassemblyState_observe_def ReassemblyState_allocate_slot_def find_slot_eq free_slot_eq Let_def)
  have ent: "reasm_entries s ! ?i = Some ?v" using act i by (simp add: nth_reasm_entries)
  have vpos: "slot_pos rl_key (rl_key ?v) (reasm_entries s) = Some ?i"
    using slot_pos_unique[OF dist _ ent] i by simp
  have s0: "reasm_ok ?s0" "reasm_map ?s0 = (reasm_map s)(rl_key ?v := None)"
    using reasm_put[OF assms(1) i slot_ok_new(1), of "rl_key ?v"] vpos by auto
  have "?k \<notin> dom (reasm_map s)" using assms(4) by (auto simp: dom_reasm_map slot_pos_None)
  then have pos0: "slot_pos rl_key ?k (reasm_entries ?s0) = None" "reasm_entries ?s0 ! ?i = None"
    using s0(2) i by (auto simp: slot_pos_None dom_reasm_map[symmetric] nth_reasm_entries)
  have put: "reasm_ok s'" "reasm_map s' = (reasm_map ?s0)(?k := if rl_active x then Some x else None)"
    unfolding s'(2) using reasm_put[OF s0(1) _ X(1,2), of ?i] pos0 i by auto
  show thesis
  proof (rule that[OF put(1)])
    show "card (dom (reasm_map s)) = MAX_REASSEMBLY_MESSAGES"
      using assms(5) len by (simp add: card_reasm_map[OF assms(1)] slot_free_None)
    show "reasm_map s (rl_key ?v) = Some ?v" by (simp add: reasm_map_def slot_lookup_def vpos ent)
    show "\<forall>k u. reasm_map s k = Some u \<longrightarrow> rl_updated_at_ms ?v \<le> rl_updated_at_ms u"
      using oldest_slot(2)[OF ne] reasm_map_Some(1)[OF assms(1)] by blast
  qed (use X(3) s'(1) put(2) s0(2) in simp_all)
qed

lemma reasm_observe:
  assumes "reasm_ok s" "mf_message_len f \<le> MAX_MESSAGE_BYTES" "ReassemblyState_observe f now s = (r, s')"
  obtains m e where "reasm_ok s'" "entry_observe f now (m (fragment_key f)) = (r, e)"
      "reasm_map s' = m(fragment_key f := e)" "m = reasm_map s"
      "fragment_key f \<in> dom (reasm_map s) \<or> card (dom (reasm_map s)) < MAX_REASSEMBLY_MESSAGES"
  | m e v where "reasm_ok s'" "entry_observe f now None = (r, e)"
      "reasm_map s' = m(fragment_key f := e)" "m = (reasm_map s)(rl_key v := None)"
      "fragment_key f \<notin> dom (reasm_map s)" "card (dom (reasm_map s)) = MAX_REASSEMBLY_MESSAGES"
      "reasm_map s (rl_key v) = Some v"
      "\<And>k u. reasm_map s k = Some u \<Longrightarrow> rl_updated_at_ms v \<le> rl_updated_at_ms u"
proof (cases "slot_pos rl_key (fragment_key f) (reasm_entries s)")
  case (Some i)
  show thesis by (rule observe_known[OF assms Some]) (rule that(1), auto)
next
  case pos: None
  then have new: "fragment_key f \<notin> dom (reasm_map s)" by (auto simp: dom_reasm_map slot_pos_None)
  show thesis
  proof (cases "slot_free (reasm_entries s)")
    case (Some i)
    show thesis by (rule observe_free[OF assms pos Some]) (rule that(1), auto)
  next
    case None
    show thesis by (rule observe_evict[OF assms pos None]) (rule that(2), use new in auto)
  qed
qed

lemma reasm_ok_new [simp]: "reasm_ok ReassemblyState_new" "reasm_map ReassemblyState_new k = None"
  by (simp_all add: reasm_ok_def ReassemblyState_new_def reasm_entries_def reasm_map_def slot_lookup_find
      map_replicate_const)

section \<open>Sequences of fragments\<close>

text \<open>Observing a sequence of fragments; each result is tagged with the message of its fragment.\<close>

fun ReassemblyState_observes ::
  "(MessageFragment \<times> u64) list \<Rightarrow> ReassemblyState \<Rightarrow> (MessageKey \<times> MessageEvent option res) list \<times> ReassemblyState" where
  "ReassemblyState_observes [] s = ([], s)"
| "ReassemblyState_observes ((f, now) # fs) s =
     (case ReassemblyState_observe f now s of (r, s1) \<Rightarrow>
      case ReassemblyState_observes fs s1 of (rs, s2) \<Rightarrow> ((fragment_key f, r) # rs, s2))"

fun entry_observes ::
  "(MessageFragment \<times> u64) list \<Rightarrow> ReassemblySlot option \<Rightarrow> MessageEvent option res list \<times> ReassemblySlot option" where
  "entry_observes [] e = ([], e)"
| "entry_observes ((f, now) # fs) e =
     (case entry_observe f now e of (r, e1) \<Rightarrow> case entry_observes fs e1 of (rs, e2) \<Rightarrow> (r # rs, e2))"

definition results_for :: "MessageKey \<Rightarrow> (MessageKey \<times> 'r) list \<Rightarrow> 'r list" where
  "results_for k rs = map snd (filter (\<lambda>(k', r). k' = k) rs)"

definition fragments_for :: "MessageKey \<Rightarrow> (MessageFragment \<times> u64) list \<Rightarrow> (MessageFragment \<times> u64) list" where
  "fragments_for k fs = filter (\<lambda>(f, now). fragment_key f = k) fs"

definition fragment_keys :: "(MessageFragment \<times> u64) list \<Rightarrow> MessageKey set" where
  "fragment_keys fs = (\<lambda>(f, now). fragment_key f) ` set fs"

lemma for_simps [simp]:
  "results_for k [] = []" "results_for k ((k', r) # rs) = (if k' = k then r # results_for k rs else results_for k rs)"
  "fragments_for k [] = []"
  "fragments_for k ((f, now) # fs) =
     (if fragment_key f = k then (f, now) # fragments_for k fs else fragments_for k fs)"
  "fragment_keys [] = {}" "fragment_keys ((f, now) # fs) = insert (fragment_key f) (fragment_keys fs)"
  by (simp_all add: results_for_def fragments_for_def fragment_keys_def)

text \<open>While at most four messages are incomplete, each is collected as if it were alone.\<close>

lemma observes_independent:
  "reasm_ok s \<Longrightarrow> finite K \<Longrightarrow> card K \<le> MAX_REASSEMBLY_MESSAGES \<Longrightarrow> dom (reasm_map s) \<union> fragment_keys fs \<subseteq> K \<Longrightarrow>
    \<forall>(f, now)\<in>set fs. mf_message_len f \<le> MAX_MESSAGE_BYTES \<Longrightarrow> ReassemblyState_observes fs s = (rs, s') \<Longrightarrow>
    reasm_ok s' \<and> (results_for k rs, reasm_map s' k) = entry_observes (fragments_for k fs) (reasm_map s k)"
proof (induction fs arbitrary: s rs s')
  case (Cons fn fs)
  obtain f now where fn: "fn = (f, now)" by (cases fn)
  obtain r s1 where o: "ReassemblyState_observe f now s = (r, s1)" by fastforce
  obtain rs1 s2 where os: "ReassemblyState_observes fs s1 = (rs1, s2)" by fastforce
  have len: "mf_message_len f \<le> MAX_MESSAGE_BYTES" and K: "fragment_key f \<in> K" "dom (reasm_map s) \<subseteq> K"
    using Cons.prems fn by auto
  have room: "fragment_key f \<in> dom (reasm_map s) \<or> card (dom (reasm_map s)) < MAX_REASSEMBLY_MESSAGES"
  proof (rule ccontr)
    assume "\<not> ?thesis"
    then have "dom (reasm_map s) \<subset> K" "card (dom (reasm_map s)) \<ge> MAX_REASSEMBLY_MESSAGES" using K by auto
    then show False using psubset_card_mono[OF Cons.prems(2), of "dom (reasm_map s)"] Cons.prems(3) by simp
  qed
  obtain e where e: "reasm_ok s1" "entry_observe f now (reasm_map s (fragment_key f)) = (r, e)"
    "reasm_map s1 = (reasm_map s)(fragment_key f := e)"
  proof (rule reasm_observe[OF Cons.prems(1) len o], goal_cases)
    case (1 m e)
    then show ?case by (intro 1(1)[of e]) simp_all
  next
    case (2 m e v)
    then show ?case using room by simp
  qed
  have "dom (reasm_map s1) \<union> fragment_keys fs \<subseteq> K" using e(3) K Cons.prems(4) fn by auto
  then have IH: "reasm_ok s2 \<and> (results_for k rs1, reasm_map s2 k) = entry_observes (fragments_for k fs) (reasm_map s1 k)"
    using Cons.IH[OF e(1) Cons.prems(2,3) _ _ os] Cons.prems(5) by simp
  have "rs = (fragment_key f, r) # rs1" "s' = s2" using Cons.prems(6) fn o os by simp_all
  then show ?case using IH e fn by (auto split: prod.splits)
qed simp

text \<open>Fragments complete a message when they cover it and one of them ends it.\<close>

definition complete_set :: "bytes \<Rightarrow> (MessageFragment \<times> u64) list \<Rightarrow> bool" where
  "complete_set msg fs \<longleftrightarrow> (\<forall>i<length msg. \<exists>(f, now)\<in>set fs. covers f i) \<and> (\<exists>(f, now)\<in>set fs. ends_message f)"

lemma entry_observes_snoc:
  "entry_observes (fs @ [(f, now)]) e =
    (case entry_observes fs e of (rs, e1) \<Rightarrow> case entry_observe f now e1 of (r, e2) \<Rightarrow> (rs @ [r], e2))"
  by (induction fs arbitrary: e) (auto split: prod.splits)

definition collected :: "MessageKey \<Rightarrow> bytes \<Rightarrow> (MessageFragment \<times> u64) list \<Rightarrow> ReassemblySlot \<Rightarrow> bool" where
  "collected k msg fs s \<longleftrightarrow> slot_ok s \<and> rl_active s \<and> rl_key s = k \<and> holds_part msg s \<and>
     (\<forall>i<length msg. rl_received s ! i \<longleftrightarrow> (\<exists>(f, now)\<in>set fs. covers f i)) \<and>
     (rl_last_seen s \<longleftrightarrow> (\<exists>(f, now)\<in>set fs. ends_message f))"

lemma collected_start: "length msg \<le> MAX_MESSAGE_BYTES \<Longrightarrow> collected k msg [] (ReassemblySlot_start k (length msg) now)"
  by (simp add: collected_def holds_part_start)

lemma collected_observe:
  fixes now :: u64
  assumes "collected k msg fs s" "part_of msg f" "length msg \<le> MAX_MESSAGE_BYTES"
  defines "t \<equiv> slot_store f now s"
  shows "collected k msg (fs @ [(f, now)]) t"
    "ReassemblySlot_observe f now s = (if complete_set msg (fs @ [(f, now)])
       then (Ok (Some (slot_event t)), ReassemblySlot_new) else (Ok None, t))"
    "complete_set msg (fs @ [(f, now)]) \<Longrightarrow> MessageEvent_as_bytes (slot_event t) = Ok msg"
proof -
  have s: "slot_ok s" "rl_active s" "rl_key s = k" "holds_part msg s" using assms(1) by (auto simp: collected_def)
  have f: "mf_message_len f = rl_expected_len s" "mf_fragment_offset f + length (mf_bytes f) \<le> mf_message_len f"
    "rl_expected_len s = length msg" using assms(2) s(4) by (auto simp: part_of_def holds_part_def)
  note st = slot_store_ok[OF s(1,2) f(1,2), where now = now, folded t_def]
  have hp: "holds_part msg t" unfolding t_def by (rule holds_part_store[OF s(1,2,4) assms(2)])
  show c: "collected k msg (fs @ [(f, now)]) t"
    using assms(1) st hp f(3) by (auto simp: collected_def)
  have dn: "slot_done t \<longleftrightarrow> complete_set msg (fs @ [(f, now)])"
    using c st(3) f(3) by (auto simp: slot_done_def complete_set_def collected_def)
  then show "ReassemblySlot_observe f now s = (if complete_set msg (fs @ [(f, now)])
       then (Ok (Some (slot_event t)), ReassemblySlot_new) else (Ok None, t))"
    using slot_observe_eq[OF s(1,2), of f now] f(1,2) by (simp add: t_def)
  show "MessageEvent_as_bytes (slot_event t) = Ok msg" if "complete_set msg (fs @ [(f, now)])"
    using slot_event_bytes[OF st(1) hp] dn that assms(3) by simp
qed

lemma complete_set_mono: "complete_set msg fs \<Longrightarrow> set fs \<subseteq> set gs \<Longrightarrow> complete_set msg gs"
  unfolding complete_set_def by blast

lemma entry_collects:
  assumes "\<forall>(f, now)\<in>set fs. part_of msg f \<and> fragment_key f = k" "\<not> complete_set msg fs"
    and "length msg \<le> MAX_MESSAGE_BYTES"
  shows "\<exists>e. entry_observes fs None = (replicate (length fs) (Ok None), e) \<and>
    (if fs = [] then e = None else \<exists>s. e = Some s \<and> collected k msg fs s)"
  using assms(1,2)
proof (induction fs rule: rev_induct)
  case (snoc fn fs)
  obtain f now where fn: "fn = (f, now)" by (cases fn)
  have nc: "\<not> complete_set msg fs" using snoc.prems(2) complete_set_mono[of msg fs "fs @ [fn]"] by auto
  obtain e where e: "entry_observes fs None = (replicate (length fs) (Ok None), e)"
    "if fs = [] then e = None else \<exists>s. e = Some s \<and> collected k msg fs s"
    using snoc.IH[OF _ nc] snoc.prems(1) by auto
  have f: "part_of msg f" "fragment_key f = k" using snoc.prems(1) fn by auto
  let ?s = "case e of Some slot \<Rightarrow> slot | None \<Rightarrow> ReassemblySlot_start (fragment_key f) (mf_message_len f) now"
  have c: "collected k msg fs ?s"
    using e(2) f collected_start[OF assms(3)] by (auto simp: part_of_def split: if_splits)
  have "entry_observe f now e = (Ok None, Some (slot_store f now ?s))"
    using collected_observe(1,2)[OF c f(1) assms(3), of now] snoc.prems(2) fn
    by (simp add: entry_observe_def collected_def)
  then show ?case
    using e(1) fn collected_observe(1)[OF c f(1) assms(3), of now]
    by (auto simp: entry_observes_snoc replicate_append_same)
qed simp

lemma entry_completes:
  assumes "\<forall>(g, t)\<in>set (fs @ [(f, now)]). part_of msg g \<and> fragment_key g = k" "\<not> complete_set msg fs"
    and "complete_set msg (fs @ [(f, now)])" "length msg \<le> MAX_MESSAGE_BYTES"
  shows "\<exists>ev. entry_observes (fs @ [(f, now)]) None = (replicate (length fs) (Ok None) @ [Ok (Some ev)], None) \<and>
    MessageEvent_as_bytes ev = Ok msg \<and> me_packet_type ev = mk_packet_type k \<and> me_message_id ev = mk_message_id k"
proof -
  obtain e where e: "entry_observes fs None = (replicate (length fs) (Ok None), e)"
    "if fs = [] then e = None else \<exists>s. e = Some s \<and> collected k msg fs s"
    using entry_collects[OF _ assms(2,4), of k] assms(1) by auto
  have f: "part_of msg f" "fragment_key f = k" using assms(1) by auto
  let ?s = "case e of Some slot \<Rightarrow> slot | None \<Rightarrow> ReassemblySlot_start (fragment_key f) (mf_message_len f) now"
  have c: "collected k msg fs ?s"
    using e(2) f collected_start[OF assms(4)] by (auto simp: part_of_def split: if_splits)
  note o = collected_observe[OF c f(1) assms(4), of now]
  have "entry_observe f now e = (Ok (Some (slot_event (slot_store f now ?s))), None)"
    using o(2) assms(3) by (simp add: entry_observe_def)
  then show ?thesis
    using e(1) o(1,3) assms(3) by (auto simp: entry_observes_snoc slot_event_def collected_def)
qed

section \<open>Only genuine messages\<close>

text \<open>
  The contract the engine's delivery rests on, for the messages \<open>msgs\<close> a peer sent under each key:
  \<open>inv\<close> says that everything collected so far is a part of one of them.
\<close>

locale reassembler =
  fixes inv :: "(MessageKey \<Rightarrow> bytes) \<Rightarrow> 's \<Rightarrow> bool"
    and empty :: 's
    and observe :: "MessageFragment \<Rightarrow> u64 \<Rightarrow> 's \<Rightarrow> MessageEvent option res \<times> 's"
    and expire :: "u64 \<Rightarrow> u64 \<Rightarrow> 's \<Rightarrow> 's"
  assumes inv_empty: "inv msgs empty"
    and observe_inv: "inv msgs s \<Longrightarrow> part_of (msgs (fragment_key f)) f \<Longrightarrow> observe f now s = (r, s') \<Longrightarrow> inv msgs s'"
    and observe_genuine: "inv msgs s \<Longrightarrow> part_of (msgs (fragment_key f)) f \<Longrightarrow> observe f now s = (Ok (Some ev), s') \<Longrightarrow>
      MessageEvent_as_bytes ev = Ok (msgs (fragment_key f)) \<and> me_packet_type ev = mf_packet_type f \<and>
      me_message_id ev = mf_message_id f"
    and expire_inv: "inv msgs s \<Longrightarrow> inv msgs (expire now timeout s)"
begin

text \<open>A history of observed fragments and expiry scans, and the messages it delivers.\<close>

fun history :: "(MessageFragment \<times> u64 + u64 \<times> u64) list \<Rightarrow> 's \<Rightarrow> MessageEvent list" where
  "history [] s = []"
| "history (Inl (f, now) # hs) s = (case observe f now s of
     (Ok (Some ev), s') \<Rightarrow> ev # history hs s' | (_, s') \<Rightarrow> history hs s')"
| "history (Inr (now, timeout) # hs) s = history hs (expire now timeout s)"

lemma history_genuine:
  assumes "inv msgs s" "\<And>f now. Inl (f, now) \<in> set hs \<Longrightarrow> part_of (msgs (fragment_key f)) f" "ev \<in> set (history hs s)"
  shows "MessageEvent_as_bytes ev = Ok (msgs \<lparr>mk_packet_type = me_packet_type ev, mk_message_id = me_message_id ev\<rparr>)"
  using assms
proof (induction hs arbitrary: s)
  case (Cons h hs)
  have hs: "\<And>f now. Inl (f, now) \<in> set hs \<Longrightarrow> part_of (msgs (fragment_key f)) f"
    by (rule Cons.prems(2)) (erule list.set_intros(2))
  show ?case
  proof (cases h)
    case (Inl fn)
    obtain f now where fn: "fn = (f, now)" by (cases fn)
    obtain r s' where o: "observe f now s = (r, s')" by fastforce
    have f: "part_of (msgs (fragment_key f)) f" using Cons.prems(2)[of f now] Inl fn by simp
    note inv' = observe_inv[OF Cons.prems(1) f o]
    show ?thesis
    proof (cases "ev \<in> set (history hs s')")
      case True
      show ?thesis by (rule Cons.IH[OF inv' _ True]) (erule hs)
    next
      case False
      then have "r = Ok (Some ev)"
        using Cons.prems(3) o by (auto simp: Inl fn split: res.splits option.splits)
      then show ?thesis using observe_genuine[OF Cons.prems(1) f] o by (auto simp: fragment_key_def)
    qed
  next
    case (Inr nt)
    obtain now timeout where nt: "nt = (now, timeout)" by (cases nt)
    have "ev \<in> set (history hs (expire now timeout s))" using Cons.prems(3) Inr nt by simp
    then show ?thesis by (rule Cons.IH[OF expire_inv[OF Cons.prems(1)], rotated]) (erule hs)
  qed
qed simp

end

definition reasm_genuine :: "(MessageKey \<Rightarrow> bytes) \<Rightarrow> ReassemblyState \<Rightarrow> bool" where
  "reasm_genuine msgs s \<longleftrightarrow> reasm_ok s \<and> (\<forall>k slot. reasm_map s k = Some slot \<longrightarrow> holds_part (msgs k) slot)"

lemma expire_entries:
  "flatten (reasm_entries (ReassemblyState_expire now timeout s)) =
    filter (\<lambda>slot. saturating_sub now (rl_updated_at_ms slot) < timeout) (flatten (reasm_entries s))"
proof -
  have "flatten (map (\<lambda>slot. if rl_active slot then Some slot else None) (map (\<lambda>slot.
        if rl_active slot \<and> timeout \<le> saturating_sub now (rl_updated_at_ms slot) then ReassemblySlot_new else slot) xs)) =
     filter (\<lambda>slot. saturating_sub now (rl_updated_at_ms slot) < timeout)
       (flatten (map (\<lambda>slot. if rl_active slot then Some slot else None) xs))" for xs
    by (induction xs) auto
  then show ?thesis by (simp add: reasm_entries_def ReassemblyState_expire_def)
qed

lemma reasm_expire:
  assumes "reasm_ok s"
  shows "reasm_ok (ReassemblyState_expire now timeout s)"
    "reasm_map (ReassemblyState_expire now timeout s) k = Some slot \<longleftrightarrow>
      reasm_map s k = Some slot \<and> saturating_sub now (rl_updated_at_ms slot) < timeout"
proof -
  let ?s = "ReassemblyState_expire now timeout s"
  have iff: "reasm_map t k = Some u \<longleftrightarrow> u \<in> set (flatten (reasm_entries t)) \<and> rl_key u = k"
    if "distinct (map rl_key (flatten (reasm_entries t)))" for t u
  proof
    show "u \<in> set (flatten (reasm_entries t)) \<and> rl_key u = k" if "reasm_map t k = Some u"
      using slot_lookup_SomeD[of rl_key k "reasm_entries t" u] that by (simp add: reasm_map_def)
    assume u: "u \<in> set (flatten (reasm_entries t)) \<and> rl_key u = k"
    then obtain i where "i < length (reasm_entries t)" "reasm_entries t ! i = Some u"
      unfolding in_set_flatten by (auto simp: in_set_conv_nth)
    then show "reasm_map t k = Some u"
      using slot_pos_unique[OF that, of i u] u by (simp add: reasm_map_def slot_lookup_def)
  qed
  have d: "distinct (map rl_key (flatten (reasm_entries s)))" "distinct (map rl_key (flatten (reasm_entries ?s)))"
    using assms by (auto simp: reasm_ok_def expire_entries distinct_map_filter)
  show "reasm_ok ?s" using assms d(2) by (auto simp: reasm_ok_def ReassemblyState_expire_def)
  show "reasm_map ?s k = Some slot \<longleftrightarrow>
      reasm_map s k = Some slot \<and> saturating_sub now (rl_updated_at_ms slot) < timeout"
    unfolding iff[OF d(1)] iff[OF d(2)] by (auto simp: expire_entries)
qed

lemma entry_genuine:
  assumes "e = None \<or> (\<exists>s. e = Some s \<and> slot_ok s \<and> rl_active s \<and> rl_key s = fragment_key f \<and> holds_part msg s)"
    and "part_of msg f" "mf_message_len f \<le> MAX_MESSAGE_BYTES" "entry_observe f now e = (r, e')"
  shows "e' = Some s' \<Longrightarrow> holds_part msg s'"
    "r = Ok (Some ev) \<Longrightarrow> MessageEvent_as_bytes ev = Ok msg \<and> me_packet_type ev = mf_packet_type f \<and>
       me_message_id ev = mf_message_id f"
proof -
  let ?s = "case e of Some slot \<Rightarrow> slot | None \<Rightarrow> ReassemblySlot_start (fragment_key f) (mf_message_len f) now"
  have len: "mf_message_len f = length msg" using assms(2) by (simp add: part_of_def)
  have s: "slot_ok ?s" "rl_active ?s" "rl_key ?s = fragment_key f" "holds_part msg ?s"
    using assms(1,3) len holds_part_start[of msg "fragment_key f" now] by auto
  let ?t = "slot_store f now ?s"
  have hp: "holds_part msg ?t" by (rule holds_part_store[OF s(1,2,4) assms(2)])
  have f: "mf_message_len f = rl_expected_len ?s" "mf_fragment_offset f + length (mf_bytes f) \<le> mf_message_len f"
    using assms(2) s(4) by (auto simp: part_of_def holds_part_def)
  note st = slot_store_ok[OF s(1,2) f, where now = now]
  have o: "(r, e') = (if slot_done ?t then (Ok (Some (slot_event ?t)), None) else (Ok None, Some ?t))"
    using assms(4) slot_observe_eq[OF s(1,2), of f now] f st(2) by (simp add: entry_observe_def split: if_splits)
  show "holds_part msg s'" if "e' = Some s'" using o hp that by (simp split: if_splits)
  show "MessageEvent_as_bytes ev = Ok msg \<and> me_packet_type ev = mf_packet_type f \<and> me_message_id ev = mf_message_id f"
    if "r = Ok (Some ev)"
    using o that slot_event_bytes[OF st(1) hp] len assms(3) st(4) s(3)
    by (auto simp: slot_event_def fragment_key_def split: if_splits)
qed

lemma observe_too_long: "mf_message_len f > MAX_MESSAGE_BYTES \<Longrightarrow>
    ReassemblyState_observe f now s = (Err (Error_new Engine), s)"
  by (simp add: ReassemblyState_observe_def)

lemma reasm_observe_genuine:
  assumes "reasm_genuine msgs s" "part_of (msgs (fragment_key f)) f" "ReassemblyState_observe f now s = (r, s')"
  shows "reasm_genuine msgs s'"
    "r = Ok (Some ev) \<Longrightarrow> MessageEvent_as_bytes ev = Ok (msgs (fragment_key f)) \<and>
      me_packet_type ev = mf_packet_type f \<and> me_message_id ev = mf_message_id f"
proof -
  have ok: "reasm_ok s" and hp: "\<And>k slot. reasm_map s k = Some slot \<Longrightarrow> holds_part (msgs k) slot"
    using assms(1) by (auto simp: reasm_genuine_def)
  have "reasm_genuine msgs s' \<and> (r = Ok (Some ev) \<longrightarrow> MessageEvent_as_bytes ev = Ok (msgs (fragment_key f)) \<and>
      me_packet_type ev = mf_packet_type f \<and> me_message_id ev = mf_message_id f)"
  proof (cases "mf_message_len f \<le> MAX_MESSAGE_BYTES")
    case False
    then show ?thesis using assms(1,3) observe_too_long[of f now s] by auto
  next
    case True
    obtain m e where m: "reasm_ok s'" "entry_observe f now (m (fragment_key f)) = (r, e)"
      "reasm_map s' = m(fragment_key f := e)" "\<And>k. m k = reasm_map s k \<or> m k = None"
    proof (rule reasm_observe[OF ok True assms(3)], goal_cases)
      case (1 m e)
      then show ?case by (intro 1(1)[of m e]) simp_all
    next
      case (2 m e v)
      have "m (fragment_key f) = None" using 2(5,6) by (simp add: domIff)
      then show ?case using 2 by (intro 2(1)[of m e]) simp_all
    qed
    have e0: "m (fragment_key f) = None \<or> (\<exists>s. m (fragment_key f) = Some s \<and> slot_ok s \<and> rl_active s \<and>
        rl_key s = fragment_key f \<and> holds_part (msgs (fragment_key f)) s)"
    proof (cases "m (fragment_key f)")
      case (Some slot)
      then have "reasm_map s (fragment_key f) = Some slot" using m(4)[of "fragment_key f"] by simp
      then show ?thesis using Some hp reasm_map_Some[OF ok] by blast
    qed simp
    note g = entry_genuine[OF e0 assms(2) True m(2)]
    have "holds_part (msgs k) slot" if "reasm_map s' k = Some slot" for k slot
    proof (cases "k = fragment_key f")
      case True
      then show ?thesis using that g(1)[of slot] m(3) by simp
    next
      case False
      then show ?thesis using that m(3) m(4)[of k] hp[of k slot] by auto
    qed
    then show ?thesis using m(1) g(2) by (auto simp: reasm_genuine_def)
  qed
  then show "reasm_genuine msgs s'"
    "r = Ok (Some ev) \<Longrightarrow> MessageEvent_as_bytes ev = Ok (msgs (fragment_key f)) \<and>
      me_packet_type ev = mf_packet_type f \<and> me_message_id ev = mf_message_id f" by auto
qed

interpretation reasm: reassembler reasm_genuine ReassemblyState_new ReassemblyState_observe ReassemblyState_expire
proof (standard, goal_cases)
  case (1 msgs)
  show ?case by (simp add: reasm_genuine_def)
next
  case (2 msgs s f now r s')
  then show ?case by (rule reasm_observe_genuine(1))
next
  case (3 msgs s f now ev s')
  then show ?case using reasm_observe_genuine(2) by blast
next
  case (4 msgs s now timeout)
  then show ?case using reasm_expire by (auto simp: reasm_genuine_def)
qed

text \<open>The messages delivered along a history of fragments (\<open>Inl\<close>) and expiry scans (\<open>Inr\<close>).\<close>

fun ReassemblyState_history :: "(MessageFragment \<times> u64 + u64 \<times> u64) list \<Rightarrow> ReassemblyState \<Rightarrow> MessageEvent list" where
  "ReassemblyState_history [] s = []"
| "ReassemblyState_history (Inl (f, now) # hs) s = (case ReassemblyState_observe f now s of
     (Ok (Some ev), s') \<Rightarrow> ev # ReassemblyState_history hs s' | (_, s') \<Rightarrow> ReassemblyState_history hs s')"
| "ReassemblyState_history (Inr (now, timeout) # hs) s =
     ReassemblyState_history hs (ReassemblyState_expire now timeout s)"

lemma history_eq: "ReassemblyState_history hs s = reasm.history hs s"
  by (induction hs s rule: ReassemblyState_history.induct) (auto split: prod.splits res.splits option.splits)

section \<open>Properties\<close>

text \<open>
  C22. The reassembly table is a partial map from message keys to collecting slots: a fragment of a
  known message, or of a new one while fewer than four are incomplete, changes the entry of its
  own message only, as if that message were alone; a fifth message first evicts the message that
  has been silent longest.
\<close>

theorem reassembly_refines:
  assumes "reasm_ok s" "mf_message_len f \<le> MAX_MESSAGE_BYTES"
  shows "case ReassemblyState_observe f now s of (r, s') \<Rightarrow> reasm_ok s' \<and>
    (if fragment_key f \<in> dom (reasm_map s) \<or> card (dom (reasm_map s)) < MAX_REASSEMBLY_MESSAGES
     then (r, reasm_map s' (fragment_key f)) = entry_observe f now (reasm_map s (fragment_key f)) \<and>
       (\<forall>k. k \<noteq> fragment_key f \<longrightarrow> reasm_map s' k = reasm_map s k)
     else \<exists>v. reasm_map s (rl_key v) = Some v \<and>
       (\<forall>k u. reasm_map s k = Some u \<longrightarrow> rl_updated_at_ms v \<le> rl_updated_at_ms u) \<and>
       (r, reasm_map s' (fragment_key f)) = entry_observe f now None \<and>
       (\<forall>k. k \<noteq> fragment_key f \<longrightarrow> reasm_map s' k = (if k = rl_key v then None else reasm_map s k)))"
proof -
  obtain r s' where o: "ReassemblyState_observe f now s = (r, s')" by fastforce
  show ?thesis unfolding o prod.case
  proof (rule reasm_observe[OF assms o], goal_cases)
    case (1 m e)
    then show ?case by simp
  next
    case (2 m e v)
    have no: "\<not> (fragment_key f \<in> dom (reasm_map s) \<or> card (dom (reasm_map s)) < MAX_REASSEMBLY_MESSAGES)"
      using 2 by simp
    have "(r, reasm_map s' (fragment_key f)) = entry_observe f now None \<and>
       (\<forall>k. k \<noteq> fragment_key f \<longrightarrow> reasm_map s' k = (if k = rl_key v then None else reasm_map s k))"
      using 2(2,3,4) by simp
    then show ?case unfolding if_not_P[OF no] using 2(1,7,8) by blast
  qed
qed

theorem reassembly_refines_witness:
  "reasm_ok (snd (ReassemblyState_observe \<lparr>mf_packet_type = PacketType.Data, mf_packet_index = PacketIndex 0,
     mf_ack_eliciting = True, mf_message_id = MessageId 1, mf_message_len = 2, mf_fragment_offset = 0,
     mf_bytes = [7]\<rparr> 0 ReassemblyState_new))"
  using reassembly_refines[OF reasm_ok_new(1), of "\<lparr>mf_packet_type = PacketType.Data, mf_packet_index = PacketIndex 0,
     mf_ack_eliciting = True, mf_message_id = MessageId 1, mf_message_len = 2, mf_fragment_offset = 0,
     mf_bytes = [7]\<rparr>" 0]
  by (simp split: prod.splits)

text \<open>
  C23. Any order, any interleaving: while the fragments of at most four messages arrive, mixed in
  any way, repeated or overlapping, the message \<open>msg\<close> is delivered by exactly the fragment that
  completes it, with its bytes, packet type and id, and by no earlier one.
\<close>

theorem reassembly_any_order:
  assumes "card (fragment_keys fs) \<le> MAX_REASSEMBLY_MESSAGES"
    and "\<forall>(g, t)\<in>set fs. mf_message_len g \<le> MAX_MESSAGE_BYTES"
    and "fragments_for k fs = gs @ [(f, now)]" "\<forall>(g, t)\<in>set (gs @ [(f, now)]). part_of msg g"
    and "\<not> complete_set msg gs" "complete_set msg (gs @ [(f, now)])"
  shows "\<exists>ev. results_for k (fst (ReassemblyState_observes fs ReassemblyState_new)) =
      replicate (length gs) (Ok None) @ [Ok (Some ev)] \<and>
    MessageEvent_as_bytes ev = Ok msg \<and> me_packet_type ev = mk_packet_type k \<and> me_message_id ev = mk_message_id k"
proof -
  have sub: "x \<in> set fs \<and> fragment_key (fst x) = k" if "x \<in> set (gs @ [(f, now)])" for x
    using that unfolding assms(3)[symmetric] by (auto simp: fragments_for_def)
  then have key: "\<forall>(g, t)\<in>set (gs @ [(f, now)]). part_of msg g \<and> fragment_key g = k"
    using assms(4) by fastforce
  have len: "length msg \<le> MAX_MESSAGE_BYTES"
    using sub[of "(f, now)"] assms(2,4) by (auto simp: part_of_def)
  obtain rs s' where o: "ReassemblyState_observes fs ReassemblyState_new = (rs, s')" by fastforce
  have "finite (fragment_keys fs)" by (simp add: fragment_keys_def)
  then have "(results_for k rs, reasm_map s' k) = entry_observes (gs @ [(f, now)]) None"
    using observes_independent[OF reasm_ok_new(1) _ assms(1) _ assms(2) o, of k] assms(3)
    by (simp add: dom_def)
  then show ?thesis using entry_completes[OF key assms(5,6) len] o by auto
qed

theorem reassembly_any_order_witness:
  "\<exists>ev. results_for \<lparr>mk_packet_type = PacketType.Data, mk_message_id = MessageId 1\<rparr>
     (fst (ReassemblyState_observes
       [(\<lparr>mf_packet_type = PacketType.Data, mf_packet_index = PacketIndex 1, mf_ack_eliciting = True,
          mf_message_id = MessageId 1, mf_message_len = 2, mf_fragment_offset = 1, mf_bytes = [8]\<rparr>, 0),
        (\<lparr>mf_packet_type = PacketType.Data, mf_packet_index = PacketIndex 0, mf_ack_eliciting = True,
          mf_message_id = MessageId 1, mf_message_len = 2, mf_fragment_offset = 0, mf_bytes = [7]\<rparr>, 0)]
       ReassemblyState_new)) = [Ok None, Ok (Some ev)] \<and> MessageEvent_as_bytes ev = Ok [7, 8]"
  using reassembly_any_order[of
      "[(\<lparr>mf_packet_type = PacketType.Data, mf_packet_index = PacketIndex 1, mf_ack_eliciting = True,
          mf_message_id = MessageId 1, mf_message_len = 2, mf_fragment_offset = 1, mf_bytes = [8]\<rparr>, 0),
        (\<lparr>mf_packet_type = PacketType.Data, mf_packet_index = PacketIndex 0, mf_ack_eliciting = True,
          mf_message_id = MessageId 1, mf_message_len = 2, mf_fragment_offset = 0, mf_bytes = [7]\<rparr>, 0)]"
      "\<lparr>mk_packet_type = PacketType.Data, mk_message_id = MessageId 1\<rparr>"
      "[(\<lparr>mf_packet_type = PacketType.Data, mf_packet_index = PacketIndex 1, mf_ack_eliciting = True,
          mf_message_id = MessageId 1, mf_message_len = 2, mf_fragment_offset = 1, mf_bytes = [8]\<rparr>, 0)]"
      "\<lparr>mf_packet_type = PacketType.Data, mf_packet_index = PacketIndex 0, mf_ack_eliciting = True,
          mf_message_id = MessageId 1, mf_message_len = 2, mf_fragment_offset = 0, mf_bytes = [7]\<rparr>"
      0 "[7, 8]"]
  by (simp add: fragment_key_def part_of_def complete_set_def covers_def ends_message_def
      less_Suc_eq numeral_2_eq_2 all_conj_distrib) blast

text \<open>
  C8. Only genuine messages are delivered: when every observed fragment is a part of the message
  its peer sent under its key, every delivered message is exactly the one sent under its key,
  whatever was lost, repeated, reordered, evicted or expired.
\<close>

theorem reassembly_genuine:
  assumes "\<forall>f now. Inl (f, now) \<in> set hs \<longrightarrow> part_of (msgs (fragment_key f)) f"
    and "ev \<in> set (ReassemblyState_history hs ReassemblyState_new)"
  shows "MessageEvent_as_bytes ev = Ok (msgs \<lparr>mk_packet_type = me_packet_type ev, mk_message_id = me_message_id ev\<rparr>)"
  by (rule reasm.history_genuine[OF reasm.inv_empty]) (use assms in \<open>auto simp: history_eq\<close>)

definition example_history :: "(MessageFragment \<times> u64 + u64 \<times> u64) list" where
  "example_history = [Inl (\<lparr>mf_packet_type = PacketType.Log, mf_packet_index = PacketIndex 0,
     mf_ack_eliciting = False, mf_message_id = MessageId 3, mf_message_len = 1, mf_fragment_offset = 0,
     mf_bytes = [9]\<rparr>, 0), Inr (5, 2)]"

lemma example_delivers: "ReassemblyState_history example_history ReassemblyState_new \<noteq> []"
  by code_simp

theorem reassembly_genuine_witness:
  "MessageEvent_as_bytes (hd (ReassemblyState_history example_history ReassemblyState_new)) = Ok [9]"
  by (rule reassembly_genuine[where msgs = "\<lambda>_. [9]", OF _ hd_in_set[OF example_delivers]])
     (simp add: example_history_def part_of_def)

end
