(* ===== verification/Engine_Send.thy ===== *)
theory Engine_Send
  imports Recovery Reassembly
begin

text \<open>
  The engine's state (\<^verbatim>\<open>src/engine/state.rs\<close>, with the ingress and receive states of
  \<^verbatim>\<open>src/engine/state/ingress.rs\<close> and \<^verbatim>\<open>src/engine/state/receive.rs\<close>) and its sending operations
  (\<^verbatim>\<open>src/engine/codec/outgoing.rs\<close>): fragmentation, pings, pongs and acknowledgements.  \<open>message_writes\<close>
  is the specification of the packets a message is cut into; the lemmas show that a send queues
  exactly these or changes nothing but the id generator.

  The fragmentation loop carries fuel, two more than the message has bytes: the fragment size is at
  least one, so the fuel is never used up.
\<close>

section \<open>engine/state.rs\<close>

record IngressState =
  ig_decoder :: StreamingDecoder

definition IngressState_new :: IngressState where
  "IngressState_new = \<lparr>ig_decoder = StreamingDecoder_new MAX_INGRESS_BYTES\<rparr>"

definition IngressState_feed ::
  "bytes \<Rightarrow> IntegrityConfig \<Rightarrow> IngressState \<Rightarrow> StreamDecodeOutcome res \<times> IngressState" where
  "IngressState_feed bs cfg s =
     update_field (StreamingDecoder_feed cfg bs (ig_decoder s)) (\<lambda>d. s\<lparr>ig_decoder := d\<rparr>)"

record ReceiveState =
  rc_dedup :: PacketDedup

definition ReceiveState_new :: ReceiveState where
  "ReceiveState_new = \<lparr>rc_dedup = PacketDedup_new MAX_IN_FLIGHT_PACKETS\<rparr>"

record EngineState =
  es_clock :: ClockState
  es_numbers :: NumberState
  es_scheduler :: SchedulerState
  es_recovery :: RecoveryState
  es_ack :: AckState
  es_ingress :: IngressState
  es_message :: MessageState
  es_receive :: ReceiveState
  es_reassembly :: ReassemblyState

definition EngineState_new :: "MessageId \<Rightarrow> EngineConfig \<Rightarrow> EngineState" where
  "EngineState_new initial config =
     \<lparr>es_clock = ClockState_new, es_numbers = NumberState_new initial, es_scheduler = SchedulerState_new,
      es_recovery = RecoveryState_new (dynamic_recovery config), es_ack = AckState_new,
      es_ingress = IngressState_new, es_message = MessageState_new, es_receive = ReceiveState_new,
      es_reassembly = ReassemblyState_new\<rparr>"

section \<open>engine/codec/outgoing.rs: sending\<close>

definition EngineState_push :: "EngineOutput \<Rightarrow> EngineState \<Rightarrow> unit res \<times> EngineState" where
  "EngineState_push e s = update_field (SchedulerState_push e (es_scheduler s)) (\<lambda>q. s\<lparr>es_scheduler := q\<rparr>)"

definition EngineState_track :: "InFlightPacket \<Rightarrow> EngineState \<Rightarrow> unit res \<times> EngineState" where
  "EngineState_track p s = update_field (RecoveryState_track p (es_recovery s)) (\<lambda>r. s\<lparr>es_recovery := r\<rparr>)"

definition ensure_can_queue_message :: "usize \<Rightarrow> usize \<Rightarrow> ReliabilityMode \<Rightarrow> EngineState \<Rightarrow> unit res" where
  "ensure_can_queue_message message_len fb mode s =
     (let fragments = fragment_count message_len fb in
      if fragments > MAX_EVENTS \<or> SchedulerState_available (es_scheduler s) < fragments
      then Err (Error_new Engine)
      else if mode = Reliable \<and> RecoveryState_available_in_flight (es_recovery s) < fragments
      then Err (Error_new Engine)
      else Ok ())"

definition queue_ack :: "PacketKey \<Rightarrow> EngineState \<Rightarrow> unit res \<times> EngineState" where
  "queue_ack acknowledged s =
     (case AckState_observe acknowledged (es_ack s) of
        (True, a) \<Rightarrow> (Ok (), s\<lparr>es_ack := a\<rparr>)
      | (False, a) \<Rightarrow> (Err (Error_new Engine), s\<lparr>es_ack := a\<rparr>))"

definition send_ping_impl :: "EngineConfig \<Rightarrow> EngineState \<Rightarrow> unit res \<times> EngineState" where
  "send_ping_impl config s =
     sr_bind (encode_liveness_packet PacketType.Ping (replicate MAX_WIRE_BYTES 0) (integrity config), s)
       (\<lambda>(written, wire) s. EngineState_push (Write
          \<lparr>wr_key = PacketKey_new MessageId_ZERO PacketIndex_ZERO, wr_bytes = wire, wr_len = written,
           wr_attempts = 0, wr_priority = WritePriority.NewData\<rparr>) s)"

definition queue_pong :: "EngineConfig \<Rightarrow> EngineState \<Rightarrow> unit res \<times> EngineState" where
  "queue_pong config s =
     sr_bind (encode_liveness_packet PacketType.Pong (replicate MAX_WIRE_BYTES 0) (integrity config), s)
       (\<lambda>(written, wire) s. EngineState_push (Write
          \<lparr>wr_key = PacketKey_new MessageId_ZERO PacketIndex_ZERO, wr_bytes = wire, wr_len = written,
           wr_attempts = 0, wr_priority = WritePriority.Control\<rparr>) s)"

primrec send_fragments_loop ::
  "nat \<Rightarrow> PacketType \<Rightarrow> MessageId \<Rightarrow> bytes \<Rightarrow> usize \<Rightarrow> ReliabilityMode \<Rightarrow> IntegrityConfig \<Rightarrow>
    usize \<Rightarrow> PacketIndex \<Rightarrow> EngineState \<Rightarrow> unit res \<times> EngineState" where
  "send_fragments_loop 0 t mid msg fb mode cfg offset index s = (Panic, s)"
| "send_fragments_loop (Suc fuel) t mid msg fb mode cfg offset index s =
     (if offset < length msg \<or> (msg = [] \<and> offset = 0)
      then let frag_end = min (offset + fb) (length msg);
               fragment = slice msg offset frag_end;
               key = PacketKey_new mid index in
        sr_bind (packet_header_for_fragment t index mid (length msg) offset mode, s) (\<lambda>header s.
        sr_bind (encode_message_fragment header fragment (replicate MAX_WIRE_BYTES 0) cfg, s) (\<lambda>(written, wire) s.
        sr_bind (EngineState_push (Write
            \<lparr>wr_key = key, wr_bytes = wire, wr_len = written, wr_attempts = 0,
             wr_priority = WritePriority.NewData\<rparr>) s) (\<lambda>_ s.
        sr_bind (if mode = Reliable then EngineState_track
            \<lparr>if_key = key, if_packet_type = t, if_message_id = mid, if_bytes = wire, if_len = written,
             if_attempts = 0, if_last_sent_ms = ClockState_now_ms (es_clock s), if_sent = False\<rparr> s
          else (Ok (), s)) (\<lambda>_ s.
        if msg = [] then (Ok (), s)
        else send_fragments_loop fuel t mid msg fb mode cfg frag_end (PacketIndex_next index) s))))
      else (Ok (), s))"

declare send_fragments_loop.simps [simp del]

definition send_message_fragments ::
  "PacketType \<Rightarrow> MessageId \<Rightarrow> bytes \<Rightarrow> usize \<Rightarrow> ReliabilityMode \<Rightarrow> IntegrityConfig \<Rightarrow>
    EngineState \<Rightarrow> unit res \<times> EngineState" where
  "send_message_fragments t mid msg fb mode cfg s =
     (if length msg > MAX_MESSAGE_BYTES then (Err (Error_new Engine), s)
      else send_fragments_loop (length msg + 2) t mid msg fb mode cfg 0 PacketIndex_ZERO s)"

definition send_fragmented_message ::
  "EngineConfig \<Rightarrow> PacketType \<Rightarrow> bytes \<Rightarrow> EngineState \<Rightarrow> MessageId res \<times> EngineState" where
  "send_fragmented_message config t msg s =
     sr_bind (res_bind (max_fragment_bytes t (Integrity_tag_len (integrity config)))
                (clamp (fragment_bytes config) 1), s) (\<lambda>fb s.
     let (mid, numbers) = NumberState_alloc_message_id (es_numbers s);
         s = s\<lparr>es_numbers := numbers\<rparr> in
     sr_bind (reliability_mode t, s) (\<lambda>mode s.
     sr_bind (ensure_can_queue_message (length msg) fb mode s, s) (\<lambda>_ s.
     sr_bind (send_message_fragments t mid msg fb mode (integrity config) s) (\<lambda>_ s.
     (Ok mid, s)))))"

definition send_data_impl :: "EngineConfig \<Rightarrow> bytes \<Rightarrow> EngineState \<Rightarrow> MessageId res \<times> EngineState" where
  "send_data_impl config msg s = send_fragmented_message config PacketType.Data msg s"

definition send_log_impl :: "EngineConfig \<Rightarrow> bytes \<Rightarrow> EngineState \<Rightarrow> MessageId res \<times> EngineState" where
  "send_log_impl config msg s = send_fragmented_message config PacketType.Log msg s"

section \<open>The fragments of a message\<close>

definition frag_packet :: "PacketType \<Rightarrow> MessageId \<Rightarrow> usize \<Rightarrow> bytes \<Rightarrow> nat \<Rightarrow> bytes" where
  "frag_packet t mid fb msg i =
     (let payload = take fb (drop (i * fb) msg); index = PacketIndex (of_nat i) in
      if t = PacketType.Data
      then data_packet (DataHeader_new Flags_ACK_ELICITING mid index (length msg) (i * fb)) payload
      else log_packet (LogHeader_new mid index (length msg) (i * fb)) payload)"

definition frag_frame :: "IntegrityConfig \<Rightarrow> PacketType \<Rightarrow> MessageId \<Rightarrow> usize \<Rightarrow> bytes \<Rightarrow> nat \<Rightarrow> bytes" where
  "frag_frame cfg t mid fb msg i = wire_frame cfg (frag_packet t mid fb msg i)"

definition frag_write :: "IntegrityConfig \<Rightarrow> PacketType \<Rightarrow> MessageId \<Rightarrow> usize \<Rightarrow> bytes \<Rightarrow> nat \<Rightarrow> WriteEvent" where
  "frag_write cfg t mid fb msg i =
     (let frame = frag_frame cfg t mid fb msg i in
      \<lparr>wr_key = PacketKey_new mid (PacketIndex (of_nat i)), wr_bytes = frame @ replicate (128 - length frame) 0,
       wr_len = length frame, wr_attempts = 0, wr_priority = WritePriority.NewData\<rparr>)"

definition frag_inflight :: "PacketType \<Rightarrow> MessageId \<Rightarrow> u64 \<Rightarrow> WriteEvent \<Rightarrow> InFlightPacket" where
  "frag_inflight t mid now w = \<lparr>if_key = wr_key w, if_packet_type = t, if_message_id = mid, if_bytes = wr_bytes w,
     if_len = wr_len w, if_attempts = 0, if_last_sent_ms = now, if_sent = False\<rparr>"

definition message_writes :: "IntegrityConfig \<Rightarrow> PacketType \<Rightarrow> MessageId \<Rightarrow> usize \<Rightarrow> bytes \<Rightarrow> WriteEvent list" where
  "message_writes cfg t mid fb msg = map (frag_write cfg t mid fb msg) [0..<fragment_count (length msg) fb]"

definition fragment_limit :: "EngineConfig \<Rightarrow> PacketType \<Rightarrow> usize" where
  "fragment_limit config t =
     max 1 (min (fragment_bytes config) ((if t = PacketType.Data then 113 else 114) - Integrity_tag_len (integrity config)))"

definition mode_of :: "PacketType \<Rightarrow> ReliabilityMode" where
  "mode_of t = (if t = PacketType.Data then Reliable else BestEffort)"

lemma fragment_count_less:
  assumes "0 < fb"
  shows "i < fragment_count n fb \<longleftrightarrow> (if n = 0 then i = 0 else i * fb < n)"
proof (cases "n = 0")
  case False
  have "i < (n + fb - 1) div fb \<longleftrightarrow> Suc i * fb \<le> n + fb - 1"
    using assms less_eq_div_iff_mult_less_eq[of fb "Suc i" "n + fb - 1"] by (simp add: Suc_le_eq)
  also have "\<dots> \<longleftrightarrow> i * fb < n" using assms False by auto
  finally have "i < (n + fb - 1) div fb \<longleftrightarrow> i * fb < n" .
  then show ?thesis using False by (simp add: fragment_count_def)
qed (simp add: fragment_count_def)


lemma fragment_count_bounds:
  assumes "0 < fb"
  shows "0 < fragment_count n fb" "fragment_count n fb \<le> Suc n"
proof -
  show "0 < fragment_count n fb" using fragment_count_less[OF assms, of 0 n] by (simp split: if_splits)
  have "n \<le> n * fb" using assms by (cases fb) simp_all
  then have "\<not> Suc n * fb < n" unfolding mult_Suc by linarith
  then have "\<not> Suc n < fragment_count n fb" using fragment_count_less[OF assms, of "Suc n" n] by (simp split: if_splits)
  then show "fragment_count n fb \<le> Suc n" by simp
qed

lemma fragment_limit_bounds:
  assumes "t = PacketType.Data \<or> t = PacketType.Log"
  shows "0 < fragment_limit config t"
    "fragment_limit config t \<le> (if t = PacketType.Data then 113 else 114) - Integrity_tag_len (integrity config)"
    "res_bind (max_fragment_bytes t (Integrity_tag_len (integrity config))) (clamp (fragment_bytes config) 1) =
      Ok (fragment_limit config t)"
  using assms Integrity_tag_len_le[of "integrity config"]
  by (auto simp: fragment_limit_def max_fragment_bytes_ok clamp_def)

text \<open>One fragment is encoded as specified.\<close>

lemma length_frag_frame:
  "length (frag_frame cfg t mid fb msg i) =
    (if t = PacketType.Data then 15 else 14) + length (take fb (drop (i * fb) msg)) + Integrity_tag_len cfg"
  by (simp add: frag_frame_def frag_packet_def Let_def)

lemma frag_encode:
  assumes "t = PacketType.Data \<or> t = PacketType.Log" "length msg \<le> MAX_MESSAGE_BYTES" "i * fb \<le> length msg"
    and "fb \<le> (if t = PacketType.Data then 113 else 114) - Integrity_tag_len cfg"
  shows "\<exists>h. packet_header_for_fragment t (PacketIndex (of_nat i)) mid (length msg) (i * fb) (mode_of t) = Ok h \<and>
    encode_message_fragment h (slice msg (i * fb) (min (i * fb + fb) (length msg))) (replicate MAX_WIRE_BYTES 0) cfg =
      Ok (wr_len (frag_write cfg t mid fb msg i), wr_bytes (frag_write cfg t mid fb msg i))"
proof -
  let ?p = "take fb (drop (i * fb) msg)" and ?index = "PacketIndex (of_nat i)"
  have sl: "slice msg (i * fb) (min (i * fb + fb) (length msg)) = ?p"
    using assms(3) by (simp add: slice_def min_def)
  have len: "length ?p \<le> fb" "16 \<le> (if t = PacketType.Data then 113 else 114 :: nat)" by simp_all
  have tag: "Integrity_tag_len cfg \<le> 16" by (rule Integrity_tag_len_le)
  show ?thesis
  proof (cases "t = PacketType.Data")
    case True
    let ?h = "DataHeader_new Flags_ACK_ELICITING mid ?index (length msg) (i * fb)"
    have "encode_message_fragment (PacketHeader_data ?index Flags_ACK_ELICITING mid (length msg) (i * fb)) ?p
        (replicate MAX_WIRE_BYTES 0) cfg =
      Ok (15 + length ?p + Integrity_tag_len cfg,
        wire_frame cfg (data_packet ?h ?p) @ drop (15 + length ?p + Integrity_tag_len cfg) (replicate MAX_WIRE_BYTES 0))"
      using assms(2,3,4) True len tag
      by (intro encode_data_fragment) (auto simp: PacketHeader_data_def DataHeader_new_def)
    then show ?thesis
      using True sl by (simp add: packet_header_for_fragment_def mode_of_def frag_write_def frag_frame_def
          frag_packet_def Let_def add.assoc)
  next
    case False
    then have t: "t = PacketType.Log" using assms(1) by simp
    let ?h = "LogHeader_new mid ?index (length msg) (i * fb)"
    have "encode_message_fragment (PacketHeader_log ?index mid (length msg) (i * fb)) ?p (replicate MAX_WIRE_BYTES 0) cfg =
      Ok (14 + length ?p + Integrity_tag_len cfg,
        wire_frame cfg (log_packet ?h ?p) @ drop (14 + length ?p + Integrity_tag_len cfg) (replicate MAX_WIRE_BYTES 0))"
      using assms(2,3,4) t len tag
      by (intro encode_log_fragment) (auto simp: PacketHeader_log_def LogHeader_new_def)
    then show ?thesis
      using t sl by (simp add: packet_header_for_fragment_def mode_of_def frag_write_def frag_frame_def
          frag_packet_def Let_def add.assoc)
  qed
qed

section \<open>Queueing the fragments\<close>

definition push_writes :: "WriteEvent list \<Rightarrow> SchedulerState \<Rightarrow> SchedulerState" where
  "push_writes ws q = fold (\<lambda>w q. snd (SchedulerState_push (Write w) q)) ws q"

definition track_writes :: "PacketType \<Rightarrow> MessageId \<Rightarrow> u64 \<Rightarrow> WriteEvent list \<Rightarrow> RecoveryState \<Rightarrow> RecoveryState" where
  "track_writes t mid now ws r = fold (\<lambda>w r. snd (RecoveryState_track (frag_inflight t mid now w) r)) ws r"

definition send_effect :: "PacketType \<Rightarrow> MessageId \<Rightarrow> WriteEvent list \<Rightarrow> EngineState \<Rightarrow> EngineState" where
  "send_effect t mid ws s =
     s\<lparr>es_scheduler := push_writes ws (es_scheduler s),
       es_recovery := (if t = PacketType.Data
         then track_writes t mid (ClockState_now_ms (es_clock s)) ws (es_recovery s) else es_recovery s)\<rparr>"

lemma send_effect_Nil [simp]: "send_effect t mid [] s = s"
  by (simp add: send_effect_def push_writes_def track_writes_def)

lemma send_effect_Cons: "send_effect t mid (w # ws) s = send_effect t mid ws (send_effect t mid [w] s)"
  by (simp add: send_effect_def push_writes_def track_writes_def)

lemma push_room:
  assumes "sched_ok q" "SchedulerState_len q < MAX_EVENTS"
  shows "fst (SchedulerState_push e q) = Ok ()" "sched_ok (snd (SchedulerState_push e q))"
    "SchedulerState_len (snd (SchedulerState_push e q)) \<le> Suc (SchedulerState_len q)"
proof -
  obtain r q' where p: "SchedulerState_push e q = (r, q')" by fastforce
  note P = sched_push[OF assms(1) p]
  have "fst (spec_push e (sched_view q))" using assms(2) by (simp add: spec_push_def)
  then show "fst (SchedulerState_push e q) = Ok ()" using P(3) p by simp
  show "sched_ok (snd (SchedulerState_push e q))" using P(1) p by simp
  have "length (view_events (v(k := v k @ [e]))) = Suc (length (view_events v))" for v k
    by (cases k) (simp_all add: view_events_def)
  moreover have "sched_view q' = snd (spec_push e (sched_view q))" using P(3) by simp
  ultimately have "length (view_events (sched_view q')) \<le> Suc (length (view_events (sched_view q)))"
    by (simp add: spec_push_def view_events_map del: length_view_events)
  then show "SchedulerState_len (snd (SchedulerState_push e q)) \<le> Suc (SchedulerState_len q)" using p by simp
qed

definition recovery_ok :: "RecoveryState \<Rightarrow> bool" where
  "recovery_ok r \<longleftrightarrow> inflight_ok (rs_in_flight r)"

lemma track_room:
  assumes "recovery_ok r" "RecoveryState_in_flight_len r < MAX_IN_FLIGHT_PACKETS"
  shows "fst (RecoveryState_track p r) = Ok ()" "recovery_ok (snd (RecoveryState_track p r))"
    "RecoveryState_in_flight_len (snd (RecoveryState_track p r)) \<le> Suc (RecoveryState_in_flight_len r)"
proof -
  have ok: "inflight_ok (rs_in_flight r)" using assms(1) by (simp add: recovery_ok_def)
  obtain f where f: "InFlightPackets_track p (rs_in_flight r) = (Ok (), f)" "inflight_ok f"
    "inflight_map f = (inflight_map (rs_in_flight r))(if_key p \<mapsto> p)"
    by (rule inflight_track_cases[OF ok, of p])
       (use assms(2) in \<open>simp_all add: RecoveryState_in_flight_len_def InFlightPackets_len_def\<close>)
  have "card (dom (inflight_map f)) \<le> Suc (card (dom (inflight_map (rs_in_flight r))))"
    using f(3) by (simp add: card_insert_le_m1 card_insert_if dom_inflight_map)
  then show "fst (RecoveryState_track p r) = Ok ()" "recovery_ok (snd (RecoveryState_track p r))"
    "RecoveryState_in_flight_len (snd (RecoveryState_track p r)) \<le> Suc (RecoveryState_in_flight_len r)"
    using f inflight_len_card[OF ok] inflight_len_card[OF f(2)]
    by (simp_all add: RecoveryState_track_def recovery_ok_def RecoveryState_in_flight_len_def InFlightPackets_len_def)
qed

definition send_room :: "PacketType \<Rightarrow> nat \<Rightarrow> EngineState \<Rightarrow> bool" where
  "send_room t n s \<longleftrightarrow> sched_ok (es_scheduler s) \<and> recovery_ok (es_recovery s) \<and>
     SchedulerState_len (es_scheduler s) + n \<le> MAX_EVENTS \<and>
     (t = PacketType.Data \<longrightarrow> RecoveryState_in_flight_len (es_recovery s) + n \<le> MAX_IN_FLIGHT_PACKETS)"

lemma send_room_step:
  assumes "send_room t (Suc n) s"
  shows "send_room t n (send_effect t mid [w] s)"
  using assms push_room[of "es_scheduler s" "Write w"]
    track_room[of "es_recovery s" "frag_inflight t mid (ClockState_now_ms (es_clock s)) w"]
  by (auto simp: send_room_def send_effect_def push_writes_def track_writes_def)

lemma send_step:
  assumes "send_room t (Suc n) s" "t = PacketType.Data \<or> t = PacketType.Log"
  shows "sr_bind (EngineState_push (Write w) s) (\<lambda>_ s.
     sr_bind (if mode_of t = Reliable then EngineState_track (frag_inflight t mid (ClockState_now_ms (es_clock s)) w) s
              else (Ok (), s)) f) = f () (send_effect t mid [w] s)"
proof -
  obtain q where q: "SchedulerState_push (Write w) (es_scheduler s) = (Ok (), q)"
    using push_room(1)[of "es_scheduler s" "Write w"] assms(1)
    by (cases "SchedulerState_push (Write w) (es_scheduler s)") (auto simp: send_room_def)
  show ?thesis
  proof (cases "t = PacketType.Data")
    case True
    let ?p = "frag_inflight t mid (ClockState_now_ms (es_clock s)) w"
    obtain r where "RecoveryState_track ?p (es_recovery s) = (Ok (), r)"
      using track_room(1)[of "es_recovery s" ?p] assms(1) True
      by (cases "RecoveryState_track ?p (es_recovery s)") (auto simp: send_room_def)
    then show ?thesis
      using q True by (simp add: EngineState_push_def EngineState_track_def mode_of_def send_effect_def
          push_writes_def track_writes_def)
  next
    case False
    then show ?thesis
      using q by (simp add: EngineState_push_def mode_of_def send_effect_def push_writes_def)
  qed
qed

lemma send_loop_step:
  assumes "t = PacketType.Data \<or> t = PacketType.Log" "length msg \<le> MAX_MESSAGE_BYTES" "0 < fb"
    and "fb \<le> (if t = PacketType.Data then 113 else 114) - Integrity_tag_len cfg"
    and "i < fragment_count (length msg) fb" "send_room t (Suc n) s"
  shows "send_fragments_loop (Suc fuel) t mid msg fb (mode_of t) cfg (min (i * fb) (length msg)) (PacketIndex (of_nat i)) s =
    (if msg = [] then (Ok (), send_effect t mid [frag_write cfg t mid fb msg i] s)
     else send_fragments_loop fuel t mid msg fb (mode_of t) cfg (min (Suc i * fb) (length msg))
       (PacketIndex (of_nat (Suc i))) (send_effect t mid [frag_write cfg t mid fb msg i] s))"
proof -
  let ?w = "frag_write cfg t mid fb msg i"
  have lt: "if msg = [] then i = 0 else i * fb < length msg"
    using fragment_count_less[OF assms(3), of i "length msg"] assms(5) by (simp split: if_splits)
  then have off: "min (i * fb) (length msg) = i * fb" "i * fb \<le> length msg" by (auto split: if_splits)
  obtain h where h: "packet_header_for_fragment t (PacketIndex (of_nat i)) mid (length msg) (i * fb) (mode_of t) = Ok h"
    "encode_message_fragment h (slice msg (i * fb) (min (i * fb + fb) (length msg))) (replicate MAX_WIRE_BYTES 0) cfg =
      Ok (wr_len ?w, wr_bytes ?w)"
    using frag_encode[OF assms(1,2) off(2) assms(4)] by blast
  have w: "\<lparr>wr_key = PacketKey_new mid (PacketIndex (of_nat i)), wr_bytes = wr_bytes ?w, wr_len = wr_len ?w,
      wr_attempts = 0, wr_priority = WritePriority.NewData\<rparr> = ?w"
    by (simp add: frag_write_def Let_def)
  have p: "\<lparr>if_key = PacketKey_new mid (PacketIndex (of_nat i)), if_packet_type = t, if_message_id = mid,
      if_bytes = wr_bytes ?w, if_len = wr_len ?w, if_attempts = 0, if_last_sent_ms = now, if_sent = False\<rparr> =
      frag_inflight t mid now ?w" for now
    by (simp add: frag_write_def frag_inflight_def Let_def)
  have next_index: "PacketIndex_next (PacketIndex (of_nat i)) = PacketIndex (of_nat (Suc i))"
    by (simp add: PacketIndex_next_def add.commute)
  show ?thesis
    unfolding send_fragments_loop.simps Let_def off(1)
    using lt by (simp only: h w p sr_bind_simps prod.case send_step[OF assms(6,1)] next_index if_True)
      (auto simp: add.commute)
qed

lemma send_loop:
  assumes "t = PacketType.Data \<or> t = PacketType.Log" "length msg \<le> MAX_MESSAGE_BYTES" "0 < fb"
    and "fb \<le> (if t = PacketType.Data then 113 else 114) - Integrity_tag_len cfg"
    and "send_room t n s" "i + n = fragment_count (length msg) fb" "n < fuel" "msg = [] \<longrightarrow> i = 0"
  shows "send_fragments_loop fuel t mid msg fb (mode_of t) cfg (min (i * fb) (length msg)) (PacketIndex (of_nat i)) s =
    (Ok (), send_effect t mid (drop i (message_writes cfg t mid fb msg)) s)"
  using assms(5-8)
proof (induction n arbitrary: i s fuel)
  case 0
  then have "msg \<noteq> []" "\<not> i * fb < length msg"
    using fragment_count_less[OF assms(3), of i "length msg"] by (auto simp: fragment_count_def)
  then show ?case using 0 by (cases fuel) (simp_all add: message_writes_def send_fragments_loop.simps)
next
  case (Suc n)
  obtain f where f: "fuel = Suc f" using Suc.prems(3) by (cases fuel) auto
  have i: "i < fragment_count (length msg) fb" using Suc.prems(2) by simp
  have d: "drop i (message_writes cfg t mid fb msg) =
      frag_write cfg t mid fb msg i # drop (Suc i) (message_writes cfg t mid fb msg)"
    using i by (simp add: message_writes_def Cons_nth_drop_Suc[symmetric])
  note step = send_loop_step[OF assms(1-4) i Suc.prems(1), of f mid]
  show ?case
  proof (cases "msg = []")
    case True
    then have "drop (Suc i) (message_writes cfg t mid fb msg) = []"
      using Suc.prems(4) by (simp add: message_writes_def fragment_count_def)
    then show ?thesis using step True f d by simp
  next
    case False
    then show ?thesis
      using step f d Suc.IH[OF send_room_step[OF Suc.prems(1)], of "Suc i" f] Suc.prems
      by (simp add: send_effect_Cons[of t mid "frag_write cfg t mid fb msg i" "drop (Suc i) (message_writes cfg t mid fb msg)"])
  qed
qed

text \<open>A send queues the specified packets, or changes nothing but the id generator.\<close>

lemma send_fragmented_message_eq:
  fixes config :: EngineConfig and msg :: bytes
  assumes "sched_ok (es_scheduler s)" "recovery_ok (es_recovery s)" "t = PacketType.Data \<or> t = PacketType.Log"
    and "NumberState_alloc_message_id (es_numbers s) = (mid, numbers)"
  defines "n \<equiv> fragment_count (length msg) (fragment_limit config t)"
  shows "send_fragmented_message config t msg s =
    (if length msg \<le> MAX_MESSAGE_BYTES \<and> SchedulerState_len (es_scheduler s) + n \<le> MAX_EVENTS \<and>
        (t = PacketType.Data \<longrightarrow> RecoveryState_in_flight_len (es_recovery s) + n \<le> MAX_IN_FLIGHT_PACKETS)
     then (Ok mid, send_effect t mid
       (message_writes (integrity config) t mid (fragment_limit config t) msg) (s\<lparr>es_numbers := numbers\<rparr>))
     else (Err (Error_new Engine), s\<lparr>es_numbers := numbers\<rparr>))"
proof -
  let ?fb = "fragment_limit config t" and ?s = "s\<lparr>es_numbers := numbers\<rparr>"
  note fb = fragment_limit_bounds[OF assms(3), of config]
  have mode: "reliability_mode t = Ok (mode_of t)" "mode_of t = Reliable \<longleftrightarrow> t = PacketType.Data"
    using assms(3) by (auto simp: reliability_mode_def mode_of_def)
  have lens: "SchedulerState_len (es_scheduler s) \<le> 16" "RecoveryState_in_flight_len (es_recovery s) \<le> 16"
    using assms(1,2) inflight.size_le
    by (auto simp: sched_ok_def recovery_ok_def RecoveryState_in_flight_len_def)
  have ensure: "ensure_can_queue_message (length msg) ?fb (mode_of t) ?s =
    (if SchedulerState_len (es_scheduler s) + n \<le> MAX_EVENTS \<and>
        (t = PacketType.Data \<longrightarrow> RecoveryState_in_flight_len (es_recovery s) + n \<le> MAX_IN_FLIGHT_PACKETS)
     then Ok () else Err (Error_new Engine))"
    using lens by (auto simp: ensure_can_queue_message_def Let_def n_def mode SchedulerState_available_def
        RecoveryState_available_in_flight_def InFlightPackets_available_def RecoveryState_in_flight_len_def
        InFlightPackets_len_def)
  have send: "send_message_fragments t mid msg ?fb (mode_of t) (integrity config) ?s =
      (Ok (), send_effect t mid (message_writes (integrity config) t mid ?fb msg) ?s)"
    if "length msg \<le> MAX_MESSAGE_BYTES" "send_room t n ?s"
    using send_loop[OF assms(3) that(1) fb(1,2) that(2), of 0 "length msg + 2" mid]
      fragment_count_bounds[OF fb(1), of "length msg"] that(1)
    by (simp add: send_message_fragments_def n_def PacketIndex_ZERO_def)
  have "send_fragmented_message config t msg s =
    sr_bind (ensure_can_queue_message (length msg) ?fb (mode_of t) ?s, ?s) (\<lambda>_ s.
     sr_bind (send_message_fragments t mid msg ?fb (mode_of t) (integrity config) s) (\<lambda>_ s. (Ok mid, s)))"
    unfolding send_fragmented_message_def fb(3) by (simp add: assms(4) mode(1) Let_def)
  then show ?thesis
    using send ensure assms(1,2) by (simp add: send_room_def send_message_fragments_def not_le)
qed

section \<open>What the queues carry\<close>

text \<open>The key of the packet in a frame; ACKs are never queued as writes.\<close>

definition packet_key :: "bytes \<Rightarrow> PacketKey option" where
  "packet_key pkt = (case decode_packet_bytes pkt of
      PacketDecode.Data d \<Rightarrow> Some (PacketKey_new (mf_message_id (dd_fragment d)) (mf_packet_index (dd_fragment d)))
    | PacketDecode.Log l \<Rightarrow> Some (PacketKey_new (mf_message_id (dl_fragment l)) (mf_packet_index (dl_fragment l)))
    | PacketDecode.Ping \<Rightarrow> Some (PacketKey_new MessageId_ZERO PacketIndex_ZERO)
    | PacketDecode.Pong \<Rightarrow> Some (PacketKey_new MessageId_ZERO PacketIndex_ZERO)
    | _ \<Rightarrow> None)"

definition frame_for :: "IntegrityConfig \<Rightarrow> PacketKey \<Rightarrow> bytes \<Rightarrow> usize \<Rightarrow> bool" where
  "frame_for cfg k bs n \<longleftrightarrow> length bs = MAX_WIRE_BYTES \<and> n \<le> MAX_WIRE_BYTES \<and>
     (\<exists>pkt. take n bs = wire_frame cfg pkt \<and> packet_key pkt = Some k)"

definition writes_ok :: "IntegrityConfig \<Rightarrow> SchedulerState \<Rightarrow> bool" where
  "writes_ok cfg q \<longleftrightarrow> sched_ok q \<and>
     (\<forall>w. Write w \<in> set (view_events (sched_view q)) \<longrightarrow> frame_for cfg (wr_key w) (wr_bytes w) (wr_len w))"

definition packet_ok :: "IntegrityConfig \<Rightarrow> InFlightPacket \<Rightarrow> bool" where
  "packet_ok cfg p \<longleftrightarrow> frame_for cfg (if_key p) (if_bytes p) (if_len p) \<and> if_packet_type p = PacketType.Data \<and>
     if_message_id p = key_message_id (if_key p)"

definition packets_ok :: "IntegrityConfig \<Rightarrow> RecoveryState \<Rightarrow> bool" where
  "packets_ok cfg r \<longleftrightarrow> recovery_ok r \<and> (\<forall>p\<in>set (RecoveryState_packets r). packet_ok cfg p)"

definition events_ok :: "MessageState \<Rightarrow> bool" where
  "events_ok m \<longleftrightarrow> messages_ok m \<and> (\<forall>e\<in>set (message_list m). me_len e \<le> length (me_bytes e))"

definition engine_ok :: "EngineConfig \<Rightarrow> EngineState \<Rightarrow> bool" where
  "engine_ok config s \<longleftrightarrow> writes_ok (integrity config) (es_scheduler s) \<and>
     packets_ok (integrity config) (es_recovery s) \<and> ack_ok (es_ack s) \<and> events_ok (es_message s) \<and>
     sd_ok (ig_decoder (es_ingress s)) \<and> StreamingDecoder_capacity (ig_decoder (es_ingress s)) = MAX_INGRESS_BYTES \<and>
     dedup_ok MAX_IN_FLIGHT_PACKETS (rc_dedup (es_receive s)) \<and> reasm_ok (es_reassembly s)"

lemma spec_push_events:
  "set (view_events (snd (spec_push e v))) \<subseteq> insert e (set (view_events v))"
proof -
  have "set (view_events (v(k := v k @ [e]))) \<subseteq> insert e (set (view_events v))" for k
    by (cases k) (auto simp: view_events_def)
  moreover have "set (view_events (\<lambda>k. map (put w) (v k))) \<subseteq> insert (Write w) (set (view_events v))" for w
    by (auto simp: view_events_map put_def)
  ultimately show ?thesis by (auto simp: spec_push_def split: EngineOutput.splits)
qed

lemma writes_ok_push:
  assumes "writes_ok cfg q" "\<And>w. e = Write w \<Longrightarrow> frame_for cfg (wr_key w) (wr_bytes w) (wr_len w)"
  shows "writes_ok cfg (snd (SchedulerState_push e q))"
proof -
  obtain r q' where p: "SchedulerState_push e q = (r, q')" by fastforce
  have "sched_ok q" using assms(1) by (simp add: writes_ok_def)
  note P = sched_push[OF this p]
  have "set (view_events (sched_view q')) \<subseteq> insert e (set (view_events (sched_view q)))"
    using spec_push_events[of e "sched_view q"] P(3) by simp
  then show ?thesis using P(1) p assms by (auto simp: writes_ok_def)
qed

lemma writes_ok_pushes:
  "writes_ok cfg q \<Longrightarrow> \<forall>w\<in>set ws. frame_for cfg (wr_key w) (wr_bytes w) (wr_len w) \<Longrightarrow> writes_ok cfg (push_writes ws q)"
proof (induction ws arbitrary: q)
  case (Cons w ws)
  then have "writes_ok cfg (snd (SchedulerState_push (Write w) q))" by (intro writes_ok_push) auto
  then show ?case using Cons by (simp add: push_writes_def)
qed (simp add: push_writes_def)

lemma packets_ok_iff:
  "packets_ok cfg r \<longleftrightarrow> recovery_ok r \<and> (\<forall>k p. inflight_map (rs_in_flight r) k = Some p \<longrightarrow> packet_ok cfg p)"
  by (auto simp: packets_ok_def recovery_ok_def RecoveryState_packets_def inflight_map_Some)

lemma packets_ok_track:
  assumes "packets_ok cfg r" "packet_ok cfg p"
  shows "packets_ok cfg (snd (RecoveryState_track p r))"
proof -
  have ok: "inflight_ok (rs_in_flight r)" using assms(1) by (simp add: packets_ok_def recovery_ok_def)
  show ?thesis
    by (rule inflight_track_cases[OF ok, of p])
       (use assms ok in \<open>auto simp: packets_ok_iff recovery_ok_def RecoveryState_track_def\<close>)
qed

lemma packets_ok_tracks:
  "packets_ok cfg r \<Longrightarrow> \<forall>w\<in>set ws. packet_ok cfg (frag_inflight t mid now w) \<Longrightarrow>
    packets_ok cfg (track_writes t mid now ws r)"
proof (induction ws arbitrary: r)
  case (Cons w ws)
  then have "packets_ok cfg (snd (RecoveryState_track (frag_inflight t mid now w) r))"
    by (intro packets_ok_track) auto
  then show ?case using Cons by (simp add: track_writes_def)
qed (simp add: track_writes_def)

text \<open>Every fragment is a frame of its key.\<close>

lemma frag_decode:
  assumes "t = PacketType.Data \<or> t = PacketType.Log" "length msg \<le> MAX_MESSAGE_BYTES" "i * fb \<le> length msg"
  shows "decode_packet_bytes (frag_packet t mid fb msg i) =
    (if t = PacketType.Data
     then (let h = DataHeader_new Flags_ACK_ELICITING mid (PacketIndex (of_nat i)) (length msg) (i * fb) in
       PacketDecode.Data \<lparr>dd_header = h, dd_fragment = data_fragment h (take fb (drop (i * fb) msg))\<rparr>)
     else (let h = LogHeader_new mid (PacketIndex (of_nat i)) (length msg) (i * fb) in
       PacketDecode.Log \<lparr>dl_header = h, dl_fragment = log_fragment h (take fb (drop (i * fb) msg))\<rparr>))"
  using assms
  by (auto simp: frag_packet_def Let_def DataHeader_new_def LogHeader_new_def intro!: decode_data_packet decode_log_packet)

lemma frag_write_ok:
  fixes mid :: MessageId
  assumes "t = PacketType.Data \<or> t = PacketType.Log" "length msg \<le> MAX_MESSAGE_BYTES" "i * fb \<le> length msg"
    and "fb \<le> (if t = PacketType.Data then 113 else 114) - Integrity_tag_len cfg"
  defines "w \<equiv> frag_write cfg t mid fb msg i"
  shows "frame_for cfg (wr_key w) (wr_bytes w) (wr_len w)"
    "t = PacketType.Data \<Longrightarrow> packet_ok cfg (frag_inflight t mid now w)"
    "take (wr_len w) (wr_bytes w) = frag_frame cfg t mid fb msg i"
proof -
  have len: "length (frag_frame cfg t mid fb msg i) \<le> 128"
    using assms(4) Integrity_tag_len_le[of cfg] by (auto simp: length_frag_frame split: if_splits)
  show t: "take (wr_len w) (wr_bytes w) = frag_frame cfg t mid fb msg i"
    by (simp add: w_def frag_write_def Let_def)
  have "packet_key (frag_packet t mid fb msg i) = Some (wr_key w)"
    using frag_decode[OF assms(1,2,3), of mid] assms(1)
    by (auto simp: packet_key_def w_def frag_write_def Let_def data_fragment_def log_fragment_def DataHeader_new_def
        LogHeader_new_def)
  then show f: "frame_for cfg (wr_key w) (wr_bytes w) (wr_len w)"
    using t len by (auto simp: frame_for_def frag_frame_def w_def frag_write_def Let_def)
  show "packet_ok cfg (frag_inflight t mid now w)" if "t = PacketType.Data"
    using f that by (simp add: packet_ok_def frag_inflight_def w_def frag_write_def Let_def PacketKey_new_def)
qed

lemma message_writes_ok:
  assumes "t = PacketType.Data \<or> t = PacketType.Log" "length msg \<le> MAX_MESSAGE_BYTES"
    and "w \<in> set (message_writes (integrity config) t mid (fragment_limit config t) msg)"
  shows "frame_for (integrity config) (wr_key w) (wr_bytes w) (wr_len w)"
    "t = PacketType.Data \<Longrightarrow> packet_ok (integrity config) (frag_inflight t mid now w)"
proof -
  note fb = fragment_limit_bounds[OF assms(1), of config]
  obtain i where i: "w = frag_write (integrity config) t mid (fragment_limit config t) msg i"
    "i < fragment_count (length msg) (fragment_limit config t)"
    using assms(3) by (auto simp: message_writes_def)
  have "i * fragment_limit config t \<le> length msg"
    using fragment_count_less[OF fb(1), of i "length msg"] i(2) by (auto split: if_splits)
  then show "frame_for (integrity config) (wr_key w) (wr_bytes w) (wr_len w)"
    "t = PacketType.Data \<Longrightarrow> packet_ok (integrity config) (frag_inflight t mid now w)"
    unfolding i(1) using frag_write_ok[OF assms(1,2) _ fb(2)] by blast+
qed

section \<open>Fresh message ids\<close>

text \<open>With an id that no queued or tracked packet uses, the fragments are appended as they are.\<close>

definition fresh_id :: "MessageId \<Rightarrow> EngineState \<Rightarrow> bool" where
  "fresh_id mid s \<longleftrightarrow> (\<forall>k\<in>set (write_keys (view_events (sched_view (es_scheduler s)))) \<union>
     dom (inflight_map (rs_in_flight (es_recovery s))). key_message_id k \<noteq> mid)"

lemma write_keys_fun_upd:
  "set (write_keys (view_events (v(k := v k @ es)))) = set (write_keys (view_events v)) \<union> set (write_keys es)"
  by (cases k) (auto simp: view_events_def)

lemma write_keys_Write [simp]: "write_keys (map Write ws) = map wr_key ws"
  by (induction ws) simp_all

lemma push_writes_view:
  "sched_ok q \<Longrightarrow> SchedulerState_len q + length ws \<le> MAX_EVENTS \<Longrightarrow> distinct (map wr_key ws) \<Longrightarrow>
    wr_key ` set ws \<inter> set (write_keys (view_events (sched_view q))) = {} \<Longrightarrow>
    \<forall>w\<in>set ws. queue_for_event (Write w) = k \<Longrightarrow>
    sched_view (push_writes ws q) = (sched_view q)(k := sched_view q k @ map Write ws)"
proof (induction ws arbitrary: q)
  case (Cons w ws)
  obtain r q1 where p: "SchedulerState_push (Write w) q = (r, q1)" by fastforce
  note P = sched_push[OF Cons.prems(1) p] push_room[OF Cons.prems(1), of "Write w"]
  have v1: "sched_view q1 = (sched_view q)(k := sched_view q k @ [Write w])"
    using P(3) Cons.prems(2,4,5) by (auto simp: spec_push_def)
  have "wr_key ` set ws \<inter> set (write_keys (view_events (sched_view q1))) = {}"
    unfolding v1 write_keys_fun_upd using Cons.prems(3,4) by auto
  then have "sched_view (push_writes ws q1) =
      (sched_view q1)(k := sched_view q1 k @ map Write ws)"
    by (intro Cons.IH[OF P(1)]) (use Cons.prems P(6) p in auto)
  moreover have "push_writes (w # ws) q = push_writes ws q1" using p by (simp add: push_writes_def)
  ultimately show ?case unfolding v1 by (simp del: fun_upd_apply add: fun_upd_same)
qed (auto simp: push_writes_def)

lemma track_writes_in_flight:
  "rs_in_flight (track_writes t mid now ws r) =
    fold (\<lambda>p f. snd (InFlightPackets_track p f)) (map (frag_inflight t mid now) ws) (rs_in_flight r)"
  "track_writes t mid now ws r\<lparr>rs_in_flight := f\<rparr> = r\<lparr>rs_in_flight := f\<rparr>"
proof -
  have "rs_in_flight (track_writes t mid now ws r) =
    fold (\<lambda>p f. snd (InFlightPackets_track p f)) (map (frag_inflight t mid now) ws) (rs_in_flight r) \<and>
    track_writes t mid now ws r\<lparr>rs_in_flight := f\<rparr> = r\<lparr>rs_in_flight := f\<rparr>"
    by (induction ws arbitrary: r) (simp_all add: track_writes_def RecoveryState_track_def split: prod.splits)
  then show "rs_in_flight (track_writes t mid now ws r) =
    fold (\<lambda>p f. snd (InFlightPackets_track p f)) (map (frag_inflight t mid now) ws) (rs_in_flight r)"
    "track_writes t mid now ws r\<lparr>rs_in_flight := f\<rparr> = r\<lparr>rs_in_flight := f\<rparr>" by auto
qed

lemma track_writes_map:
  assumes "recovery_ok r" "RecoveryState_in_flight_len r + length ws \<le> MAX_IN_FLIGHT_PACKETS"
    and "distinct (map wr_key ws)" "wr_key ` set ws \<inter> dom (inflight_map (rs_in_flight r)) = {}"
  shows "inflight_map (rs_in_flight (track_writes t mid now ws r)) = (\<lambda>k.
    case find (\<lambda>w. wr_key w = k) ws of Some w \<Rightarrow> Some (frag_inflight t mid now w)
      | None \<Rightarrow> inflight_map (rs_in_flight r) k)"
proof -
  let ?ps = "map (frag_inflight t mid now) ws"
  have keys: "map if_key ?ps = map wr_key ws" "if_key ` set ?ps = wr_key ` set ws"
    by (auto simp: frag_inflight_def image_iff)
  have find_map: "find P (map f xs) = map_option f (find (P \<circ> f) xs)" for P f and xs :: "WriteEvent list"
    by (induction xs) auto
  obtain f where f: "inflight.track_all ?ps (rs_in_flight r) = (True, f)"
    "inflight_map f = (\<lambda>k. case find (\<lambda>p. if_key p = k) ?ps of Some p \<Rightarrow> Some p | None \<Rightarrow> inflight_map (rs_in_flight r) k)"
    using inflight.track_all_ok[of "rs_in_flight r" ?ps, unfolded keys length_map] assms
    by (auto simp: recovery_ok_def RecoveryState_in_flight_len_def)
  have "rs_in_flight (track_writes t mid now ws r) = f"
    using f(1) inflight_fold_track[of ?ps "rs_in_flight r"] by (simp add: track_writes_in_flight)
  moreover have "(\<lambda>p. if_key p = k) \<circ> frag_inflight t mid now = (\<lambda>w. wr_key w = k)" for k
    by (auto simp: frag_inflight_def)
  ultimately show ?thesis using f(2) by (simp add: find_map) (auto simp: fun_eq_iff split: option.splits)
qed

lemma message_writes_keys:
  assumes "fragment_count (length msg) fb \<le> 2 ^ 16"
  shows "distinct (map wr_key (message_writes cfg t mid fb msg))"
    "w \<in> set (message_writes cfg t mid fb msg) \<Longrightarrow> key_message_id (wr_key w) = mid \<and> wr_priority w = WritePriority.NewData"
proof -
  have inj: "of_nat i = (of_nat j :: u16) \<longleftrightarrow> i = j" if "i < 2 ^ 16" "j < 2 ^ 16" for i j
    using that by (simp add: word_of_nat_eq_iff take_bit_nat_eq_self)
  have k: "map wr_key (message_writes cfg t mid fb msg) =
      map (\<lambda>i. PacketKey_new mid (PacketIndex (of_nat i))) [0..<fragment_count (length msg) fb]"
    by (simp add: message_writes_def frag_write_def Let_def)
  show "distinct (map wr_key (message_writes cfg t mid fb msg))"
    unfolding k using assms inj by (auto simp: distinct_map inj_on_def PacketKey_new_def)
  show "key_message_id (wr_key w) = mid \<and> wr_priority w = WritePriority.NewData"
    if "w \<in> set (message_writes cfg t mid fb msg)"
    using that by (auto simp: message_writes_def frag_write_def Let_def PacketKey_new_def)
qed

section \<open>The engine invariant under sending\<close>

lemma engine_ok_new [simp]: "engine_ok config (EngineState_new initial config)"
  using messages.inv_empty messages.contents_empty
  by (simp add: engine_ok_def EngineState_new_def writes_ok_def packets_ok_def recovery_ok_def RecoveryState_new_def
      RecoveryState_packets_def InFlightPackets_packets_def acks.inv_empty events_ok_def IngressState_new_def
      StreamingDecoder_new_ok ReceiveState_new_def dedup_ok_new StreamingDecoder_capacity_def StreamingDecoder_new_def)
     (simp add: InFlightPackets_new_def sd_ok_def)

lemma engine_ok_numbers [simp]: "engine_ok config (s\<lparr>es_numbers := n\<rparr>) \<longleftrightarrow> engine_ok config s"
  by (simp add: engine_ok_def)

lemma engine_okD:
  assumes "engine_ok config s"
  shows "sched_ok (es_scheduler s)" "recovery_ok (es_recovery s)"
  using assms by (auto simp: engine_ok_def writes_ok_def packets_ok_def)

lemma engine_ok_send:
  assumes "engine_ok config s" "t = PacketType.Data \<or> t = PacketType.Log"
  shows "engine_ok config (snd (send_fragmented_message config t msg s))"
    "fst (send_fragmented_message config t msg s) \<noteq> Panic"
proof -
  obtain mid numbers where a: "NumberState_alloc_message_id (es_numbers s) = (mid, numbers)" by fastforce
  note eq = send_fragmented_message_eq[OF engine_okD[OF assms(1)] assms(2) a, of config msg]
  let ?ws = "message_writes (integrity config) t mid (fragment_limit config t) msg"
  have "engine_ok config (send_effect t mid ?ws (s\<lparr>es_numbers := numbers\<rparr>))" if "length msg \<le> MAX_MESSAGE_BYTES"
    using assms(1) message_writes_ok[OF assms(2) that, of _ config mid]
      writes_ok_pushes[of "integrity config" "es_scheduler s" ?ws]
      packets_ok_tracks[of "integrity config" "es_recovery s" ?ws t mid]
    by (auto simp: engine_ok_def send_effect_def)
  then show "engine_ok config (snd (send_fragmented_message config t msg s))"
    "fst (send_fragmented_message config t msg s) \<noteq> Panic"
    using assms(1) by (auto simp: eq)
qed

text \<open>The two liveness packets share one key; queueing one fails only when the scheduler is full.\<close>

definition liveness_write :: "IntegrityConfig \<Rightarrow> PacketType \<Rightarrow> WritePriority \<Rightarrow> WriteEvent" where
  "liveness_write cfg t prio =
     \<lparr>wr_key = PacketKey_new MessageId_ZERO PacketIndex_ZERO,
      wr_bytes = wire_frame cfg [PacketType_code t] @ replicate (124 - Integrity_tag_len cfg) 0,
      wr_len = 4 + Integrity_tag_len cfg, wr_attempts = 0, wr_priority = prio\<rparr>"

lemma liveness_write_ok:
  assumes "t = PacketType.Ping \<or> t = PacketType.Pong"
  shows "frame_for cfg (wr_key (liveness_write cfg t prio)) (wr_bytes (liveness_write cfg t prio))
    (wr_len (liveness_write cfg t prio))"
proof -
  have "packet_key [PacketType_code t] = Some (PacketKey_new MessageId_ZERO PacketIndex_ZERO)"
    using assms decode_liveness by (auto simp: packet_key_def)
  then show ?thesis
    using Integrity_tag_len_le[of cfg]
    by (auto simp: frame_for_def liveness_write_def intro!: exI[of _ "[PacketType_code t]"])
qed

lemma liveness_push:
  "send_ping_impl config s = EngineState_push (Write (liveness_write (integrity config) PacketType.Ping WritePriority.NewData)) s"
  "queue_pong config s = EngineState_push (Write (liveness_write (integrity config) PacketType.Pong WritePriority.Control)) s"
  using Integrity_tag_len_le[of "integrity config"]
  by (simp_all add: send_ping_impl_def queue_pong_def encode_liveness_packet_eq liveness_write_def)

lemma EngineState_push_ok:
  assumes "engine_ok config s" "\<And>w. e = Write w \<Longrightarrow> frame_for (integrity config) (wr_key w) (wr_bytes w) (wr_len w)"
  shows "engine_ok config (snd (EngineState_push e s))" "fst (EngineState_push e s) \<noteq> Panic"
proof -
  obtain r q where p: "SchedulerState_push e (es_scheduler s) = (r, q)" by fastforce
  have "writes_ok (integrity config) q"
    using writes_ok_push[of "integrity config" "es_scheduler s" e] assms p by (auto simp: engine_ok_def)
  then show "engine_ok config (snd (EngineState_push e s))"
    using assms(1) p by (simp add: EngineState_push_def engine_ok_def)
  show "fst (EngineState_push e s) \<noteq> Panic"
    using sched_push(2)[OF engine_okD(1)[OF assms(1)] p] p by (auto simp: EngineState_push_def)
qed

lemma engine_ok_liveness:
  assumes "engine_ok config s"
  shows "engine_ok config (snd (send_ping_impl config s))" "fst (send_ping_impl config s) \<noteq> Panic"
    "engine_ok config (snd (queue_pong config s))" "fst (queue_pong config s) \<noteq> Panic"
  unfolding liveness_push using EngineState_push_ok[OF assms] liveness_write_ok by (metis EngineOutput.inject(1))+

lemma engine_ok_queue_ack:
  assumes "engine_ok config s"
  shows "engine_ok config (snd (queue_ack k s))" "fst (queue_ack k s) \<noteq> Panic"
    "fst (queue_ack k s) = Ok () \<longleftrightarrow> length (ack_list (es_ack s)) < MAX_PENDING_ACKS"
    "ack_list (es_ack (snd (queue_ack k s))) =
      (if length (ack_list (es_ack s)) < MAX_PENDING_ACKS then ack_list (es_ack s) @ [k] else ack_list (es_ack s))"
proof -
  obtain b a where o: "AckState_observe k (es_ack s) = (b, a)" by fastforce
  have ok: "ack_ok (es_ack s)" using assms by (simp add: engine_ok_def)
  note P = acks.push_inv[OF ok, of k, unfolded o, simplified] acks.contents_le[OF ok]
  show "engine_ok config (snd (queue_ack k s))" "fst (queue_ack k s) \<noteq> Panic"
    using assms P o by (auto simp: queue_ack_def engine_ok_def split: bool.splits)
  show "fst (queue_ack k s) = Ok () \<longleftrightarrow> length (ack_list (es_ack s)) < MAX_PENDING_ACKS"
    "ack_list (es_ack (snd (queue_ack k s))) =
      (if length (ack_list (es_ack s)) < MAX_PENDING_ACKS then ack_list (es_ack s) @ [k] else ack_list (es_ack s))"
    using P o by (auto simp: queue_ack_def split: bool.splits)
qed

lemma send_fresh:
  assumes "engine_ok config s" "NumberState_alloc_message_id (es_numbers s) = (mid, numbers)" "fresh_id mid s"
  shows "let ws = message_writes (integrity config) PacketType.Data mid (fragment_limit config PacketType.Data) msg in
    if length msg \<le> MAX_MESSAGE_BYTES \<and> SchedulerState_len (es_scheduler s) + length ws \<le> MAX_EVENTS \<and>
       RecoveryState_in_flight_len (es_recovery s) + length ws \<le> MAX_IN_FLIGHT_PACKETS
    then \<exists>q r. send_data_impl config msg s = (Ok mid, s\<lparr>es_numbers := numbers, es_scheduler := q, es_recovery := r\<rparr>) \<and>
      sched_view q = (sched_view (es_scheduler s))(QueueKind.NewData :=
        sched_view (es_scheduler s) QueueKind.NewData @ map Write ws) \<and>
      inflight_map (rs_in_flight r) = (\<lambda>k. case find (\<lambda>w. wr_key w = k) ws of
          Some w \<Rightarrow> Some (frag_inflight PacketType.Data mid (ClockState_now_ms (es_clock s)) w)
        | None \<Rightarrow> inflight_map (rs_in_flight (es_recovery s)) k)
    else send_data_impl config msg s = (Err (Error_new Engine), s\<lparr>es_numbers := numbers\<rparr>)"
proof -
  let ?fb = "fragment_limit config PacketType.Data" and ?now = "ClockState_now_ms (es_clock s)"
  let ?ws = "message_writes (integrity config) PacketType.Data mid ?fb msg"
  have n: "length ?ws = fragment_count (length msg) ?fb" by (simp add: message_writes_def)
  note eq = send_fragmented_message_eq[OF engine_okD[OF assms(1)] _ assms(2), of PacketType.Data config msg, folded n]
  let ?room = "length msg \<le> MAX_MESSAGE_BYTES \<and> SchedulerState_len (es_scheduler s) + length ?ws \<le> MAX_EVENTS \<and>
       RecoveryState_in_flight_len (es_recovery s) + length ?ws \<le> MAX_IN_FLIGHT_PACKETS"
  show ?thesis
  proof (cases ?room)
    case True
    have cnt: "fragment_count (length msg) ?fb \<le> 2 ^ 16" using True n by simp
    note keys = message_writes_keys[OF cnt, where cfg = "integrity config" and t = PacketType.Data and mid = mid]
    have disj: "wr_key ` set ?ws \<inter> set (write_keys (view_events (sched_view (es_scheduler s)))) = {}"
      "wr_key ` set ?ws \<inter> dom (inflight_map (rs_in_flight (es_recovery s))) = {}"
      using assms(3) keys(2) unfolding fresh_id_def by blast+
    show ?thesis unfolding Let_def if_P[OF True]
      by (intro exI[of _ "push_writes ?ws (es_scheduler s)"]
            exI[of _ "track_writes PacketType.Data mid ?now ?ws (es_recovery s)"] conjI
            push_writes_view track_writes_map)
         (use True eq engine_okD[OF assms(1)] keys disj in
           \<open>auto simp: send_data_impl_def send_effect_def queue_for_event_def\<close>)
  next
    case False
    then show ?thesis using eq by (auto simp: send_data_impl_def Let_def)
  qed
qed

section \<open>Properties\<close>

text \<open>
  C13. Sending is all or nothing: a data message that fits the 256-byte limit and the free
  capacity of the scheduler and the in-flight table is queued as exactly its specified fragments,
  in order and behind the data already queued, each of them tracked for retransmission; otherwise
  the send fails with \<^verbatim>\<open>Engine\<close> and nothing but the id generator changes.  The id must not be in
  use by a queued or tracked packet.
\<close>

theorem send_all_or_nothing:
  assumes "engine_ok config s" "NumberState_alloc_message_id (es_numbers s) = (mid, numbers)" "fresh_id mid s"
  shows "let ws = message_writes (integrity config) PacketType.Data mid (fragment_limit config PacketType.Data) msg in
    if length msg \<le> MAX_MESSAGE_BYTES \<and> SchedulerState_len (es_scheduler s) + length ws \<le> MAX_EVENTS \<and>
       RecoveryState_in_flight_len (es_recovery s) + length ws \<le> MAX_IN_FLIGHT_PACKETS
    then \<exists>q r. send_data_impl config msg s = (Ok mid, s\<lparr>es_numbers := numbers, es_scheduler := q, es_recovery := r\<rparr>) \<and>
      sched_view q = (sched_view (es_scheduler s))(QueueKind.NewData :=
        sched_view (es_scheduler s) QueueKind.NewData @ map Write ws) \<and>
      inflight_map (rs_in_flight r) = (\<lambda>k. case find (\<lambda>w. wr_key w = k) ws of
          Some w \<Rightarrow> Some (frag_inflight PacketType.Data mid (ClockState_now_ms (es_clock s)) w)
        | None \<Rightarrow> inflight_map (rs_in_flight (es_recovery s)) k)
    else send_data_impl config msg s = (Err (Error_new Engine), s\<lparr>es_numbers := numbers\<rparr>)"
  by (rule send_fresh[OF assms])

theorem send_all_or_nothing_witness:
  "fst (send_data_impl (EngineConfig_default None) [1, 2, 3]
      (EngineState_new (MessageId 0) (EngineConfig_default None))) =
    Ok (fst (NumberState_alloc_message_id (NumberState_new (MessageId 0))))"
proof -
  let ?c = "EngineConfig_default None"
  let ?s = "EngineState_new (MessageId 0) ?c"
  let ?mid = "fst (NumberState_alloc_message_id (NumberState_new (MessageId 0)))"
  have fresh: "fresh_id ?mid ?s"
    by (simp add: fresh_id_def EngineState_new_def RecoveryState_new_def dom_inflight_map InFlightPackets_new_def)
  have len: "length (message_writes (integrity ?c) PacketType.Data ?mid (fragment_limit ?c PacketType.Data) [1, 2, 3]) = 1"
    by (simp add: message_writes_def fragment_limit_def EngineConfig_default_def IntegrityConfig_DEFAULT_def
        DEFAULT_FRAGMENT_BYTES_def fragment_count_def Crc32_TAG_LEN_def Crc16_TAG_LEN_def)
  have a: "NumberState_alloc_message_id (es_numbers ?s) = (?mid, snd (NumberState_alloc_message_id (NumberState_new (MessageId 0))))"
    by (simp add: EngineState_new_def)
  have empty: "SchedulerState_len (es_scheduler ?s) = 0" "RecoveryState_in_flight_len (es_recovery ?s) = 0"
    by (simp_all add: EngineState_new_def SchedulerState_len_def SchedulerState_new_def EventQueue_new_def
        RecoveryState_in_flight_len_def RecoveryState_new_def inflight.size_empty)
  show ?thesis
    using send_all_or_nothing[OF engine_ok_new a fresh, of "[1, 2, 3]"] len empty by (auto simp: Let_def)
qed

end
