(* ===== verification/Engine_Poll.thy ===== *)
theory Engine_Poll
  imports Engine_Send
begin

text \<open>
  The time-driven and outgoing side of the engine: retransmission
  (\<^verbatim>\<open>src/engine/state/recovery/retransmit.rs\<close>), the polling helpers
  (\<^verbatim>\<open>src/engine/state/scheduler/poll.rs\<close>) and \<^verbatim>\<open>EngineState::poll\<close> (\<^verbatim>\<open>src/engine/state.rs\<close>).  The
  lemmas show which packets a tick retransmits or gives up, that polling keeps the engine's
  invariant, and that everything it hands to the link is a complete valid frame.

  A poll writes into a buffer of the caller and returns a view of it; the model returns the bytes
  of that view.
\<close>

section \<open>engine/state/recovery/retransmit.rs\<close>

definition EngineState_retransmit_timeout_ms :: "EngineConfig \<Rightarrow> u8 \<Rightarrow> EngineState \<Rightarrow> u64" where
  "EngineState_retransmit_timeout_ms config attempts s =
     (case (dynamic_recovery config, rs_dynamic (es_recovery s)) of
        (Some c, Some d) \<Rightarrow> RecoveryState_dynamic_timeout_ms d c attempts
      | _ \<Rightarrow> retransmit_timeout_ms config)"

text \<open>The scan over the packets in flight: packets to send again, packets given up, their messages.\<close>

fun tick_scan ::
  "EngineConfig \<Rightarrow> u64 \<Rightarrow> EngineState \<Rightarrow> InFlightPacket list \<Rightarrow>
    InFlightPacket list \<times> InFlightPacket list \<times> (PacketType \<times> MessageId) list \<Rightarrow>
    InFlightPacket list \<times> InFlightPacket list \<times> (PacketType \<times> MessageId) list" where
  "tick_scan config now s [] acc = acc"
| "tick_scan config now s (packet # packets) (retransmits, failures, failed_messages) =
     tick_scan config now s packets
       (if \<not> if_sent packet then (retransmits, failures, failed_messages)
        else if saturating_sub now (if_last_sent_ms packet)
                  < EngineState_retransmit_timeout_ms config (if_attempts packet) s
        then (retransmits, failures, failed_messages)
        else if if_attempts packet \<ge> max_retransmit_attempts config
        then let already_failed = (if_packet_type packet, if_message_id packet) \<in> set failed_messages in
          if \<not> already_failed \<and> length failures < MAX_IN_FLIGHT_PACKETS
          then (retransmits, failures @ [packet], failed_messages @ [(if_packet_type packet, if_message_id packet)])
          else (retransmits, failures, failed_messages)
        else if length retransmits < MAX_IN_FLIGHT_PACKETS
        then (retransmits @ [packet], failures, failed_messages)
        else (retransmits, failures, failed_messages))"

fun tick_failures :: "InFlightPacket list \<Rightarrow> EngineState \<Rightarrow> EngineState" where
  "tick_failures [] s = s"
| "tick_failures (packet # packets) s =
     (let s = s\<lparr>es_recovery := RecoveryState_remove_message (if_packet_type packet) (if_message_id packet) (es_recovery s)\<rparr>;
          s = snd (EngineState_push (SendFailed
                \<lparr>sf_packet_type = if_packet_type packet, sf_message_id = if_message_id packet,
                 sf_reason = RetryLimitReached\<rparr>) s)
      in tick_failures packets s)"

fun tick_retransmits :: "(PacketType \<times> MessageId) list \<Rightarrow> InFlightPacket list \<Rightarrow> EngineState \<Rightarrow> EngineState" where
  "tick_retransmits failed_messages [] s = s"
| "tick_retransmits failed_messages (packet # packets) s =
     (if (if_packet_type packet, if_message_id packet) \<in> set failed_messages
      then tick_retransmits failed_messages packets s
      else let s = snd (EngineState_push (Write
                \<lparr>wr_key = if_key packet, wr_bytes = if_bytes packet, wr_len = if_len packet,
                 wr_attempts = saturating_add (if_attempts packet) 1, wr_priority = WritePriority.Retransmit\<rparr>) s)
           in tick_retransmits failed_messages packets s)"

definition tick_retransmit :: "EngineConfig \<Rightarrow> u64 \<Rightarrow> EngineState \<Rightarrow> EngineState" where
  "tick_retransmit config now s =
     (let s = s\<lparr>es_clock := ClockState_update now (es_clock s)\<rparr>;
          s = s\<lparr>es_reassembly := ReassemblyState_expire now (reassembly_timeout_ms config) (es_reassembly s)\<rparr>;
          (tick, recovery) = RecoveryState_should_tick now (es_recovery s);
          s = s\<lparr>es_recovery := recovery\<rparr> in
      if \<not> tick then s
      else case tick_scan config now s (RecoveryState_packets (es_recovery s)) ([], [], []) of
        (retransmits, failures, failed_messages) \<Rightarrow>
          tick_retransmits failed_messages retransmits (tick_failures failures s))"

section \<open>engine/state/scheduler/poll.rs\<close>

datatype EnginePoll =
    Transmit bytes u8
  | Message MessageEvent
  | SendFailed SendFailedEvent
  | Idle

definition poll_pending_ack :: "EngineConfig \<Rightarrow> bytes \<Rightarrow> AckState \<Rightarrow> EnginePoll res \<times> AckState" where
  "poll_pending_ack config tx_buf ack =
     (case AckState_pop ack of
        (None, ack) \<Rightarrow> (Ok Idle, ack)
      | (Some key, ack) \<Rightarrow>
          sr_bind (encode_ack_packet key tx_buf (integrity config), ack) (\<lambda>(written, out) ack.
            (Ok (Transmit (take written out) 0), ack)))"

definition poll_write :: "WriteEvent \<Rightarrow> u64 \<Rightarrow> bytes \<Rightarrow> RecoveryState \<Rightarrow> EnginePoll res \<times> RecoveryState" where
  "poll_write write now tx_buf recovery =
     (if length tx_buf < wr_len write then (Err Error_buffer_too_small, recovery)
      else let recovery = (case wr_priority write of
                 WritePriority.Retransmit \<Rightarrow> RecoveryState_note_retransmit_sent (wr_key write) now recovery
               | _ \<Rightarrow> RecoveryState_note_sent (wr_key write) now recovery) in
        sr_bind (WriteEvent_as_bytes write, recovery) (\<lambda>bs recovery.
          (Ok (Transmit (take (wr_len write) (copy_at tx_buf 0 bs)) (wr_attempts write)), recovery)))"

definition poll_event :: "EngineOutput \<Rightarrow> u64 \<Rightarrow> bytes \<Rightarrow> RecoveryState \<Rightarrow> EnginePoll res \<times> RecoveryState" where
  "poll_event event now tx_buf recovery =
     (case event of
        EngineOutput.Write write \<Rightarrow> poll_write write now tx_buf recovery
      | EngineOutput.SendFailed failed \<Rightarrow> (Ok (EnginePoll.SendFailed failed), recovery))"

section \<open>engine/state/scheduler.rs, engine/state.rs: polling\<close>

definition SchedulerState_poll_ack :: "EngineConfig \<Rightarrow> bytes \<Rightarrow> AckState \<Rightarrow> EnginePoll res \<times> AckState" where
  "SchedulerState_poll_ack config tx_buf ack = poll_pending_ack config tx_buf ack"

definition SchedulerState_poll_new_data ::
  "u64 \<Rightarrow> bytes \<Rightarrow> SchedulerState \<Rightarrow> RecoveryState \<Rightarrow> EnginePoll res \<times> SchedulerState \<times> RecoveryState" where
  "SchedulerState_poll_new_data now tx_buf q recovery =
     (case EventQueue_pop (sc_new_data q) of
        (None, d) \<Rightarrow> (Ok Idle, q\<lparr>sc_new_data := d\<rparr>, recovery)
      | (Some event, d) \<Rightarrow>
          (case poll_event event now tx_buf recovery of (r, recovery) \<Rightarrow> (r, q\<lparr>sc_new_data := d\<rparr>, recovery)))"

definition EngineState_poll :: "EngineConfig \<Rightarrow> u64 \<Rightarrow> bytes \<Rightarrow> EngineState \<Rightarrow> EnginePoll res \<times> EngineState" where
  "EngineState_poll config now tx_buf s =
     (let s = tick_retransmit config now s in
      if AckState_is_pending (es_ack s)
      then update_field (SchedulerState_poll_ack config tx_buf (es_ack s)) (\<lambda>a. s\<lparr>es_ack := a\<rparr>)
      else case SchedulerState_pop_urgent (es_scheduler s) of
        (Some event, q) \<Rightarrow>
          update_field (poll_event event now tx_buf (es_recovery s)) (\<lambda>r. s\<lparr>es_scheduler := q, es_recovery := r\<rparr>)
      | (None, q) \<Rightarrow>
          let s = s\<lparr>es_scheduler := q\<rparr> in
          case MessageState_pop (es_message s) of
            (Some message, m) \<Rightarrow> (Ok (Message message), s\<lparr>es_message := m\<rparr>)
          | (None, m) \<Rightarrow>
              let s = s\<lparr>es_message := m\<rparr> in
              case SchedulerState_poll_new_data now tx_buf (es_scheduler s) (es_recovery s) of
                (r, q, recovery) \<Rightarrow> (r, s\<lparr>es_scheduler := q, es_recovery := recovery\<rparr>))"

section \<open>What a tick does\<close>

definition due :: "EngineConfig \<Rightarrow> u64 \<Rightarrow> EngineState \<Rightarrow> InFlightPacket \<Rightarrow> bool" where
  "due config now s p \<longleftrightarrow> if_sent p \<and>
     EngineState_retransmit_timeout_ms config (if_attempts p) s \<le> saturating_sub now (if_last_sent_ms p)"

definition exhausted :: "EngineConfig \<Rightarrow> u64 \<Rightarrow> EngineState \<Rightarrow> InFlightPacket \<Rightarrow> bool" where
  "exhausted config now s p \<longleftrightarrow> due config now s p \<and> max_retransmit_attempts config \<le> if_attempts p"

definition message_of :: "InFlightPacket \<Rightarrow> PacketType \<times> MessageId" where
  "message_of p = (if_packet_type p, if_message_id p)"

lemma tick_scan_eq:
  assumes "tick_scan config now s ps (R, F, map message_of F) = (R', F', M')"
    and "length R + length ps \<le> MAX_IN_FLIGHT_PACKETS" "length F + length ps \<le> MAX_IN_FLIGHT_PACKETS"
  shows "R' = R @ filter (\<lambda>p. due config now s p \<and> \<not> exhausted config now s p) ps \<and> M' = map message_of F' \<and>
    set M' = set (map message_of F) \<union> message_of ` {p \<in> set ps. exhausted config now s p} \<and>
    set F' \<subseteq> set F \<union> {p \<in> set ps. exhausted config now s p} \<and>
    (distinct (map message_of F) \<longrightarrow> distinct (map message_of F'))"
  using assms
proof (induction ps arbitrary: R F)
  case (Cons p ps)
  have skip: "tick_scan config now s (p # ps) (R, F, map message_of F) = tick_scan config now s ps (R, F, map message_of F)"
    if "\<not> due config now s p"
    using that by (auto simp: due_def not_le)
  have exh: "tick_scan config now s (p # ps) (R, F, map message_of F) =
      (if message_of p \<in> set (map message_of F) then tick_scan config now s ps (R, F, map message_of F)
       else tick_scan config now s ps (R, F @ [p], map message_of (F @ [p])))"
    if "exhausted config now s p"
    using that Cons.prems(3) by (auto simp: exhausted_def due_def message_of_def not_le[symmetric] Let_def)
  have again: "tick_scan config now s (p # ps) (R, F, map message_of F) = tick_scan config now s ps (R @ [p], F, map message_of F)"
    if "due config now s p" "\<not> exhausted config now s p"
    using that Cons.prems(2) by (auto simp: exhausted_def due_def not_le[symmetric])
  consider "\<not> due config now s p" | "exhausted config now s p" "message_of p \<in> set (map message_of F)"
    | "exhausted config now s p" "message_of p \<notin> set (map message_of F)"
    | "due config now s p" "\<not> exhausted config now s p" by (auto simp: exhausted_def)
  then show ?case
  proof cases
    case 1
    then have "\<not> exhausted config now s p" by (simp add: exhausted_def)
    with 1 show ?thesis using Cons.IH[of R F] Cons.prems skip[OF 1] by auto
  next
    case 2
    then have "due config now s p" by (simp add: exhausted_def)
    with 2 show ?thesis using Cons.IH[of R F] Cons.prems exh[OF 2(1)] by auto
  next
    case 3
    then have "due config now s p" by (simp add: exhausted_def)
    with 3 show ?thesis using Cons.IH[of R "F @ [p]"] Cons.prems exh[OF 3(1)] by auto
  next
    case 4
    then show ?thesis using Cons.IH[of "R @ [p]" F] Cons.prems again[OF 4] by auto
  qed
qed auto

text \<open>The scan from scratch over the packets in flight.\<close>

lemma tick_scan_packets:
  assumes "recovery_ok (es_recovery s)" "RecoveryState_packets (es_recovery s) = ps"
    and "tick_scan config now s' ps ([], [], []) = (R, F, M)"
  shows "R = filter (\<lambda>p. due config now s' p \<and> \<not> exhausted config now s' p) ps" "M = map message_of F"
    "set M = message_of ` {p \<in> set ps. exhausted config now s' p}" "set F \<subseteq> {p \<in> set ps. exhausted config now s' p}"
    "distinct M" "length F \<le> MAX_IN_FLIGHT_PACKETS"
proof -
  have len: "length ps \<le> MAX_IN_FLIGHT_PACKETS"
    using assms(1,2) length_flatten_le[of "ifs_packets (rs_in_flight (es_recovery s))"]
    by (auto simp: recovery_ok_def inflight_ok_def RecoveryState_packets_def InFlightPackets_packets_def)
  have scan: "tick_scan config now s' ps ([], [], map message_of []) = (R, F, M)" using assms(3) by simp
  have prem: "length ([] :: InFlightPacket list) + length ps \<le> MAX_IN_FLIGHT_PACKETS" using len by simp
  note e = tick_scan_eq[OF scan prem prem, unfolded append_Nil list.map(1) list.set(1) Un_empty_left]
  show *: "R = filter (\<lambda>p. due config now s' p \<and> \<not> exhausted config now s' p) ps" "M = map message_of F"
    "set M = message_of ` {p \<in> set ps. exhausted config now s' p}" "set F \<subseteq> {p \<in> set ps. exhausted config now s' p}"
    "distinct M"
    using e by (blast, blast, blast, blast, simp)
  have "distinct F" using *(2,5) by (simp add: distinct_map)
  then have "length F = card (set F)" by (simp add: distinct_card)
  also have "\<dots> \<le> card (set ps)" using *(4) by (intro card_mono) auto
  finally show "length F \<le> MAX_IN_FLIGHT_PACKETS" using len card_length[of ps] by simp
qed

section \<open>The engine invariant under polling\<close>

lemma packets_ok_remove:
  assumes "packets_ok cfg r"
  shows "packets_ok cfg (RecoveryState_remove_message t m r)"
proof -
  have ok: "inflight_ok (rs_in_flight r)" using assms by (simp add: packets_ok_def recovery_ok_def)
  show ?thesis
    using assms inflight_remove_message[OF ok, of t m]
    by (auto simp: packets_ok_def recovery_ok_def RecoveryState_remove_message_def RecoveryState_packets_def)
qed

lemma packets_ok_note:
  assumes "packets_ok cfg r"
  shows "packets_ok cfg (RecoveryState_note_sent k now r)" "packets_ok cfg (RecoveryState_note_retransmit_sent k now r)"
    "packets_ok cfg (RecoveryState_apply_ack k r)"
proof -
  have ok: "inflight_ok (rs_in_flight r)" using assms by (simp add: packets_ok_def recovery_ok_def)
  show "packets_ok cfg (RecoveryState_note_sent k now r)"
    using assms inflight_note_sent[OF ok, where k = k and now = now]
    by (auto simp: packets_ok_iff recovery_ok_def RecoveryState_note_sent_def packet_ok_def)
  show "packets_ok cfg (RecoveryState_note_retransmit_sent k now r)"
    using assms inflight_note_retransmit_sent[OF ok, where k = k and now = now]
    by (auto simp: packets_ok_iff recovery_ok_def RecoveryState_note_retransmit_sent_def packet_ok_def)
  show "packets_ok cfg (RecoveryState_apply_ack k r)"
    using assms inflight_remove[OF ok, of k]
    by (auto simp: packets_ok_iff recovery_ok_def RecoveryState_apply_ack_def split: if_splits)
qed

lemma engine_ok_recovery:
  "engine_ok config s \<Longrightarrow> packets_ok (integrity config) r \<Longrightarrow> engine_ok config (s\<lparr>es_recovery := r\<rparr>)"
  by (simp add: engine_ok_def)

lemma engine_ok_failures: "engine_ok config s \<Longrightarrow> engine_ok config (tick_failures fs s)"
proof (induction fs arbitrary: s)
  case (Cons p ps)
  let ?s = "s\<lparr>es_recovery := RecoveryState_remove_message (if_packet_type p) (if_message_id p) (es_recovery s)\<rparr>"
  have "engine_ok config ?s"
    using Cons.prems packets_ok_remove by (intro engine_ok_recovery) (auto simp: engine_ok_def)
  then have "engine_ok config (snd (EngineState_push (EngineOutput.SendFailed f) ?s))" for f
    by (intro EngineState_push_ok) auto
  then show ?case using Cons.IH by (simp add: Let_def)
qed simp

lemma engine_ok_retransmits:
  "engine_ok config s \<Longrightarrow> \<forall>p\<in>set ps. packet_ok (integrity config) p \<Longrightarrow> engine_ok config (tick_retransmits failed ps s)"
proof (induction ps arbitrary: s)
  case (Cons p ps)
  let ?w = "\<lparr>wr_key = if_key p, wr_bytes = if_bytes p, wr_len = if_len p,
    wr_attempts = saturating_add (if_attempts p) 1, wr_priority = WritePriority.Retransmit\<rparr>"
  have "engine_ok config (snd (EngineState_push (Write ?w) s))"
    using Cons.prems by (intro EngineState_push_ok) (auto simp: packet_ok_def)
  then show ?case using Cons by (auto simp: Let_def)
qed simp

text \<open>A tick up to the scan: the state whose packets are scanned.\<close>

definition tick_start :: "EngineConfig \<Rightarrow> u64 \<Rightarrow> EngineState \<Rightarrow> EngineState" where
  "tick_start config now s =
     s\<lparr>es_clock := ClockState now, es_reassembly := ReassemblyState_expire now (reassembly_timeout_ms config) (es_reassembly s),
       es_recovery := (es_recovery s)\<lparr>rs_last_tick_ms := Some now\<rparr>\<rparr>"

lemma tick_retransmit_eq:
  "tick_retransmit config now s =
    (if rs_last_tick_ms (es_recovery s) = Some now then tick_start config now s
     else case tick_scan config now (tick_start config now s) (RecoveryState_packets (es_recovery s)) ([], [], []) of
       (R, F, M) \<Rightarrow> tick_retransmits M R (tick_failures F (tick_start config now s)))"
proof -
  have "(es_recovery s)\<lparr>rs_last_tick_ms := Some now\<rparr> = es_recovery s" if "rs_last_tick_ms (es_recovery s) = Some now"
    using that by (cases "es_recovery s") simp
  then show ?thesis
    by (simp add: tick_retransmit_def tick_start_def RecoveryState_should_tick_def ClockState_update_def Let_def
        RecoveryState_packets_def)
qed

lemma engine_ok_tick_start: "engine_ok config s \<Longrightarrow> engine_ok config (tick_start config now s)"
  using reasm_expire(1)[of "es_reassembly s"]
  by (auto simp: engine_ok_def tick_start_def packets_ok_def recovery_ok_def RecoveryState_packets_def)

lemma engine_ok_tick:
  assumes "engine_ok config s"
  shows "engine_ok config (tick_retransmit config now s)"
proof -
  let ?s = "tick_start config now s"
  obtain R F M where scan: "tick_scan config now ?s (RecoveryState_packets (es_recovery s)) ([], [], []) = (R, F, M)"
    by (metis prod_cases3)
  have "set R \<subseteq> set (RecoveryState_packets (es_recovery s))"
    using tick_scan_packets(1)[OF engine_okD(2)[OF assms] refl scan] by auto
  then have "\<forall>p\<in>set R. packet_ok (integrity config) p" using assms by (auto simp: engine_ok_def packets_ok_def)
  from engine_ok_retransmits[OF engine_ok_failures[OF engine_ok_tick_start[OF assms]] this]
  show ?thesis using engine_ok_tick_start[OF assms] by (simp add: tick_retransmit_eq scan)
qed

lemma spec_pop_mem:
  assumes "spec_pop ks v = (Some e, v')"
  shows "e \<in> set (view_events v)" "set (view_events v') \<subseteq> set (view_events v)"
proof -
  obtain k where k: "v k \<noteq> []" "e = hd (v k)" "v' = v(k := tl (v k))"
    using assms by (auto simp: spec_pop_def find_Some_iff split: option.splits)
  then show "e \<in> set (view_events v)" "set (view_events v') \<subseteq> set (view_events v)"
    by (cases k; cases "v k"; auto simp: view_events_def)+
qed

lemma pop_urgent_ok:
  assumes "writes_ok cfg q" "SchedulerState_pop_urgent q = (r, q')"
  shows "writes_ok cfg q'" "r = Some e \<Longrightarrow> e \<in> set (view_events (sched_view q))"
proof -
  have ok: "sched_ok q" using assms(1) by (simp add: writes_ok_def)
  note P = sched_pop_urgent[OF ok assms(2)]
  show "r = Some e \<Longrightarrow> e \<in> set (view_events (sched_view q))" using P(1) spec_pop_mem(1) by metis
  have "set (view_events (sched_view q')) \<subseteq> set (view_events (sched_view q))"
  proof (cases r)
    case None
    then have "sched_view q' = sched_view q" using P(1) by (simp add: spec_pop_def split: option.splits)
    then show ?thesis by simp
  next
    case (Some e)
    then show ?thesis using P(1) spec_pop_mem(2) by metis
  qed
  then show "writes_ok cfg q'" using P(2) assms(1) by (auto simp: writes_ok_def)
qed

lemma pop_new_data_ok:
  assumes "writes_ok cfg q" "EventQueue_pop (sc_new_data q) = (r, d)"
  shows "writes_ok cfg (q\<lparr>sc_new_data := d\<rparr>)" "r = Some e \<Longrightarrow> e \<in> set (view_events (sched_view q))"
    "sched_view (q\<lparr>sc_new_data := d\<rparr>) = (sched_view q)(QueueKind.NewData := tl (sched_view q QueueKind.NewData))"
    "r = (case sched_view q QueueKind.NewData of [] \<Rightarrow> None | e # es \<Rightarrow> Some e)"
proof -
  have ok: "sched_ok q" using assms(1) by (simp add: writes_ok_def)
  then have "queue_ok (sc_new_data q)" by (simp add: sched_ok_def)
  note P = queue_pop_list[OF this assms(2)]
  show v: "sched_view (q\<lparr>sc_new_data := d\<rparr>) = (sched_view q)(QueueKind.NewData := tl (sched_view q QueueKind.NewData))"
    by (rule view_eqI) (simp_all add: P(2))
  have "sched_ok (q\<lparr>sc_new_data := d\<rparr>)"
    by (rule sched_ok_pop[OF ok v]) (use ok P(1) in \<open>simp_all add: sched_ok_def\<close>)
  moreover have "set (view_events ((sched_view q)(QueueKind.NewData := tl (sched_view q QueueKind.NewData)))) \<subseteq>
      set (view_events (sched_view q))"
    by (cases "queue_list (sc_new_data q)") (auto simp: view_events_def)
  ultimately show "writes_ok cfg (q\<lparr>sc_new_data := d\<rparr>)"
    using assms(1) v by (auto simp: writes_ok_def)
  show "r = (case sched_view q QueueKind.NewData of [] \<Rightarrow> None | e # es \<Rightarrow> Some e)" by (simp add: P(3))
  then show "r = Some e \<Longrightarrow> e \<in> set (view_events (sched_view q))"
    by (auto simp: view_events_def split: list.splits)
qed

text \<open>A frame the link can carry: complete, sealed, and accepted by the packet decoder.\<close>

definition valid_frame :: "IntegrityConfig \<Rightarrow> bytes \<Rightarrow> bool" where
  "valid_frame cfg bs \<longleftrightarrow> (\<exists>pkt. bs = wire_frame cfg pkt \<and> length pkt < 256 \<and> decode_packet_bytes pkt \<noteq> Malformed)"

fun transmits_frame :: "IntegrityConfig \<Rightarrow> EnginePoll res \<Rightarrow> bool" where
  "transmits_frame cfg (Ok (Transmit bs attempts)) = valid_frame cfg bs"
| "transmits_frame cfg Panic = False"
| "transmits_frame cfg _ = True"

lemma frame_for_valid:
  assumes "frame_for cfg k bs n"
  shows "valid_frame cfg (take n bs)"
proof -
  obtain pkt where p: "take n bs = wire_frame cfg pkt" "packet_key pkt = Some k" "n \<le> 128"
    using assms by (auto simp: frame_for_def)
  have "length pkt < 256" using arg_cong[OF p(1), of length] p(3) by simp
  moreover have "decode_packet_bytes pkt \<noteq> Malformed" using p(2) by (auto simp: packet_key_def)
  ultimately show ?thesis using p(1) by (auto simp: valid_frame_def)
qed

lemma poll_event_ok:
  assumes "packets_ok cfg r" "\<And>w. e = EngineOutput.Write w \<Longrightarrow> frame_for cfg (wr_key w) (wr_bytes w) (wr_len w)"
    and "poll_event e now tx r = (res, r')"
  shows "packets_ok cfg r'" "transmits_frame cfg res"
proof -
  have "packets_ok cfg r' \<and> transmits_frame cfg res"
  proof (cases e)
    case (Write w)
    note f = assms(2)[OF Write]
    have b: "WriteEvent_as_bytes w = Ok (take (wr_len w) (wr_bytes w))" "wr_len w \<le> length (wr_bytes w)"
      using f by (auto simp: WriteEvent_as_bytes_def split_at_fst_def frame_for_def)
    show ?thesis
    proof (cases "length tx < wr_len w")
      case True
      then show ?thesis using assms Write by (auto simp: poll_event_def poll_write_def)
    next
      case False
      have "take (wr_len w) (copy_at tx 0 (take (wr_len w) (wr_bytes w))) = take (wr_len w) (wr_bytes w)"
        using b(2) by (simp add: copy_at_0)
      then show ?thesis
        using assms(1,3) False Write b(1) frame_for_valid[OF f] packets_ok_note[OF assms(1)]
        by (auto simp: poll_event_def poll_write_def Let_def split: WritePriority.splits)
    qed
  next
    case (SendFailed x)
    then show ?thesis using assms by (auto simp: poll_event_def)
  qed
  then show "packets_ok cfg r'" "transmits_frame cfg res" by auto
qed

lemma poll_ack_ok:
  assumes "ack_ok a" "poll_pending_ack config tx a = (res, a')"
  shows "ack_ok a'" "transmits_frame (integrity config) res" "ack_list a' = tl (ack_list a)"
proof -
  obtain k a1 where p: "AckState_pop a = (k, a1)" by fastforce
  have P: "ack_ok a1" "ack_list a1 = tl (ack_list a)" using acks.pop_inv[OF assms(1)] p by simp_all
  have "a' = a1" using assms(2) p by (auto simp: poll_pending_ack_def encode_ack_packet_eq split: option.splits if_splits)
  then show "ack_ok a'" "ack_list a' = tl (ack_list a)" using P by simp_all
  have "valid_frame (integrity config) (wire_frame (integrity config) (ack_packet key))" for key
    using decode_ack_packet[of key] by (auto simp: valid_frame_def intro!: exI[of _ "ack_packet key"])
  then show "transmits_frame (integrity config) res"
    using assms(2) p by (auto simp: poll_pending_ack_def encode_ack_packet_eq split: option.splits if_splits)
qed

lemma poll_new_data_ok:
  assumes "writes_ok cfg q" "packets_ok cfg r" "SchedulerState_poll_new_data now tx q r = (res, q', r')"
  shows "writes_ok cfg q'" "packets_ok cfg r'" "transmits_frame cfg res"
proof -
  obtain u d where u: "EventQueue_pop (sc_new_data q) = (u, d)" by fastforce
  note N = pop_new_data_ok[OF assms(1) u]
  have "writes_ok cfg q' \<and> packets_ok cfg r' \<and> transmits_frame cfg res"
  proof (cases u)
    case None
    then show ?thesis using assms u N(1) by (auto simp: SchedulerState_poll_new_data_def)
  next
    case (Some e)
    have f: "frame_for cfg (wr_key w) (wr_bytes w) (wr_len w)" if "e = EngineOutput.Write w" for w
      using assms(1) N(2)[OF Some] that by (auto simp: writes_ok_def)
    obtain r1 rec where p: "poll_event e now tx r = (r1, rec)" by fastforce
    show ?thesis
      using assms(3) u Some p poll_event_ok[OF assms(2) f p] N(1) by (auto simp: SchedulerState_poll_new_data_def)
  qed
  then show "writes_ok cfg q'" "packets_ok cfg r'" "transmits_frame cfg res" by auto
qed

lemma engine_ok_poll:
  assumes "engine_ok config s" "EngineState_poll config now tx s = (res, s')"
  shows "engine_ok config s'" "transmits_frame (integrity config) res"
proof -
  let ?s = "tick_retransmit config now s"
  have ok: "engine_ok config ?s" by (rule engine_ok_tick[OF assms(1)])
  then have parts: "writes_ok (integrity config) (es_scheduler ?s)" "packets_ok (integrity config) (es_recovery ?s)"
    "ack_ok (es_ack ?s)" "events_ok (es_message ?s)"
    by (auto simp: engine_ok_def)
  obtain r1 a where a: "poll_pending_ack config tx (es_ack ?s) = (r1, a)" by fastforce
  obtain u q where u: "SchedulerState_pop_urgent (es_scheduler ?s) = (u, q)" by fastforce
  note U = pop_urgent_ok[OF parts(1) u]
  obtain m ms where m: "MessageState_pop (es_message ?s) = (m, ms)" by fastforce
  have M: "events_ok ms"
    using messages.pop_inv[of "es_message ?s"] m parts(4)
    by (cases "message_list (es_message ?s)"; auto simp: events_ok_def)
  obtain r2 q2 rec2 where n: "SchedulerState_poll_new_data now tx q (es_recovery ?s) = (r2, q2, rec2)"
    by (cases "SchedulerState_poll_new_data now tx q (es_recovery ?s)") auto
  note N = poll_new_data_ok[OF U(1) parts(2) n]
  have "engine_ok config s' \<and> transmits_frame (integrity config) res"
  proof (cases "AckState_is_pending (es_ack ?s)")
    case True
    then show ?thesis
      using assms(2) a ok poll_ack_ok[OF parts(3) a]
      by (auto simp: EngineState_poll_def SchedulerState_poll_ack_def engine_ok_def Let_def)
  next
    case noack: False
    show ?thesis
    proof (cases u)
      case (Some e)
      have f: "frame_for (integrity config) (wr_key w) (wr_bytes w) (wr_len w)" if "e = EngineOutput.Write w" for w
        using parts(1) U(2)[OF Some] that by (auto simp: writes_ok_def)
      obtain r rec where p: "poll_event e now tx (es_recovery ?s) = (r, rec)" by fastforce
      show ?thesis
        using assms(2) noack u Some p ok U(1) poll_event_ok[OF parts(2) f p]
        by (auto simp: EngineState_poll_def engine_ok_def Let_def)
    next
      case None
      then show ?thesis
        using assms(2) noack u m M ok U(1) n N
        by (cases m) (auto simp: EngineState_poll_def engine_ok_def Let_def)
    qed
  qed
  then show "engine_ok config s'" "transmits_frame (integrity config) res" by auto
qed

section \<open>The outcome of a tick\<close>

definition push_events :: "EngineOutput list \<Rightarrow> SchedulerState \<Rightarrow> SchedulerState" where
  "push_events es q = fold (\<lambda>e q. snd (SchedulerState_push e q)) es q"

lemma push_keeps:
  assumes "sched_ok q" "e \<in> set (view_events (sched_view q))"
    and "\<And>w. e = EngineOutput.Write w \<Longrightarrow> wr_key w \<notin> set (write_keys [e'])"
  shows "e \<in> set (view_events (sched_view (snd (SchedulerState_push e' q))))"
proof -
  obtain r q' where p: "SchedulerState_push e' q = (r, q')" by fastforce
  have v: "sched_view q' = snd (spec_push e' (sched_view q))" using sched_push(3)[OF assms(1) p] by simp
  have "e \<in> set (view_events (v(k := v k @ [e'])))" if "e \<in> set (view_events v)" for v k
    using that by (cases k) (auto simp: view_events_def)
  moreover have "put w e = e" if "e' = EngineOutput.Write w" for w
    using assms(3) that by (cases e) (auto simp: put_def)
  then have "e \<in> set (view_events (\<lambda>k. map (put w) (v k)))" if "e \<in> set (view_events v)" "e' = EngineOutput.Write w" for v w
    using that by (force simp: view_events_map)
  ultimately show ?thesis
    using assms(2) p v by (auto simp: spec_push_def split: EngineOutput.splits)
qed

lemma push_adds:
  assumes "sched_ok q" "SchedulerState_len q < MAX_EVENTS"
  shows "e \<in> set (view_events (sched_view (snd (SchedulerState_push e q))))"
proof -
  obtain r q' where p: "SchedulerState_push e q = (r, q')" by fastforce
  have v: "sched_view q' = snd (spec_push e (sched_view q))" using sched_push(3)[OF assms(1) p] by simp
  have "e \<in> set (view_events (v(k := v k @ [e])))" for v k
    by (cases k) (auto simp: view_events_def)
  moreover have "EngineOutput.Write w \<in> set (view_events (\<lambda>k. map (put w) (v k)))"
    if "wr_key w \<in> set (write_keys (view_events v))" for w v
    using that by (auto simp: view_events_map put_def in_write_keys image_iff)
  ultimately show ?thesis using assms(2) p v by (auto simp: spec_push_def split: EngineOutput.splits)
qed

lemma push_events_keep:
  "sched_ok q \<Longrightarrow> SchedulerState_len q + length es \<le> MAX_EVENTS \<Longrightarrow> e \<in> set (view_events (sched_view q)) \<Longrightarrow>
    (\<And>w. e = EngineOutput.Write w \<Longrightarrow> wr_key w \<notin> set (write_keys es)) \<Longrightarrow>
    e \<in> set (view_events (sched_view (push_events es q)))"
proof (induction es arbitrary: q)
  case (Cons e' es)
  let ?q = "snd (SchedulerState_push e' q)"
  have split: "set (write_keys (e' # es)) = set (write_keys [e']) \<union> set (write_keys es)" by (cases e') auto
  have room: "SchedulerState_len q < MAX_EVENTS" using Cons.prems(2) by simp
  note R = push_room[OF Cons.prems(1) room, of e']
  have "e \<in> set (view_events (sched_view ?q))"
    using Cons.prems(1,3,4) split by (intro push_keeps) auto
  then have "e \<in> set (view_events (sched_view (push_events es ?q)))"
    using Cons.prems(2,4) R split by (intro Cons.IH) auto
  then show ?case by (simp add: push_events_def)
qed (simp add: push_events_def)

lemma push_events_mem:
  "sched_ok q \<Longrightarrow> SchedulerState_len q + length es \<le> MAX_EVENTS \<Longrightarrow> distinct (write_keys es) \<Longrightarrow> e \<in> set es \<Longrightarrow>
    e \<in> set (view_events (sched_view (push_events es q)))"
proof (induction es arbitrary: q)
  case (Cons e' es)
  let ?q = "snd (SchedulerState_push e' q)"
  have room: "SchedulerState_len q < MAX_EVENTS" using Cons.prems(2) by simp
  note R = push_room[OF Cons.prems(1) room, of e']
  have d: "distinct (write_keys es)" using Cons.prems(3) by (cases e') auto
  have "e \<in> set (view_events (sched_view (push_events es ?q)))"
  proof (cases "e \<in> set es")
    case True
    then show ?thesis using Cons.IH[OF R(2) _ d] Cons.prems(2) R(3) by simp
  next
    case False
    then have "e = e'" using Cons.prems(4) by simp
    then show ?thesis
      using push_adds[OF Cons.prems(1) room, of e'] Cons.prems(2,3) R by (intro push_events_keep) auto
  qed
  then show ?case by (simp add: push_events_def)
qed simp

definition failed_event :: "PacketType \<times> MessageId \<Rightarrow> EngineOutput" where
  "failed_event m = EngineOutput.SendFailed
     \<lparr>sf_packet_type = fst m, sf_message_id = snd m, sf_reason = RetryLimitReached\<rparr>"

definition retransmission :: "InFlightPacket \<Rightarrow> WriteEvent" where
  "retransmission p = \<lparr>wr_key = if_key p, wr_bytes = if_bytes p, wr_len = if_len p,
     wr_attempts = saturating_add (if_attempts p) 1, wr_priority = WritePriority.Retransmit\<rparr>"

lemma tick_failures_eq:
  "es_scheduler (tick_failures F s) = push_events (map (failed_event \<circ> message_of) F) (es_scheduler s)"
  "es_recovery (tick_failures F s) =
     fold (\<lambda>p. RecoveryState_remove_message (if_packet_type p) (if_message_id p)) F (es_recovery s)"
  by (induction F arbitrary: s)
     (simp_all add: push_events_def EngineState_push_def update_field_def failed_event_def message_of_def Let_def
       split: prod.splits)

lemma tick_retransmits_eq:
  "es_scheduler (tick_retransmits M R s) =
     push_events (map (EngineOutput.Write \<circ> retransmission) (filter (\<lambda>p. message_of p \<notin> set M) R)) (es_scheduler s)"
  "es_recovery (tick_retransmits M R s) = es_recovery s"
  by (induction R arbitrary: s)
     (simp_all add: push_events_def EngineState_push_def update_field_def retransmission_def message_of_def Let_def
       split: prod.splits)

lemma removes_packets:
  "recovery_ok r \<Longrightarrow>
    recovery_ok (fold (\<lambda>p. RecoveryState_remove_message (if_packet_type p) (if_message_id p)) F r) \<and>
    RecoveryState_packets (fold (\<lambda>p. RecoveryState_remove_message (if_packet_type p) (if_message_id p)) F r) =
      filter (\<lambda>p. message_of p \<notin> message_of ` set F) (RecoveryState_packets r)"
proof (induction F arbitrary: r)
  case (Cons f F)
  let ?r = "RecoveryState_remove_message (if_packet_type f) (if_message_id f) r"
  have "inflight_ok (rs_in_flight r)" using Cons.prems by (simp add: recovery_ok_def)
  note R = inflight_remove_message(1,2)[OF this, of "if_packet_type f" "if_message_id f"]
  have "recovery_ok ?r" "RecoveryState_packets ?r = filter (\<lambda>p. message_of p \<noteq> message_of f) (RecoveryState_packets r)"
    using R by (simp_all add: recovery_ok_def RecoveryState_remove_message_def RecoveryState_packets_def message_of_def
        of_message_def)
  then show ?case using Cons.IH[of ?r] by (simp add: conj_commute)
qed simp

lemma due_tick_start [simp]:
  "due config now (tick_start config now s) = due config now s"
  "exhausted config now (tick_start config now s) = exhausted config now s"
  by (auto simp: fun_eq_iff due_def exhausted_def EngineState_retransmit_timeout_ms_def tick_start_def)

definition given_up :: "EngineConfig \<Rightarrow> u64 \<Rightarrow> EngineState \<Rightarrow> (PacketType \<times> MessageId) set" where
  "given_up config now s = message_of ` {p \<in> set (RecoveryState_packets (es_recovery s)). exhausted config now s p}"

lemma tick_outcome:
  assumes "engine_ok config s" "rs_last_tick_ms (es_recovery s) \<noteq> Some now"
  defines "ps \<equiv> RecoveryState_packets (es_recovery s)" and "s' \<equiv> tick_retransmit config now s"
  obtains F where "RecoveryState_packets (es_recovery s') = filter (\<lambda>p. message_of p \<notin> given_up config now s) ps"
    "recovery_ok (es_recovery s')" "set F = given_up config now s" "distinct F"
    "es_scheduler s' = push_events (map failed_event F @ map (EngineOutput.Write \<circ> retransmission)
       (filter (\<lambda>p. due config now s p \<and> message_of p \<notin> given_up config now s) ps)) (es_scheduler s)"
    "length F + length (filter (\<lambda>p. due config now s p \<and> message_of p \<notin> given_up config now s) ps) \<le> length ps"
proof -
  let ?s = "tick_start config now s"
  obtain R F M where scan: "tick_scan config now ?s ps ([], [], []) = (R, F, M)" by (metis prod_cases3)
  have rok: "recovery_ok (es_recovery s)" using engine_okD[OF assms(1)] by simp
  note P = tick_scan_packets[OF rok refl scan[unfolded ps_def], unfolded due_tick_start, folded ps_def]
  have s': "s' = tick_retransmits M R (tick_failures F ?s)"
    using assms(2) scan by (simp add: s'_def tick_retransmit_eq ps_def)
  have M: "set M = given_up config now s" using P(3) by (simp add: given_up_def ps_def)
  have MF: "message_of ` set F = set M" "map (failed_event \<circ> message_of) F = map failed_event M" using P(2) by auto
  have rok': "recovery_ok (es_recovery ?s)" "RecoveryState_packets (es_recovery ?s) = ps"
    using rok by (simp_all add: tick_start_def recovery_ok_def RecoveryState_packets_def ps_def)
  have ex: "message_of p \<in> given_up config now s" if "p \<in> set ps" "exhausted config now s p" for p
    using that by (auto simp: given_up_def ps_def)
  then have fil: "filter (\<lambda>p. message_of p \<notin> set M) R =
      filter (\<lambda>p. due config now s p \<and> message_of p \<notin> given_up config now s) ps"
    unfolding P(1) M filter_filter by (intro filter_cong) auto
  have "length M = card (set M)" using P(5) by (simp add: distinct_card)
  also have "\<dots> \<le> length (filter (exhausted config now s) ps)"
    unfolding P(3) by (metis card_image_le card_length finite_set le_trans set_filter)
  finally have "length M + length (filter (\<lambda>p. due config now s p \<and> message_of p \<notin> given_up config now s) ps) \<le> length ps"
  proof -
    assume M: "length M \<le> length (filter (exhausted config now s) ps)"
    have "length (filter (\<lambda>p. due config now s p \<and> message_of p \<notin> given_up config now s) ps) \<le>
        length (filter (\<lambda>p. \<not> exhausted config now s p) ps)"
    proof -
      have eq: "filter (\<lambda>p. due config now s p \<and> message_of p \<notin> given_up config now s) ps =
        filter (\<lambda>p. due config now s p \<and> message_of p \<notin> given_up config now s)
          (filter (\<lambda>p. \<not> exhausted config now s p) ps)"
        unfolding filter_filter using ex by (intro filter_cong) auto
      show ?thesis by (subst eq) (rule length_filter_le)
    qed
    then show ?thesis using M sum_length_filter_compl[of "exhausted config now s" ps] by linarith
  qed
  moreover have "es_scheduler s' = push_events (map failed_event M @ map (EngineOutput.Write \<circ> retransmission)
       (filter (\<lambda>p. due config now s p \<and> message_of p \<notin> given_up config now s) ps)) (es_scheduler s)"
    unfolding s' tick_retransmits_eq tick_failures_eq fil MF by (simp add: push_events_def tick_start_def)
  moreover have "RecoveryState_packets (es_recovery s') = filter (\<lambda>p. message_of p \<notin> given_up config now s) ps"
    "recovery_ok (es_recovery s')"
    unfolding s' tick_retransmits_eq tick_failures_eq using removes_packets[OF rok'(1), of F] rok'(2) MF(1) M by simp_all
  ultimately show thesis using that M P(5) by blast
qed

text \<open>A state in which the only packet of message 5 has used up its last attempt.\<close>

definition stuck_packet :: InFlightPacket where
  "stuck_packet = frag_inflight PacketType.Data (MessageId 5) 0 (frag_write Crc16 PacketType.Data (MessageId 5) 64 [1] 0)
     \<lparr>if_sent := True, if_attempts := 5\<rparr>"

definition stuck_state :: EngineState where
  "stuck_state = snd (EngineState_track stuck_packet (EngineState_new (MessageId 0)
     (EngineConfig_default None\<lparr>integrity := Crc16\<rparr>)))"

lemma stuck_state:
  "engine_ok (EngineConfig_default None\<lparr>integrity := Crc16\<rparr>) stuck_state"
  "RecoveryState_packets (es_recovery stuck_state) = [stuck_packet]" "rs_last_tick_ms (es_recovery stuck_state) = None"
  "rs_dynamic (es_recovery stuck_state) = None" "es_scheduler stuck_state = SchedulerState_new"
  "RecoveryState_in_flight_len (es_recovery stuck_state) = 1"
proof -
  let ?c = "EngineConfig_default None\<lparr>integrity := Crc16\<rparr>"
  let ?s = "EngineState_new (MessageId 0) ?c"
  have "packet_ok Crc16 (frag_inflight PacketType.Data (MessageId 5) 0 (frag_write Crc16 PacketType.Data (MessageId 5) 64 [1] 0))"
    by (rule frag_write_ok(2)) (simp_all add: Crc16_TAG_LEN_def)
  then have p: "packet_ok Crc16 stuck_packet" by (simp add: stuck_packet_def packet_ok_def)
  have "packets_ok Crc16 (es_recovery ?s)"
    using engine_ok_new[of ?c "MessageId 0"] by (simp add: engine_ok_def)
  from packets_ok_track[OF this p] show "engine_ok ?c stuck_state"
    using engine_ok_new[of ?c "MessageId 0"]
    by (auto simp: stuck_state_def EngineState_track_def update_field_def engine_ok_def split: prod.splits)
  show "RecoveryState_packets (es_recovery stuck_state) = [stuck_packet]" "rs_last_tick_ms (es_recovery stuck_state) = None"
    "rs_dynamic (es_recovery stuck_state) = None" "es_scheduler stuck_state = SchedulerState_new"
    "RecoveryState_in_flight_len (es_recovery stuck_state) = 1"
    by (simp_all add: stuck_state_def EngineState_track_def EngineState_new_def RecoveryState_track_def RecoveryState_new_def
        InFlightPackets_track_def InFlightPackets_new_def RecoveryState_packets_def InFlightPackets_packets_def
        slot_free_def numeral_eq_Suc EngineConfig_default_def RecoveryState_in_flight_len_def InFlightPackets_len_def)
qed

lemma stuck_given_up:
  "given_up (EngineConfig_default None\<lparr>integrity := Crc16\<rparr>) 100 stuck_state = {(PacketType.Data, MessageId 5)}"
  "message_of stuck_packet = (PacketType.Data, MessageId 5)"
proof -
  let ?c = "EngineConfig_default None\<lparr>integrity := Crc16\<rparr>"
  have "exhausted ?c 100 stuck_state stuck_packet" and m: "message_of stuck_packet = (PacketType.Data, MessageId 5)"
    by (simp_all add: exhausted_def due_def stuck_packet_def frag_inflight_def message_of_def EngineConfig_default_def
        EngineState_retransmit_timeout_ms_def DEFAULT_RETRANSMIT_TIMEOUT_MS_def DEFAULT_MAX_RETRANSMIT_ATTEMPTS_def
        saturating_sub_def)
  then have "{p. p = stuck_packet \<and> exhausted ?c 100 stuck_state p} = {stuck_packet}" by auto
  then show "given_up ?c 100 stuck_state = {(PacketType.Data, MessageId 5)}" using m by (simp add: given_up_def stuck_state(2))
  show "message_of stuck_packet = (PacketType.Data, MessageId 5)" by (rule m)
qed

section \<open>Properties\<close>

text \<open>
  C24. Giving up: a tick at a new time removes from the in-flight table exactly the messages that
  have a packet whose retransmission timer ran out after the last allowed attempt, with all their
  packets, and keeps every other packet as it was.
\<close>

theorem tick_gives_up:
  assumes "engine_ok config s" "rs_last_tick_ms (es_recovery s) \<noteq> Some now"
  shows "RecoveryState_packets (es_recovery (tick_retransmit config now s)) =
    filter (\<lambda>p. message_of p \<notin> given_up config now s) (RecoveryState_packets (es_recovery s))"
  by (rule tick_outcome[OF assms])

theorem tick_gives_up_witness:
  "RecoveryState_packets (es_recovery stuck_state) = [stuck_packet] \<and>
   RecoveryState_packets (es_recovery (tick_retransmit (EngineConfig_default None\<lparr>integrity := Crc16\<rparr>) 100 stuck_state)) = []"
  using tick_gives_up[OF stuck_state(1), of 100] by (simp add: stuck_state(2,3) stuck_given_up)

text \<open>
  C25. Retransmission: when the scheduler has room for one event per packet in flight, a tick at a
  new time reports every message it gives up as failed and queues every other packet whose timer
  ran out for retransmission, with its bytes and one more attempt counted.
\<close>

theorem tick_schedules:
  assumes "engine_ok config s" "rs_last_tick_ms (es_recovery s) \<noteq> Some now"
    and "SchedulerState_len (es_scheduler s) + RecoveryState_in_flight_len (es_recovery s) \<le> MAX_EVENTS"
  shows "(\<forall>m\<in>given_up config now s.
      failed_event m \<in> set (view_events (sched_view (es_scheduler (tick_retransmit config now s))))) \<and>
    (\<forall>p\<in>set (RecoveryState_packets (es_recovery s)). due config now s p \<and> message_of p \<notin> given_up config now s \<longrightarrow>
      EngineOutput.Write (retransmission p) \<in> set (view_events (sched_view (es_scheduler (tick_retransmit config now s)))))"
proof (rule tick_outcome[OF assms(1,2)])
  let ?ps = "RecoveryState_packets (es_recovery s)"
  let ?R = "filter (\<lambda>p. due config now s p \<and> message_of p \<notin> given_up config now s) ?ps"
  fix F assume F: "set F = given_up config now s"
    and q: "es_scheduler (tick_retransmit config now s) =
      push_events (map failed_event F @ map (EngineOutput.Write \<circ> retransmission) ?R) (es_scheduler s)"
    and len: "length F + length ?R \<le> length ?ps"
  let ?es = "map failed_event F @ map (EngineOutput.Write \<circ> retransmission) ?R"
  have ok: "inflight_ok (rs_in_flight (es_recovery s))" using engine_okD(2)[OF assms(1)] by (simp add: recovery_ok_def)
  have "write_keys (map failed_event xs) = []" for xs by (induction xs) (simp_all add: failed_event_def)
  moreover have "write_keys (map (EngineOutput.Write \<circ> retransmission) xs) = map if_key xs" for xs
    by (induction xs) (simp_all add: retransmission_def)
  ultimately have "distinct (write_keys ?es)"
    using ok by (simp add: inflight_ok_def RecoveryState_packets_def InFlightPackets_packets_def distinct_map_filter)
  moreover have "SchedulerState_len (es_scheduler s) + length ?es \<le> MAX_EVENTS"
    using len assms(3) ok by (simp add: RecoveryState_in_flight_len_def InFlightPackets_len_def inflight_ok_def
        RecoveryState_packets_def InFlightPackets_packets_def)
  ultimately have "e \<in> set (view_events (sched_view (es_scheduler (tick_retransmit config now s))))" if "e \<in> set ?es" for e
    unfolding q using push_events_mem[OF engine_okD(1)[OF assms(1)]] that by blast
  then show ?thesis using F by auto
qed

theorem tick_schedules_witness:
  "failed_event (PacketType.Data, MessageId 5) \<in> set (view_events (sched_view (es_scheduler
     (tick_retransmit (EngineConfig_default None\<lparr>integrity := Crc16\<rparr>) 100 stuck_state))))"
proof -
  have "SchedulerState_len (es_scheduler stuck_state) + RecoveryState_in_flight_len (es_recovery stuck_state) \<le> MAX_EVENTS"
    by (simp add: stuck_state SchedulerState_len_def SchedulerState_new_def EventQueue_new_def)
  then show ?thesis using tick_schedules[OF stuck_state(1), of 100] stuck_state(3) by (simp add: stuck_given_up)
qed

text \<open>
  C26. Everything a poll hands to the link is one complete frame, sealed with the configured
  integrity tag, whose packet the receiver's decoder accepts; polling never panics and keeps the
  engine's invariant.
\<close>

theorem poll_transmits_frames:
  assumes "engine_ok config s"
  shows "case EngineState_poll config now tx s of (r, s') \<Rightarrow>
    engine_ok config s' \<and> r \<noteq> Panic \<and> (\<forall>bs attempts. r = Ok (Transmit bs attempts) \<longrightarrow> valid_frame (integrity config) bs)"
proof -
  obtain r s' where p: "EngineState_poll config now tx s = (r, s')" by fastforce
  show ?thesis using engine_ok_poll[OF assms p] p by auto
qed

theorem poll_transmits_frames_witness:
  "engine_ok (EngineConfig_default None) (snd (EngineState_poll (EngineConfig_default None) 3 []
     (EngineState_new (MessageId 0) (EngineConfig_default None))))"
  using poll_transmits_frames[OF engine_ok_new[of "EngineConfig_default None" "MessageId 0"], where now = 3 and tx = "[]"]
  by (simp split: prod.splits)

end
