(* ===== verification/Engine_Receive.thy ===== *)
theory Engine_Receive
  imports Engine_Poll
begin

text \<open>
  The incoming side of the engine (\<^verbatim>\<open>src/engine/state/ingress.rs\<close>) and the public engine
  (\<^verbatim>\<open>src/engine.rs\<close>).  The receive loop drains the streaming decoder; it ends because every decoder
  outcome but \<^verbatim>\<open>NeedMore\<close> uses up bytes.  The lemmas show that receiving keeps the engine's
  invariant, how each kind of packet changes the state, and that the fragments of a message are
  delivered in any order of arrival.

  A report is the value of the Rust call; the \<open>res\<close> around it is there for panics, which the
  invariant rules out.
\<close>

section \<open>engine/state/ingress.rs\<close>

datatype ReceiveReport =
    Packet PacketIndex
  | Duplicate PacketIndex
  | Ack PacketIndex
  | Ping
  | Pong
  | Noise usize
  | Corrupted
  | Incomplete "usize option"
  | Error Error

text \<open>\<^verbatim>\<open>self.queue_ack(key).is_err()\<close> turned into the report of an engine error.\<close>

definition ack_or_error :: "PacketKey \<Rightarrow> bool \<Rightarrow> ReceiveReport \<Rightarrow> EngineState \<Rightarrow> ReceiveReport res \<times> EngineState" where
  "ack_or_error key ack_eliciting report s =
     (if ack_eliciting
      then case queue_ack key s of
        (Ok _, s) \<Rightarrow> (Ok report, s)
      | (Err _, s) \<Rightarrow> (Ok (ReceiveReport.Error (Error_new Engine)), s)
      | (Panic, s) \<Rightarrow> (Panic, s)
      else (Ok report, s))"

definition receive_data :: "MessageFragment \<Rightarrow> EngineState \<Rightarrow> ReceiveReport res \<times> EngineState" where
  "receive_data fragment s =
     (let packet_index = mf_packet_index fragment;
          key = PacketKey_new (mf_message_id fragment) packet_index;
          ack_eliciting = mf_ack_eliciting fragment in
      if PacketDedup_is_duplicate (rc_dedup (es_receive s)) key
      then ack_or_error key ack_eliciting (ReceiveReport.Duplicate packet_index) s
      else case ReassemblyState_observe fragment (ClockState_now_ms (es_clock s)) (es_reassembly s) of
        (Panic, ra) \<Rightarrow> (Panic, s\<lparr>es_reassembly := ra\<rparr>)
      | (Err _, ra) \<Rightarrow> (Ok ReceiveReport.Corrupted, s\<lparr>es_reassembly := ra\<rparr>)
      | (Ok message, ra) \<Rightarrow>
          let s = s\<lparr>es_reassembly := ra\<rparr>;
              s = (case message of
                     Some m \<Rightarrow> s\<lparr>es_message := MessageState_push (m\<lparr>me_packet_type := PacketType.Data\<rparr>) (es_message s)\<rparr>
                   | None \<Rightarrow> s) in
          case PacketDedup_observe_packet key (rc_dedup (es_receive s)) of
            (Ok DedupDecision.Accept, d) \<Rightarrow>
              ack_or_error key ack_eliciting (ReceiveReport.Packet packet_index)
                (s\<lparr>es_receive := (es_receive s)\<lparr>rc_dedup := d\<rparr>\<rparr>)
          | (Ok DedupDecision.Duplicate, d) \<Rightarrow>
              (Ok (ReceiveReport.Duplicate packet_index), s\<lparr>es_receive := (es_receive s)\<lparr>rc_dedup := d\<rparr>\<rparr>)
          | (Err e, d) \<Rightarrow> (Ok (ReceiveReport.Error e), s\<lparr>es_receive := (es_receive s)\<lparr>rc_dedup := d\<rparr>\<rparr>)
          | (Panic, d) \<Rightarrow> (Panic, s\<lparr>es_receive := (es_receive s)\<lparr>rc_dedup := d\<rparr>\<rparr>))"

definition receive_log :: "MessageFragment \<Rightarrow> EngineState \<Rightarrow> ReceiveReport res \<times> EngineState" where
  "receive_log fragment s =
     (case ReassemblyState_observe fragment (ClockState_now_ms (es_clock s)) (es_reassembly s) of
        (Ok (Some m), ra) \<Rightarrow>
          (Ok (ReceiveReport.Packet (mf_packet_index fragment)),
           s\<lparr>es_reassembly := ra,
             es_message := MessageState_push (m\<lparr>me_packet_type := PacketType.Log\<rparr>) (es_message s)\<rparr>)
      | (Ok None, ra) \<Rightarrow> (Ok (ReceiveReport.Packet (mf_packet_index fragment)), s\<lparr>es_reassembly := ra\<rparr>)
      | (Err _, ra) \<Rightarrow> (Ok ReceiveReport.Corrupted, s\<lparr>es_reassembly := ra\<rparr>)
      | (Panic, ra) \<Rightarrow> (Panic, s\<lparr>es_reassembly := ra\<rparr>))"

definition receive_ack :: "EngineConfig \<Rightarrow> PacketKey \<Rightarrow> EngineState \<Rightarrow> ReceiveReport res \<times> EngineState" where
  "receive_ack config key s =
     (Ok (ReceiveReport.Ack (key_packet_index key)),
      s\<lparr>es_recovery := (case dynamic_recovery config of
          Some _ \<Rightarrow> RecoveryState_apply_ack_at key (ClockState_now_ms (es_clock s)) (es_recovery s)
        | None \<Rightarrow> RecoveryState_apply_ack key (es_recovery s))\<rparr>)"

definition receive_decoded :: "EngineConfig \<Rightarrow> PacketDecode \<Rightarrow> EngineState \<Rightarrow> ReceiveReport res \<times> EngineState" where
  "receive_decoded config packet s =
     (case packet of
        PacketDecode.Data d \<Rightarrow> receive_data (dd_fragment d) s
      | PacketDecode.Log l \<Rightarrow> receive_log (dl_fragment l) s
      | PacketDecode.Ack a \<Rightarrow> receive_ack config (da_key a) s
      | PacketDecode.Ping \<Rightarrow>
          (case queue_pong config s of
             (Ok _, s) \<Rightarrow> (Ok ReceiveReport.Ping, s)
           | (Err _, s) \<Rightarrow> (Ok (ReceiveReport.Error (Error_new Engine)), s)
           | (Panic, s) \<Rightarrow> (Panic, s))
      | PacketDecode.Pong \<Rightarrow> (Ok ReceiveReport.Pong, s)
      | PacketDecode.Malformed \<Rightarrow> (Ok ReceiveReport.Corrupted, s))"

definition receive_complete_packet :: "EngineConfig \<Rightarrow> PacketBytes \<Rightarrow> EngineState \<Rightarrow> ReceiveReport res \<times> EngineState" where
  "receive_complete_packet config packet s =
     sr_bind (PacketBytes_decode packet, s) (\<lambda>d s. receive_decoded config d s)"

lemma queue_ingress [simp]:
  "es_ingress (snd (queue_ack k s)) = es_ingress s" "es_ingress (snd (queue_pong config s)) = es_ingress s"
  "es_ingress (snd (ack_or_error k b r s)) = es_ingress s"
  by (auto simp: queue_ack_def liveness_push EngineState_push_def update_field_def ack_or_error_def
      split: prod.splits bool.splits res.splits)

lemma receive_data_ingress: "es_ingress (snd (receive_data f s)) = es_ingress s"
  by (simp add: receive_data_def Let_def split: prod.splits res.splits option.splits DedupDecision.splits)

lemma receive_packet_ingress: "es_ingress (snd (receive_complete_packet config p s)) = es_ingress s"
proof -
  have "es_ingress (snd (receive_decoded config d s)) = es_ingress s" for d
    using queue_ingress(2)[of config s]
    by (cases "queue_pong config s")
       (auto simp: receive_decoded_def receive_log_def receive_ack_def receive_data_ingress simp del: queue_ingress
        split: PacketDecode.splits prod.splits res.splits option.splits)
  then show ?thesis by (cases "PacketBytes_decode p") (simp_all add: receive_complete_packet_def)
qed

text \<open>The loop of \<^verbatim>\<open>receive_bytes\<close>, from the next input and report on.\<close>

function receive_loop :: "EngineConfig \<Rightarrow> bytes \<Rightarrow> ReceiveReport \<Rightarrow> EngineState \<Rightarrow> ReceiveReport res \<times> EngineState" where
  "receive_loop config input report s =
     (case IngressState_feed input (integrity config) (es_ingress s) of
        (Err e, ig) \<Rightarrow> (Ok (ReceiveReport.Error e), s\<lparr>es_ingress := ig\<rparr>)
      | (Panic, ig) \<Rightarrow> (Panic, s\<lparr>es_ingress := ig\<rparr>)
      | (Ok outcome, ig) \<Rightarrow>
          (case outcome of
             StreamDecodeOutcome.Packet packet_bytes consumed \<Rightarrow>
               (case PacketBytes_try_from_slice packet_bytes of
                  Err e \<Rightarrow> (Ok (ReceiveReport.Error e), s\<lparr>es_ingress := ig\<rparr>)
                | Panic \<Rightarrow> (Panic, s\<lparr>es_ingress := ig\<rparr>)
                | Ok packet \<Rightarrow>
                    (case receive_complete_packet config packet (s\<lparr>es_ingress := ig\<rparr>) of
                       (Ok (ReceiveReport.Error e), s') \<Rightarrow> (Ok (ReceiveReport.Error e), s')
                     | (Ok report', s') \<Rightarrow> receive_loop config [] report' s'
                     | (Err e, s') \<Rightarrow> (Err e, s')
                     | (Panic, s') \<Rightarrow> (Panic, s')))
           | StreamDecodeOutcome.NeedMore additional \<Rightarrow>
               (Ok (case report of ReceiveReport.Incomplete _ \<Rightarrow> ReceiveReport.Incomplete additional | other \<Rightarrow> other),
                s\<lparr>es_ingress := ig\<rparr>)
           | StreamDecodeOutcome.Noise skipped \<Rightarrow>
               receive_loop config [] (ReceiveReport.Noise skipped) (s\<lparr>es_ingress := ig\<rparr>)
           | StreamDecodeOutcome.Corrupted consumed \<Rightarrow>
               receive_loop config [] ReceiveReport.Corrupted (s\<lparr>es_ingress := ig\<rparr>)
           | StreamDecodeOutcome.Resync skipped \<Rightarrow>
               receive_loop config [] (ReceiveReport.Noise skipped) (s\<lparr>es_ingress := ig\<rparr>)))"
  by pat_completeness auto
termination
proof (relation "measure (\<lambda>(_, input, _, s). length input +
    (sd_len (ig_decoder (es_ingress s)) - sd_pending_consume (ig_decoder (es_ingress s))))", goal_cases)
  case 1
  show ?case by simp
qed (auto simp: IngressState_feed_def update_field_def split: prod.splits
    dest!: feed_decreases arg_cong[where f = "es_ingress \<circ> snd"] simp: receive_packet_ingress)

declare receive_loop.simps [simp del]

definition receive_bytes :: "EngineConfig \<Rightarrow> bytes \<Rightarrow> EngineState \<Rightarrow> ReceiveReport res \<times> EngineState" where
  "receive_bytes config bs s = receive_loop config bs (ReceiveReport.Incomplete None) s"

definition receive_ingress :: "EngineConfig \<Rightarrow> bytes \<Rightarrow> EngineState \<Rightarrow> ReceiveReport res \<times> EngineState" where
  "receive_ingress config bs s = receive_bytes config bs s"

section \<open>engine/state.rs, engine.rs: the engine\<close>

definition EngineState_send_data :: "EngineConfig \<Rightarrow> bytes \<Rightarrow> EngineState \<Rightarrow> MessageId res \<times> EngineState" where
  "EngineState_send_data config msg s = send_data_impl config msg s"

definition EngineState_send_log :: "EngineConfig \<Rightarrow> bytes \<Rightarrow> EngineState \<Rightarrow> MessageId res \<times> EngineState" where
  "EngineState_send_log config msg s = send_log_impl config msg s"

definition EngineState_send_ping :: "EngineConfig \<Rightarrow> EngineState \<Rightarrow> unit res \<times> EngineState" where
  "EngineState_send_ping config s = send_ping_impl config s"

definition EngineState_receive :: "EngineConfig \<Rightarrow> bytes \<Rightarrow> EngineState \<Rightarrow> ReceiveReport res \<times> EngineState" where
  "EngineState_receive config bs s = receive_ingress config bs s"

record Engine =
  en_config :: EngineConfig
  en_state :: EngineState

definition Engine_new :: "EngineConfig \<Rightarrow> Engine" where
  "Engine_new config = \<lparr>en_config = config, en_state = EngineState_new (initial_message_id config) config\<rparr>"

definition Engine_default :: "DynamicRecoveryConfig option \<Rightarrow> Engine" where
  "Engine_default dyn = Engine_new (EngineConfig_default dyn)"

definition Engine_poll :: "u64 \<Rightarrow> bytes \<Rightarrow> Engine \<Rightarrow> EnginePoll res \<times> Engine" where
  "Engine_poll now tx_buf e =
     update_field (EngineState_poll (en_config e) now tx_buf (en_state e)) (\<lambda>s. e\<lparr>en_state := s\<rparr>)"

definition Engine_send :: "bytes \<Rightarrow> Engine \<Rightarrow> MessageId res \<times> Engine" where
  "Engine_send msg e = update_field (EngineState_send_data (en_config e) msg (en_state e)) (\<lambda>s. e\<lparr>en_state := s\<rparr>)"

definition Engine_send_log :: "bytes \<Rightarrow> Engine \<Rightarrow> MessageId res \<times> Engine" where
  "Engine_send_log msg e = update_field (EngineState_send_log (en_config e) msg (en_state e)) (\<lambda>s. e\<lparr>en_state := s\<rparr>)"

definition Engine_receive :: "bytes \<Rightarrow> Engine \<Rightarrow> ReceiveReport res \<times> Engine" where
  "Engine_receive bs e = update_field (EngineState_receive (en_config e) bs (en_state e)) (\<lambda>s. e\<lparr>en_state := s\<rparr>)"

section \<open>The engine invariant under receiving\<close>

definition report_ok :: "ReceiveReport res \<Rightarrow> bool" where
  "report_ok r \<longleftrightarrow> (\<exists>x. r = Ok x)"

lemma report_ok_simps [simp]: "report_ok (Ok x)" "\<not> report_ok Panic" "\<not> report_ok (Err e)"
  by (simp_all add: report_ok_def)

lemma ack_or_error_ok:
  assumes "engine_ok config s"
  shows "engine_ok config (snd (ack_or_error k b r s))" "report_ok (fst (ack_or_error k b r s))"
  using engine_ok_queue_ack(1,2)[OF assms, of k] assms
  by (auto simp: ack_or_error_def split: prod.splits res.splits)

lemma events_ok_push:
  assumes "events_ok m" "me_len e \<le> length (me_bytes e)"
  shows "events_ok (MessageState_push e m)"
  using assms messages.push_inv[of m e] messages.push_contents[of m e] in_set_takeD
  by (cases "message_list m") (auto simp: events_ok_def)

lemma observe_event_len:
  assumes "reasm_ok s" "ReassemblyState_observe f now s = (r, s')"
  shows "reasm_ok s'" "r \<noteq> Panic" "r = Ok (Some ev) \<Longrightarrow> me_len ev \<le> length (me_bytes ev)"
proof -
  have "reasm_ok s' \<and> r \<noteq> Panic \<and> (r = Ok (Some ev) \<longrightarrow> me_len ev \<le> length (me_bytes ev))"
  proof (cases "mf_message_len f \<le> MAX_MESSAGE_BYTES")
    case False
    then show ?thesis using assms observe_too_long[of f now s] by auto
  next
    case True
    obtain e0 e where e: "reasm_ok s'" "entry_observe f now e0 = (r, e)"
      "e0 = None \<or> (\<exists>slot. e0 = Some slot \<and> slot_ok slot \<and> rl_active slot)"
    proof (rule reasm_observe[OF assms(1) True assms(2)], goal_cases)
      case (1 m e)
      have "m (fragment_key f) = None \<or> (\<exists>slot. m (fragment_key f) = Some slot \<and> slot_ok slot \<and> rl_active slot)"
        using reasm_map_Some(2,4)[OF assms(1), of "fragment_key f"] 1(5) by (cases "m (fragment_key f)") auto
      then show ?case using 1(1)[of "m (fragment_key f)" e] 1(2,3) by blast
    next
      case (2 m e v)
      then show ?case by (intro 2(1)[of None e]) simp_all
    qed
    let ?slot = "case e0 of Some slot \<Rightarrow> slot | None \<Rightarrow> ReassemblySlot_start (fragment_key f) (mf_message_len f) now"
    have s: "slot_ok ?slot" "rl_active ?slot" using e(3) True by auto
    show ?thesis
      using e(1,2) slot_observe_eq[OF s, of f now] slot_store_ok[OF s, of f]
      by (auto simp: entry_observe_def slot_event_def slot_ok_def split: if_splits)
  qed
  then show "reasm_ok s'" "r \<noteq> Panic" "r = Ok (Some ev) \<Longrightarrow> me_len ev \<le> length (me_bytes ev)" by auto
qed

lemma engine_ok_field:
  "engine_ok config s \<Longrightarrow> reasm_ok ra \<Longrightarrow> engine_ok config (s\<lparr>es_reassembly := ra\<rparr>)"
  "engine_ok config s \<Longrightarrow> events_ok m \<Longrightarrow> engine_ok config (s\<lparr>es_message := m\<rparr>)"
  "engine_ok config s \<Longrightarrow> dedup_ok MAX_IN_FLIGHT_PACKETS d \<Longrightarrow>
     engine_ok config (s\<lparr>es_receive := (es_receive s)\<lparr>rc_dedup := d\<rparr>\<rparr>)"
  by (simp_all add: engine_ok_def)

text \<open>A fragment that is no duplicate, up to the acknowledgement.\<close>

definition deliver :: "PacketType \<Rightarrow> MessageEvent option \<Rightarrow> EngineState \<Rightarrow> EngineState" where
  "deliver t m s = (case m of
     Some m \<Rightarrow> s\<lparr>es_message := MessageState_push (m\<lparr>me_packet_type := t\<rparr>) (es_message s)\<rparr> | None \<Rightarrow> s)"

lemma engine_ok_deliver:
  assumes "engine_ok config s" "\<And>ev. m = Some ev \<Longrightarrow> me_len ev \<le> length (me_bytes ev)"
  shows "engine_ok config (deliver t m s)"
proof (cases m)
  case (Some ev)
  have "events_ok (MessageState_push (ev\<lparr>me_packet_type := t\<rparr>) (es_message s))"
    using assms Some by (intro events_ok_push) (auto simp: engine_ok_def)
  then show ?thesis using engine_ok_field(2)[OF assms(1)] Some by (simp add: deliver_def)
qed (use assms in \<open>simp add: deliver_def\<close>)

lemma deliver_fields [simp]:
  "es_receive (deliver t m s) = es_receive s" "es_ack (deliver t m s) = es_ack s"
  "es_reassembly (deliver t m s) = es_reassembly s" "es_ingress (deliver t m s) = es_ingress s"
  "es_clock (deliver t m s) = es_clock s" "es_recovery (deliver t m s) = es_recovery s"
  "es_scheduler (deliver t m s) = es_scheduler s" "es_numbers (deliver t m s) = es_numbers s"
  by (simp_all add: deliver_def split: option.splits)

lemma receive_data_new:
  assumes "engine_ok config s"
    and "PacketKey_new (mf_message_id f) (mf_packet_index f) \<notin> set (dedup_recent (rc_dedup (es_receive s)))"
    and "ReassemblyState_observe f (ClockState_now_ms (es_clock s)) (es_reassembly s) = (Ok m, ra)"
  obtains d where "dedup_ok MAX_IN_FLIGHT_PACKETS d"
    "dedup_recent d = (let ks = dedup_recent (rc_dedup (es_receive s)) in
       (if length ks = MAX_IN_FLIGHT_PACKETS then tl ks else ks) @ [PacketKey_new (mf_message_id f) (mf_packet_index f)])"
    "receive_data f s = ack_or_error (PacketKey_new (mf_message_id f) (mf_packet_index f)) (mf_ack_eliciting f)
       (ReceiveReport.Packet (mf_packet_index f))
       (deliver PacketType.Data m (s\<lparr>es_reassembly := ra\<rparr>)\<lparr>es_receive := (es_receive s)\<lparr>rc_dedup := d\<rparr>\<rparr>)"
proof -
  let ?k = "PacketKey_new (mf_message_id f) (mf_packet_index f)" and ?d = "rc_dedup (es_receive s)"
  have ok: "dedup_ok MAX_IN_FLIGHT_PACKETS ?d" using assms(1) by (simp add: engine_ok_def)
  obtain d where d: "PacketDedup_observe_packet ?k ?d = (Ok DedupDecision.Accept, d)" "dedup_ok MAX_IN_FLIGHT_PACKETS d"
    "dedup_recent d = (if length (dedup_recent ?d) = MAX_IN_FLIGHT_PACKETS then tl (dedup_recent ?d) else dedup_recent ?d) @ [?k]"
    using dedup_observe_new[OF ok assms(2)] by blast
  have "\<not> PacketDedup_is_duplicate ?d ?k" using is_duplicate_recent[OF ok] assms(2) by simp
  then have "receive_data f s = ack_or_error ?k (mf_ack_eliciting f) (ReceiveReport.Packet (mf_packet_index f))
       (deliver PacketType.Data m (s\<lparr>es_reassembly := ra\<rparr>)\<lparr>es_receive := (es_receive s)\<lparr>rc_dedup := d\<rparr>\<rparr>)"
    using assms(3) d(1) by (cases m) (simp_all add: receive_data_def Let_def deliver_def)
  then show thesis using that d by (simp add: Let_def)
qed

lemma receive_data_ok:
  assumes "engine_ok config s"
  shows "engine_ok config (snd (receive_data f s))" "report_ok (fst (receive_data f s))"
proof -
  let ?k = "PacketKey_new (mf_message_id f) (mf_packet_index f)"
  have dok: "dedup_ok MAX_IN_FLIGHT_PACKETS (rc_dedup (es_receive s))" and rok: "reasm_ok (es_reassembly s)"
    using assms by (simp_all add: engine_ok_def)
  obtain r ra where o: "ReassemblyState_observe f (ClockState_now_ms (es_clock s)) (es_reassembly s) = (r, ra)" by fastforce
  note O = observe_event_len[OF rok o]
  have ok1: "engine_ok config (s\<lparr>es_reassembly := ra\<rparr>)" by (rule engine_ok_field(1)[OF assms O(1)])
  have "engine_ok config (snd (receive_data f s)) \<and> report_ok (fst (receive_data f s))"
  proof (cases "?k \<in> set (dedup_recent (rc_dedup (es_receive s)))")
    case True
    then have "receive_data f s = ack_or_error ?k (mf_ack_eliciting f) (ReceiveReport.Duplicate (mf_packet_index f)) s"
      using is_duplicate_recent[OF dok] by (simp add: receive_data_def Let_def)
    then show ?thesis using ack_or_error_ok[OF assms] by simp
  next
    case new: False
    show ?thesis
    proof (cases r)
      case (Ok m)
      obtain d where d: "dedup_ok MAX_IN_FLIGHT_PACKETS d"
        "receive_data f s = ack_or_error ?k (mf_ack_eliciting f) (ReceiveReport.Packet (mf_packet_index f))
         (deliver PacketType.Data m (s\<lparr>es_reassembly := ra\<rparr>)\<lparr>es_receive := (es_receive s)\<lparr>rc_dedup := d\<rparr>\<rparr>)"
        using receive_data_new[OF assms new o[unfolded Ok]] by metis
      have "engine_ok config (deliver PacketType.Data m (s\<lparr>es_reassembly := ra\<rparr>))"
        using O(3) Ok by (intro engine_ok_deliver ok1) auto
      from engine_ok_field(3)[OF this d(1)] show ?thesis using ack_or_error_ok d(2) by simp
    next
      case (Err e)
      then have "receive_data f s = (Ok ReceiveReport.Corrupted, s\<lparr>es_reassembly := ra\<rparr>)"
        using new is_duplicate_recent[OF dok] o by (simp add: receive_data_def Let_def)
      then show ?thesis using ok1 by simp
    next
      case Panic
      then show ?thesis using O(2) by simp
    qed
  qed
  then show "engine_ok config (snd (receive_data f s))" "report_ok (fst (receive_data f s))" by auto
qed

lemma receive_log_eq:
  assumes "reasm_ok (es_reassembly s)"
    and "ReassemblyState_observe f (ClockState_now_ms (es_clock s)) (es_reassembly s) = (r, ra)"
  shows "receive_log f s = (case r of
      Ok m \<Rightarrow> (Ok (ReceiveReport.Packet (mf_packet_index f)), deliver PacketType.Log m (s\<lparr>es_reassembly := ra\<rparr>))
    | _ \<Rightarrow> (Ok ReceiveReport.Corrupted, s\<lparr>es_reassembly := ra\<rparr>))"
  using assms(2) observe_event_len(2)[OF assms]
  by (auto simp: receive_log_def deliver_def split: res.splits option.splits)

lemma apply_ack_at_in_flight:
  "rs_in_flight (RecoveryState_apply_ack_at k now r) = InFlightPackets_apply_ack k (rs_in_flight r)"
  by (simp add: RecoveryState_apply_ack_at_def RecoveryState_apply_ack_def Let_def split: option.splits)

lemma receive_ack_ok:
  assumes "engine_ok config s"
  shows "engine_ok config (snd (receive_ack config k s))"
    "inflight_map (rs_in_flight (es_recovery (snd (receive_ack config k s)))) =
      (inflight_map (rs_in_flight (es_recovery s)))(k := None)"
proof -
  let ?r = "es_recovery (snd (receive_ack config k s))"
  have f: "rs_in_flight ?r = rs_in_flight (RecoveryState_apply_ack k (es_recovery s))"
    by (simp add: receive_ack_def apply_ack_at_in_flight RecoveryState_apply_ack_def split: option.splits)
  have pk: "packets_ok (integrity config) (es_recovery s)" using assms by (simp add: engine_ok_def)
  have "packets_ok (integrity config) ?r"
    using packets_ok_note(3)[OF pk, of k] f by (simp add: packets_ok_iff recovery_ok_def)
  then show "engine_ok config (snd (receive_ack config k s))"
    using assms by (simp add: receive_ack_def engine_ok_def)
  show "inflight_map (rs_in_flight ?r) = (inflight_map (rs_in_flight (es_recovery s)))(k := None)"
    using f inflight_remove(2)[of "rs_in_flight (es_recovery s)" k] pk
    by (simp add: RecoveryState_apply_ack_def packets_ok_def recovery_ok_def)
qed

lemma receive_decoded_ok:
  assumes "engine_ok config s"
  shows "engine_ok config (snd (receive_decoded config d s))" "report_ok (fst (receive_decoded config d s))"
proof -
  have "engine_ok config (snd (receive_decoded config d s)) \<and> report_ok (fst (receive_decoded config d s))"
  proof (cases d)
    case (Data x)
    then show ?thesis using receive_data_ok[OF assms] by (simp add: receive_decoded_def)
  next
    case (Log l)
    have rok: "reasm_ok (es_reassembly s)" using assms by (simp add: engine_ok_def)
    obtain r ra where o: "ReassemblyState_observe (dl_fragment l) (ClockState_now_ms (es_clock s)) (es_reassembly s) = (r, ra)"
      by fastforce
    note O = observe_event_len[OF rok o]
    show ?thesis
      using Log receive_log_eq[OF rok o] O engine_ok_field(1)[OF assms O(1)]
        engine_ok_deliver[OF engine_ok_field(1)[OF assms O(1)]]
      by (auto simp: receive_decoded_def split: res.splits)
  next
    case (Ack a)
    then show ?thesis using receive_ack_ok(1)[OF assms] by (simp add: receive_decoded_def receive_ack_def)
  next
    case Ping
    then show ?thesis
      using engine_ok_liveness(3,4)[OF assms] by (auto simp: receive_decoded_def split: prod.splits res.splits)
  qed (use assms in \<open>simp_all add: receive_decoded_def\<close>)
  then show "engine_ok config (snd (receive_decoded config d s))" "report_ok (fst (receive_decoded config d s))" by auto
qed

lemma feed_ok:
  assumes "sd_ok d" "StreamingDecoder_feed cfg bs d = (r, d')"
  shows "sd_ok d'" "StreamingDecoder_capacity d' = StreamingDecoder_capacity d" "r \<noteq> Panic"
proof -
  obtain out k where s: "stream_step cfg (StreamingDecoder_capacity d) (sd_unread d @ bs) = (out, k)" by fastforce
  have "sd_ok d' \<and> StreamingDecoder_capacity d' = StreamingDecoder_capacity d \<and> r \<noteq> Panic"
  proof (cases "length (sd_unread d) + length bs \<le> StreamingDecoder_capacity d")
    case True
    then show ?thesis using feed_step[OF assms(1) True assms(2) s] by simp
  next
    case False
    then have "length (sd_unread d) + length bs > StreamingDecoder_capacity d" by simp
    then show ?thesis using feed_overflow[OF assms(1) _ assms(2)] by simp
  qed
  then show "sd_ok d'" "StreamingDecoder_capacity d' = StreamingDecoder_capacity d" "r \<noteq> Panic" by auto
qed

lemma engine_ok_feed:
  assumes "engine_ok config s" "IngressState_feed bs (integrity config) (es_ingress s) = (r, ig)"
  shows "engine_ok config (s\<lparr>es_ingress := ig\<rparr>)" "r \<noteq> Panic"
proof -
  obtain d where d: "StreamingDecoder_feed (integrity config) bs (ig_decoder (es_ingress s)) = (r, d)"
    "ig = (es_ingress s)\<lparr>ig_decoder := d\<rparr>"
    using assms(2) by (auto simp: IngressState_feed_def update_field_def split: prod.splits)
  have "sd_ok (ig_decoder (es_ingress s))" using assms(1) by (simp add: engine_ok_def)
  note F = feed_ok[OF this d(1)]
  show "engine_ok config (s\<lparr>es_ingress := ig\<rparr>)" "r \<noteq> Panic" using F assms(1) d(2) by (simp_all add: engine_ok_def)
qed

lemma receive_complete_eq:
  assumes "PacketBytes_try_from_slice bs = Ok p"
  shows "receive_complete_packet config p s = receive_decoded config (decode_packet_bytes bs) s"
proof -
  have "length bs \<le> MAX_WIRE_BYTES" using assms by (auto simp: PacketBytes_try_from_slice_def split: if_splits)
  from try_from_slice_decode[OF this] show ?thesis using assms by (simp add: receive_complete_packet_def)
qed

text \<open>The bytes a call still has to work on: every round but the last makes them fewer.\<close>

definition backlog :: "bytes \<Rightarrow> EngineState \<Rightarrow> nat" where
  "backlog input s = length input +
     (sd_len (ig_decoder (es_ingress s)) - sd_pending_consume (ig_decoder (es_ingress s)))"

lemma receive_loop_round:
  assumes "engine_ok config s"
  obtains (stop) rep s' where "receive_loop config input report s = (Ok rep, s')" "engine_ok config s'"
  | (more) rep s' where "receive_loop config input report s = receive_loop config [] rep s'" "engine_ok config s'"
      "backlog [] s' < backlog input s"
proof -
  obtain r ig where f: "IngressState_feed input (integrity config) (es_ingress s) = (r, ig)" by fastforce
  note F = engine_ok_feed[OF assms f]
  note L = receive_loop.simps[of config input report s, unfolded f prod.case]
  have fd: "StreamingDecoder_feed (integrity config) input (ig_decoder (es_ingress s)) = (r, ig_decoder ig)"
    using f by (auto simp: IngressState_feed_def update_field_def split: prod.splits)
  let ?s = "s\<lparr>es_ingress := ig\<rparr>"
  show thesis
  proof (cases r)
    case r: (Ok out)
    have less: "backlog [] s' < backlog input s" if "es_ingress s' = ig" "\<not> is_NeedMore out" for s'
      using feed_decreases[OF fd[unfolded r] that(2)] that(1) by (simp add: backlog_def)
    show thesis
    proof (cases out)
      case (Packet pkt n)
      show thesis
      proof (cases "PacketBytes_try_from_slice pkt")
        case p: (Ok p)
        obtain r1 s1 where c: "receive_complete_packet config p ?s = (r1, s1)" by fastforce
        have D: "engine_ok config s1" "report_ok r1"
          using receive_decoded_ok[OF F(1), of "decode_packet_bytes pkt"] receive_complete_eq[OF p] c by simp_all
        then obtain rep where rep: "r1 = Ok rep" by (auto simp: report_ok_def)
        have "es_ingress s1 = ig" using receive_packet_ingress[of config p ?s] c by simp
        then have "backlog [] s1 < backlog input s" using less Packet by simp
        then show thesis using L r Packet p c rep D(1) stop more by (cases rep) auto
      next
        case (Err e)
        then show thesis using L r Packet F stop by simp
      next
        case Panic
        then show thesis by (simp add: PacketBytes_try_from_slice_def split: if_splits)
      qed
    next
      case (NeedMore a)
      then show thesis using L r F stop by simp
    qed (use L r F(1) more[OF _ F(1)] less[of ?s] in simp_all)
  next
    case (Err e)
    then show thesis using L F stop by simp
  next
    case Panic
    then show thesis using F by simp
  qed
qed

lemma receive_loop_ok:
  "engine_ok config s \<Longrightarrow> \<exists>rep s'. receive_loop config input report s = (Ok rep, s') \<and> engine_ok config s'"
proof (induction "backlog input s" arbitrary: input report s rule: less_induct)
  case less
  show ?case
    by (rule receive_loop_round[OF less.prems, of input report]) (use less.hyps in auto)
qed

section \<open>Receiving one frame\<close>

lemma queue_ack_ingress_upd:
  "queue_ack k (s\<lparr>es_ingress := ig\<rparr>) = (fst (queue_ack k s), (snd (queue_ack k s))\<lparr>es_ingress := ig\<rparr>)"
  by (simp add: queue_ack_def split: prod.splits bool.splits)

lemma queue_pong_ingress_upd:
  "queue_pong config (s\<lparr>es_ingress := ig\<rparr>) = (fst (queue_pong config s), (snd (queue_pong config s))\<lparr>es_ingress := ig\<rparr>)"
  by (simp add: liveness_push EngineState_push_def update_field_def split: prod.splits)

lemma ack_or_error_ingress_upd:
  "ack_or_error k b rep (s\<lparr>es_ingress := ig\<rparr>) =
    (fst (ack_or_error k b rep s), (snd (ack_or_error k b rep s))\<lparr>es_ingress := ig\<rparr>)"
  by (simp add: ack_or_error_def queue_ack_ingress_upd split: prod.splits res.splits)

lemma receive_data_ingress_upd:
  "receive_data f (s\<lparr>es_ingress := ig\<rparr>) = (fst (receive_data f s), (snd (receive_data f s))\<lparr>es_ingress := ig\<rparr>)"
proof -
  have "ack_or_error k b rep (s\<lparr>es_ingress := ig, es_reassembly := ra, es_receive := d\<rparr>) =
      (fst (ack_or_error k b rep (s\<lparr>es_reassembly := ra, es_receive := d\<rparr>)),
       (snd (ack_or_error k b rep (s\<lparr>es_reassembly := ra, es_receive := d\<rparr>)))\<lparr>es_ingress := ig\<rparr>)" for k b rep ra d
    using ack_or_error_ingress_upd[where s = "s\<lparr>es_reassembly := ra, es_receive := d\<rparr>" and ig = ig] by (cases s) simp
  moreover have "ack_or_error k b rep (s\<lparr>es_ingress := ig, es_reassembly := ra, es_message := m, es_receive := d\<rparr>) =
      (fst (ack_or_error k b rep (s\<lparr>es_reassembly := ra, es_message := m, es_receive := d\<rparr>)),
       (snd (ack_or_error k b rep (s\<lparr>es_reassembly := ra, es_message := m, es_receive := d\<rparr>)))\<lparr>es_ingress := ig\<rparr>)"
    for k b rep ra m d
    using ack_or_error_ingress_upd[where s = "s\<lparr>es_reassembly := ra, es_message := m, es_receive := d\<rparr>" and ig = ig] by (cases s) simp
  ultimately show ?thesis
    by (simp add: receive_data_def Let_def ack_or_error_ingress_upd
        split: prod.splits res.splits option.splits DedupDecision.splits)
qed

lemma receive_decoded_ingress_upd:
  "receive_decoded config d (s\<lparr>es_ingress := ig\<rparr>) =
    (fst (receive_decoded config d s), (snd (receive_decoded config d s))\<lparr>es_ingress := ig\<rparr>)"
  by (cases d) (simp_all add: receive_decoded_def receive_data_ingress_upd receive_log_def receive_ack_def
      queue_pong_ingress_upd split: prod.splits res.splits option.splits)

definition idle_stream :: "EngineState \<Rightarrow> bool" where
  "idle_stream s \<longleftrightarrow> sd_unread (ig_decoder (es_ingress s)) = []"

text \<open>
  A whole frame arriving on an idle stream is handled as its packet, and the stream is idle again.
\<close>

lemma receive_frame:
  assumes "engine_ok config s" "idle_stream s" "length pkt \<le> MAX_WIRE_BYTES"
    and "receive_decoded config (decode_packet_bytes pkt) s = (Ok rep, s1)"
    and "\<And>e. rep \<noteq> ReceiveReport.Error e" "\<And>n. rep \<noteq> ReceiveReport.Incomplete n"
  obtains ig where "EngineState_receive config (wire_frame (integrity config) pkt) s = (Ok rep, s1\<lparr>es_ingress := ig\<rparr>)"
    "idle_stream (s1\<lparr>es_ingress := ig\<rparr>)" "engine_ok config (s1\<lparr>es_ingress := ig\<rparr>)"
proof -
  let ?cfg = "integrity config" and ?d = "ig_decoder (es_ingress s)"
  let ?frame = "wire_frame ?cfg pkt"
  have ok: "sd_ok ?d" and cap: "StreamingDecoder_capacity ?d = 2048" using assms(1) by (auto simp: engine_ok_def)
  have len: "length ?frame \<le> 2048" using assms(3) Integrity_tag_len_le[of ?cfg] by simp
  have unread: "sd_unread ?d = []" using assms(2) by (simp add: idle_stream_def)
  obtain r1 d1 where f1: "StreamingDecoder_feed ?cfg ?frame ?d = (r1, d1)" by fastforce
  have step1: "stream_step ?cfg (StreamingDecoder_capacity ?d) (sd_unread ?d @ ?frame) =
      (StreamDecodeOutcome.Packet pkt (length ?frame), length ?frame)"
    using stream_step_frame[of pkt ?cfg 2048 "[]"] assms(3) len cap unread by simp
  have fits: "length (sd_unread ?d) + length ?frame \<le> StreamingDecoder_capacity ?d"
    using len cap unread by simp
  note F1 = feed_step[OF ok fits f1 step1]
  have u1: "sd_unread d1 = []" using F1(3) unread by simp
  obtain r2 d2 where f2: "StreamingDecoder_feed ?cfg [] d1 = (r2, d2)" by fastforce
  have step2: "stream_step ?cfg (StreamingDecoder_capacity d1) (sd_unread d1 @ []) = (StreamDecodeOutcome.NeedMore None, 0)"
    using u1 by (simp add: stream_step_def)
  have fits2: "length (sd_unread d1) + length ([] :: bytes) \<le> StreamingDecoder_capacity d1" using u1 by simp
  note F2 = feed_step[OF F1(2) fits2 f2 step2]
  let ?ig1 = "(es_ingress s)\<lparr>ig_decoder := d1\<rparr>" and ?ig2 = "(es_ingress s)\<lparr>ig_decoder := d2\<rparr>"
  obtain p where p: "PacketBytes_try_from_slice pkt = Ok p"
    using assms(3) by (simp add: PacketBytes_try_from_slice_def)
  have noerr: "\<forall>e. rep \<noteq> ReceiveReport.Error e" "\<forall>n. rep \<noteq> ReceiveReport.Incomplete n" using assms(5,6) by auto
  have dec: "receive_complete_packet config p (s\<lparr>es_ingress := ?ig1\<rparr>) = (Ok rep, s1\<lparr>es_ingress := ?ig1\<rparr>)"
    using receive_complete_eq[OF p] receive_decoded_ingress_upd[where s = s and ig = ?ig1] assms(4) by simp
  have "receive_loop config ?frame (ReceiveReport.Incomplete None) s = receive_loop config [] rep (s1\<lparr>es_ingress := ?ig1\<rparr>)"
    using f1 F1(1) p dec noerr
    by (subst receive_loop.simps) (cases rep; auto simp: IngressState_feed_def)
  also have "\<dots> = (Ok rep, s1\<lparr>es_ingress := ?ig2\<rparr>)"
    using f2 F2(1) noerr
    by (subst receive_loop.simps) (cases rep; auto simp: IngressState_feed_def)
  finally have r: "EngineState_receive config ?frame s = (Ok rep, s1\<lparr>es_ingress := ?ig2\<rparr>)"
    by (simp add: EngineState_receive_def receive_ingress_def receive_bytes_def)
  have "engine_ok config s1" using receive_decoded_ok(1)[OF assms(1), of "decode_packet_bytes pkt"] assms(4) by simp
  then have "engine_ok config (s1\<lparr>es_ingress := ?ig2\<rparr>)"
    using F2(2,4) F1(4) cap by (simp add: engine_ok_def)
  then show thesis using that[OF r] F2(3) u1 by (simp add: idle_stream_def)
qed

section \<open>Reachable engine states\<close>

text \<open>Any sequence of sends, pings, polls and received chunks, from a new engine.\<close>

inductive engine_reachable :: "EngineConfig \<Rightarrow> EngineState \<Rightarrow> bool" for config where
  init: "engine_reachable config (EngineState_new initial config)"
| send: "engine_reachable config s \<Longrightarrow> engine_reachable config (snd (EngineState_send_data config msg s))"
| log: "engine_reachable config s \<Longrightarrow> engine_reachable config (snd (EngineState_send_log config msg s))"
| ping: "engine_reachable config s \<Longrightarrow> engine_reachable config (snd (EngineState_send_ping config s))"
| poll: "engine_reachable config s \<Longrightarrow> engine_reachable config (snd (EngineState_poll config now tx s))"
| recv: "engine_reachable config s \<Longrightarrow> engine_reachable config (snd (EngineState_receive config bs s))"

lemma engine_ok_ops:
  assumes "engine_ok config s"
  shows "engine_ok config (snd (EngineState_send_data config msg s))" "fst (EngineState_send_data config msg s) \<noteq> Panic"
    "engine_ok config (snd (EngineState_send_log config msg s))" "fst (EngineState_send_log config msg s) \<noteq> Panic"
    "engine_ok config (snd (EngineState_send_ping config s))" "fst (EngineState_send_ping config s) \<noteq> Panic"
    "engine_ok config (snd (EngineState_poll config now tx s))" "fst (EngineState_poll config now tx s) \<noteq> Panic"
    "engine_ok config (snd (EngineState_receive config bs s))" "\<exists>rep. fst (EngineState_receive config bs s) = Ok rep"
proof -
  show "engine_ok config (snd (EngineState_poll config now tx s))" "fst (EngineState_poll config now tx s) \<noteq> Panic"
    using engine_ok_poll[OF assms, of now tx] by (cases "EngineState_poll config now tx s"; fastforce)+
  show "engine_ok config (snd (EngineState_receive config bs s))" "\<exists>rep. fst (EngineState_receive config bs s) = Ok rep"
    using receive_loop_ok[OF assms, of bs "ReceiveReport.Incomplete None"]
    by (auto simp: EngineState_receive_def receive_ingress_def receive_bytes_def)
qed (use engine_ok_send[OF assms] engine_ok_liveness[OF assms] in
    \<open>simp_all add: EngineState_send_data_def EngineState_send_log_def EngineState_send_ping_def
      send_data_impl_def send_log_impl_def\<close>)

lemma engine_reachable_ok: "engine_reachable config s \<Longrightarrow> engine_ok config s"
  by (induction rule: engine_reachable.induct) (simp_all add: engine_ok_ops)

section \<open>Receiving the fragments of a message\<close>

fun receive_all :: "EngineConfig \<Rightarrow> bytes list \<Rightarrow> EngineState \<Rightarrow> ReceiveReport res list \<times> EngineState" where
  "receive_all config [] s = ([], s)"
| "receive_all config (c # cs) s =
     (case EngineState_receive config c s of (r, s1) \<Rightarrow>
      case receive_all config cs s1 of (rs, s2) \<Rightarrow> (r # rs, s2))"

definition frag_fragment :: "MessageId \<Rightarrow> usize \<Rightarrow> bytes \<Rightarrow> nat \<Rightarrow> MessageFragment" where
  "frag_fragment mid fb msg i =
     data_fragment (DataHeader_new Flags_ACK_ELICITING mid (PacketIndex (of_nat i)) (length msg) (i * fb))
       (take fb (drop (i * fb) msg))"

lemma frag_fragment_simps [simp]:
  "mf_packet_type (frag_fragment mid fb msg i) = PacketType.Data" "mf_message_id (frag_fragment mid fb msg i) = mid"
  "mf_packet_index (frag_fragment mid fb msg i) = PacketIndex (of_nat i)"
  "mf_message_len (frag_fragment mid fb msg i) = length msg" "mf_fragment_offset (frag_fragment mid fb msg i) = i * fb"
  "mf_bytes (frag_fragment mid fb msg i) = take fb (drop (i * fb) msg)" "mf_ack_eliciting (frag_fragment mid fb msg i)"
  "fragment_key (frag_fragment mid fb msg i) = \<lparr>mk_packet_type = PacketType.Data, mk_message_id = mid\<rparr>"
  by (simp_all add: frag_fragment_def data_fragment_def DataHeader_new_def DataHeader_is_ack_eliciting_def
      Flags_ACK_ELICITING_def Flags_contains_def fragment_key_def)

abbreviation frag_key :: "MessageId \<Rightarrow> nat \<Rightarrow> PacketKey" where
  "frag_key mid i \<equiv> PacketKey_new mid (PacketIndex (of_nat i))"

lemma receive_fragment:
  assumes "engine_ok config s" "idle_stream s" "length msg \<le> MAX_MESSAGE_BYTES" "i * fb \<le> length msg"
    and "fb \<le> 113 - Integrity_tag_len (integrity config)"
    and "frag_key mid i \<notin> set (dedup_recent (rc_dedup (es_receive s)))"
    and "length (ack_list (es_ack s)) < MAX_PENDING_ACKS"
    and "ReassemblyState_observe (frag_fragment mid fb msg i) (ClockState_now_ms (es_clock s)) (es_reassembly s) = (Ok m, ra)"
  obtains s' where "EngineState_receive config (frag_frame (integrity config) PacketType.Data mid fb msg i) s =
      (Ok (ReceiveReport.Packet (PacketIndex (of_nat i))), s')"
    "engine_ok config s'" "idle_stream s'" "es_reassembly s' = ra" "es_clock s' = es_clock s"
    "es_message s' = (case m of Some ev \<Rightarrow> MessageState_push (ev\<lparr>me_packet_type := PacketType.Data\<rparr>) (es_message s)
       | None \<Rightarrow> es_message s)"
    "ack_list (es_ack s') = ack_list (es_ack s) @ [frag_key mid i]"
    "dedup_recent (rc_dedup (es_receive s')) = (let ks = dedup_recent (rc_dedup (es_receive s)) in
       (if length ks = MAX_IN_FLIGHT_PACKETS then tl ks else ks) @ [frag_key mid i])"
    "es_scheduler s' = es_scheduler s" "es_recovery s' = es_recovery s" "es_numbers s' = es_numbers s"
proof -
  let ?f = "frag_fragment mid fb msg i" and ?k = "frag_key mid i"
  have dec: "decode_packet_bytes (frag_packet PacketType.Data mid fb msg i) =
      PacketDecode.Data \<lparr>dd_header = DataHeader_new Flags_ACK_ELICITING mid (PacketIndex (of_nat i)) (length msg) (i * fb),
        dd_fragment = ?f\<rparr>"
    using frag_decode[of PacketType.Data msg i fb mid] assms(3,4) by (simp add: frag_fragment_def Let_def)
  obtain d where d: "dedup_ok MAX_IN_FLIGHT_PACKETS d"
    "dedup_recent d = (let ks = dedup_recent (rc_dedup (es_receive s)) in
       (if length ks = MAX_IN_FLIGHT_PACKETS then tl ks else ks) @ [?k])"
    "receive_data ?f s = ack_or_error ?k True (ReceiveReport.Packet (PacketIndex (of_nat i)))
       (deliver PacketType.Data m (s\<lparr>es_reassembly := ra\<rparr>)\<lparr>es_receive := (es_receive s)\<lparr>rc_dedup := d\<rparr>\<rparr>)"
    by (rule receive_data_new[OF assms(1) _ assms(8)]) (use assms(6) in \<open>auto simp: frag_fragment_simps\<close>)
  let ?s1 = "deliver PacketType.Data m (s\<lparr>es_reassembly := ra\<rparr>)\<lparr>es_receive := (es_receive s)\<lparr>rc_dedup := d\<rparr>\<rparr>"
  have rok: "reasm_ok (es_reassembly s)" using assms(1) by (simp add: engine_ok_def)
  note O = observe_event_len[OF rok assms(8)]
  have "engine_ok config (deliver PacketType.Data m (s\<lparr>es_reassembly := ra\<rparr>))"
    using O(3) by (intro engine_ok_deliver engine_ok_field(1)[OF assms(1) O(1)]) auto
  from engine_ok_field(3)[OF this d(1)] have ok1: "engine_ok config ?s1" by simp
  note Q = engine_ok_queue_ack[OF ok1, of ?k]
  obtain u s2 where q: "queue_ack ?k ?s1 = (u, s2)" by fastforce
  have u: "u = Ok ()" using Q(3) q assms(7) by simp
  have s2: "\<exists>a. s2 = ?s1\<lparr>es_ack := a\<rparr>" using q by (auto simp: queue_ack_def split: prod.splits bool.splits)
  have "receive_decoded config (decode_packet_bytes (frag_packet PacketType.Data mid fb msg i)) s =
      (Ok (ReceiveReport.Packet (PacketIndex (of_nat i))), s2)"
    unfolding dec using d(3) q u by (simp add: receive_decoded_def ack_or_error_def)
  moreover have "length (frag_packet PacketType.Data mid fb msg i) \<le> MAX_WIRE_BYTES"
    using assms(5) by (auto simp: frag_packet_def Let_def)
  ultimately obtain ig where r: "EngineState_receive config (frag_frame (integrity config) PacketType.Data mid fb msg i) s =
      (Ok (ReceiveReport.Packet (PacketIndex (of_nat i))), s2\<lparr>es_ingress := ig\<rparr>)"
    "idle_stream (s2\<lparr>es_ingress := ig\<rparr>)" "engine_ok config (s2\<lparr>es_ingress := ig\<rparr>)"
    using receive_frame[OF assms(1,2)] unfolding frag_frame_def by blast
  have ack: "ack_list (es_ack s2) = ack_list (es_ack s) @ [?k]" using Q(4) q assms(7) by simp
  have msg: "es_message ?s1 = (case m of Some ev \<Rightarrow> MessageState_push (ev\<lparr>me_packet_type := PacketType.Data\<rparr>) (es_message s)
       | None \<Rightarrow> es_message s)" by (simp add: deliver_def split: option.splits)
  obtain a where a: "s2 = ?s1\<lparr>es_ack := a\<rparr>" using s2 by blast
  show thesis
    by (rule that[OF r(1,3,2)]) (use a d(2) ack msg in simp_all)
qed

text \<open>The fragments of one message arriving in the order \<open>is\<close>.\<close>

abbreviation frag_arrivals :: "MessageId \<Rightarrow> usize \<Rightarrow> bytes \<Rightarrow> u64 \<Rightarrow> nat list \<Rightarrow> (MessageFragment \<times> u64) list" where
  "frag_arrivals mid fb msg now is \<equiv> map (\<lambda>i. (frag_fragment mid fb msg i, now)) is"

definition delivered :: "MessageEvent option res list \<Rightarrow> MessageState \<Rightarrow> MessageState" where
  "delivered rs ms = fold (\<lambda>r ms. case r of
     Ok (Some ev) \<Rightarrow> MessageState_push (ev\<lparr>me_packet_type := PacketType.Data\<rparr>) ms | _ \<Rightarrow> ms) rs ms"

text \<open>What receiving the fragments \<open>is\<close> of a message leaves, when reassembly answers \<open>rs\<close> and ends in \<open>ra\<close>.\<close>

definition frags_received :: "EngineConfig \<Rightarrow> MessageId \<Rightarrow> usize \<Rightarrow> bytes \<Rightarrow> nat list \<Rightarrow>
    MessageEvent option res list \<Rightarrow> ReassemblyState \<Rightarrow> EngineState \<Rightarrow> EngineState \<Rightarrow> bool" where
  "frags_received config mid fb msg is rs ra s s' \<longleftrightarrow>
    receive_all config (map (frag_frame (integrity config) PacketType.Data mid fb msg) is) s =
      (map (\<lambda>i. Ok (ReceiveReport.Packet (PacketIndex (of_nat i)))) is, s') \<and>
    engine_ok config s' \<and> idle_stream s' \<and> es_reassembly s' = ra \<and>
    es_message s' = delivered rs (es_message s) \<and>
    ack_list (es_ack s') = ack_list (es_ack s) @ map (frag_key mid) is \<and>
    es_scheduler s' = es_scheduler s \<and> es_recovery s' = es_recovery s \<and> es_numbers s' = es_numbers s \<and>
    set (dedup_recent (rc_dedup (es_receive s'))) \<subseteq> frag_key mid ` set is \<union> set (dedup_recent (rc_dedup (es_receive s)))"

lemma frags_received_Cons:
  assumes "frags_received config mid fb msg is rs ra s1 s'"
    and "EngineState_receive config (frag_frame (integrity config) PacketType.Data mid fb msg i) s =
      (Ok (ReceiveReport.Packet (PacketIndex (of_nat i))), s1)"
    and "es_message s1 = (case m of Some ev \<Rightarrow> MessageState_push (ev\<lparr>me_packet_type := PacketType.Data\<rparr>) (es_message s)
       | None \<Rightarrow> es_message s)"
    and "ack_list (es_ack s1) = ack_list (es_ack s) @ [frag_key mid i]"
    and "set (dedup_recent (rc_dedup (es_receive s1))) \<subseteq>
      insert (frag_key mid i) (set (dedup_recent (rc_dedup (es_receive s))))"
    and "es_scheduler s1 = es_scheduler s" "es_recovery s1 = es_recovery s" "es_numbers s1 = es_numbers s"
  shows "frags_received config mid fb msg (i # is) (Ok m # rs) ra s s'"
proof -
  have "es_message s' = delivered (Ok m # rs) (es_message s)"
    using assms(1,3) by (simp add: frags_received_def delivered_def split: option.splits)
  moreover have "set (dedup_recent (rc_dedup (es_receive s'))) \<subseteq>
      frag_key mid ` set (i # is) \<union> set (dedup_recent (rc_dedup (es_receive s)))"
    using assms(1,5) by (auto simp: frags_received_def)
  ultimately show ?thesis using assms by (simp add: frags_received_def)
qed

lemma receive_fragments:
  assumes "length msg \<le> MAX_MESSAGE_BYTES" "fb \<le> 113 - Integrity_tag_len (integrity config)"
    and "\<And>i. i \<in> set is \<Longrightarrow> i * fb \<le> length msg \<and> i < 2 ^ 16"
    and "engine_ok config s" "idle_stream s" "distinct is"
    and "\<And>i. i \<in> set is \<Longrightarrow> frag_key mid i \<notin> set (dedup_recent (rc_dedup (es_receive s)))"
    and "length (ack_list (es_ack s)) + length is \<le> MAX_PENDING_ACKS"
    and "ReassemblyState_observes (frag_arrivals mid fb msg (ClockState_now_ms (es_clock s)) is) (es_reassembly s) = (rs, ra)"
    and "\<And>k r. (k, r) \<in> set rs \<Longrightarrow> \<exists>m. r = Ok m"
  shows "\<exists>s'. frags_received config mid fb msg is (map snd rs) ra s s'"
  using assms(3-)
proof (induction "is" arbitrary: s rs)
  case Nil
  then show ?case by (simp add: frags_received_def delivered_def)
next
  case (Cons i "is")
  let ?now = "ClockState_now_ms (es_clock s)" and ?f = "frag_fragment mid fb msg i"
  obtain r ra1 where o: "ReassemblyState_observe ?f ?now (es_reassembly s) = (r, ra1)" by fastforce
  obtain rs1 ra2 where os: "ReassemblyState_observes (frag_arrivals mid fb msg ?now is) ra1 = (rs1, ra2)" by fastforce
  have rs: "rs = (fragment_key ?f, r) # rs1" "ra = ra2" using Cons.prems(7) o os by auto
  obtain m where m: "r = Ok m" using Cons.prems(8)[of "fragment_key ?f" r] rs by auto
  have i: "i * fb \<le> length msg" "i < 2 ^ 16" using Cons.prems(1)[of i] by auto
  have dup: "frag_key mid i \<notin> set (dedup_recent (rc_dedup (es_receive s)))" using Cons.prems(5)[of i] by auto
  have room: "length (ack_list (es_ack s)) < MAX_PENDING_ACKS" using Cons.prems(6) by simp
  obtain s1 where s1: "EngineState_receive config (frag_frame (integrity config) PacketType.Data mid fb msg i) s =
      (Ok (ReceiveReport.Packet (PacketIndex (of_nat i))), s1)"
    "engine_ok config s1" "idle_stream s1" "es_reassembly s1 = ra1" "es_clock s1 = es_clock s"
    "es_message s1 = (case m of Some ev \<Rightarrow> MessageState_push (ev\<lparr>me_packet_type := PacketType.Data\<rparr>) (es_message s)
       | None \<Rightarrow> es_message s)"
    "ack_list (es_ack s1) = ack_list (es_ack s) @ [frag_key mid i]"
    "dedup_recent (rc_dedup (es_receive s1)) = (let ks = dedup_recent (rc_dedup (es_receive s)) in
       (if length ks = MAX_IN_FLIGHT_PACKETS then tl ks else ks) @ [frag_key mid i])"
    "es_scheduler s1 = es_scheduler s" "es_recovery s1 = es_recovery s" "es_numbers s1 = es_numbers s"
    by (rule receive_fragment[OF Cons.prems(2,3) assms(1) i(1) assms(2) dup room o[unfolded m]])
  have recent: "set (dedup_recent (rc_dedup (es_receive s1))) \<subseteq>
      insert (frag_key mid i) (set (dedup_recent (rc_dedup (es_receive s))))"
    unfolding s1(8) Let_def by (cases "dedup_recent (rc_dedup (es_receive s))") auto
  have fresh: "frag_key mid j \<notin> set (dedup_recent (rc_dedup (es_receive s1)))" if j: "j \<in> set is" for j
  proof -
    have "(of_nat j :: u16) \<noteq> of_nat i"
      using Cons.prems(1)[of j] i(2) Cons.prems(4) j by (auto simp: word_of_nat_eq_iff take_bit_nat_eq_self)
    then show ?thesis using recent Cons.prems(5)[of j] j by (auto simp: PacketKey_new_def)
  qed
  have "\<exists>s'. frags_received config mid fb msg is (map snd rs1) ra s1 s'"
    by (rule Cons.IH[OF _ s1(2,3) _ fresh]) (use Cons.prems(1,4,6,8) s1(4,5,7) os rs in auto)
  then obtain s' where "frags_received config mid fb msg is (map snd rs1) ra s1 s'" ..
  from frags_received_Cons[OF this s1(1,6,7) recent s1(9-11)] show ?case using rs(1) m by auto
qed

text \<open>All fragments together complete the message, and none can be missing.\<close>

lemma frag_part_of:
  "i * fb \<le> length msg \<Longrightarrow> part_of msg (frag_fragment mid fb msg i)"
  by (auto simp: part_of_def min_def)

lemma frags_complete:
  assumes "0 < fb" "set is \<subseteq> {..<fragment_count (length msg) fb}"
  shows "complete_set msg (frag_arrivals mid fb msg now is) \<longleftrightarrow> set is = {..<fragment_count (length msg) fb}"
proof
  let ?n = "fragment_count (length msg) fb"
  have cov: "covers (frag_fragment mid fb msg j) x \<longleftrightarrow> x div fb = j" if "x < length msg" for x j
  proof -
    have "j * fb \<le> x \<and> x < j * fb + fb \<longleftrightarrow> x div fb = j"
    proof
      show "x div fb = j" if "j * fb \<le> x \<and> x < j * fb + fb"
        using that by (intro div_nat_eqI) (simp_all add: mult.commute)
      show "j * fb \<le> x \<and> x < j * fb + fb" if "x div fb = j"
        using that div_times_less_eq_dividend[of x fb] dividend_less_div_times[OF assms(1), of x] by auto
    qed
    then show ?thesis using that by (auto simp: covers_def min_def)
  qed
  have last_frag: "ends_message (frag_fragment mid fb msg (?n - 1))"
  proof -
    have lt: "?n - 1 < ?n" using fragment_count_bounds(1)[OF assms(1)] by simp
    have "\<not> ?n < ?n" by simp
    then have "length msg \<le> ?n * fb" using fragment_count_less[OF assms(1), of ?n "length msg"] by (auto split: if_splits)
    also have "?n * fb = (?n - 1) * fb + fb" using lt by (cases ?n) auto
    finally have "length msg \<le> (?n - 1) * fb + fb" .
    moreover have "(?n - 1) * fb \<le> length msg"
      using lt fragment_count_less[OF assms(1), of "?n - 1" "length msg"] by (auto split: if_splits)
    ultimately show ?thesis by (auto simp: ends_message_def min_def)
  qed
  show "complete_set msg (frag_arrivals mid fb msg now is)" if all: "set is = {..<?n}"
  proof -
    have "x div fb \<in> set is" if "x < length msg" for x
    proof -
      have "x div fb * fb < length msg" using div_times_less_eq_dividend[of x fb] that by linarith
      then have "x div fb < ?n" using fragment_count_less[OF assms(1), of "x div fb" "length msg"] that by (auto split: if_splits)
      then show ?thesis using all by simp
    qed
    moreover have "?n - 1 \<in> set is" using fragment_count_bounds(1)[OF assms(1)] all by simp
    ultimately show ?thesis using cov last_frag by (auto simp: complete_set_def)
  qed
  show "set is = {..<?n}" if c: "complete_set msg (frag_arrivals mid fb msg now is)"
  proof (cases "msg = []")
    case True
    have "is \<noteq> []" using c by (auto simp: complete_set_def)
    then show ?thesis using True assms(2) by (cases "is") (auto simp: fragment_count_def)
  next
    case False
    have "i \<in> set is" if "i < ?n" for i
    proof -
      have x: "i * fb < length msg" using fragment_count_less[OF assms(1), of i "length msg"] that False by simp
      have "i * fb div fb = i" using assms(1) by simp
      then show ?thesis using c x cov[OF x] by (auto simp: complete_set_def)
    qed
    then show ?thesis using assms(2) by blast
  qed
qed

text \<open>The reassembly of a message whose fragments all arrive, each once: the last one completes it.\<close>

lemma frags_observed:
  assumes "length msg \<le> MAX_MESSAGE_BYTES" "0 < fb" "distinct is" "set is = {..<fragment_count (length msg) fb}" "reasm_ok s"
    and "reasm_map s \<lparr>mk_packet_type = PacketType.Data, mk_message_id = mid\<rparr> = None"
    and "card (dom (reasm_map s)) < MAX_REASSEMBLY_MESSAGES"
  obtains rs ra ev where "ReassemblyState_observes (frag_arrivals mid fb msg now is) s = (rs, ra)"
    "map snd rs = replicate (length is - 1) (Ok None) @ [Ok (Some ev)]"
    "MessageEvent_as_bytes ev = Ok msg" "me_packet_type ev = PacketType.Data" "me_message_id ev = mid"
    "reasm_map ra = reasm_map s"
proof -
  let ?k = "\<lparr>mk_packet_type = PacketType.Data, mk_message_id = mid\<rparr>"
  let ?fs = "frag_arrivals mid fb msg now is" and ?D = "dom (reasm_map s)" and ?n = "fragment_count (length msg) fb"
  have "0 \<in> set is" using assms(4) fragment_count_bounds(1)[OF assms(2), of "length msg"] by simp
  then have "is = butlast is @ [last is]" by (cases "is") simp_all
  then obtain js i where js: "is = js @ [i]" by blast
  have sub: "set is \<subseteq> {..<?n}" "set js \<subseteq> {..<?n}" and missing: "i \<in> {..<?n}" "i \<notin> set js"
    using assms(3) unfolding assms(4)[symmetric] js by auto
  have C: "complete_set msg ?fs" "\<not> complete_set msg (frag_arrivals mid fb msg now js)"
    using frags_complete[OF assms(2) sub(1), of mid now] frags_complete[OF assms(2) sub(2), of mid now] assms(4) missing
    by auto
  have "j * fb \<le> length msg" if "j \<in> set is" for j
    using that assms(4) fragment_count_less[OF assms(2), of j "length msg"] by (auto split: if_splits)
  then have parts: "\<forall>(g, t)\<in>set ?fs. part_of msg g \<and> fragment_key g = ?k" by (auto intro: frag_part_of)
  have fs: "?fs = frag_arrivals mid fb msg now js @ [(frag_fragment mid fb msg i, now)]" by (simp add: js)
  obtain rs ra where o: "ReassemblyState_observes ?fs s = (rs, ra)" by fastforce
  have keys: "?D \<union> fragment_keys ?fs \<subseteq> insert ?k ?D" by (auto simp: fragment_keys_def)
  have card: "card (insert ?k ?D) \<le> MAX_REASSEMBLY_MESSAGES" using assms(7) card_insert_le_m1[of 4 ?D ?k] by simp
  have lens: "\<forall>(f, now)\<in>set ?fs. mf_message_len f \<le> MAX_MESSAGE_BYTES" using assms(1) by auto
  note ind = observes_independent[OF assms(5) _ card keys lens o]
  have all_k: "fragments_for ?k ?fs = ?fs" by (auto simp: fragments_for_def intro!: filter_True)
  obtain ev where ev: "results_for ?k rs = replicate (length js) (Ok None) @ [Ok (Some ev)]"
    "MessageEvent_as_bytes ev = Ok msg" "me_packet_type ev = PacketType.Data" "me_message_id ev = mid" "reasm_map ra ?k = None"
    using entry_completes[OF parts[unfolded fs] C(2) C(1)[unfolded fs] assms(1)] ind[of ?k] all_k assms(6) unfolding fs by auto
  have "reasm_map ra k = reasm_map s k" for k
  proof (cases "k = ?k")
    case False
    then have "fragments_for k ?fs = []" by (auto simp: fragments_for_def filter_empty_conv)
    then show ?thesis using ind[of k] by simp
  qed (use ev(5) assms(6) in simp)
  then have reasm: "reasm_map ra = reasm_map s" by blast
  have tags: "ReassemblyState_observes (frag_arrivals mid fb msg now xs) t = (qs, u) \<Longrightarrow> map fst qs = replicate (length xs) ?k"
    for xs t qs u
    by (induction xs arbitrary: t qs) (auto split: prod.splits)
  have "fst x = ?k" if "x \<in> set rs" for x using tags[OF o] that by (metis in_set_replicate list.set_map image_eqI)
  then have "map snd rs = replicate (length is - 1) (Ok None) @ [Ok (Some ev)]"
    using ev(1) js unfolding results_for_def by (subst (asm) filter_True) auto
  then show thesis by (rule that[OF o _ ev(2-4) reasm])
qed

lemma delivered_last:
  assumes "map snd rs = replicate n (Ok None) @ [Ok (Some ev)]" "me_packet_type ev = PacketType.Data"
  shows "delivered (map snd rs) ms = MessageState_push ev ms"
proof -
  have "delivered (replicate n (Ok None) @ rest) ms = delivered rest ms" for n rest
    by (induction n) (simp_all add: delivered_def)
  then have "delivered (map snd rs) ms = delivered [Ok (Some ev)] ms" unfolding assms(1) by blast
  moreover have "ev\<lparr>me_packet_type := PacketType.Data\<rparr> = ev" using assms(2) by (cases ev) simp
  ultimately show ?thesis by (simp add: delivered_def)
qed

lemma receive_message:
  assumes "length msg \<le> MAX_MESSAGE_BYTES" "0 < fb" "fb \<le> 113 - Integrity_tag_len (integrity config)"
    and "fragment_count (length msg) fb \<le> MAX_EVENTS"
    and "engine_ok config s" "idle_stream s" "distinct is" "set is = {..<fragment_count (length msg) fb}"
    and "\<forall>k\<in>set (dedup_recent (rc_dedup (es_receive s))). key_message_id k \<noteq> mid"
    and "length (ack_list (es_ack s)) + length is \<le> MAX_PENDING_ACKS"
    and "reasm_map (es_reassembly s) \<lparr>mk_packet_type = PacketType.Data, mk_message_id = mid\<rparr> = None"
    and "card (dom (reasm_map (es_reassembly s))) < MAX_REASSEMBLY_MESSAGES"
  obtains s' ev where
    "receive_all config (map (frag_frame (integrity config) PacketType.Data mid fb msg) is) s =
      (map (\<lambda>i. Ok (ReceiveReport.Packet (PacketIndex (of_nat i)))) is, s')"
    "engine_ok config s'" "idle_stream s'" "es_message s' = MessageState_push ev (es_message s)"
    "MessageEvent_as_bytes ev = Ok msg" "me_packet_type ev = PacketType.Data" "me_message_id ev = mid"
    "ack_list (es_ack s') = ack_list (es_ack s) @ map (frag_key mid) is"
    "es_scheduler s' = es_scheduler s" "es_recovery s' = es_recovery s" "es_numbers s' = es_numbers s"
    "set (dedup_recent (rc_dedup (es_receive s'))) \<subseteq> frag_key mid ` set is \<union> set (dedup_recent (rc_dedup (es_receive s)))"
    "reasm_map (es_reassembly s') = reasm_map (es_reassembly s)"
proof -
  let ?now = "ClockState_now_ms (es_clock s)"
  have rok: "reasm_ok (es_reassembly s)" using assms(5) by (simp add: engine_ok_def)
  obtain rs ra ev where O: "ReassemblyState_observes (frag_arrivals mid fb msg ?now is) (es_reassembly s) = (rs, ra)"
    "map snd rs = replicate (length is - 1) (Ok None) @ [Ok (Some ev)]"
    "MessageEvent_as_bytes ev = Ok msg" "me_packet_type ev = PacketType.Data" "me_message_id ev = mid"
    "reasm_map ra = reasm_map (es_reassembly s)"
    by (rule frags_observed[OF assms(1,2,7,8) rok assms(11,12)])
  have idx: "j * fb \<le> length msg \<and> j < 2 ^ 16" if "j \<in> set is" for j
    using that assms(4,8) fragment_count_less[OF assms(2), of j "length msg"] by (auto split: if_splits)
  have oks: "\<exists>m. r = Ok m" if "(k, r) \<in> set rs" for k r
  proof -
    have "r \<in> set (map snd rs)" using that by force
    then show ?thesis unfolding O(2) by auto
  qed
  have dup: "frag_key mid j \<notin> set (dedup_recent (rc_dedup (es_receive s)))" for j
    using assms(9) by (auto simp: PacketKey_new_def)
  have "\<exists>s'. frags_received config mid fb msg is (map snd rs) ra s s'"
    by (rule receive_fragments[OF assms(1,3) idx assms(5-7) dup assms(10) O(1) oks])
  then obtain s' where s': "frags_received config mid fb msg is (map snd rs) ra s s'" ..
  note S = s'[unfolded frags_received_def delivered_last[OF O(2,4)]]
  show thesis by (rule that[of s' ev]) (use S O(3-6) in simp_all)
qed

text \<open>A frame with a recently accepted key.\<close>

lemma receive_duplicate:
  assumes "engine_ok config s" "idle_stream s" "length pkt \<le> MAX_WIRE_BYTES"
    and "decode_packet_bytes pkt = PacketDecode.Data d" "mf_ack_eliciting (dd_fragment d)"
    and "k = PacketKey_new (mf_message_id (dd_fragment d)) (mf_packet_index (dd_fragment d))"
    and "k \<in> set (dedup_recent (rc_dedup (es_receive s)))" "length (ack_list (es_ack s)) < MAX_PENDING_ACKS"
  shows "\<exists>ig a. EngineState_receive config (wire_frame (integrity config) pkt) s =
      (Ok (ReceiveReport.Duplicate (mf_packet_index (dd_fragment d))), s\<lparr>es_ack := a, es_ingress := ig\<rparr>) \<and>
    ack_list a = ack_list (es_ack s) @ [k] \<and> idle_stream (s\<lparr>es_ack := a, es_ingress := ig\<rparr>)"
proof -
  note Q = engine_ok_queue_ack[OF assms(1), of k]
  obtain u s2 where q: "queue_ack k s = (u, s2)" by fastforce
  obtain a where a: "s2 = s\<lparr>es_ack := a\<rparr>" using q by (auto simp: queue_ack_def split: prod.splits bool.splits)
  have al: "u = Ok ()" "ack_list a = ack_list (es_ack s) @ [k]" using Q(3,4) q assms(8) a by simp_all
  have "dedup_ok MAX_IN_FLIGHT_PACKETS (rc_dedup (es_receive s))" using assms(1) by (simp add: engine_ok_def)
  then have "PacketDedup_is_duplicate (rc_dedup (es_receive s)) k" using assms(7) is_duplicate_recent by blast
  then have "receive_decoded config (decode_packet_bytes pkt) s =
      (Ok (ReceiveReport.Duplicate (mf_packet_index (dd_fragment d))), s\<lparr>es_ack := a\<rparr>)"
    using assms(4,5,6) q al(1) a by (simp add: receive_decoded_def receive_data_def ack_or_error_def Let_def)
  then obtain ig where "EngineState_receive config (wire_frame (integrity config) pkt) s =
      (Ok (ReceiveReport.Duplicate (mf_packet_index (dd_fragment d))), s\<lparr>es_ack := a, es_ingress := ig\<rparr>)"
    "idle_stream (s\<lparr>es_ack := a, es_ingress := ig\<rparr>)"
    by (rule receive_frame[OF assms(1-3)]) simp_all
  then show ?thesis using al(2) by blast
qed

section \<open>Properties\<close>

text \<open>
  C6. No sequence of sends, logs, pings, polls and received chunks, whatever bytes arrive, makes
  the engine panic or breaks its invariant: in every reachable state each operation returns, and
  receiving any chunk ends with a report.
\<close>

theorem engine_never_panics:
  assumes "engine_reachable config s"
  shows "engine_ok config s \<and> fst (EngineState_send_data config msg s) \<noteq> Panic \<and>
    fst (EngineState_send_log config msg s) \<noteq> Panic \<and> fst (EngineState_send_ping config s) \<noteq> Panic \<and>
    fst (EngineState_poll config now tx s) \<noteq> Panic \<and> (\<exists>report. fst (EngineState_receive config bs s) = Ok report)"
  using engine_reachable_ok[OF assms] engine_ok_ops[OF engine_reachable_ok[OF assms]] by auto

theorem engine_never_panics_witness:
  "\<exists>report. fst (EngineState_receive (EngineConfig_default None) [0xA5, 3, 0]
      (EngineState_new (MessageId 1) (EngineConfig_default None))) = Ok report"
  using engine_never_panics[OF engine_reachable.init[of "EngineConfig_default None" "MessageId 1"], where bs = "[0xA5, 3, 0]"]
  by blast



text \<open>
  C5. Delivery: the frames of a data message, arriving in any order on an idle stream, are all
  accepted, make the engine deliver exactly this message once, and leave one ACK pending for each
  of them in the order of arrival.  The message id must not be among the recently seen ones, and
  the reassembly table and the ACK queue must have room.
\<close>

theorem message_delivered_any_order:
  assumes "length msg \<le> MAX_MESSAGE_BYTES" "0 < fb" "fb \<le> 113 - Integrity_tag_len (integrity config)"
    and "fragment_count (length msg) fb \<le> MAX_EVENTS"
    and "engine_ok config s" "idle_stream s" "distinct is" "set is = {..<fragment_count (length msg) fb}"
    and "\<forall>k\<in>set (dedup_recent (rc_dedup (es_receive s))). key_message_id k \<noteq> mid"
    and "length (ack_list (es_ack s)) + length is \<le> MAX_PENDING_ACKS"
    and "reasm_map (es_reassembly s) \<lparr>mk_packet_type = PacketType.Data, mk_message_id = mid\<rparr> = None"
    and "card (dom (reasm_map (es_reassembly s))) < MAX_REASSEMBLY_MESSAGES"
  shows "\<exists>s' ev.
    receive_all config (map (frag_frame (integrity config) PacketType.Data mid fb msg) is) s =
      (map (\<lambda>i. Ok (ReceiveReport.Packet (PacketIndex (of_nat i)))) is, s') \<and>
    es_message s' = MessageState_push ev (es_message s) \<and> MessageEvent_as_bytes ev = Ok msg \<and>
    me_packet_type ev = PacketType.Data \<and> me_message_id ev = mid \<and>
    ack_list (es_ack s') = ack_list (es_ack s) @ map (\<lambda>i. PacketKey_new mid (PacketIndex (of_nat i))) is"
  by (rule receive_message[OF assms]) blast

lemma new_engine_idle:
  "idle_stream (EngineState_new mid config)" "ack_list (es_ack (EngineState_new mid config)) = []"
  "dedup_recent (rc_dedup (es_receive (EngineState_new mid config))) = []"
  "dom (reasm_map (es_reassembly (EngineState_new mid config))) = {}"
  "message_list (es_message (EngineState_new mid config)) = []"
  by (simp_all add: idle_stream_def EngineState_new_def IngressState_new_def sd_unread_def StreamingDecoder_new_def
      acks.contents_empty ReceiveState_new_def dedup_ok_new dom_def messages.contents_empty)

theorem message_delivered_any_order_witness:
  "\<exists>s' ev. receive_all (EngineConfig_default None)
      (map (frag_frame (integrity (EngineConfig_default None)) PacketType.Data (MessageId 4) 2 [1, 2, 3]) [1, 0])
      (EngineState_new (MessageId 0) (EngineConfig_default None)) =
      (map (\<lambda>i. Ok (ReceiveReport.Packet (PacketIndex (of_nat i)))) [1, 0], s') \<and>
    es_message s' = MessageState_push ev (es_message (EngineState_new (MessageId 0) (EngineConfig_default None))) \<and>
    MessageEvent_as_bytes ev = Ok [1, 2, 3]"
proof -
  have "{..<2} = {1, 0 :: nat}" by auto
  moreover have "fragment_count (length [1, 2, 3 :: u8]) 2 = 2" by (simp add: fragment_count_def)
  ultimately show ?thesis
    using message_delivered_any_order[of "[1, 2, 3]" 2 "EngineConfig_default None"
        "EngineState_new (MessageId 0) (EngineConfig_default None)" "[1, 0]" "MessageId 4"]
      Integrity_tag_len_le[of "integrity (EngineConfig_default None)"] new_engine_idle[of "MessageId 0" "EngineConfig_default None"]
    by (fastforce simp: dom_def)
qed

text \<open>
  Duplicates: a data frame whose key is among the last 16 accepted ones is acknowledged again
  but changes nothing else: no message, no reassembly state, no duplicate-detector state.
\<close>

theorem duplicate_only_acknowledged:
  assumes "engine_ok config s" "idle_stream s" "length pkt \<le> MAX_WIRE_BYTES"
    and "decode_packet_bytes pkt = PacketDecode.Data d" "mf_ack_eliciting (dd_fragment d)"
    and "k = PacketKey_new (mf_message_id (dd_fragment d)) (mf_packet_index (dd_fragment d))"
    and "k \<in> set (dedup_recent (rc_dedup (es_receive s)))" "length (ack_list (es_ack s)) < MAX_PENDING_ACKS"
  shows "\<exists>ig a. EngineState_receive config (wire_frame (integrity config) pkt) s =
      (Ok (ReceiveReport.Duplicate (mf_packet_index (dd_fragment d))), s\<lparr>es_ack := a, es_ingress := ig\<rparr>) \<and>
    ack_list a = ack_list (es_ack s) @ [k]"
  using receive_duplicate[OF assms] by blast

theorem duplicate_only_acknowledged_witness:
  "\<exists>ig a. EngineState_receive (EngineConfig_default None)
      (wire_frame (integrity (EngineConfig_default None)) (frag_packet PacketType.Data (MessageId 4) 2 [1, 2, 3] 1))
      ((EngineState_new (MessageId 0) (EngineConfig_default None))\<lparr>es_receive := \<lparr>rc_dedup = snd (PacketDedup_observe_packet
        (PacketKey_new (MessageId 4) (PacketIndex 1)) (PacketDedup_new MAX_IN_FLIGHT_PACKETS))\<rparr>\<rparr>) =
      (Ok (ReceiveReport.Duplicate (PacketIndex 1)),
       (EngineState_new (MessageId 0) (EngineConfig_default None))\<lparr>es_receive := \<lparr>rc_dedup = snd (PacketDedup_observe_packet
        (PacketKey_new (MessageId 4) (PacketIndex 1)) (PacketDedup_new MAX_IN_FLIGHT_PACKETS))\<rparr>, es_ack := a, es_ingress := ig\<rparr>) \<and>
    ack_list a = [PacketKey_new (MessageId 4) (PacketIndex 1)]"
proof -
  let ?c = "EngineConfig_default None" and ?k = "PacketKey_new (MessageId 4) (PacketIndex 1)"
  let ?d = "snd (PacketDedup_observe_packet ?k (PacketDedup_new MAX_IN_FLIGHT_PACKETS))"
  let ?s = "(EngineState_new (MessageId 0) ?c)\<lparr>es_receive := \<lparr>rc_dedup = ?d\<rparr>\<rparr>"
  let ?f = "frag_fragment (MessageId 4) 2 [1, 2, 3] 1"
  have d: "dedup_ok MAX_IN_FLIGHT_PACKETS ?d" "dedup_recent ?d = [?k]"
    using dedup_observe_new[of MAX_IN_FLIGHT_PACKETS "PacketDedup_new MAX_IN_FLIGHT_PACKETS" ?k]
      dedup_ok_new[of MAX_IN_FLIGHT_PACKETS] by auto
  have ok: "engine_ok ?c ?s" using engine_ok_new[of ?c "MessageId 0"] d(1) unfolding engine_ok_def by simp
  have dec: "decode_packet_bytes (frag_packet PacketType.Data (MessageId 4) 2 [1, 2, 3] 1) =
      PacketDecode.Data \<lparr>dd_header = DataHeader_new Flags_ACK_ELICITING (MessageId 4) (PacketIndex 1) 3 2, dd_fragment = ?f\<rparr>"
    using frag_decode[of PacketType.Data "[1, 2, 3]" 1 2 "MessageId 4"] by (simp add: frag_fragment_def Let_def numeral_3_eq_3)
  have len: "length (frag_packet PacketType.Data (MessageId 4) 2 [1, 2, 3] 1) \<le> MAX_WIRE_BYTES"
    by (simp add: frag_packet_def Let_def)
  show ?thesis
    using duplicate_only_acknowledged[OF ok _ len dec _ refl] d(2) new_engine_idle[of "MessageId 0" ?c]
    by (simp add: frag_fragment_simps idle_stream_def)
qed

end
