(* ===== verification/Exchange.thy ===== *)
theory Exchange
  imports Engine_Receive
begin

text \<open>
  Two engines on a link.  The lemmas give the next action of an engine whose timers are quiet, from
  what its queues hold, and what a batch of ACK frames does.  The properties compose both sides: a
  message sent by one engine is delivered by the other and fully acknowledged, for every order in
  which the link hands over the frames, and so is every message of a whole session.
\<close>

section \<open>The next action of an engine\<close>

text \<open>No retransmission timer of the engine has run out, or this instant was already handled.\<close>

definition calm :: "EngineConfig \<Rightarrow> u64 \<Rightarrow> EngineState \<Rightarrow> bool" where
  "calm config now s \<longleftrightarrow> engine_ok config s \<and>
     (rs_last_tick_ms (es_recovery s) = Some now \<or> (\<forall>p\<in>set (RecoveryState_packets (es_recovery s)). \<not> due config now s p))"

lemma calm_tick:
  assumes "calm config now s"
  shows "tick_retransmit config now s = tick_start config now s"
proof (cases "rs_last_tick_ms (es_recovery s) = Some now")
  case False
  let ?ps = "RecoveryState_packets (es_recovery s)"
  obtain R F M where scan: "tick_scan config now (tick_start config now s) ?ps ([], [], []) = (R, F, M)"
    by (metis prod_cases3)
  have ok: "recovery_ok (es_recovery s)" using assms engine_okD(2) by (auto simp: calm_def)
  have none: "\<not> due config now s p" if "p \<in> set ?ps" for p using assms False that by (auto simp: calm_def)
  note P = tick_scan_packets[OF ok refl scan, unfolded due_tick_start]
  have "R = []" using P(1) none by (auto simp: filter_empty_conv)
  moreover have "F = []" using P(4) none by (cases F) (auto simp: exhausted_def)
  ultimately show ?thesis using False scan by (simp add: tick_retransmit_eq)
qed (simp add: tick_retransmit_eq)

text \<open>What every poll of a calm engine leaves alone.\<close>

definition poll_keeps :: "EngineConfig \<Rightarrow> u64 \<Rightarrow> EngineState \<Rightarrow> EngineState \<Rightarrow> bool" where
  "poll_keeps config now s s' \<longleftrightarrow> es_numbers s' = es_numbers s \<and> es_ingress s' = es_ingress s \<and>
     es_receive s' = es_receive s \<and> es_clock s' = ClockState now \<and>
     es_reassembly s' = ReassemblyState_expire now (reassembly_timeout_ms config) (es_reassembly s) \<and>
     dom (inflight_map (rs_in_flight (es_recovery s'))) = dom (inflight_map (rs_in_flight (es_recovery s))) \<and>
     rs_last_tick_ms (es_recovery s') = Some now"

lemma tick_start_fields [simp]:
  "es_numbers (tick_start config now s) = es_numbers s" "es_ingress (tick_start config now s) = es_ingress s"
  "es_receive (tick_start config now s) = es_receive s" "es_ack (tick_start config now s) = es_ack s"
  "es_message (tick_start config now s) = es_message s" "es_scheduler (tick_start config now s) = es_scheduler s"
  "rs_in_flight (es_recovery (tick_start config now s)) = rs_in_flight (es_recovery s)"
  "rs_last_tick_ms (es_recovery (tick_start config now s)) = Some now"
  by (simp_all add: tick_start_def)

lemma tick_start_keeps: "poll_keeps config now s (tick_start config now s)"
  by (simp add: poll_keeps_def tick_start_def)

lemma expire_again [simp]:
  "ReassemblyState_expire now d (ReassemblyState_expire now d s) = ReassemblyState_expire now d s"
  by (cases s) (simp add: ReassemblyState_expire_def)

lemma poll_keeps_no_slots:
  assumes "engine_ok config s" "poll_keeps config now s s'" "dom (reasm_map (es_reassembly s)) = {}"
  shows "dom (reasm_map (es_reassembly s')) = {}"
proof -
  have "reasm_ok (es_reassembly s)" using assms(1) by (simp add: engine_ok_def)
  then show ?thesis using assms(2,3) reasm_expire(2)[of "es_reassembly s"] by (auto simp: poll_keeps_def dom_def)
qed

lemma poll_keeps_trans: "poll_keeps config now s t \<Longrightarrow> poll_keeps config now t u \<Longrightarrow> poll_keeps config now s u"
  by (simp add: poll_keeps_def)

lemma poll_keeps_calm: "poll_keeps config now s s' \<Longrightarrow> engine_ok config s' \<Longrightarrow> calm config now s'"
  by (simp add: poll_keeps_def calm_def)

lemma ack_pending_iff: "ack_ok a \<Longrightarrow> AckState_is_pending a \<longleftrightarrow> ack_list a \<noteq> []"
  by (auto simp: AckState_is_pending_def ack_list_def ring_list_Nil ring_list_def)

text \<open>Pending ACKs come first.\<close>

lemma poll_next_ack:
  assumes "calm config now s" "ack_list (es_ack s) = k # ks" "MAX_WIRE_BYTES \<le> length tx"
  obtains s' where
    "EngineState_poll config now tx s = (Ok (EnginePoll.Transmit (wire_frame (integrity config) (ack_packet k)) 0), s')"
    "poll_keeps config now s s'" "engine_ok config s'" "ack_list (es_ack s') = ks"
    "es_scheduler s' = es_scheduler s" "es_message s' = es_message s"
proof -
  let ?s = "tick_start config now s"
  have ok: "engine_ok config s" "ack_ok (es_ack s)" using assms(1) by (auto simp: calm_def engine_ok_def)
  obtain a where a: "AckState_pop (es_ack s) = (Some k, a)" "ack_list a = ks"
    using acks.pop_ok[OF ok(2) assms(2)] by blast
  have tag: "10 + Integrity_tag_len (integrity config) \<le> length tx"
    using assms(3) Integrity_tag_len_le[of "integrity config"] by simp
  have p: "EngineState_poll config now tx s =
      (Ok (EnginePoll.Transmit (wire_frame (integrity config) (ack_packet k)) 0), ?s\<lparr>es_ack := a\<rparr>)"
    using a(1) tag ack_pending_iff[OF ok(2)] assms(2)
    by (simp add: EngineState_poll_def calm_tick[OF assms(1)] SchedulerState_poll_ack_def poll_pending_ack_def
        encode_ack_packet_eq Let_def not_less)
  show thesis
    by (rule that[OF p]) (use tick_start_keeps[of config now s] engine_ok_poll(1)[OF ok(1) p] a(2)
        in \<open>simp_all add: poll_keeps_def\<close>)
qed

text \<open>Then, with no urgent event, the messages for the application.\<close>

definition no_urgent :: "EngineState \<Rightarrow> bool" where
  "no_urgent s \<longleftrightarrow> ack_list (es_ack s) = [] \<and>
     (\<forall>k\<in>{QueueKind.Control, QueueKind.Retransmit, QueueKind.Local}. sched_view (es_scheduler s) k = [])"

lemma pop_urgent_none:
  assumes "engine_ok config s" "no_urgent s"
  obtains q where "SchedulerState_pop_urgent (es_scheduler s) = (None, q)" "sched_view q = sched_view (es_scheduler s)"
    "sched_ok q"
proof -
  obtain r q where p: "SchedulerState_pop_urgent (es_scheduler s) = (r, q)" by fastforce
  have "sched_ok (es_scheduler s)" using engine_okD[OF assms(1)] by simp
  note P = sched_pop_urgent[OF this p]
  have "r = None" "sched_view q = sched_view (es_scheduler s)"
    using P(1) assms(2) by (auto simp: spec_pop_def no_urgent_def)
  then show thesis using that p P(2) by blast
qed

lemma poll_next_message:
  assumes "calm config now s" "no_urgent s" "message_list (es_message s) = m # ms"
  obtains s' where "EngineState_poll config now tx s = (Ok (EnginePoll.Message m), s')"
    "poll_keeps config now s s'" "engine_ok config s'" "ack_list (es_ack s') = []"
    "sched_view (es_scheduler s') = sched_view (es_scheduler s)" "message_list (es_message s') = ms"
proof -
  let ?s = "tick_start config now s"
  have ok: "engine_ok config s" "ack_ok (es_ack s)" "messages_ok (es_message s)"
    using assms(1) by (auto simp: calm_def engine_ok_def events_ok_def)
  obtain q where q: "SchedulerState_pop_urgent (es_scheduler s) = (None, q)" "sched_view q = sched_view (es_scheduler s)"
    by (rule pop_urgent_none[OF ok(1) assms(2)])
  obtain d where d: "MessageState_pop (es_message s) = (Some m, d)" "message_list d = ms"
    using messages.pop_ok[OF ok(3) assms(3)] by blast
  have na: "\<not> AckState_is_pending (es_ack s)" using ack_pending_iff[OF ok(2)] assms(2) by (simp add: no_urgent_def)
  have p: "EngineState_poll config now tx s = (Ok (EnginePoll.Message m), ?s\<lparr>es_scheduler := q, es_message := d\<rparr>)"
    using na q(1) d(1) by (simp add: EngineState_poll_def calm_tick[OF assms(1)] Let_def)
  show thesis
    by (rule that[OF p]) (use tick_start_keeps[of config now s] engine_ok_poll(1)[OF ok(1) p] d(2) q(2) assms(2)
        in \<open>simp_all add: poll_keeps_def no_urgent_def\<close>)
qed

text \<open>Handing out a queued frame notes its transmission in the packet table.\<close>

definition note_packet :: "WritePriority \<Rightarrow> u64 \<Rightarrow> InFlightPacket \<Rightarrow> InFlightPacket" where
  "note_packet prio now p = (if prio = WritePriority.Retransmit
     then p\<lparr>if_sent := True, if_attempts := saturating_add (if_attempts p) 1, if_last_sent_ms := now\<rparr>
     else p\<lparr>if_sent := True, if_last_sent_ms := now\<rparr>)"

definition noted :: "WritePriority \<Rightarrow> u64 \<Rightarrow> PacketKey set \<Rightarrow> (PacketKey \<Rightarrow> InFlightPacket option) \<Rightarrow> PacketKey \<Rightarrow> InFlightPacket option" where
  "noted prio now K m = (\<lambda>k. if k \<in> K then map_option (note_packet prio now) (m k) else m k)"

lemma noted_simps [simp]: "noted prio now {} m = m" "dom (noted prio now K m) = dom m"
  by (auto simp: noted_def split: if_splits)

lemma noted_insert: "k \<notin> K \<Longrightarrow> noted prio now K (noted prio now {k} m) = noted prio now (insert k K) m"
  by (auto simp: noted_def)

lemma poll_event_write:
  assumes "frame_for (integrity config) (wr_key w) (wr_bytes w) (wr_len w)" "MAX_WIRE_BYTES \<le> length tx" "recovery_ok r"
  obtains r' where
    "poll_event (EngineOutput.Write w) now tx r = (Ok (EnginePoll.Transmit (take (wr_len w) (wr_bytes w)) (wr_attempts w)), r')"
    "inflight_map (rs_in_flight r') = noted (wr_priority w) now {wr_key w} (inflight_map (rs_in_flight r))"
    "rs_last_tick_ms r' = rs_last_tick_ms r"
proof -
  have b: "WriteEvent_as_bytes w = Ok (take (wr_len w) (wr_bytes w))" "wr_len w \<le> length (wr_bytes w)" "wr_len w \<le> 128"
    using assms(1) by (auto simp: WriteEvent_as_bytes_def split_at_fst_def frame_for_def)
  let ?r = "case wr_priority w of WritePriority.Retransmit \<Rightarrow> RecoveryState_note_retransmit_sent (wr_key w) now r
    | _ \<Rightarrow> RecoveryState_note_sent (wr_key w) now r"
  have p: "poll_event (EngineOutput.Write w) now tx r =
      (Ok (EnginePoll.Transmit (take (wr_len w) (wr_bytes w)) (wr_attempts w)), ?r)"
    using b assms(2) by (simp add: poll_event_def poll_write_def Let_def copy_at_0)
  have m: "inflight_map (rs_in_flight ?r) = noted (wr_priority w) now {wr_key w} (inflight_map (rs_in_flight r))"
    using inflight_note_sent(2)[of "rs_in_flight r" now "wr_key w"] assms(3)
      inflight_note_retransmit_sent(2)[of "rs_in_flight r" now "wr_key w"]
    by (auto simp: recovery_ok_def RecoveryState_note_sent_def RecoveryState_note_retransmit_sent_def noted_def
        note_packet_def[abs_def] fun_eq_iff split: WritePriority.splits)
  show thesis
    by (rule that[OF p m])
       (simp add: RecoveryState_note_sent_def RecoveryState_note_retransmit_sent_def split: WritePriority.splits)
qed

text \<open>Retransmissions go out before messages and new data.\<close>

lemma poll_next_retransmit:
  assumes "calm config now s" "ack_list (es_ack s) = []" "sched_view (es_scheduler s) QueueKind.Control = []"
    and "sched_view (es_scheduler s) QueueKind.Retransmit = EngineOutput.Write w # es" "MAX_WIRE_BYTES \<le> length tx"
  obtains s' where
    "EngineState_poll config now tx s = (Ok (EnginePoll.Transmit (take (wr_len w) (wr_bytes w)) (wr_attempts w)), s')"
    "poll_keeps config now s s'" "engine_ok config s'" "ack_list (es_ack s') = []" "es_message s' = es_message s"
    "sched_view (es_scheduler s') = (sched_view (es_scheduler s))(QueueKind.Retransmit := es)"
    "inflight_map (rs_in_flight (es_recovery s')) =
      noted (wr_priority w) now {wr_key w} (inflight_map (rs_in_flight (es_recovery s)))"
proof -
  let ?s = "tick_start config now s"
  have ok: "engine_ok config s" "ack_ok (es_ack s)" "writes_ok (integrity config) (es_scheduler s)"
    using assms(1) by (auto simp: calm_def engine_ok_def)
  obtain u q where u: "SchedulerState_pop_urgent (es_scheduler s) = (u, q)" by fastforce
  have "sched_ok (es_scheduler s)" using ok(3) by (simp add: writes_ok_def)
  from sched_pop_urgent(1)[OF this u] have U: "u = Some (EngineOutput.Write w)"
    "sched_view q = (sched_view (es_scheduler s))(QueueKind.Retransmit := es)"
    using assms(3,4) by (auto simp: spec_pop_def)
  have "EngineOutput.Write w \<in> set (view_events (sched_view (es_scheduler s)))"
    using pop_urgent_ok(2)[OF ok(3) u U(1)] .
  then have f: "frame_for (integrity config) (wr_key w) (wr_bytes w) (wr_len w)" using ok(3) by (auto simp: writes_ok_def)
  have "recovery_ok (es_recovery ?s)" using engine_okD(2)[OF engine_ok_tick_start[OF ok(1)]] .
  then obtain r where r: "poll_event (EngineOutput.Write w) now tx (es_recovery ?s) =
      (Ok (EnginePoll.Transmit (take (wr_len w) (wr_bytes w)) (wr_attempts w)), r)"
    "inflight_map (rs_in_flight r) = noted (wr_priority w) now {wr_key w} (inflight_map (rs_in_flight (es_recovery ?s)))"
    "rs_last_tick_ms r = rs_last_tick_ms (es_recovery ?s)"
    by (rule poll_event_write[OF f assms(5)])
  have na: "\<not> AckState_is_pending (es_ack s)" using ack_pending_iff[OF ok(2)] assms(2) by simp
  have p: "EngineState_poll config now tx s = (Ok (EnginePoll.Transmit (take (wr_len w) (wr_bytes w)) (wr_attempts w)),
      ?s\<lparr>es_scheduler := q, es_recovery := r\<rparr>)"
    using na u U(1) r(1) by (simp add: EngineState_poll_def calm_tick[OF assms(1)] Let_def)
  show thesis
    by (rule that[OF p _ engine_ok_poll(1)[OF ok(1) p]])
       (use tick_start_keeps[of config now s] r(2,3) U(2) assms(2) in \<open>simp_all add: poll_keeps_def\<close>)
qed

text \<open>Then new data, and nothing otherwise.\<close>

lemma poll_next_data:
  assumes "calm config now s" "no_urgent s" "message_list (es_message s) = []"
    and "sched_view (es_scheduler s) QueueKind.NewData = EngineOutput.Write w # es"
    and "MAX_WIRE_BYTES \<le> length tx"
  obtains s' where
    "EngineState_poll config now tx s = (Ok (EnginePoll.Transmit (take (wr_len w) (wr_bytes w)) (wr_attempts w)), s')"
    "poll_keeps config now s s'" "engine_ok config s'" "ack_list (es_ack s') = []" "message_list (es_message s') = []"
    "sched_view (es_scheduler s') = (sched_view (es_scheduler s))(QueueKind.NewData := es)"
    "inflight_map (rs_in_flight (es_recovery s')) =
      noted (wr_priority w) now {wr_key w} (inflight_map (rs_in_flight (es_recovery s)))"
proof -
  let ?s = "tick_start config now s"
  have ok: "engine_ok config s" "ack_ok (es_ack s)" "messages_ok (es_message s)"
    using assms(1) by (auto simp: calm_def engine_ok_def events_ok_def)
  obtain q where q: "SchedulerState_pop_urgent (es_scheduler s) = (None, q)" "sched_view q = sched_view (es_scheduler s)"
    "sched_ok q"
    by (rule pop_urgent_none[OF ok(1) assms(2)])
  obtain d where d: "MessageState_pop (es_message s) = (None, d)" "message_list d = []"
    using messages.pop_empty[OF ok(3) assms(3)] assms(3) by blast
  have wq: "writes_ok (integrity config) q" using ok(1) q(2,3) by (simp add: engine_ok_def writes_ok_def)
  obtain r u where r: "EventQueue_pop (sc_new_data q) = (r, u)" by fastforce
  note N = pop_new_data_ok[OF wq r]
  have ev: "r = Some (EngineOutput.Write w)" using N(4) q(2) assms(4) by simp
  have f: "frame_for (integrity config) (wr_key w) (wr_bytes w) (wr_len w)"
    using wq N(2)[OF ev] by (auto simp: writes_ok_def)
  have "recovery_ok (es_recovery ?s)" using engine_okD(2)[OF engine_ok_tick_start[OF ok(1)]] .
  then obtain rec where pe: "poll_event (EngineOutput.Write w) now tx (es_recovery ?s) =
      (Ok (EnginePoll.Transmit (take (wr_len w) (wr_bytes w)) (wr_attempts w)), rec)"
    "inflight_map (rs_in_flight rec) = noted (wr_priority w) now {wr_key w} (inflight_map (rs_in_flight (es_recovery ?s)))"
    "rs_last_tick_ms rec = rs_last_tick_ms (es_recovery ?s)"
    by (rule poll_event_write[OF f assms(5)])
  have na: "\<not> AckState_is_pending (es_ack s)" using ack_pending_iff[OF ok(2)] assms(2) by (simp add: no_urgent_def)
  have p: "EngineState_poll config now tx s = (Ok (EnginePoll.Transmit (take (wr_len w) (wr_bytes w)) (wr_attempts w)),
      ?s\<lparr>es_scheduler := q\<lparr>sc_new_data := u\<rparr>, es_message := d, es_recovery := rec\<rparr>)"
    using na q(1) d(1) r ev pe(1)
    by (simp add: EngineState_poll_def calm_tick[OF assms(1)] SchedulerState_poll_new_data_def Let_def)
  have v: "sched_view (q\<lparr>sc_new_data := u\<rparr>) = (sched_view (es_scheduler s))(QueueKind.NewData := es)"
    using N(3) q(2) assms(4) by simp
  show thesis
    by (rule that[OF p _ engine_ok_poll(1)[OF ok(1) p]])
       (use tick_start_keeps[of config now s] pe(2,3) v d(2) assms(2) in \<open>simp_all add: poll_keeps_def no_urgent_def\<close>)
qed

lemma poll_next_idle:
  assumes "calm config now s" "no_urgent s" "message_list (es_message s) = []"
    and "sched_view (es_scheduler s) QueueKind.NewData = []"
  obtains s' where "EngineState_poll config now tx s = (Ok EnginePoll.Idle, s')"
    "poll_keeps config now s s'" "engine_ok config s'" "ack_list (es_ack s') = []" "message_list (es_message s') = []"
    "sched_view (es_scheduler s') = sched_view (es_scheduler s)"
    "inflight_map (rs_in_flight (es_recovery s')) = inflight_map (rs_in_flight (es_recovery s))"
proof -
  let ?s = "tick_start config now s"
  have ok: "engine_ok config s" "ack_ok (es_ack s)" "messages_ok (es_message s)"
    using assms(1) by (auto simp: calm_def engine_ok_def events_ok_def)
  obtain q where q: "SchedulerState_pop_urgent (es_scheduler s) = (None, q)" "sched_view q = sched_view (es_scheduler s)"
    "sched_ok q"
    by (rule pop_urgent_none[OF ok(1) assms(2)])
  obtain d where d: "MessageState_pop (es_message s) = (None, d)" "message_list d = []"
    using messages.pop_empty[OF ok(3) assms(3)] assms(3) by blast
  have wq: "writes_ok (integrity config) q" using ok(1) q(2,3) by (simp add: engine_ok_def writes_ok_def)
  obtain r u where r: "EventQueue_pop (sc_new_data q) = (r, u)" by fastforce
  note N = pop_new_data_ok[OF wq r]
  have ev: "r = None" using N(4) q(2) assms(4) by simp
  have na: "\<not> AckState_is_pending (es_ack s)" using ack_pending_iff[OF ok(2)] assms(2) by (simp add: no_urgent_def)
  have p: "EngineState_poll config now tx s = (Ok EnginePoll.Idle, ?s\<lparr>es_scheduler := q\<lparr>sc_new_data := u\<rparr>, es_message := d\<rparr>)"
    using na q(1) d(1) r ev
    by (simp add: EngineState_poll_def calm_tick[OF assms(1)] SchedulerState_poll_new_data_def Let_def tick_start_def)
  have v: "sched_view (q\<lparr>sc_new_data := u\<rparr>) = sched_view (es_scheduler s)"
    using N(3) q(2) assms(4) by (metis fun_upd_triv list.sel(2))
  show thesis
    by (rule that[OF p _ engine_ok_poll(1)[OF ok(1) p]])
       (use tick_start_keeps[of config now s] v d(2) assms(2) in \<open>simp_all add: poll_keeps_def no_urgent_def\<close>)
qed

section \<open>Batches of polls and frames\<close>

fun poll_times :: "EngineConfig \<Rightarrow> u64 \<Rightarrow> bytes \<Rightarrow> nat \<Rightarrow> EngineState \<Rightarrow> EnginePoll res list \<times> EngineState" where
  "poll_times config now tx 0 s = ([], s)"
| "poll_times config now tx (Suc n) s =
     (case EngineState_poll config now tx s of (r, s1) \<Rightarrow>
      case poll_times config now tx n s1 of (rs, s2) \<Rightarrow> (r # rs, s2))"

lemma poll_times_append:
  "poll_times config now tx m s = (rs, s1) \<Longrightarrow> poll_times config now tx n s1 = (rs', s2) \<Longrightarrow>
    poll_times config now tx (m + n) s = (rs @ rs', s2)"
  by (induction m arbitrary: s rs) (auto split: prod.splits)

lemma poll_times_snoc:
  "poll_times config now tx m s = (rs, s1) \<Longrightarrow> EngineState_poll config now tx s1 = (r, s2) \<Longrightarrow>
    poll_times config now tx (Suc m) s = (rs @ [r], s2)"
  using poll_times_append[of config now tx m s rs s1 1 "[r]" s2] by simp

lemma poll_times_data:
  assumes "calm config now s" "no_urgent s" "message_list (es_message s) = []" "MAX_WIRE_BYTES \<le> length tx"
    and "sched_view (es_scheduler s) QueueKind.NewData = map EngineOutput.Write ws" "distinct (map wr_key ws)"
    and "\<forall>w\<in>set ws. wr_priority w = WritePriority.NewData \<and> wr_attempts w = 0"
  shows "\<exists>s'. poll_times config now tx (length ws) s =
      (map (\<lambda>w. Ok (EnginePoll.Transmit (take (wr_len w) (wr_bytes w)) 0)) ws, s') \<and>
    (ws \<noteq> [] \<longrightarrow> poll_keeps config now s s') \<and> engine_ok config s' \<and> no_urgent s' \<and> message_list (es_message s') = [] \<and>
    sched_view (es_scheduler s') = (sched_view (es_scheduler s))(QueueKind.NewData := []) \<and>
    inflight_map (rs_in_flight (es_recovery s')) =
      noted WritePriority.NewData now (wr_key ` set ws) (inflight_map (rs_in_flight (es_recovery s)))"
  using assms
proof (induction ws arbitrary: s)
  case Nil
  then have "(sched_view (es_scheduler s))(QueueKind.NewData := []) = sched_view (es_scheduler s)"
    by (intro fun_upd_idem) simp
  then show ?case using Nil by (simp add: calm_def)
next
  case (Cons w ws)
  obtain s1 where s1: "EngineState_poll config now tx s =
      (Ok (EnginePoll.Transmit (take (wr_len w) (wr_bytes w)) (wr_attempts w)), s1)"
    "poll_keeps config now s s1" "engine_ok config s1" "ack_list (es_ack s1) = []" "message_list (es_message s1) = []"
    "sched_view (es_scheduler s1) = (sched_view (es_scheduler s))(QueueKind.NewData := map EngineOutput.Write ws)"
    "inflight_map (rs_in_flight (es_recovery s1)) =
      noted (wr_priority w) now {wr_key w} (inflight_map (rs_in_flight (es_recovery s)))"
    by (rule poll_next_data[OF Cons.prems(1-3) _ Cons.prems(4), of w "map EngineOutput.Write ws"])
       (use Cons.prems(5) in auto)
  have nu: "no_urgent s1" using Cons.prems(2) s1(4,6) by (simp add: no_urgent_def)
  have data: "sched_view (es_scheduler s1) QueueKind.NewData = map EngineOutput.Write ws" using s1(6) by simp
  have c: "calm config now s1" by (rule poll_keeps_calm[OF s1(2,3)])
  have ws: "distinct (map wr_key ws)" "\<forall>w\<in>set ws. wr_priority w = WritePriority.NewData \<and> wr_attempts w = 0"
    using Cons.prems(6,7) by simp_all
  from Cons.IH[OF c nu s1(5) Cons.prems(4) data ws]
  obtain s2 where s2: "poll_times config now tx (length ws) s1 =
      (map (\<lambda>w. Ok (EnginePoll.Transmit (take (wr_len w) (wr_bytes w)) 0)) ws, s2)"
    "ws \<noteq> [] \<longrightarrow> poll_keeps config now s1 s2" "engine_ok config s2" "no_urgent s2" "message_list (es_message s2) = []"
    "sched_view (es_scheduler s2) = (sched_view (es_scheduler s1))(QueueKind.NewData := [])"
    "inflight_map (rs_in_flight (es_recovery s2)) =
      noted WritePriority.NewData now (wr_key ` set ws) (inflight_map (rs_in_flight (es_recovery s1)))" by blast
  have "poll_keeps config now s s2"
    using s1(2) s2(1,2) poll_keeps_trans[OF s1(2), of s2] by (cases "ws = []") auto
  moreover have "inflight_map (rs_in_flight (es_recovery s2)) =
      noted WritePriority.NewData now (wr_key ` set (w # ws)) (inflight_map (rs_in_flight (es_recovery s)))"
    using s2(7) s1(7) Cons.prems(6,7) by (simp add: noted_insert)
  ultimately show ?case using s1(1,6) s2 Cons.prems(7) by (intro exI[of _ s2]) simp
qed

lemma poll_times_retransmits:
  assumes "calm config now s" "ack_list (es_ack s) = []" "MAX_WIRE_BYTES \<le> length tx"
    and "sched_view (es_scheduler s) QueueKind.Control = []"
    and "sched_view (es_scheduler s) QueueKind.Retransmit = map EngineOutput.Write ws" "distinct (map wr_key ws)"
    and "\<forall>w\<in>set ws. wr_priority w = WritePriority.Retransmit"
  shows "\<exists>s'. poll_times config now tx (length ws) s =
      (map (\<lambda>w. Ok (EnginePoll.Transmit (take (wr_len w) (wr_bytes w)) (wr_attempts w))) ws, s') \<and>
    (ws \<noteq> [] \<longrightarrow> poll_keeps config now s s') \<and> calm config now s' \<and> ack_list (es_ack s') = [] \<and>
    es_message s' = es_message s \<and>
    sched_view (es_scheduler s') = (sched_view (es_scheduler s))(QueueKind.Retransmit := []) \<and>
    inflight_map (rs_in_flight (es_recovery s')) =
      noted WritePriority.Retransmit now (wr_key ` set ws) (inflight_map (rs_in_flight (es_recovery s)))"
  using assms
proof (induction ws arbitrary: s)
  case Nil
  then have "(sched_view (es_scheduler s))(QueueKind.Retransmit := []) = sched_view (es_scheduler s)"
    by (intro fun_upd_idem) simp
  then show ?case using Nil by simp
next
  case (Cons w ws)
  obtain s1 where s1: "EngineState_poll config now tx s =
      (Ok (EnginePoll.Transmit (take (wr_len w) (wr_bytes w)) (wr_attempts w)), s1)"
    "poll_keeps config now s s1" "engine_ok config s1" "ack_list (es_ack s1) = []" "es_message s1 = es_message s"
    "sched_view (es_scheduler s1) = (sched_view (es_scheduler s))(QueueKind.Retransmit := map EngineOutput.Write ws)"
    "inflight_map (rs_in_flight (es_recovery s1)) =
      noted (wr_priority w) now {wr_key w} (inflight_map (rs_in_flight (es_recovery s)))"
    by (rule poll_next_retransmit[OF Cons.prems(1,2,4) _ Cons.prems(3), of w "map EngineOutput.Write ws"])
       (use Cons.prems(5) in auto)
  have q: "sched_view (es_scheduler s1) QueueKind.Retransmit = map EngineOutput.Write ws"
    "sched_view (es_scheduler s1) QueueKind.Control = []" using s1(6) Cons.prems(4) by simp_all
  have c: "calm config now s1" by (rule poll_keeps_calm[OF s1(2,3)])
  have ws: "distinct (map wr_key ws)" "\<forall>w\<in>set ws. wr_priority w = WritePriority.Retransmit"
    using Cons.prems(6,7) by simp_all
  from Cons.IH[OF c s1(4) Cons.prems(3) q(2,1) ws]
  obtain s2 where s2: "poll_times config now tx (length ws) s1 =
      (map (\<lambda>w. Ok (EnginePoll.Transmit (take (wr_len w) (wr_bytes w)) (wr_attempts w))) ws, s2)"
    "ws \<noteq> [] \<longrightarrow> poll_keeps config now s1 s2" "calm config now s2" "ack_list (es_ack s2) = []" "es_message s2 = es_message s1"
    "sched_view (es_scheduler s2) = (sched_view (es_scheduler s1))(QueueKind.Retransmit := [])"
    "inflight_map (rs_in_flight (es_recovery s2)) =
      noted WritePriority.Retransmit now (wr_key ` set ws) (inflight_map (rs_in_flight (es_recovery s1)))" by blast
  have "poll_keeps config now s s2"
    using s1(2) s2(1,2) poll_keeps_trans[OF s1(2), of s2] by (cases "ws = []") auto
  moreover have "inflight_map (rs_in_flight (es_recovery s2)) =
      noted WritePriority.Retransmit now (wr_key ` set (w # ws)) (inflight_map (rs_in_flight (es_recovery s)))"
    using s2(7) s1(7) Cons.prems(6,7) by (simp add: noted_insert)
  ultimately show ?case using s1(1,5,6) s2 by (intro exI[of _ s2]) simp
qed

text \<open>An engine with nothing to do stays that way, whatever its timers wait for.\<close>

lemma poll_times_idle:
  assumes "calm config now s" "no_urgent s" "message_list (es_message s) = []"
    and "sched_view (es_scheduler s) QueueKind.NewData = []"
  shows "\<exists>s'. poll_times config now tx n s = (replicate n (Ok EnginePoll.Idle), s') \<and>
    (0 < n \<longrightarrow> poll_keeps config now s s') \<and> calm config now s' \<and> ack_list (es_ack s') = [] \<and> message_list (es_message s') = [] \<and>
    sched_view (es_scheduler s') = sched_view (es_scheduler s) \<and>
    inflight_map (rs_in_flight (es_recovery s')) = inflight_map (rs_in_flight (es_recovery s))"
  using assms
proof (induction n arbitrary: s)
  case 0
  then show ?case by (simp add: no_urgent_def)
next
  case (Suc n)
  obtain s1 where s1: "EngineState_poll config now tx s = (Ok EnginePoll.Idle, s1)"
    "poll_keeps config now s s1" "engine_ok config s1" "ack_list (es_ack s1) = []" "message_list (es_message s1) = []"
    "sched_view (es_scheduler s1) = sched_view (es_scheduler s)"
    "inflight_map (rs_in_flight (es_recovery s1)) = inflight_map (rs_in_flight (es_recovery s))"
    by (rule poll_next_idle[OF Suc.prems])
  have nu: "no_urgent s1" using Suc.prems(2) s1(4,6) by (simp add: no_urgent_def)
  have data: "sched_view (es_scheduler s1) QueueKind.NewData = []" using Suc.prems(4) s1(6) by simp
  from Suc.IH[OF poll_keeps_calm[OF s1(2,3)] nu s1(5) data]
  obtain s2 where s2: "poll_times config now tx n s1 = (replicate n (Ok EnginePoll.Idle), s2)"
    "0 < n \<longrightarrow> poll_keeps config now s1 s2" "calm config now s2" "ack_list (es_ack s2) = []" "message_list (es_message s2) = []"
    "sched_view (es_scheduler s2) = sched_view (es_scheduler s1)"
    "inflight_map (rs_in_flight (es_recovery s2)) = inflight_map (rs_in_flight (es_recovery s1))" by blast
  have "poll_keeps config now s s2"
    using s1(2) s2(1,2) poll_keeps_trans[OF s1(2), of s2] by (cases n) auto
  then show ?case using s1(1,6,7) s2 by (intro exI[of _ s2]) simp
qed

lemma poll_times_acks:
  assumes "calm config now s" "ack_list (es_ack s) = ks" "MAX_WIRE_BYTES \<le> length tx"
  shows "\<exists>s'. poll_times config now tx (length ks) s =
      (map (\<lambda>k. Ok (EnginePoll.Transmit (wire_frame (integrity config) (ack_packet k)) 0)) ks, s') \<and>
    (ks \<noteq> [] \<longrightarrow> poll_keeps config now s s') \<and> calm config now s' \<and> ack_list (es_ack s') = [] \<and>
    es_scheduler s' = es_scheduler s \<and> es_message s' = es_message s"
  using assms
proof (induction ks arbitrary: s)
  case (Cons k ks)
  obtain s1 where s1:
    "EngineState_poll config now tx s = (Ok (EnginePoll.Transmit (wire_frame (integrity config) (ack_packet k)) 0), s1)"
    "poll_keeps config now s s1" "engine_ok config s1" "ack_list (es_ack s1) = ks"
    "es_scheduler s1 = es_scheduler s" "es_message s1 = es_message s"
    by (rule poll_next_ack[OF Cons.prems])
  from Cons.IH[OF poll_keeps_calm[OF s1(2,3)] s1(4) Cons.prems(3)]
  obtain s2 where s2: "poll_times config now tx (length ks) s1 =
      (map (\<lambda>k. Ok (EnginePoll.Transmit (wire_frame (integrity config) (ack_packet k)) 0)) ks, s2)"
    "ks \<noteq> [] \<longrightarrow> poll_keeps config now s1 s2" "calm config now s2" "ack_list (es_ack s2) = []"
    "es_scheduler s2 = es_scheduler s1" "es_message s2 = es_message s1" by blast
  have "poll_keeps config now s s2"
  proof (cases "ks = []")
    case True
    then show ?thesis using s1(2) s2(1) by simp
  next
    case False
    then show ?thesis using poll_keeps_trans[OF s1(2)] s2(2) by blast
  qed
  then show ?case using s1(1,5,6) s2 by (intro exI[of _ s2]) simp
qed simp

text \<open>A batch of ACK frames removes exactly the acknowledged packets from the in-flight table.\<close>

lemma apply_ack_map:
  assumes "recovery_ok r"
  shows "inflight_map (rs_in_flight (RecoveryState_apply_ack k r)) = (inflight_map (rs_in_flight r))(k := None)"
    "inflight_map (rs_in_flight (RecoveryState_apply_ack_at k now r)) = (inflight_map (rs_in_flight r))(k := None)"
  using inflight_remove(2)[of "rs_in_flight r" k] assms
  by (auto simp: recovery_ok_def RecoveryState_apply_ack_def RecoveryState_apply_ack_at_def Let_def split: option.splits)

lemma receive_ack_frame:
  assumes "engine_ok config s" "idle_stream s"
  obtains s' where "EngineState_receive config (wire_frame (integrity config) (ack_packet k)) s =
      (Ok (ReceiveReport.Ack (key_packet_index k)), s')" "engine_ok config s'" "idle_stream s'"
    "inflight_map (rs_in_flight (es_recovery s')) = (inflight_map (rs_in_flight (es_recovery s)))(k := None)"
    "es_scheduler s' = es_scheduler s" "es_message s' = es_message s" "es_ack s' = es_ack s"
    "es_numbers s' = es_numbers s" "es_receive s' = es_receive s" "es_reassembly s' = es_reassembly s"
    "rs_last_tick_ms (es_recovery s') = rs_last_tick_ms (es_recovery s)"
proof -
  let ?s = "snd (receive_ack config k s)"
  have len: "length (ack_packet k) \<le> MAX_WIRE_BYTES" by simp
  have "receive_decoded config (decode_packet_bytes (ack_packet k)) s = (Ok (ReceiveReport.Ack (key_packet_index k)), ?s)"
    by (simp add: decode_ack_packet receive_decoded_def receive_ack_def)
  then obtain ig where r: "EngineState_receive config (wire_frame (integrity config) (ack_packet k)) s =
      (Ok (ReceiveReport.Ack (key_packet_index k)), ?s\<lparr>es_ingress := ig\<rparr>)"
    "idle_stream (?s\<lparr>es_ingress := ig\<rparr>)" "engine_ok config (?s\<lparr>es_ingress := ig\<rparr>)"
    by (rule receive_frame[OF assms len]) simp_all
  have map: "inflight_map (rs_in_flight (es_recovery ?s)) = (inflight_map (rs_in_flight (es_recovery s)))(k := None)"
    using apply_ack_map[OF engine_okD(2)[OF assms(1)]] by (simp add: receive_ack_def split: option.splits)
  show thesis
    by (rule that[OF r(1,3,2)]) (use map in \<open>simp_all add: receive_ack_def RecoveryState_apply_ack_def
      RecoveryState_apply_ack_at_def Let_def split: option.splits\<close>)
qed

lemma receive_ack_frames:
  assumes "engine_ok config s" "idle_stream s"
  shows "\<exists>s'. receive_all config (map (\<lambda>k. wire_frame (integrity config) (ack_packet k)) ks) s =
      (map (\<lambda>k. Ok (ReceiveReport.Ack (key_packet_index k))) ks, s') \<and> engine_ok config s' \<and> idle_stream s' \<and>
    inflight_map (rs_in_flight (es_recovery s')) = inflight_map (rs_in_flight (es_recovery s)) |` (- set ks) \<and>
    es_scheduler s' = es_scheduler s \<and> es_message s' = es_message s \<and> es_ack s' = es_ack s \<and>
    es_numbers s' = es_numbers s \<and> es_receive s' = es_receive s \<and> es_reassembly s' = es_reassembly s \<and>
    rs_last_tick_ms (es_recovery s') = rs_last_tick_ms (es_recovery s)"
  using assms
proof (induction ks arbitrary: s)
  case (Cons k ks)
  obtain s1 where s1: "EngineState_receive config (wire_frame (integrity config) (ack_packet k)) s =
      (Ok (ReceiveReport.Ack (key_packet_index k)), s1)" "engine_ok config s1" "idle_stream s1"
    "inflight_map (rs_in_flight (es_recovery s1)) = (inflight_map (rs_in_flight (es_recovery s)))(k := None)"
    "es_scheduler s1 = es_scheduler s" "es_message s1 = es_message s" "es_ack s1 = es_ack s"
    "es_numbers s1 = es_numbers s" "es_receive s1 = es_receive s" "es_reassembly s1 = es_reassembly s"
    "rs_last_tick_ms (es_recovery s1) = rs_last_tick_ms (es_recovery s)"
    by (rule receive_ack_frame[OF Cons.prems])
  from Cons.IH[OF s1(2,3)] obtain s2 where
    s2: "receive_all config (map (\<lambda>k. wire_frame (integrity config) (ack_packet k)) ks) s1 =
      (map (\<lambda>k. Ok (ReceiveReport.Ack (key_packet_index k))) ks, s2)" "engine_ok config s2" "idle_stream s2"
    "inflight_map (rs_in_flight (es_recovery s2)) = inflight_map (rs_in_flight (es_recovery s1)) |` (- set ks)"
    "es_scheduler s2 = es_scheduler s1" "es_message s2 = es_message s1" "es_ack s2 = es_ack s1"
    "es_numbers s2 = es_numbers s1" "es_receive s2 = es_receive s1" "es_reassembly s2 = es_reassembly s1"
    "rs_last_tick_ms (es_recovery s2) = rs_last_tick_ms (es_recovery s1)" by blast
  have "m(k := None) |` (- set ks) = m |` (- set (k # ks))" for m :: "PacketKey \<Rightarrow> InFlightPacket option"
    by (auto simp: restrict_map_def)
  then show ?case using s1 s2 by (intro exI[of _ s2]) simp
qed (simp add: restrict_map_def)

section \<open>One message across the link\<close>

text \<open>
  \<open>transfer\<close> drives one message from the first engine to the second: send it, poll the sender for its
  frames, hand them to the receiver in the order the link chooses, poll the receiver, and hand what
  it transmits back to the sender.  The result is the list of messages the receiver delivered.
\<close>

definition transmitted :: "EnginePoll res list \<Rightarrow> bytes list" where
  "transmitted rs = concat (map (\<lambda>r. case r of Ok (EnginePoll.Transmit bs attempts) \<Rightarrow> [bs] | _ \<Rightarrow> []) rs)"

definition messages_of :: "EnginePoll res list \<Rightarrow> MessageEvent list" where
  "messages_of rs = concat (map (\<lambda>r. case r of Ok (EnginePoll.Message ev) \<Rightarrow> [ev] | _ \<Rightarrow> []) rs)"

definition transfer :: "EngineConfig \<Rightarrow> bytes \<Rightarrow> bytes \<times> nat list \<times> u64 \<times> u64 \<Rightarrow> EngineState \<times> EngineState \<Rightarrow>
    MessageEvent list \<times> EngineState \<times> EngineState" where
  "transfer config tx = (\<lambda>(msg, order, ta, tb) (a, b).
     let a1 = snd (EngineState_send_data config msg a);
         (out, a2) = poll_times config ta tx (length order) a1;
         (reports, b1) = receive_all config (map (nth (transmitted out)) order) b;
         (back, b2) = poll_times config tb tx (Suc (length order)) b1;
         (acks, a3) = receive_all config (transmitted back) a2
     in (messages_of back, a3, b2))"

fun session :: "EngineConfig \<Rightarrow> bytes \<Rightarrow> (bytes \<times> nat list \<times> u64 \<times> u64) list \<Rightarrow> EngineState \<times> EngineState \<Rightarrow>
    MessageEvent list \<times> EngineState \<times> EngineState" where
  "session config tx [] (a, b) = ([], a, b)"
| "session config tx (x # xs) (a, b) =
     (case transfer config tx x (a, b) of (ms, a1, b1) \<Rightarrow>
      case session config tx xs (a1, b1) of (ms', a2, b2) \<Rightarrow> (ms @ ms', a2, b2))"

definition quiet :: "EngineConfig \<Rightarrow> EngineState \<Rightarrow> bool" where
  "quiet config s \<longleftrightarrow> engine_ok config s \<and> idle_stream s \<and> no_urgent s \<and> sched_view (es_scheduler s) QueueKind.NewData = [] \<and>
     message_list (es_message s) = [] \<and> dom (inflight_map (rs_in_flight (es_recovery s))) = {} \<and>
     dom (reasm_map (es_reassembly s)) = {}"

definition carried :: "EngineConfig \<Rightarrow> bytes \<times> nat list \<times> u64 \<times> u64 \<Rightarrow> bool" where
  "carried config = (\<lambda>(msg, order, ta, tb). length msg \<le> MAX_MESSAGE_BYTES \<and> distinct order \<and>
     set order = {..<fragment_count (length msg) (fragment_limit config PacketType.Data)} \<and>
     fragment_count (length msg) (fragment_limit config PacketType.Data) \<le> MAX_EVENTS)"

lemma quiet_new: "quiet config (EngineState_new initial config)"
proof -
  have "queue_list EventQueue_new = []" by (simp add: EventQueue_new_def queue_list_def ring_list_Nil)
  then show ?thesis
    using new_engine_idle[of initial config]
    by (simp add: quiet_def no_urgent_def)
       (simp add: EngineState_new_def SchedulerState_new_def RecoveryState_new_def inflight.lookup_empty fun_eq_iff)
qed

lemma quiet_packets:
  assumes "engine_ok config s" "dom (inflight_map (rs_in_flight (es_recovery s))) = {}"
  shows "RecoveryState_packets (es_recovery s) = []" "RecoveryState_in_flight_len (es_recovery s) = 0"
proof -
  have ok: "inflight_ok (rs_in_flight (es_recovery s))" using engine_okD(2)[OF assms(1)] by (simp add: recovery_ok_def)
  show "RecoveryState_packets (es_recovery s) = []"
    using assms(2) by (simp add: dom_inflight_map RecoveryState_packets_def InFlightPackets_packets_def)
  show "RecoveryState_in_flight_len (es_recovery s) = 0"
    using inflight_len_card[OF ok] assms(2) by (simp add: RecoveryState_in_flight_len_def InFlightPackets_len_def)
qed

lemma quiet_calm: "quiet config s \<Longrightarrow> calm config now s"
  using quiet_packets[of config s] by (simp add: quiet_def calm_def)

text \<open>
  The packet table holds exactly the packets of the fragments \<open>U\<close> of a message, each as \<open>f\<close> says.
\<close>

definition tracked :: "MessageId \<Rightarrow> (nat \<Rightarrow> InFlightPacket) \<Rightarrow> nat set \<Rightarrow> (PacketKey \<Rightarrow> InFlightPacket option) \<Rightarrow> bool" where
  "tracked mid f U m \<longleftrightarrow> dom m = frag_key mid ` U \<and> (\<forall>i\<in>U. m (frag_key mid i) = Some (f i))"

lemma frag_key_eq: "i < 2 ^ 16 \<Longrightarrow> j < 2 ^ 16 \<Longrightarrow> frag_key mid i = frag_key mid j \<longleftrightarrow> i = j"
  by (simp add: PacketKey_new_def word_of_nat_eq_iff take_bit_nat_eq_self)

lemma tracked_noted:
  "tracked mid f U m \<Longrightarrow> tracked mid (note_packet prio now \<circ> f) U (noted prio now (frag_key mid ` U) m)"
  by (auto simp: tracked_def noted_def)

lemma tracked_acked:
  assumes "tracked mid f U m" "U \<union> set js \<subseteq> {..<2 ^ 16}"
  shows "tracked mid f (U - set js) (m |` (- frag_key mid ` set js))"
proof -
  let ?K = "frag_key mid ` set js"
  have inj: "inj_on (frag_key mid) (U \<union> set js)"
  proof (rule inj_onI)
    fix i j assume "i \<in> U \<union> set js" "j \<in> U \<union> set js" and eq: "frag_key mid i = frag_key mid j"
    then have "i < 2 ^ 16" "j < 2 ^ 16" using assms(2) by (auto simp only: subset_iff lessThan_iff)
    then show "i = j" using eq by (simp only: frag_key_eq)
  qed
  have "frag_key mid ` U - ?K = frag_key mid ` (U - set js)"
    by (rule inj_on_image_set_diff[OF inj, symmetric]) auto
  moreover have "dom (m |` (- ?K)) = dom m - ?K" by auto
  moreover have "(m |` (- ?K)) (frag_key mid i) = Some (f i)" if "i \<in> U - set js" for i
    using assms(1) inj_on_image_mem_iff[OF inj, of i "set js"] that by (simp add: tracked_def)
  ultimately show ?thesis using assms(1) by (simp add: tracked_def)
qed

lemma find_key: "distinct (map f xs) \<Longrightarrow> x \<in> set xs \<Longrightarrow> find (\<lambda>y. f y = f x) xs = Some x"
  by (induction xs) auto

definition frag_sent :: "EngineConfig \<Rightarrow> MessageId \<Rightarrow> bytes \<Rightarrow> u64 \<Rightarrow> u8 \<Rightarrow> nat \<Rightarrow> InFlightPacket" where
  "frag_sent config mid msg t attempts i =
     (frag_inflight PacketType.Data mid t (frag_write (integrity config) PacketType.Data mid
        (fragment_limit config PacketType.Data) msg i))\<lparr>if_sent := True, if_attempts := attempts\<rparr>"

text \<open>The sending half: the message is queued and its frames go out in order.\<close>

lemma send_quiet:
  assumes "quiet config a" "length msg \<le> MAX_MESSAGE_BYTES"
    and "NumberState_alloc_message_id (es_numbers a) = (mid, numbers)" "n = fragment_count (length msg) fb"
    and "fb = fragment_limit config PacketType.Data" "n \<le> MAX_EVENTS"
  defines "ws \<equiv> message_writes (integrity config) PacketType.Data mid fb msg"
  obtains q r where
    "EngineState_send_data config msg a = (Ok mid, a\<lparr>es_numbers := numbers, es_scheduler := q, es_recovery := r\<rparr>)"
    "sched_view q = (\<lambda>_. [])(QueueKind.NewData := map EngineOutput.Write ws)"
    "tracked mid (\<lambda>i. frag_inflight PacketType.Data mid (ClockState_now_ms (es_clock a))
       (frag_write (integrity config) PacketType.Data mid fb msg i)) {..<n} (inflight_map (rs_in_flight r))"
proof -
  have len: "length ws = n" by (simp add: message_writes_def assms(4) ws_def)
  have "sched_view (es_scheduler a) k = []" for k
    using assms(1) by (cases k) (simp_all add: quiet_def no_urgent_def)
  then have Q: "engine_ok config a" "sched_view (es_scheduler a) = (\<lambda>_. [])" "dom (inflight_map (rs_in_flight (es_recovery a))) = {}"
    using assms(1) by (auto simp: quiet_def)
  then have "view_events (sched_view (es_scheduler a)) = []" by (simp add: view_events_def)
  then have empty: "SchedulerState_len (es_scheduler a) = 0" "fresh_id mid a"
    using Q(3) length_view_events[of "es_scheduler a"] by (simp_all add: fresh_id_def)
  have room: "length msg \<le> MAX_MESSAGE_BYTES \<and> SchedulerState_len (es_scheduler a) + length ws \<le> MAX_EVENTS \<and>
      RecoveryState_in_flight_len (es_recovery a) + length ws \<le> MAX_IN_FLIGHT_PACKETS"
    using assms(2,6) len empty(1) quiet_packets(2)[OF Q(1,3)] by simp
  obtain q r where send: "send_data_impl config msg a = (Ok mid, a\<lparr>es_numbers := numbers, es_scheduler := q, es_recovery := r\<rparr>)"
    "sched_view q = (sched_view (es_scheduler a))(QueueKind.NewData :=
       sched_view (es_scheduler a) QueueKind.NewData @ map EngineOutput.Write ws)"
    "inflight_map (rs_in_flight r) = (\<lambda>k. case find (\<lambda>w. wr_key w = k) ws of
          Some w \<Rightarrow> Some (frag_inflight PacketType.Data mid (ClockState_now_ms (es_clock a)) w)
        | None \<Rightarrow> inflight_map (rs_in_flight (es_recovery a)) k)"
    using send_fresh[OF Q(1) assms(3) empty(2), of msg] room unfolding assms(5)[symmetric] ws_def[symmetric] Let_def
    by (auto simp del: fun_upd_apply)
  have dist: "distinct (map wr_key ws)" unfolding ws_def by (rule message_writes_keys) (use assms(4,6) in simp)
  have ws: "frag_write (integrity config) PacketType.Data mid fb msg i \<in> set ws"
    "wr_key (frag_write (integrity config) PacketType.Data mid fb msg i) = frag_key mid i" if "i < n" for i
    using that by (auto simp: ws_def message_writes_def assms(4) frag_write_def Let_def)
  have none: "inflight_map (rs_in_flight (es_recovery a)) k = None" for k using Q(3) by auto
  have at: "inflight_map (rs_in_flight r) (frag_key mid i) = Some (frag_inflight PacketType.Data mid
      (ClockState_now_ms (es_clock a)) (frag_write (integrity config) PacketType.Data mid fb msg i))" if "i < n" for i
    unfolding send(3) using find_key[OF dist ws(1)[OF that]] ws(2)[OF that] by simp
  have "k \<in> frag_key mid ` {..<n}" if "inflight_map (rs_in_flight r) k \<noteq> None" for k
  proof -
    have "find (\<lambda>w. wr_key w = k) ws \<noteq> None" using that none unfolding send(3) by (auto split: option.splits)
    then obtain w where "w \<in> set ws" "wr_key w = k" unfolding find_None_iff by auto
    then show ?thesis by (auto simp: ws_def message_writes_def assms(4) frag_write_def Let_def)
  qed
  then have "tracked mid (\<lambda>i. frag_inflight PacketType.Data mid (ClockState_now_ms (es_clock a))
       (frag_write (integrity config) PacketType.Data mid fb msg i)) {..<n} (inflight_map (rs_in_flight r))"
    using at by (auto simp: tracked_def)
  then show thesis
    using that send(1,2) Q(2) by (simp add: EngineState_send_data_def)
qed

lemma packets_tracked:
  assumes "engine_ok config s" "tracked mid f U (inflight_map (rs_in_flight (es_recovery s)))"
  shows "set (RecoveryState_packets (es_recovery s)) = f ` U"
proof -
  let ?m = "inflight_map (rs_in_flight (es_recovery s))"
  have ok: "inflight_ok (rs_in_flight (es_recovery s))" using engine_okD(2)[OF assms(1)] by (simp add: recovery_ok_def)
  have "p \<in> set (RecoveryState_packets (es_recovery s)) \<longleftrightarrow> (\<exists>k. ?m k = Some p)" for p
    using inflight_map_Some[OF ok] by (auto simp: RecoveryState_packets_def)
  moreover have "(\<exists>k. ?m k = Some p) \<longleftrightarrow> p \<in> f ` U" for p
    using assms(2) by (force simp: tracked_def dom_def)
  ultimately show ?thesis by blast
qed

lemma transfer_send:
  assumes "quiet config a" "length msg \<le> MAX_MESSAGE_BYTES" "MAX_WIRE_BYTES \<le> length tx"
    and "NumberState_alloc_message_id (es_numbers a) = (mid, numbers)" "n = fragment_count (length msg) fb"
    and "fb = fragment_limit config PacketType.Data" "n \<le> MAX_EVENTS"
  obtains a1 a2 where "EngineState_send_data config msg a = (Ok mid, a1)"
    "poll_times config now tx n a1 =
      (map (\<lambda>i. Ok (EnginePoll.Transmit (frag_frame (integrity config) PacketType.Data mid fb msg i) 0)) [0..<n], a2)"
    "engine_ok config a2" "idle_stream a2" "no_urgent a2" "sched_view (es_scheduler a2) QueueKind.NewData = []"
    "message_list (es_message a2) = []" "es_numbers a2 = numbers" "dom (reasm_map (es_reassembly a2)) = {}"
    "tracked mid (frag_sent config mid msg now 0) {..<n} (inflight_map (rs_in_flight (es_recovery a2)))"
    "rs_last_tick_ms (es_recovery a2) = Some now" "es_receive a2 = es_receive a"
proof -
  let ?cfg = "integrity config"
  let ?w = "frag_write ?cfg PacketType.Data mid fb msg" and ?ws = "message_writes ?cfg PacketType.Data mid fb msg"
  have len: "length ?ws = n" by (simp add: message_writes_def assms(5))
  have Q: "engine_ok config a" "idle_stream a" "no_urgent a" "message_list (es_message a) = []"
    "dom (reasm_map (es_reassembly a)) = {}" using assms(1) by (auto simp: quiet_def)
  obtain q r where send: "EngineState_send_data config msg a = (Ok mid, a\<lparr>es_numbers := numbers, es_scheduler := q, es_recovery := r\<rparr>)"
    "sched_view q = (\<lambda>_. [])(QueueKind.NewData := map EngineOutput.Write ?ws)"
    "tracked mid (\<lambda>i. frag_inflight PacketType.Data mid (ClockState_now_ms (es_clock a)) (?w i)) {..<n} (inflight_map (rs_in_flight r))"
    by (rule send_quiet[OF assms(1,2,4,5,6,7)])
  let ?a1 = "a\<lparr>es_numbers := numbers, es_scheduler := q, es_recovery := r\<rparr>"
  have ok1: "engine_ok config ?a1" using engine_ok_ops(1)[OF Q(1), of msg] send(1) by simp
  have "set (RecoveryState_packets r) = (\<lambda>i. frag_inflight PacketType.Data mid (ClockState_now_ms (es_clock a)) (?w i)) ` {..<n}"
    using packets_tracked[OF ok1] send(3) by simp
  then have calm: "calm config now ?a1" using ok1 by (auto simp: calm_def due_def frag_inflight_def)
  have nu: "no_urgent ?a1" using Q(3) send(2) by (simp add: no_urgent_def)
  have prio: "\<forall>w\<in>set ?ws. wr_priority w = WritePriority.NewData \<and> wr_attempts w = 0"
    by (auto simp: message_writes_def frag_write_def Let_def)
  have data: "sched_view (es_scheduler ?a1) QueueKind.NewData = map EngineOutput.Write ?ws" using send(2) by simp
  have dist: "distinct (map wr_key ?ws)" by (rule message_writes_keys) (use assms(5,7) in simp)
  have msg0: "message_list (es_message ?a1) = []" using Q(4) by simp
  obtain a2 where a2: "poll_times config now tx (length ?ws) ?a1 =
      (map (\<lambda>w. Ok (EnginePoll.Transmit (take (wr_len w) (wr_bytes w)) 0)) ?ws, a2)"
    "?ws \<noteq> [] \<longrightarrow> poll_keeps config now ?a1 a2" "engine_ok config a2" "no_urgent a2" "message_list (es_message a2) = []"
    "sched_view (es_scheduler a2) = (sched_view (es_scheduler ?a1))(QueueKind.NewData := [])"
    "inflight_map (rs_in_flight (es_recovery a2)) = noted WritePriority.NewData now (wr_key ` set ?ws) (inflight_map (rs_in_flight (es_recovery ?a1)))"
    using poll_times_data[OF calm nu msg0 assms(3) data dist prio] by blast
  have "?ws \<noteq> []"
    using fragment_count_bounds(1)[of fb "length msg"] fragment_limit_bounds(1)[of PacketType.Data config] len assms(5,6)
    by auto
  then have K: "poll_keeps config now ?a1 a2" using a2(2) by blast
  have keys: "wr_key ` set ?ws = frag_key mid ` {..<n}"
    by (simp add: message_writes_def frag_write_def Let_def assms(5) image_image atLeast0LessThan)
  have noted: "note_packet WritePriority.NewData now \<circ> (\<lambda>i. frag_inflight PacketType.Data mid c (?w i)) =
      frag_sent config mid msg now 0" for c
    by (auto simp: note_packet_def frag_sent_def frag_inflight_def assms(6))
  have tr: "tracked mid (frag_sent config mid msg now 0) {..<n} (inflight_map (rs_in_flight (es_recovery a2)))"
    using tracked_noted[OF send(3), of WritePriority.NewData now] a2(7) keys unfolding noted by simp
  have frames: "map (\<lambda>w. Ok (EnginePoll.Transmit (take (wr_len w) (wr_bytes w)) 0)) ?ws =
      map (\<lambda>i. Ok (EnginePoll.Transmit (frag_frame (integrity config) PacketType.Data mid fb msg i) 0)) [0..<n]"
    by (simp add: message_writes_def frag_write_def Let_def assms(5))
  have slots: "dom (reasm_map (es_reassembly a2)) = {}" by (rule poll_keeps_no_slots[OF ok1 K]) (use Q(5) in simp)
  show thesis
    by (rule that[OF send(1) a2(1)[unfolded frames len] a2(3) _ a2(4) _ a2(5) _ slots tr])
       (use K a2(6) Q(2) in \<open>simp_all add: poll_keeps_def idle_stream_def\<close>)
qed

text \<open>
  The answers of a receiver that holds one complete message and the keys of its fragments: the ACKs in the
  order of arrival and then the message.
\<close>

lemma answer_polls:
  assumes "engine_ok config b" "idle_stream b" "sched_view (es_scheduler b) = (\<lambda>_. [])" "message_list (es_message b) = [ev]"
    and "ack_list (es_ack b) = map (frag_key mid) order" "order \<noteq> []" "dom (inflight_map (rs_in_flight (es_recovery b))) = {}"
    and "dom (reasm_map (es_reassembly b)) = {}" "MAX_WIRE_BYTES \<le> length tx"
  obtains b2 where "poll_times config now tx (Suc (length order)) b =
      (map (\<lambda>i. Ok (EnginePoll.Transmit (wire_frame (integrity config) (ack_packet (frag_key mid i))) 0)) order @
       [Ok (EnginePoll.Message ev)], b2)"
    "quiet config b2" "es_receive b2 = es_receive b" "es_numbers b2 = es_numbers b"
proof -
  have calm: "calm config now b" using quiet_packets(1)[OF assms(1,7)] assms(1) by (simp add: calm_def)
  obtain b' where b': "poll_times config now tx (length order) b =
      (map (\<lambda>i. Ok (EnginePoll.Transmit (wire_frame (integrity config) (ack_packet (frag_key mid i))) 0)) order, b')"
    "order \<noteq> [] \<longrightarrow> poll_keeps config now b b'" "calm config now b'" "ack_list (es_ack b') = []"
    "es_scheduler b' = es_scheduler b" "es_message b' = es_message b"
    using poll_times_acks[OF calm assms(5,9)] by (auto simp: comp_def)
  have K: "poll_keeps config now b b'" using b'(2) assms(6) by blast
  have nu: "no_urgent b'" using assms(3) b'(4,5) by (simp add: no_urgent_def)
  obtain b2 where b2: "EngineState_poll config now tx b' = (Ok (EnginePoll.Message ev), b2)" "poll_keeps config now b' b2"
    "engine_ok config b2" "ack_list (es_ack b2) = []" "sched_view (es_scheduler b2) = sched_view (es_scheduler b')"
    "message_list (es_message b2) = []"
    by (rule poll_next_message[OF b'(3) nu]) (use assms(4) b'(6) in simp)
  note K2 = poll_keeps_trans[OF K b2(2)]
  have slots: "dom (reasm_map (es_reassembly b2)) = {}" by (rule poll_keeps_no_slots[OF assms(1) K2 assms(8)])
  have "quiet config b2"
    using b2(3-6) K2 assms(2,3,7) b'(5) slots by (simp add: quiet_def poll_keeps_def no_urgent_def idle_stream_def)
  then show thesis using that[OF poll_times_snoc[OF b'(1) b2(1)]] K2 by (simp add: poll_keeps_def)
qed

text \<open>The receiving half: the frames arrive in any order, the ACKs and then the message come out.\<close>

lemma receive_quiet:
  assumes "quiet config b" "length msg \<le> MAX_MESSAGE_BYTES"
    and "\<forall>k\<in>set (dedup_recent (rc_dedup (es_receive b))). key_message_id k \<noteq> mid"
    and "fb = fragment_limit config PacketType.Data" "n = fragment_count (length msg) fb" "n \<le> MAX_EVENTS"
    and "distinct order" "set order = {..<n}"
  obtains b1 ev where
    "receive_all config (map (frag_frame (integrity config) PacketType.Data mid fb msg) order) b =
      (map (\<lambda>i. Ok (ReceiveReport.Packet (PacketIndex (of_nat i)))) order, b1)"
    "MessageEvent_as_bytes ev = Ok msg" "me_packet_type ev = PacketType.Data" "me_message_id ev = mid"
    "engine_ok config b1" "idle_stream b1" "sched_view (es_scheduler b1) = (\<lambda>_. [])" "message_list (es_message b1) = [ev]"
    "ack_list (es_ack b1) = map (frag_key mid) order" "order \<noteq> []" "dom (inflight_map (rs_in_flight (es_recovery b1))) = {}"
    "dom (reasm_map (es_reassembly b1)) = {}"
    "set (dedup_recent (rc_dedup (es_receive b1))) \<subseteq> frag_key mid ` set order \<union> set (dedup_recent (rc_dedup (es_receive b)))"
proof -
  have Q: "engine_ok config b" "idle_stream b" "no_urgent b" "sched_view (es_scheduler b) QueueKind.NewData = []"
    "message_list (es_message b) = []" "dom (inflight_map (rs_in_flight (es_recovery b))) = {}"
    "dom (reasm_map (es_reassembly b)) = {}" "ack_list (es_ack b) = []" using assms(1) by (auto simp: quiet_def no_urgent_def)
  have fb: "0 < fb" "fb \<le> 113 - Integrity_tag_len (integrity config)"
    using fragment_limit_bounds[of PacketType.Data config] assms(4) by simp_all
  have len: "length order = n" using distinct_card[OF assms(7)] assms(8) by simp
  have none: "reasm_map (es_reassembly b) k = None" for k using Q(7) by auto
  have card: "card (dom (reasm_map (es_reassembly b))) < MAX_REASSEMBLY_MESSAGES" using Q(7) by simp
  have room: "length (ack_list (es_ack b)) + length order \<le> MAX_PENDING_ACKS" using Q(8) len assms(6) by simp
  obtain b1 ev where b1: "receive_all config (map (frag_frame (integrity config) PacketType.Data mid fb msg) order) b =
      (map (\<lambda>i. Ok (ReceiveReport.Packet (PacketIndex (of_nat i)))) order, b1)"
    "engine_ok config b1" "idle_stream b1" "es_message b1 = MessageState_push ev (es_message b)"
    "MessageEvent_as_bytes ev = Ok msg" "me_packet_type ev = PacketType.Data" "me_message_id ev = mid"
    "ack_list (es_ack b1) = ack_list (es_ack b) @ map (frag_key mid) order"
    "es_scheduler b1 = es_scheduler b" "es_recovery b1 = es_recovery b"
    "set (dedup_recent (rc_dedup (es_receive b1))) \<subseteq> frag_key mid ` set order \<union> set (dedup_recent (rc_dedup (es_receive b)))"
    "reasm_map (es_reassembly b1) = reasm_map (es_reassembly b)"
    by (rule receive_message[OF assms(2) fb assms(6)[unfolded assms(5)] Q(1,2) assms(7) assms(8)[unfolded assms(5)]
          assms(3) room none card])
  have "messages_ok (es_message b)" using Q(1) by (simp add: engine_ok_def events_ok_def)
  then have ml: "message_list (es_message b1) = [ev]" using messages.push_contents[of "es_message b" ev] b1(4) Q(5) by simp
  have acks: "ack_list (es_ack b1) = map (frag_key mid) order" using b1(8) Q(8) by simp
  have ne: "order \<noteq> []" using len fragment_count_bounds(1)[OF fb(1), of "length msg"] assms(5) by auto
  have "sched_view (es_scheduler b1) k = []" for k using Q(3,4) b1(9) by (cases k) (simp_all add: no_urgent_def)
  then have sv: "sched_view (es_scheduler b1) = (\<lambda>_. [])" by auto
  show thesis by (rule that[OF b1(1,5-7,2,3) sv ml acks ne _ _ b1(11)]) (use b1(10,12) Q(6,7) in simp_all)
qed

lemma transfer_receive:
  assumes "quiet config b" "length msg \<le> MAX_MESSAGE_BYTES" "MAX_WIRE_BYTES \<le> length tx"
    and "\<forall>k\<in>set (dedup_recent (rc_dedup (es_receive b))). key_message_id k \<noteq> mid"
    and "fb = fragment_limit config PacketType.Data" "n = fragment_count (length msg) fb" "n \<le> MAX_EVENTS"
    and "distinct order" "set order = {..<n}"
  obtains b1 b2 ev where
    "receive_all config (map (frag_frame (integrity config) PacketType.Data mid fb msg) order) b =
      (map (\<lambda>i. Ok (ReceiveReport.Packet (PacketIndex (of_nat i)))) order, b1)"
    "poll_times config now tx (Suc (length order)) b1 =
      (map (\<lambda>i. Ok (EnginePoll.Transmit (wire_frame (integrity config) (ack_packet (frag_key mid i))) 0)) order @
       [Ok (EnginePoll.Message ev)], b2)"
    "MessageEvent_as_bytes ev = Ok msg" "me_packet_type ev = PacketType.Data" "me_message_id ev = mid" "quiet config b2"
    "set (dedup_recent (rc_dedup (es_receive b2))) \<subseteq> frag_key mid ` set order \<union> set (dedup_recent (rc_dedup (es_receive b)))"
    "es_numbers b2 = es_numbers b1"
proof -
  obtain b1 ev where b1: "receive_all config (map (frag_frame (integrity config) PacketType.Data mid fb msg) order) b =
      (map (\<lambda>i. Ok (ReceiveReport.Packet (PacketIndex (of_nat i)))) order, b1)"
    "MessageEvent_as_bytes ev = Ok msg" "me_packet_type ev = PacketType.Data" "me_message_id ev = mid"
    "engine_ok config b1" "idle_stream b1" "sched_view (es_scheduler b1) = (\<lambda>_. [])" "message_list (es_message b1) = [ev]"
    "ack_list (es_ack b1) = map (frag_key mid) order" "order \<noteq> []" "dom (inflight_map (rs_in_flight (es_recovery b1))) = {}"
    "dom (reasm_map (es_reassembly b1)) = {}"
    "set (dedup_recent (rc_dedup (es_receive b1))) \<subseteq> frag_key mid ` set order \<union> set (dedup_recent (rc_dedup (es_receive b)))"
    by (rule receive_quiet[OF assms(1,2,4-9)])
  obtain b2 where b2: "poll_times config now tx (Suc (length order)) b1 =
      (map (\<lambda>i. Ok (EnginePoll.Transmit (wire_frame (integrity config) (ack_packet (frag_key mid i))) 0)) order @
       [Ok (EnginePoll.Message ev)], b2)" "quiet config b2" "es_receive b2 = es_receive b1" "es_numbers b2 = es_numbers b1"
    by (rule answer_polls[OF b1(5-12) assms(3)])
  show thesis by (rule that[OF b1(1) b2(1) b1(2-4) b2(2) _ b2(4)]) (use b1(13) b2(3) in simp)
qed

text \<open>Both halves together: what each of the five steps of a transfer returns.\<close>

lemma transfer_steps:
  assumes "quiet config a" "quiet config b" "carried config (msg, order, ta, tb)" "MAX_WIRE_BYTES \<le> length tx"
    and "NumberState_alloc_message_id (es_numbers a) = (mid, numbers)"
    and "\<forall>k\<in>set (dedup_recent (rc_dedup (es_receive b))). key_message_id k \<noteq> mid"
  defines "frame \<equiv> frag_frame (integrity config) PacketType.Data mid (fragment_limit config PacketType.Data) msg"
    and "ack \<equiv> \<lambda>i. wire_frame (integrity config) (ack_packet (frag_key mid i))"
  obtains ev a1 a2 a3 b1 b2 where "EngineState_send_data config msg a = (Ok mid, a1)"
    "poll_times config ta tx (length order) a1 = (map (\<lambda>i. Ok (EnginePoll.Transmit (frame i) 0)) [0..<length order], a2)"
    "receive_all config (map frame order) b = (map (\<lambda>i. Ok (ReceiveReport.Packet (PacketIndex (of_nat i)))) order, b1)"
    "poll_times config tb tx (Suc (length order)) b1 =
      (map (\<lambda>i. Ok (EnginePoll.Transmit (ack i) 0)) order @ [Ok (EnginePoll.Message ev)], b2)"
    "receive_all config (map ack order) a2 = (map (\<lambda>i. Ok (ReceiveReport.Ack (PacketIndex (of_nat i)))) order, a3)"
    "MessageEvent_as_bytes ev = Ok msg" "me_packet_type ev = PacketType.Data" "me_message_id ev = mid"
    "quiet config a3" "quiet config b2" "es_numbers a3 = numbers"
    "\<forall>k\<in>set (dedup_recent (rc_dedup (es_receive b2))). key_message_id k = mid \<or> k \<in> set (dedup_recent (rc_dedup (es_receive b)))"
proof -
  let ?fb = "fragment_limit config PacketType.Data" and ?cfg = "integrity config"
  let ?n = "fragment_count (length msg) ?fb"
  have C: "length msg \<le> MAX_MESSAGE_BYTES" "distinct order" "set order = {..<?n}" "?n \<le> MAX_EVENTS"
    using assms(3) by (auto simp: carried_def)
  have len: "length order = ?n" using distinct_card[OF C(2)] C(3) by simp
  obtain a1 a2 where A: "EngineState_send_data config msg a = (Ok mid, a1)"
    "poll_times config ta tx ?n a1 = (map (\<lambda>i. Ok (EnginePoll.Transmit (frame i) 0)) [0..<?n], a2)"
    "engine_ok config a2" "idle_stream a2" "no_urgent a2" "sched_view (es_scheduler a2) QueueKind.NewData = []"
    "message_list (es_message a2) = []" "es_numbers a2 = numbers" "dom (reasm_map (es_reassembly a2)) = {}"
    "tracked mid (frag_sent config mid msg ta 0) {..<?n} (inflight_map (rs_in_flight (es_recovery a2)))"
    unfolding frame_def by (rule transfer_send[OF assms(1) C(1) assms(4,5) refl refl C(4), where now = ta])
  obtain b1 b2 ev where B: "receive_all config (map frame order) b =
      (map (\<lambda>i. Ok (ReceiveReport.Packet (PacketIndex (of_nat i)))) order, b1)"
    "poll_times config tb tx (Suc (length order)) b1 =
      (map (\<lambda>i. Ok (EnginePoll.Transmit (ack i) 0)) order @ [Ok (EnginePoll.Message ev)], b2)"
    "MessageEvent_as_bytes ev = Ok msg" "me_packet_type ev = PacketType.Data" "me_message_id ev = mid" "quiet config b2"
    "set (dedup_recent (rc_dedup (es_receive b2))) \<subseteq> frag_key mid ` set order \<union> set (dedup_recent (rc_dedup (es_receive b)))"
    unfolding frame_def ack_def by (rule transfer_receive[OF assms(2) C(1) assms(4,6) refl refl C(4,2,3)])
  let ?ks = "map (frag_key mid) order"
  obtain a3 where A3: "receive_all config (map (\<lambda>k. wire_frame ?cfg (ack_packet k)) ?ks) a2 =
      (map (\<lambda>k. Ok (ReceiveReport.Ack (key_packet_index k))) ?ks, a3)" "engine_ok config a3" "idle_stream a3"
    "inflight_map (rs_in_flight (es_recovery a3)) = inflight_map (rs_in_flight (es_recovery a2)) |` (- set ?ks)"
    "es_scheduler a3 = es_scheduler a2" "es_message a3 = es_message a2" "es_ack a3 = es_ack a2"
    "es_numbers a3 = es_numbers a2" "es_receive a3 = es_receive a2" "es_reassembly a3 = es_reassembly a2"
    using receive_ack_frames[OF A(3,4), of ?ks] by blast
  have acks: "receive_all config (map ack order) a2 = (map (\<lambda>i. Ok (ReceiveReport.Ack (PacketIndex (of_nat i)))) order, a3)"
    using A3(1) by (simp add: comp_def ack_def PacketKey_new_def)
  have "dom (inflight_map (rs_in_flight (es_recovery a3))) = {}" using A3(4) A(10) C(3) by (auto simp: tracked_def)
  then have qa: "quiet config a3" using A3 A by (simp add: quiet_def no_urgent_def)
  have dd: "\<forall>k\<in>set (dedup_recent (rc_dedup (es_receive b2))). key_message_id k = mid \<or>
      k \<in> set (dedup_recent (rc_dedup (es_receive b)))"
    using B(7) by (auto simp: PacketKey_new_def)
  show thesis
    by (rule that[OF A(1) A(2)[folded len] B(1,2) acks B(3-5) qa B(6) _ dd]) (use A3(8) A(8) in simp)
qed

text \<open>The frames in the order the link chose, and what the answers of the receiver contain.\<close>

lemma link_order: "set order = {..<length order} \<Longrightarrow> map ((!) (map f [0..<length order])) order = map f order"
  by (intro map_cong) auto

lemma transmitted_frames:
  "transmitted (map (\<lambda>i. Ok (EnginePoll.Transmit (f i) 0)) xs) = map f xs"
  "transmitted (map (\<lambda>i. Ok (EnginePoll.Transmit (f i) 0)) xs @ [Ok (EnginePoll.Message ev)]) = map f xs"
  "messages_of (map (\<lambda>i. Ok (EnginePoll.Transmit (f i) 0)) xs @ [Ok (EnginePoll.Message ev)]) = [ev]"
  by (induction xs) (simp_all add: transmitted_def messages_of_def)

lemma carried_order: "carried config (msg, order, ta, tb) \<Longrightarrow> set order = {..<length order}"
  using distinct_card[of order] by (auto simp: carried_def)

lemma transfer_delivers:
  assumes "quiet config a" "quiet config b" "carried config (msg, order, ta, tb)" "MAX_WIRE_BYTES \<le> length tx"
    and "NumberState_alloc_message_id (es_numbers a) = (mid, numbers)"
    and "\<forall>k\<in>set (dedup_recent (rc_dedup (es_receive b))). key_message_id k \<noteq> mid"
  obtains ev a' b' where "transfer config tx (msg, order, ta, tb) (a, b) = ([ev], a', b')"
    "MessageEvent_as_bytes ev = Ok msg" "me_packet_type ev = PacketType.Data" "me_message_id ev = mid"
    "quiet config a'" "quiet config b'" "es_numbers a' = numbers"
    "\<forall>k\<in>set (dedup_recent (rc_dedup (es_receive b'))). key_message_id k = mid \<or> k \<in> set (dedup_recent (rc_dedup (es_receive b)))"
proof (rule transfer_steps[OF assms])
  fix ev a1 a2 a3 b1 b2
  let ?frame = "frag_frame (integrity config) PacketType.Data mid (fragment_limit config PacketType.Data) msg"
    and ?ack = "\<lambda>i. wire_frame (integrity config) (ack_packet (frag_key mid i))"
  assume S: "EngineState_send_data config msg a = (Ok mid, a1)"
    "poll_times config ta tx (length order) a1 = (map (\<lambda>i. Ok (EnginePoll.Transmit (?frame i) 0)) [0..<length order], a2)"
    "receive_all config (map ?frame order) b = (map (\<lambda>i. Ok (ReceiveReport.Packet (PacketIndex (of_nat i)))) order, b1)"
    "poll_times config tb tx (Suc (length order)) b1 =
      (map (\<lambda>i. Ok (EnginePoll.Transmit (?ack i) 0)) order @ [Ok (EnginePoll.Message ev)], b2)"
    "receive_all config (map ?ack order) a2 = (map (\<lambda>i. Ok (ReceiveReport.Ack (PacketIndex (of_nat i)))) order, a3)"
  have "transfer config tx (msg, order, ta, tb) (a, b) = ([ev], a3, b2)"
    using S by (simp only: transfer_def prod.case Let_def snd_conv transmitted_frames link_order[OF carried_order[OF assms(3)]])
  then show "MessageEvent_as_bytes ev = Ok msg \<Longrightarrow> me_packet_type ev = PacketType.Data \<Longrightarrow> me_message_id ev = mid \<Longrightarrow>
    quiet config a3 \<Longrightarrow> quiet config b2 \<Longrightarrow> es_numbers a3 = numbers \<Longrightarrow>
    \<forall>k\<in>set (dedup_recent (rc_dedup (es_receive b2))). key_message_id k = mid \<or> k \<in> set (dedup_recent (rc_dedup (es_receive b))) \<Longrightarrow>
    thesis" by (rule that)
qed

section \<open>A whole session\<close>

lemma session_from_quiet:
  "quiet config a \<Longrightarrow> quiet config b \<Longrightarrow> \<forall>x\<in>set xs. carried config x \<Longrightarrow> MAX_WIRE_BYTES \<le> length tx \<Longrightarrow>
    distinct (alloc_ids (length xs) (es_numbers a)) \<Longrightarrow>
    \<forall>k\<in>set (dedup_recent (rc_dedup (es_receive b))). key_message_id k \<notin> set (alloc_ids (length xs) (es_numbers a)) \<Longrightarrow>
    \<exists>ms a' b'. session config tx xs (a, b) = (ms, a', b') \<and> map MessageEvent_as_bytes ms = map (\<lambda>(msg, _). Ok msg) xs \<and>
      map me_message_id ms = alloc_ids (length xs) (es_numbers a) \<and> quiet config a' \<and> quiet config b'"
proof (induction xs arbitrary: a b)
  case (Cons x xs)
  obtain msg order ta tb where x: "x = (msg, order, ta, tb)" by (cases x)
  obtain mid numbers where al: "NumberState_alloc_message_id (es_numbers a) = (mid, numbers)" by fastforce
  have ids: "alloc_ids (length (x # xs)) (es_numbers a) = mid # alloc_ids (length xs) numbers" using al by simp
  have c: "carried config (msg, order, ta, tb)" and cs: "\<forall>x\<in>set xs. carried config x" using Cons.prems(3) x by auto
  have fresh: "\<forall>k\<in>set (dedup_recent (rc_dedup (es_receive b))). key_message_id k \<noteq> mid"
    using Cons.prems(6) unfolding ids by auto
  obtain ev a1 b1 where T: "transfer config tx (msg, order, ta, tb) (a, b) = ([ev], a1, b1)"
    "MessageEvent_as_bytes ev = Ok msg" "me_packet_type ev = PacketType.Data" "me_message_id ev = mid"
    "quiet config a1" "quiet config b1" "es_numbers a1 = numbers"
    "\<forall>k\<in>set (dedup_recent (rc_dedup (es_receive b1))). key_message_id k = mid \<or> k \<in> set (dedup_recent (rc_dedup (es_receive b)))"
    by (rule transfer_delivers[OF Cons.prems(1,2) c Cons.prems(4) al fresh])
  have d: "distinct (alloc_ids (length xs) (es_numbers a1))" using Cons.prems(5) T(7) unfolding ids by simp
  have "\<forall>k\<in>set (dedup_recent (rc_dedup (es_receive b1))). key_message_id k \<notin> set (alloc_ids (length xs) (es_numbers a1))"
    using T(7,8) Cons.prems(5,6) unfolding ids by auto
  from Cons.IH[OF T(5,6) cs Cons.prems(4) d this] obtain ms a2 b2 where
    "session config tx xs (a1, b1) = (ms, a2, b2)" "map MessageEvent_as_bytes ms = map (\<lambda>(msg, _). Ok msg) xs"
    "map me_message_id ms = alloc_ids (length xs) (es_numbers a1)" "quiet config a2" "quiet config b2" by blast
  then show ?case using T x ids by (intro exI[of _ "ev # ms"] exI[of _ a2] exI[of _ b2]) simp
qed simp

end
