(* ===== verification/Endpoint_Peer.thy ===== *)
theory Endpoint_Peer
  imports Exchange
begin

text \<open>
  The peer slot (\<^verbatim>\<open>src/endpoint/peer.rs\<close>) and the two single-peer endpoints
  (\<^verbatim>\<open>src/endpoint/client.rs\<close>, \<^verbatim>\<open>src/endpoint/passive.rs\<close>).  A slot owns at most one engine and tracks
  the state of the connection, the times of the last activity and of the last ping, and whether
  a ping waits for its pong.  The lemmas show the invariant of the slot, that no operation panics,
  that the slot follows the life cycle Disconnected, Connecting, Connected, and how it pings.
\<close>

section \<open>endpoint/peer.rs\<close>

definition HELLO_MESSAGE :: bytes where "HELLO_MESSAGE = [0]"

definition DEFAULT_PING_INTERVAL_MS :: u64 where "DEFAULT_PING_INTERVAL_MS = 5000"

datatype PeerState = Disconnected | Connecting | Connected

datatype EndpointPoll =
    Transmit bytes u8
  | Message MessageEvent
  | SendFailed SendFailedEvent
  | Idle

record PeerSlot =
  ps_config :: EngineConfig
  ps_engine :: "Engine option"
  ps_state :: PeerState
  ps_last_seen_ms :: u64
  ps_last_ping_ms :: u64
  ps_pending_ping :: bool

definition PeerSlot_new :: "EngineConfig \<Rightarrow> PeerSlot" where
  "PeerSlot_new config = \<lparr>ps_config = config, ps_engine = None, ps_state = Disconnected,
     ps_last_seen_ms = 0, ps_last_ping_ms = 0, ps_pending_ping = False\<rparr>"

definition PeerSlot_default :: "DynamicRecoveryConfig option \<Rightarrow> PeerSlot" where
  "PeerSlot_default dyn = PeerSlot_new (EngineConfig_default dyn)"

definition PeerSlot_is_connected :: "PeerSlot \<Rightarrow> bool" where
  "PeerSlot_is_connected p \<longleftrightarrow> ps_state p = Connected"

definition PeerSlot_has_session :: "PeerSlot \<Rightarrow> bool" where
  "PeerSlot_has_session p \<longleftrightarrow> ps_engine p \<noteq> None"

definition PeerSlot_connect :: "u64 \<Rightarrow> PeerSlot \<Rightarrow> MessageId res \<times> PeerSlot" where
  "PeerSlot_connect now p =
     (let p = p\<lparr>ps_state := Connecting, ps_last_seen_ms := now, ps_last_ping_ms := now, ps_pending_ping := False\<rparr> in
      update_field (Engine_send HELLO_MESSAGE (Engine_new (ps_config p))) (\<lambda>e. p\<lparr>ps_engine := Some e\<rparr>))"

definition PeerSlot_accept_passive :: "u64 \<Rightarrow> PeerSlot \<Rightarrow> PeerSlot" where
  "PeerSlot_accept_passive now p =
     p\<lparr>ps_engine := Some (Engine_new (ps_config p)), ps_state := Connecting, ps_last_seen_ms := now,
       ps_last_ping_ms := now, ps_pending_ping := False\<rparr>"

definition PeerSlot_disconnect :: "PeerSlot \<Rightarrow> PeerSlot" where
  "PeerSlot_disconnect p = p\<lparr>ps_engine := None, ps_state := Disconnected, ps_last_seen_ms := 0,
     ps_last_ping_ms := 0, ps_pending_ping := False\<rparr>"

definition PeerSlot_accept_passive_if_needed :: "u64 \<Rightarrow> PeerSlot \<Rightarrow> PeerSlot" where
  "PeerSlot_accept_passive_if_needed now p =
     (let p = (if ps_engine p = None then PeerSlot_accept_passive now p else p) in p\<lparr>ps_last_seen_ms := now\<rparr>)"

definition PeerSlot_send :: "bytes \<Rightarrow> PeerSlot \<Rightarrow> MessageId option res \<times> PeerSlot" where
  "PeerSlot_send msg p =
     (case ps_engine p of
        None \<Rightarrow> (Ok None, p)
      | Some e \<Rightarrow>
          sr_bind (update_field (Engine_send msg e) (\<lambda>e. p\<lparr>ps_engine := Some e\<rparr>)) (\<lambda>m p. (Ok (Some m), p)))"

text \<open>The two \<^verbatim>\<open>matches!\<close> of \<^verbatim>\<open>PeerSlot::receive\<close>.\<close>

fun is_error_report :: "ReceiveReport \<Rightarrow> bool" where
  "is_error_report (ReceiveReport.Error e) = True"
| "is_error_report _ = False"

fun is_peer_traffic :: "ReceiveReport \<Rightarrow> bool" where
  "is_peer_traffic (ReceiveReport.Packet i) = True"
| "is_peer_traffic (ReceiveReport.Duplicate i) = True"
| "is_peer_traffic (ReceiveReport.Ack i) = True"
| "is_peer_traffic ReceiveReport.Ping = True"
| "is_peer_traffic ReceiveReport.Pong = True"
| "is_peer_traffic _ = False"

definition PeerSlot_receive :: "u64 \<Rightarrow> bytes \<Rightarrow> PeerSlot \<Rightarrow> ReceiveReport res \<times> PeerSlot" where
  "PeerSlot_receive now bs p =
     (case ps_engine p of
        None \<Rightarrow> (Ok (ReceiveReport.Incomplete None), p)
      | Some e \<Rightarrow>
          sr_bind (update_field (Engine_receive bs e) (\<lambda>e. p\<lparr>ps_engine := Some e\<rparr>)) (\<lambda>report p.
          if is_error_report report then (Ok report, PeerSlot_disconnect p)
          else
            let p = (if is_peer_traffic report then p\<lparr>ps_state := Connected, ps_last_seen_ms := now\<rparr> else p);
                p = (if report = ReceiveReport.Pong then p\<lparr>ps_pending_ping := False\<rparr> else p) in
            (Ok report, p)))"

definition PeerSlot_queue_ping_if_idle :: "u64 \<Rightarrow> PeerSlot \<Rightarrow> unit res \<times> PeerSlot" where
  "PeerSlot_queue_ping_if_idle now p =
     (if \<not> PeerSlot_is_connected p \<or> ps_pending_ping p
         \<or> saturating_sub now (ps_last_seen_ms p) < DEFAULT_PING_INTERVAL_MS
         \<or> saturating_sub now (ps_last_ping_ms p) < DEFAULT_PING_INTERVAL_MS
      then (Ok (), p)
      else case ps_engine p of
        None \<Rightarrow> (Ok (), p)
      | Some e \<Rightarrow>
          sr_bind (update_field (EngineState_send_ping (en_config e) (en_state e))
                     (\<lambda>s. p\<lparr>ps_engine := Some (e\<lparr>en_state := s\<rparr>)\<rparr>)) (\<lambda>_ p.
          (Ok (), p\<lparr>ps_last_ping_ms := now, ps_pending_ping := True\<rparr>)))"

definition PeerSlot_disconnect_after_send_failed :: "SendFailedEvent \<Rightarrow> PeerSlot \<Rightarrow> PeerSlot" where
  "PeerSlot_disconnect_after_send_failed event p = PeerSlot_disconnect p"

definition PeerSlot_poll :: "u64 \<Rightarrow> bytes \<Rightarrow> PeerSlot \<Rightarrow> EndpointPoll res \<times> PeerSlot" where
  "PeerSlot_poll now tx_buf p =
     (case PeerSlot_queue_ping_if_idle now p of
        (Panic, p) \<Rightarrow> (Panic, p)
      | (Err error, p) \<Rightarrow> (Err error, PeerSlot_disconnect p)
      | (Ok _, p) \<Rightarrow>
          (case ps_engine p of
             None \<Rightarrow> (Ok Idle, p)
           | Some e \<Rightarrow>
               (case update_field (Engine_poll now tx_buf e) (\<lambda>e. p\<lparr>ps_engine := Some e\<rparr>) of
                  (Panic, p) \<Rightarrow> (Panic, p)
                | (Err error, p) \<Rightarrow> (Err error, PeerSlot_disconnect p)
                | (Ok poll, p) \<Rightarrow>
                    (case poll of
                       EnginePoll.Transmit bs attempts \<Rightarrow> (Ok (Transmit bs attempts), p)
                     | EnginePoll.Message message \<Rightarrow>
                         (Ok (Message message), p\<lparr>ps_state := Connected, ps_last_seen_ms := now\<rparr>)
                     | EnginePoll.SendFailed event \<Rightarrow>
                         (Ok (SendFailed event), PeerSlot_disconnect_after_send_failed event p)
                     | EnginePoll.Idle \<Rightarrow> (Ok Idle, p)))))"

definition PeerSlot_disconnect_if_idle :: "u64 \<Rightarrow> u64 \<Rightarrow> PeerSlot \<Rightarrow> bool \<times> PeerSlot" where
  "PeerSlot_disconnect_if_idle now timeout p =
     (if ps_engine p \<noteq> None \<and> timeout \<le> saturating_sub now (ps_last_seen_ms p)
      then (True, PeerSlot_disconnect p) else (False, p))"

section \<open>endpoint/client.rs, endpoint/passive.rs\<close>

record ClientEndpoint =
  ce_peer :: PeerSlot

definition ClientEndpoint_new :: "EngineConfig \<Rightarrow> ClientEndpoint" where
  "ClientEndpoint_new config = \<lparr>ce_peer = PeerSlot_new config\<rparr>"

definition ClientEndpoint_connect :: "u64 \<Rightarrow> ClientEndpoint \<Rightarrow> MessageId res \<times> ClientEndpoint" where
  "ClientEndpoint_connect now c = update_field (PeerSlot_connect now (ce_peer c)) (\<lambda>p. c\<lparr>ce_peer := p\<rparr>)"

definition ClientEndpoint_disconnect :: "ClientEndpoint \<Rightarrow> ClientEndpoint" where
  "ClientEndpoint_disconnect c = c\<lparr>ce_peer := PeerSlot_disconnect (ce_peer c)\<rparr>"

definition ClientEndpoint_send :: "bytes \<Rightarrow> ClientEndpoint \<Rightarrow> MessageId option res \<times> ClientEndpoint" where
  "ClientEndpoint_send msg c = update_field (PeerSlot_send msg (ce_peer c)) (\<lambda>p. c\<lparr>ce_peer := p\<rparr>)"

definition ClientEndpoint_receive :: "u64 \<Rightarrow> bytes \<Rightarrow> ClientEndpoint \<Rightarrow> ReceiveReport res \<times> ClientEndpoint" where
  "ClientEndpoint_receive now bs c = update_field (PeerSlot_receive now bs (ce_peer c)) (\<lambda>p. c\<lparr>ce_peer := p\<rparr>)"

definition ClientEndpoint_poll :: "u64 \<Rightarrow> bytes \<Rightarrow> ClientEndpoint \<Rightarrow> EndpointPoll res \<times> ClientEndpoint" where
  "ClientEndpoint_poll now tx_buf c = update_field (PeerSlot_poll now tx_buf (ce_peer c)) (\<lambda>p. c\<lparr>ce_peer := p\<rparr>)"

definition ClientEndpoint_disconnect_if_idle :: "u64 \<Rightarrow> u64 \<Rightarrow> ClientEndpoint \<Rightarrow> bool \<times> ClientEndpoint" where
  "ClientEndpoint_disconnect_if_idle now timeout c =
     (case PeerSlot_disconnect_if_idle now timeout (ce_peer c) of (b, p) \<Rightarrow> (b, c\<lparr>ce_peer := p\<rparr>))"

record PassiveEndpoint =
  pe_peer :: PeerSlot

definition PassiveEndpoint_new :: "EngineConfig \<Rightarrow> PassiveEndpoint" where
  "PassiveEndpoint_new config = \<lparr>pe_peer = PeerSlot_new config\<rparr>"

definition PassiveEndpoint_disconnect :: "PassiveEndpoint \<Rightarrow> PassiveEndpoint" where
  "PassiveEndpoint_disconnect e = e\<lparr>pe_peer := PeerSlot_disconnect (pe_peer e)\<rparr>"

definition PassiveEndpoint_send :: "bytes \<Rightarrow> PassiveEndpoint \<Rightarrow> MessageId option res \<times> PassiveEndpoint" where
  "PassiveEndpoint_send msg e = update_field (PeerSlot_send msg (pe_peer e)) (\<lambda>p. e\<lparr>pe_peer := p\<rparr>)"

definition PassiveEndpoint_receive :: "u64 \<Rightarrow> bytes \<Rightarrow> PassiveEndpoint \<Rightarrow> ReceiveReport res \<times> PassiveEndpoint" where
  "PassiveEndpoint_receive now bs e =
     (let e = e\<lparr>pe_peer := PeerSlot_accept_passive_if_needed now (pe_peer e)\<rparr> in
      update_field (PeerSlot_receive now bs (pe_peer e)) (\<lambda>p. e\<lparr>pe_peer := p\<rparr>))"

definition PassiveEndpoint_poll :: "u64 \<Rightarrow> bytes \<Rightarrow> PassiveEndpoint \<Rightarrow> EndpointPoll res \<times> PassiveEndpoint" where
  "PassiveEndpoint_poll now tx_buf e = update_field (PeerSlot_poll now tx_buf (pe_peer e)) (\<lambda>p. e\<lparr>pe_peer := p\<rparr>)"

definition PassiveEndpoint_disconnect_if_idle :: "u64 \<Rightarrow> u64 \<Rightarrow> PassiveEndpoint \<Rightarrow> bool \<times> PassiveEndpoint" where
  "PassiveEndpoint_disconnect_if_idle now timeout e =
     (case PeerSlot_disconnect_if_idle now timeout (pe_peer e) of (b, p) \<Rightarrow> (b, e\<lparr>pe_peer := p\<rparr>))"

section \<open>The life cycle of a connection\<close>

text \<open>
  What a slot promises to its user, without the engine: the connection state, the two times and the
  outstanding ping, changed by the events of the connection.  \<open>view_step\<close> gives the guard of every
  event; an event whose guard does not hold has no result.
\<close>

record peer_view =
  pv_state :: PeerState
  pv_last_seen_ms :: u64
  pv_last_ping_ms :: u64
  pv_pending_ping :: bool

datatype peer_event = Opened u64 | Closed | Seen u64 | Heard u64 | Ponged | Pinged u64

definition idle_for :: "u64 \<Rightarrow> u64 \<Rightarrow> bool" where
  "idle_for now since \<longleftrightarrow> 5000 \<le> unat now - unat since"

fun view_step :: "peer_event \<Rightarrow> peer_view \<Rightarrow> peer_view option" where
  "view_step (Opened now) v = Some \<lparr>pv_state = Connecting, pv_last_seen_ms = now, pv_last_ping_ms = now, pv_pending_ping = False\<rparr>"
| "view_step Closed v = Some \<lparr>pv_state = Disconnected, pv_last_seen_ms = 0, pv_last_ping_ms = 0, pv_pending_ping = False\<rparr>"
| "view_step (Seen now) v = (if pv_state v = Disconnected then None else Some (v\<lparr>pv_last_seen_ms := now\<rparr>))"
| "view_step (Heard now) v =
     (if pv_state v = Disconnected then None else Some (v\<lparr>pv_state := Connected, pv_last_seen_ms := now\<rparr>))"
| "view_step Ponged v = (if pv_state v = Connected then Some (v\<lparr>pv_pending_ping := False\<rparr>) else None)"
| "view_step (Pinged now) v =
     (if pv_state v = Connected \<and> \<not> pv_pending_ping v \<and> idle_for now (pv_last_seen_ms v) \<and> idle_for now (pv_last_ping_ms v)
      then Some (v\<lparr>pv_last_ping_ms := now, pv_pending_ping := True\<rparr>) else None)"

fun view_run :: "peer_event list \<Rightarrow> peer_view \<Rightarrow> peer_view option" where
  "view_run [] v = Some v"
| "view_run (e # es) v = Option.bind (view_step e v) (view_run es)"

lemma view_run_append [simp]: "view_run (es @ fs) v = Option.bind (view_run es v) (view_run fs)"
  by (induction es arbitrary: v) (auto split: Option.bind_splits)

definition slot_view :: "PeerSlot \<Rightarrow> peer_view" where
  "slot_view p = \<lparr>pv_state = ps_state p, pv_last_seen_ms = ps_last_seen_ms p, pv_last_ping_ms = ps_last_ping_ms p,
     pv_pending_ping = ps_pending_ping p\<rparr>"

text \<open>The operations of a slot with the events they stand for.\<close>

datatype peer_op =
    Connect u64
  | AcceptPassive u64
  | AcceptPassiveIfNeeded u64
  | Disconnect
  | Send bytes
  | Receive u64 bytes
  | Poll u64 bytes
  | DisconnectIfIdle u64 u64

definition with_events :: "('r res \<Rightarrow> peer_event list) \<Rightarrow> 'r res \<times> PeerSlot \<Rightarrow> peer_event list res \<times> PeerSlot" where
  "with_events f m = (case m of (Panic, p) \<Rightarrow> (Panic, p) | (r, p) \<Rightarrow> (Ok (f r), p))"

definition receive_events :: "u64 \<Rightarrow> ReceiveReport res \<Rightarrow> peer_event list" where
  "receive_events now r =
     (case r of
        Ok report \<Rightarrow>
          if is_error_report report then [Closed]
          else if report = ReceiveReport.Pong then [Heard now, Ponged]
          else if is_peer_traffic report then [Heard now] else []
      | _ \<Rightarrow> [])"

definition poll_events :: "u64 \<Rightarrow> EndpointPoll res \<Rightarrow> peer_event list" where
  "poll_events now r =
     (case r of
        Ok (Message m) \<Rightarrow> [Heard now] | Ok (SendFailed f) \<Rightarrow> [Closed] | Ok _ \<Rightarrow> [] | _ \<Rightarrow> [Closed])"

fun is_Ok :: "'a res \<Rightarrow> bool" where
  "is_Ok (Ok x) = True"
| "is_Ok _ = False"

text \<open>
  Whether a poll hands its engine a ping, read off what \<^verbatim>\<open>queue_ping_if_idle\<close> does to the slot: it succeeds and returns
  another slot than it was given.
\<close>

definition ping_sent :: "u64 \<Rightarrow> PeerSlot \<Rightarrow> bool" where
  "ping_sent now p \<longleftrightarrow> (case PeerSlot_queue_ping_if_idle now p of (r, p') \<Rightarrow> is_Ok r \<and> p' \<noteq> p)"

fun peer_do :: "peer_op \<Rightarrow> PeerSlot \<Rightarrow> peer_event list res \<times> PeerSlot" where
  "peer_do (Connect now) p = with_events (\<lambda>_. [Opened now]) (PeerSlot_connect now p)"
| "peer_do (AcceptPassive now) p = (Ok [Opened now], PeerSlot_accept_passive now p)"
| "peer_do (AcceptPassiveIfNeeded now) p =
     (Ok (if PeerSlot_has_session p then [Seen now] else [Opened now]), PeerSlot_accept_passive_if_needed now p)"
| "peer_do Disconnect p = (Ok [Closed], PeerSlot_disconnect p)"
| "peer_do (Send msg) p = with_events (\<lambda>_. []) (PeerSlot_send msg p)"
| "peer_do (Receive now bs) p =
     with_events (\<lambda>r. if PeerSlot_has_session p then receive_events now r else []) (PeerSlot_receive now bs p)"
| "peer_do (Poll now tx) p =
     with_events (\<lambda>r. (if ping_sent now p then [Pinged now] else []) @ poll_events now r) (PeerSlot_poll now tx p)"
| "peer_do (DisconnectIfIdle now timeout) p =
     (case PeerSlot_disconnect_if_idle now timeout p of (b, p) \<Rightarrow> (Ok (if b then [Closed] else []), p))"

fun peer_run :: "peer_op list \<Rightarrow> PeerSlot \<Rightarrow> peer_event list res \<times> PeerSlot" where
  "peer_run [] p = (Ok [], p)"
| "peer_run (op # ops) p =
     sr_bind (peer_do op p) (\<lambda>es p. sr_bind (peer_run ops p) (\<lambda>fs p. (Ok (es @ fs), p)))"

definition peer_ok :: "PeerSlot \<Rightarrow> bool" where
  "peer_ok p \<longleftrightarrow>
     (case ps_engine p of
        None \<Rightarrow> ps_state p = Disconnected \<and> \<not> ps_pending_ping p
      | Some e \<Rightarrow> ps_state p \<noteq> Disconnected \<and> (ps_pending_ping p \<longrightarrow> ps_state p = Connected) \<and>
          en_config e = ps_config p \<and> engine_ok (ps_config p) (en_state e))"

section \<open>The slot keeps its promise\<close>

lemma Engine_ops:
  assumes "engine_ok (en_config e) (en_state e)"
  shows "Engine_send msg e = (r, e') \<Longrightarrow> en_config e' = en_config e \<and> engine_ok (en_config e) (en_state e') \<and> r \<noteq> Panic"
    "Engine_poll now tx e = (r1, e') \<Longrightarrow> en_config e' = en_config e \<and> engine_ok (en_config e) (en_state e') \<and> r1 \<noteq> Panic"
    "Engine_receive bs e = (r2, e') \<Longrightarrow>
      en_config e' = en_config e \<and> engine_ok (en_config e) (en_state e') \<and> (\<exists>report. r2 = Ok report)"
    "EngineState_send_ping (en_config e) (en_state e) = (r3, s') \<Longrightarrow> engine_ok (en_config e) s' \<and> r3 \<noteq> Panic"
proof -
  note K = engine_ok_ops[OF assms]
  show "Engine_send msg e = (r, e') \<Longrightarrow> en_config e' = en_config e \<and> engine_ok (en_config e) (en_state e') \<and> r \<noteq> Panic"
    using K(1,2)[of msg] by (cases "EngineState_send_data (en_config e) msg (en_state e)") (auto simp: Engine_send_def)
  show "Engine_poll now tx e = (r1, e') \<Longrightarrow> en_config e' = en_config e \<and> engine_ok (en_config e) (en_state e') \<and> r1 \<noteq> Panic"
    using K(7,8)[of now tx] by (cases "EngineState_poll (en_config e) now tx (en_state e)") (auto simp: Engine_poll_def)
  show "Engine_receive bs e = (r2, e') \<Longrightarrow>
      en_config e' = en_config e \<and> engine_ok (en_config e) (en_state e') \<and> (\<exists>report. r2 = Ok report)"
    using K(9,10)[of bs] by (cases "EngineState_receive (en_config e) bs (en_state e)") (auto simp: Engine_receive_def)
  show "EngineState_send_ping (en_config e) (en_state e) = (r3, s') \<Longrightarrow> engine_ok (en_config e) s' \<and> r3 \<noteq> Panic"
    using K(5,6) by auto
qed

lemma engine_ok_Engine_new: "engine_ok (en_config (Engine_new config)) (en_state (Engine_new config))"
  "en_config (Engine_new config) = config"
  by (simp_all add: Engine_new_def)

lemma connect_view:
  assumes "PeerSlot_connect now p = (r, p')"
  shows "peer_ok p'" "r \<noteq> Panic" "ps_config p' = ps_config p" "view_step (Opened now) v = Some (slot_view p')"
proof -
  obtain r0 e where e: "Engine_send HELLO_MESSAGE (Engine_new (ps_config p)) = (r0, e)" by fastforce
  note E = Engine_ops(1)[OF engine_ok_Engine_new(1) e]
  show "peer_ok p'" "r \<noteq> Panic" "ps_config p' = ps_config p" "view_step (Opened now) v = Some (slot_view p')"
    using assms e E by (auto simp: PeerSlot_connect_def update_field_def peer_ok_def slot_view_def engine_ok_Engine_new)
qed

lemma disconnect_view:
  "peer_ok (PeerSlot_disconnect p)" "ps_config (PeerSlot_disconnect p) = ps_config p"
  "view_step Closed v = Some (slot_view (PeerSlot_disconnect p))"
  by (simp_all add: PeerSlot_disconnect_def peer_ok_def slot_view_def)

lemma accept_view:
  "peer_ok (PeerSlot_accept_passive now p)" "ps_config (PeerSlot_accept_passive now p) = ps_config p"
  "view_step (Opened now) v = Some (slot_view (PeerSlot_accept_passive now p))"
  by (simp_all add: PeerSlot_accept_passive_def peer_ok_def slot_view_def Engine_new_def)

lemma idle_for_saturating: "idle_for now since \<longleftrightarrow> \<not> saturating_sub now since < DEFAULT_PING_INTERVAL_MS"
  by (simp add: idle_for_def word_less_nat_alt unat_saturating_sub DEFAULT_PING_INTERVAL_MS_def not_less)

text \<open>When the code sends a ping, as a condition on the slot.\<close>

definition ping_due :: "u64 \<Rightarrow> PeerSlot \<Rightarrow> bool" where
  "ping_due now p \<longleftrightarrow> ps_state p = Connected \<and> \<not> ps_pending_ping p \<and> idle_for now (ps_last_seen_ms p) \<and>
     idle_for now (ps_last_ping_ms p)"

lemma ping_view:
  assumes "peer_ok p" "PeerSlot_queue_ping_if_idle now p = (r, p')"
  shows "peer_ok p'" "r \<noteq> Panic" "ps_config p' = ps_config p" "ps_engine p = None \<longleftrightarrow> ps_engine p' = None"
    "r = Ok u \<Longrightarrow> view_run (if ping_due now p then [Pinged now] else []) (slot_view p) = Some (slot_view p')"
    "r = Ok u \<Longrightarrow> p' \<noteq> p \<longleftrightarrow> ping_due now p"
proof -
  have "peer_ok p' \<and> r \<noteq> Panic \<and> ps_config p' = ps_config p \<and> (ps_engine p = None \<longleftrightarrow> ps_engine p' = None) \<and>
    (r = Ok u \<longrightarrow> view_run (if ping_due now p then [Pinged now] else []) (slot_view p) = Some (slot_view p')) \<and>
    (r = Ok u \<longrightarrow> (p' \<noteq> p \<longleftrightarrow> ping_due now p))"
  proof (cases "ping_due now p \<and> ps_engine p \<noteq> None")
    case False
    then have "r = Ok ()" "p' = p" "\<not> ping_due now p"
      using assms by (auto simp: PeerSlot_queue_ping_if_idle_def ping_due_def PeerSlot_is_connected_def
          idle_for_saturating peer_ok_def split: if_splits option.splits)
    then show ?thesis using assms(1) by simp
  next
    case True
    then obtain e where e: "ps_engine p = Some e" by auto
    obtain r0 s where s: "EngineState_send_ping (en_config e) (en_state e) = (r0, s)" by fastforce
    have ok: "engine_ok (en_config e) (en_state e)" "en_config e = ps_config p" using assms(1) e by (auto simp: peer_ok_def)
    note E = Engine_ops(4)[OF ok(1) s]
    have "(r, p') = sr_bind (update_field (r0, s) (\<lambda>s. p\<lparr>ps_engine := Some (e\<lparr>en_state := s\<rparr>)\<rparr>)) (\<lambda>_ p.
        (Ok (), p\<lparr>ps_last_ping_ms := now, ps_pending_ping := True\<rparr>))"
      using assms(2) True e s by (auto simp: PeerSlot_queue_ping_if_idle_def ping_due_def PeerSlot_is_connected_def
          idle_for_saturating)
    then show ?thesis
      using E ok True assms(1) e
      by (cases r0) (auto simp: peer_ok_def slot_view_def ping_due_def dest: arg_cong[of _ _ ps_pending_ping])
  qed
  then show "peer_ok p'" "r \<noteq> Panic" "ps_config p' = ps_config p" "ps_engine p = None \<longleftrightarrow> ps_engine p' = None"
    "r = Ok u \<Longrightarrow> view_run (if ping_due now p then [Pinged now] else []) (slot_view p) = Some (slot_view p')"
    "r = Ok u \<Longrightarrow> p' \<noteq> p \<longleftrightarrow> ping_due now p"
    by blast+
qed

text \<open>A poll is seen to ping exactly when it calls \<^verbatim>\<open>send_ping\<close> on the engine of the slot and this succeeds.\<close>

lemma ping_sent_engine:
  assumes "peer_ok p"
  shows "ping_sent now p \<longleftrightarrow> (\<exists>e s. ps_engine p = Some e \<and> ping_due now p \<and>
    EngineState_send_ping (en_config e) (en_state e) = (Ok (), s) \<and>
    PeerSlot_queue_ping_if_idle now p = (Ok (), p\<lparr>ps_engine := Some (e\<lparr>en_state := s\<rparr>), ps_last_ping_ms := now, ps_pending_ping := True\<rparr>))"
proof (cases "ps_engine p")
  case None
  then show ?thesis by (simp add: ping_sent_def PeerSlot_queue_ping_if_idle_def)
next
  case (Some e)
  obtain r p' where q: "PeerSlot_queue_ping_if_idle now p = (r, p')" by fastforce
  obtain r0 s where s: "EngineState_send_ping (en_config e) (en_state e) = (r0, s)" by fastforce
  note V = ping_view(6)[OF assms q]
  show ?thesis
  proof (cases "ping_due now p")
    case False
    then show ?thesis using V q by (cases r) (auto simp: ping_sent_def)
  next
    case True
    then have "PeerSlot_queue_ping_if_idle now p = sr_bind (r0, p\<lparr>ps_engine := Some (e\<lparr>en_state := s\<rparr>)\<rparr>) (\<lambda>_ p.
        (Ok (), p\<lparr>ps_last_ping_ms := now, ps_pending_ping := True\<rparr>))"
      using Some s by (simp add: PeerSlot_queue_ping_if_idle_def ping_due_def PeerSlot_is_connected_def idle_for_saturating)
    then show ?thesis using True V q Some s by (cases r0) (auto simp: ping_sent_def)
  qed
qed

lemma with_events_simps [simp]:
  "with_events f (Ok r, p) = (Ok (f (Ok r)), p)" "with_events f (Err e, p) = (Ok (f (Err e)), p)"
  "with_events f (Panic, p) = (Panic, p)"
  by (simp_all add: with_events_def)

lemma with_events_ok:
  "m = (r, p) \<Longrightarrow> r \<noteq> Panic \<Longrightarrow> with_events f m = (Ok (f r), p)"
  by (cases r) simp_all

lemma send_view:
  assumes "peer_ok p" "PeerSlot_send msg p = (r, p')"
  shows "peer_ok p' \<and> r \<noteq> Panic \<and> ps_config p' = ps_config p \<and> slot_view p' = slot_view p"
proof (cases "ps_engine p")
  case None
  then show ?thesis using assms by (auto simp: PeerSlot_send_def)
next
  case (Some e)
  obtain r0 e' where e: "Engine_send msg e = (r0, e')" by fastforce
  have ok: "engine_ok (en_config e) (en_state e)" "en_config e = ps_config p" using assms(1) Some by (auto simp: peer_ok_def)
  note E = Engine_ops(1)[OF ok(1) e]
  have "(r, p') = sr_bind (r0, p\<lparr>ps_engine := Some e'\<rparr>) (\<lambda>m p. (Ok (Some m), p))"
    using assms(2) Some e by (simp add: PeerSlot_send_def)
  then have "p' = p\<lparr>ps_engine := Some e'\<rparr>" "r \<noteq> Panic" using E by (cases r0; simp)+
  then show ?thesis using E ok assms(1) Some by (simp add: peer_ok_def slot_view_def)
qed

lemma receive_view:
  assumes "peer_ok p" "PeerSlot_receive now bs p = (r, p')"
  shows "peer_ok p' \<and> (\<exists>report. r = Ok report) \<and> ps_config p' = ps_config p \<and>
    view_run (if PeerSlot_has_session p then receive_events now r else []) (slot_view p) = Some (slot_view p')"
proof (cases "ps_engine p")
  case None
  then show ?thesis using assms by (auto simp: PeerSlot_receive_def PeerSlot_has_session_def)
next
  case (Some e)
  obtain r0 e' where e: "Engine_receive bs e = (r0, e')" by fastforce
  have ok: "engine_ok (en_config e) (en_state e)" "en_config e = ps_config p" "ps_state p \<noteq> Disconnected"
    "ps_pending_ping p \<longrightarrow> ps_state p = Connected"
    using assms(1) Some by (auto simp: peer_ok_def)
  note E = Engine_ops(3)[OF ok(1) e]
  then obtain report where r0: "r0 = Ok report" by blast
  let ?p = "p\<lparr>ps_engine := Some e'\<rparr>"
  let ?p1 = "if is_peer_traffic report then ?p\<lparr>ps_state := Connected, ps_last_seen_ms := now\<rparr> else ?p"
  have eq: "(r, p') = (Ok report, if is_error_report report then PeerSlot_disconnect ?p
      else if report = ReceiveReport.Pong then ?p1\<lparr>ps_pending_ping := False\<rparr> else ?p1)"
    using assms(2) Some e r0 by (cases report) (simp_all add: PeerSlot_receive_def Let_def)
  have "peer_ok ?p" "peer_ok (?p\<lparr>ps_state := Connected, ps_last_seen_ms := now\<rparr>)"
    "peer_ok (?p\<lparr>ps_state := Connected, ps_last_seen_ms := now, ps_pending_ping := False\<rparr>)"
    using E ok by (simp_all add: peer_ok_def)
  then show ?thesis
    using eq ok(3) disconnect_view(1,2)[of ?p] Some
    by (cases report) (simp_all add: receive_events_def slot_view_def PeerSlot_has_session_def PeerSlot_disconnect_def)
qed

text \<open>Once the ping is queued, what is left of a poll is the answer of the engine.\<close>

lemma poll_engine_view:
  assumes "peer_ok p1" "PeerSlot_queue_ping_if_idle now p = (Ok u, p1)" "PeerSlot_poll now tx p = (r, p')"
  shows "peer_ok p' \<and> r \<noteq> Panic \<and> ps_config p' = ps_config p1 \<and>
    view_run (poll_events now r) (slot_view p1) = Some (slot_view p')"
proof (cases "ps_engine p1")
  case None
  then have "r = Ok Idle" "p' = p1" using assms(2,3) by (simp_all add: PeerSlot_poll_def)
  then show ?thesis using assms(1) by (simp add: poll_events_def)
next
  case (Some e)
  obtain r0 e' where e: "Engine_poll now tx e = (r0, e')" by fastforce
  have ok: "engine_ok (en_config e) (en_state e)" "en_config e = ps_config p1" "ps_state p1 \<noteq> Disconnected"
    "ps_pending_ping p1 \<longrightarrow> ps_state p1 = Connected"
    using assms(1) Some by (auto simp: peer_ok_def)
  note E = Engine_ops(2)[OF ok(1) e]
  let ?p = "p1\<lparr>ps_engine := Some e'\<rparr>"
  have pok: "peer_ok ?p" "peer_ok (?p\<lparr>ps_state := Connected, ps_last_seen_ms := now\<rparr>)"
    using E ok by (simp_all add: peer_ok_def)
  show ?thesis
  proof (cases r0)
    case (Err x)
    then have "r = Err x" "p' = PeerSlot_disconnect ?p" using assms(2,3) Some e by (simp_all add: PeerSlot_poll_def)
    then show ?thesis using disconnect_view[where p = ?p] by (simp add: poll_events_def)
  next
    case Panic
    then show ?thesis using E by simp
  next
    case (Ok x)
    then show ?thesis
      using assms(2,3) Some e pok ok(3)
      by (cases x) (auto simp: PeerSlot_poll_def poll_events_def slot_view_def PeerSlot_disconnect_after_send_failed_def
          PeerSlot_disconnect_def peer_ok_def)
  qed
qed

lemma poll_view:
  assumes "peer_ok p" "PeerSlot_poll now tx p = (r, p')"
  shows "peer_ok p' \<and> r \<noteq> Panic \<and> ps_config p' = ps_config p \<and>
    view_run ((if ping_sent now p then [Pinged now] else []) @ poll_events now r) (slot_view p) = Some (slot_view p')"
proof -
  obtain r1 p1 where p1: "PeerSlot_queue_ping_if_idle now p = (r1, p1)" by fastforce
  note P = ping_view[OF assms(1) p1]
  show ?thesis
  proof (cases r1)
    case (Err e)
    then have "r = Err e" "p' = PeerSlot_disconnect p1" "\<not> ping_sent now p"
      using assms(2) p1 by (simp_all add: PeerSlot_poll_def ping_sent_def)
    then show ?thesis using P(3) disconnect_view[where p = p1] by (simp add: poll_events_def)
  next
    case Panic
    then show ?thesis using P(2) by simp
  next
    case (Ok u)
    have "ping_sent now p \<longleftrightarrow> ping_due now p" using P(6)[OF Ok] p1 Ok by (simp add: ping_sent_def)
    then show ?thesis using poll_engine_view[OF P(1) p1[unfolded Ok] assms(2)] P(3) P(5)[OF Ok] by simp
  qed
qed

lemma accept_if_needed_view:
  assumes "peer_ok p"
  shows "peer_ok (PeerSlot_accept_passive_if_needed now p)"
    "view_run (if PeerSlot_has_session p then [Seen now] else [Opened now]) (slot_view p) =
      Some (slot_view (PeerSlot_accept_passive_if_needed now p))"
    "ps_config (PeerSlot_accept_passive_if_needed now p) = ps_config p"
  using assms
  by (cases "ps_engine p"; auto simp: PeerSlot_accept_passive_if_needed_def PeerSlot_accept_passive_def peer_ok_def
      PeerSlot_has_session_def slot_view_def Engine_new_def)+

lemma peer_do_ok:
  assumes "peer_ok p"
  shows "\<exists>es p'. peer_do op p = (Ok es, p') \<and> peer_ok p' \<and> ps_config p' = ps_config p \<and>
    view_run es (slot_view p) = Some (slot_view p')"
proof (cases op)
  case (Connect now)
  obtain r p' where c: "PeerSlot_connect now p = (r, p')" by fastforce
  show ?thesis using connect_view[OF c] with_events_ok[OF c] Connect by simp
next
  case (AcceptPassive now)
  then show ?thesis using accept_view[where now = now and p = p] by simp
next
  case (AcceptPassiveIfNeeded now)
  then show ?thesis using accept_if_needed_view[OF assms, of now] by simp
next
  case Disconnect
  then show ?thesis using disconnect_view[where p = p] by simp
next
  case (Send msg)
  obtain r p' where c: "PeerSlot_send msg p = (r, p')" by fastforce
  show ?thesis using send_view[OF assms c] with_events_ok[OF c] Send by simp
next
  case (Receive now bs)
  obtain r p' where c: "PeerSlot_receive now bs p = (r, p')" by fastforce
  have "r \<noteq> Panic" using receive_view[OF assms c] by auto
  then show ?thesis using receive_view[OF assms c] with_events_ok[OF c] Receive by simp
next
  case (Poll now tx)
  obtain r p' where c: "PeerSlot_poll now tx p = (r, p')" by fastforce
  note V = poll_view[OF assms c]
  then have "peer_do op p = (Ok ((if ping_sent now p then [Pinged now] else []) @ poll_events now r), p')"
    using with_events_ok[OF c] Poll by simp
  then show ?thesis using V by blast
next
  case (DisconnectIfIdle now timeout)
  then show ?thesis
    using assms disconnect_view[where p = p] by (auto simp: PeerSlot_disconnect_if_idle_def)
qed

lemma peer_run_ok:
  "peer_ok p \<Longrightarrow> \<exists>es p'. peer_run ops p = (Ok es, p') \<and> peer_ok p' \<and> ps_config p' = ps_config p \<and>
    view_run es (slot_view p) = Some (slot_view p')"
proof (induction ops arbitrary: p)
  case (Cons op ops)
  obtain es p1 where 1: "peer_do op p = (Ok es, p1)" "peer_ok p1" "ps_config p1 = ps_config p"
    "view_run es (slot_view p) = Some (slot_view p1)"
    using peer_do_ok[OF Cons.prems] by blast
  obtain fs p2 where 2: "peer_run ops p1 = (Ok fs, p2)" "peer_ok p2" "ps_config p2 = ps_config p1"
    "view_run fs (slot_view p1) = Some (slot_view p2)"
    using Cons.IH[OF 1(2)] by blast
  then show ?case using 1 by (intro exI[of _ "es @ fs"] exI[of _ p2]) simp
qed simp

lemma peer_ok_new: "peer_ok (PeerSlot_new config)" "ps_config (PeerSlot_new config) = config"
  by (simp_all add: peer_ok_def PeerSlot_new_def)

text \<open>After a ping, no other one is possible before a pong or a new session.\<close>

lemma view_after_ping:
  assumes "view_run es v = Some w" "pv_pending_ping v \<or> pv_state v = Disconnected" "Ponged \<notin> set es" "\<forall>t. Opened t \<notin> set es"
  shows "(pv_pending_ping w \<or> pv_state w = Disconnected) \<and> (\<forall>t. Pinged t \<notin> set es)"
  using assms
proof (induction es arbitrary: v)
  case (Cons e es)
  obtain v1 where v1: "view_step e v = Some v1" "view_run es v1 = Some w"
    using Cons.prems(1) by (auto split: Option.bind_splits)
  have "pv_pending_ping v1 \<or> pv_state v1 = Disconnected" "\<forall>t. e \<noteq> Pinged t"
    using v1(1) Cons.prems(2-4) by (cases e; auto split: if_splits)+
  then show ?case using Cons.IH[OF v1(2)] Cons.prems(3,4) by auto
qed simp

lemma view_last_ping:
  assumes "view_run es v = Some w" "\<forall>t. Opened t \<notin> set es" "pv_state w \<noteq> Disconnected"
  shows "unat (pv_last_ping_ms v) \<le> unat (pv_last_ping_ms w)"
  using assms
proof (induction es arbitrary: v)
  case (Cons e es)
  obtain v1 where v1: "view_step e v = Some v1" "view_run es v1 = Some w"
    using Cons.prems(1) by (auto split: Option.bind_splits)
  have "view_run es v = Some w \<Longrightarrow> pv_state v = Disconnected \<Longrightarrow> \<forall>t. Opened t \<notin> set es \<Longrightarrow> pv_state w = Disconnected" for es v
    by (induction es arbitrary: v) (fastforce elim: view_step.elims split: Option.bind_splits if_splits)+
  then have "pv_state v1 \<noteq> Disconnected" using v1(2) Cons.prems(2,3) by auto
  then have "unat (pv_last_ping_ms v) \<le> unat (pv_last_ping_ms v1)"
    using v1(1) Cons.prems(2) by (cases e) (auto simp: idle_for_def split: if_splits)
  then show ?case using Cons.IH[OF v1(2)] Cons.prems(2,3) by auto
qed simp

section \<open>Pings and pongs on a quiet engine\<close>

text \<open>A slot whose engine has nothing to send, nothing in flight and nothing half received.\<close>

definition quiet_slot :: "PeerSlot \<Rightarrow> bool" where
  "quiet_slot p \<longleftrightarrow> (\<exists>e. ps_engine p = Some e \<and> en_config e = ps_config p \<and> quiet (ps_config p) (en_state e))"

lemma receive_pong_frame:
  assumes "quiet config s"
  obtains s' where "EngineState_receive config (wire_frame (integrity config) [PacketType_code PacketType.Pong]) s =
    (Ok ReceiveReport.Pong, s')" "quiet config s'"
proof -
  have ok: "engine_ok config s" "idle_stream s" using assms by (auto simp: quiet_def)
  have "receive_decoded config (decode_packet_bytes [PacketType_code PacketType.Pong]) s = (Ok ReceiveReport.Pong, s)"
    using decode_liveness by (simp add: receive_decoded_def)
  then obtain ig where r: "EngineState_receive config (wire_frame (integrity config) [PacketType_code PacketType.Pong]) s =
      (Ok ReceiveReport.Pong, s\<lparr>es_ingress := ig\<rparr>)" "idle_stream (s\<lparr>es_ingress := ig\<rparr>)" "engine_ok config (s\<lparr>es_ingress := ig\<rparr>)"
    by (rule receive_frame[OF ok, rotated]) simp_all
  show thesis by (rule that[OF r(1)]) (use assms r(2,3) in \<open>simp add: quiet_def no_urgent_def\<close>)
qed

lemma quiet_view: "quiet config s \<Longrightarrow> sched_view (es_scheduler s) = (\<lambda>_. [])"
proof
  show "sched_view (es_scheduler s) k = []" if "quiet config s" for k
    using that by (cases k) (simp_all add: quiet_def no_urgent_def)
qed

text \<open>A quiet engine with a ping queued, and one with a single frame of any kind queued for sending.\<close>

lemma ping_queued:
  assumes "quiet config s"
  obtains q where "EngineState_send_ping config s = (Ok (), s\<lparr>es_scheduler := q\<rparr>)" "engine_ok config (s\<lparr>es_scheduler := q\<rparr>)"
    "sched_view q = (\<lambda>_. [])(QueueKind.NewData := [EngineOutput.Write (liveness_write (integrity config) PacketType.Ping WritePriority.NewData)])"
proof -
  let ?w = "liveness_write (integrity config) PacketType.Ping WritePriority.NewData"
  note V = quiet_view[OF assms]
  have ok: "engine_ok config s" using assms by (simp add: quiet_def)
  have ve: "view_events (sched_view (es_scheduler s)) = []" using V by (simp add: view_events_def)
  obtain r q where p: "SchedulerState_push (EngineOutput.Write ?w) (es_scheduler s) = (r, q)" by fastforce
  have sok: "sched_ok (es_scheduler s)" using engine_okD[OF ok] by simp
  have v: "r = Ok ()" "sched_view q = (\<lambda>_. [])(QueueKind.NewData := [EngineOutput.Write ?w])"
    using sched_push(3)[OF sok p] ve V by (auto simp: spec_push_def queue_for_event_def liveness_write_def)
  have s1: "EngineState_send_ping config s = (Ok (), s\<lparr>es_scheduler := q\<rparr>)"
    using p v(1) by (simp add: EngineState_send_ping_def liveness_push EngineState_push_def)
  show thesis by (rule that[OF s1 _ v(2)]) (use engine_ok_ops(5)[OF ok] s1 in simp)
qed

lemma poll_only_frame:
  assumes "quiet config s" "engine_ok config (s\<lparr>es_scheduler := q\<rparr>)" "MAX_WIRE_BYTES \<le> length tx"
    and "sched_view q = (\<lambda>_. [])(QueueKind.NewData := [EngineOutput.Write w])"
  obtains s2 where "EngineState_poll config now tx (s\<lparr>es_scheduler := q\<rparr>) =
      (Ok (EnginePoll.Transmit (take (wr_len w) (wr_bytes w)) (wr_attempts w)), s2)" "quiet config s2"
proof -
  let ?s1 = "s\<lparr>es_scheduler := q\<rparr>"
  have Q: "idle_stream s" "no_urgent s" "message_list (es_message s) = []" "dom (inflight_map (rs_in_flight (es_recovery s))) = {}"
    "dom (reasm_map (es_reassembly s)) = {}" using assms(1) by (auto simp: quiet_def)
  have "RecoveryState_packets (es_recovery ?s1) = []" using quiet_packets(1)[OF assms(2)] Q(4) by simp
  then have calm: "calm config now ?s1" using assms(2) by (simp add: calm_def)
  have nu: "no_urgent ?s1" using Q(2) assms(4) by (simp add: no_urgent_def)
  obtain s2 where s2:
    "EngineState_poll config now tx ?s1 = (Ok (EnginePoll.Transmit (take (wr_len w) (wr_bytes w)) (wr_attempts w)), s2)"
    "poll_keeps config now ?s1 s2" "engine_ok config s2" "ack_list (es_ack s2) = []" "message_list (es_message s2) = []"
    "sched_view (es_scheduler s2) = (sched_view (es_scheduler ?s1))(QueueKind.NewData := [])"
    by (rule poll_next_data[OF calm nu _ _ assms(3), of w "[]"]) (use Q(3) assms(4) in simp_all)
  have slots: "dom (reasm_map (es_reassembly s2)) = {}" by (rule poll_keeps_no_slots[OF assms(2) s2(2)]) (use Q(5) in simp)
  have "quiet config s2"
    using s2 Q nu slots unfolding quiet_def poll_keeps_def no_urgent_def by (auto simp: idle_stream_def)
  then show thesis by (rule that[OF s2(1)])
qed

lemma liveness_frame:
  "take (wr_len (liveness_write cfg t prio)) (wr_bytes (liveness_write cfg t prio)) = wire_frame cfg [PacketType_code t]"
  "wr_attempts (liveness_write cfg t prio) = 0"
  by (simp_all add: liveness_write_def)

lemma ping_then_poll:
  assumes "quiet config s" "MAX_WIRE_BYTES \<le> length tx"
  obtains s1 s2 where "EngineState_send_ping config s = (Ok (), s1)"
    "EngineState_poll config now tx s1 = (Ok (EnginePoll.Transmit (wire_frame (integrity config) [PacketType_code PacketType.Ping]) 0), s2)"
    "quiet config s2"
proof (rule ping_queued[OF assms(1)])
  fix q assume q: "EngineState_send_ping config s = (Ok (), s\<lparr>es_scheduler := q\<rparr>)" "engine_ok config (s\<lparr>es_scheduler := q\<rparr>)"
    "sched_view q = (\<lambda>_. [])(QueueKind.NewData := [EngineOutput.Write (liveness_write (integrity config) PacketType.Ping WritePriority.NewData)])"
  show thesis by (rule poll_only_frame[OF assms(1) q(2) assms(2) q(3), of now, unfolded liveness_frame]) (rule that[OF q(1)])
qed

text \<open>Answering a ping while an own ping is still queued.\<close>

lemma pong_over_ping:
  assumes "quiet config s" "MAX_WIRE_BYTES \<le> length tx"
  obtains s1 s2 s3 where "EngineState_send_ping config s = (Ok (), s1)"
    "EngineState_receive config (wire_frame (integrity config) [PacketType_code PacketType.Ping]) s1 = (Ok ReceiveReport.Ping, s2)"
    "EngineState_poll config now tx s2 = (Ok (EnginePoll.Transmit (wire_frame (integrity config) [PacketType_code PacketType.Pong]) 0), s3)"
    "quiet config s3"
proof (rule ping_queued[OF assms(1)])
  let ?ping = "liveness_write (integrity config) PacketType.Ping WritePriority.NewData"
    and ?pong = "liveness_write (integrity config) PacketType.Pong WritePriority.Control"
  fix q assume q: "EngineState_send_ping config s = (Ok (), s\<lparr>es_scheduler := q\<rparr>)" "engine_ok config (s\<lparr>es_scheduler := q\<rparr>)"
    "sched_view q = (\<lambda>_. [])(QueueKind.NewData := [EngineOutput.Write ?ping])"
  let ?s1 = "s\<lparr>es_scheduler := q\<rparr>"
  have idle: "idle_stream ?s1" using assms(1) by (simp add: quiet_def idle_stream_def)
  obtain r q2 where p: "SchedulerState_push (EngineOutput.Write ?pong) q = (r, q2)" by fastforce
  have sok: "sched_ok q" using engine_okD[OF q(2)] by simp
  have key: "wr_key ?ping = wr_key ?pong" by (simp add: liveness_write_def)
  have "wr_key ?pong \<in> set (write_keys (view_events (sched_view q)))" unfolding q(3) by (simp add: view_events_def key)
  then have v: "r = Ok ()" "sched_view q2 = (\<lambda>k. map (put ?pong) (sched_view q k))"
    using sched_push(3)[OF sok p] by (simp_all add: spec_push_def)
  have "(\<lambda>k. map (put ?pong) (sched_view q k)) = (\<lambda>_. [])(QueueKind.NewData := [EngineOutput.Write ?pong])"
    unfolding q(3) by (intro ext) (simp add: put_def key)
  note v = v(1) v(2)[unfolded this]
  have "receive_decoded config (decode_packet_bytes [PacketType_code PacketType.Ping]) ?s1 = (Ok ReceiveReport.Ping, ?s1\<lparr>es_scheduler := q2\<rparr>)"
    using decode_liveness p v(1) by (simp add: receive_decoded_def liveness_push EngineState_push_def)
  then obtain ig where r: "EngineState_receive config (wire_frame (integrity config) [PacketType_code PacketType.Ping]) ?s1 =
      (Ok ReceiveReport.Ping, ?s1\<lparr>es_scheduler := q2\<rparr>\<lparr>es_ingress := ig\<rparr>)"
    "idle_stream (?s1\<lparr>es_scheduler := q2\<rparr>\<lparr>es_ingress := ig\<rparr>)" "engine_ok config (?s1\<lparr>es_scheduler := q2\<rparr>\<lparr>es_ingress := ig\<rparr>)"
    by (rule receive_frame[OF q(2) idle, rotated]) simp_all
  let ?s = "s\<lparr>es_ingress := ig\<rparr>"
  have eq: "?s1\<lparr>es_scheduler := q2\<rparr>\<lparr>es_ingress := ig\<rparr> = ?s\<lparr>es_scheduler := q2\<rparr>" by (cases s) simp
  note r = r[unfolded eq]
  have quiet: "quiet config ?s"
    using assms(1) r(2,3) by (auto simp: quiet_def no_urgent_def idle_stream_def engine_ok_def)
  show thesis
    by (rule poll_only_frame[OF quiet r(3) assms(2) v(2), of now, unfolded liveness_frame]) (rule that[OF q(1) r(1)])
qed

lemma pong_cycle:
  assumes "quiet_slot p"
  shows "\<exists>p'. peer_do (Receive now (wire_frame (integrity (ps_config p)) [PacketType_code PacketType.Pong])) p =
      (Ok [Heard now, Ponged], p') \<and> quiet_slot p' \<and> ps_config p' = ps_config p \<and> ps_state p' = Connected \<and>
    ps_last_seen_ms p' = now \<and> ps_last_ping_ms p' = ps_last_ping_ms p \<and> \<not> ps_pending_ping p'"
proof -
  obtain e where e: "ps_engine p = Some e" "en_config e = ps_config p" "quiet (ps_config p) (en_state e)"
    using assms by (auto simp: quiet_slot_def)
  obtain s' where s': "EngineState_receive (ps_config p) (wire_frame (integrity (ps_config p)) [PacketType_code PacketType.Pong])
      (en_state e) = (Ok ReceiveReport.Pong, s')" "quiet (ps_config p) s'"
    by (rule receive_pong_frame[OF e(3)])
  let ?p = "p\<lparr>ps_engine := Some (e\<lparr>en_state := s'\<rparr>), ps_state := Connected, ps_last_seen_ms := now, ps_pending_ping := False\<rparr>"
  have "PeerSlot_receive now (wire_frame (integrity (ps_config p)) [PacketType_code PacketType.Pong]) p =
      (Ok ReceiveReport.Pong, ?p)"
    using e(1,2) s'(1) by (simp add: PeerSlot_receive_def Engine_receive_def Let_def)
  then show ?thesis
    using e s'(2) by (simp add: receive_events_def PeerSlot_has_session_def quiet_slot_def)
qed

lemma ping_cycle:
  assumes "quiet_slot p" "ping_due now p" "MAX_WIRE_BYTES \<le> length tx"
  shows "\<exists>p'. PeerSlot_poll now tx p =
      (Ok (Transmit (wire_frame (integrity (ps_config p)) [PacketType_code PacketType.Ping]) 0), p') \<and>
    peer_do (Poll now tx) p = (Ok [Pinged now], p') \<and> quiet_slot p' \<and> ps_config p' = ps_config p \<and> ps_state p' = Connected \<and>
    ps_last_seen_ms p' = ps_last_seen_ms p \<and> ps_last_ping_ms p' = now \<and> ps_pending_ping p'"
proof -
  obtain e where e: "ps_engine p = Some e" "en_config e = ps_config p" "quiet (ps_config p) (en_state e)"
    using assms by (auto simp: quiet_slot_def)
  let ?bs = "wire_frame (integrity (ps_config p)) [PacketType_code PacketType.Ping]"
  obtain s1 s2 where s: "EngineState_send_ping (ps_config p) (en_state e) = (Ok (), s1)"
    "EngineState_poll (ps_config p) now tx s1 = (Ok (EnginePoll.Transmit ?bs 0), s2)" "quiet (ps_config p) s2"
    by (rule ping_then_poll[OF e(3) assms(3)])
  have st: "ps_state p = Connected" using assms(2) by (simp add: ping_due_def)
  let ?p1 = "p\<lparr>ps_engine := Some (e\<lparr>en_state := s1\<rparr>), ps_last_ping_ms := now, ps_pending_ping := True\<rparr>"
  have q: "PeerSlot_queue_ping_if_idle now p = (Ok (), ?p1)"
    using assms(2) e(1,2) s(1)
    by (simp add: PeerSlot_queue_ping_if_idle_def ping_due_def PeerSlot_is_connected_def idle_for_saturating)
  have "\<not> ps_pending_ping p" using assms(2) by (simp add: ping_due_def)
  then have sent: "ping_sent now p" using q by (auto simp: ping_sent_def dest: arg_cong[of _ _ ps_pending_ping])
  have poll: "PeerSlot_poll now tx p = (Ok (Transmit ?bs 0),
      ?p1\<lparr>ps_engine := Some (e\<lparr>en_state := s2\<rparr>)\<rparr>)"
    using q e(2) s(2) by (simp add: PeerSlot_poll_def Engine_poll_def)
  then show ?thesis
    using sent e(1,2) s(3) st by (simp add: poll_events_def quiet_slot_def)
qed

section \<open>The opening exchange\<close>

lemma hello_fragments: "fragment_count (length HELLO_MESSAGE) (fragment_limit config PacketType.Data) = 1"
  using fragment_limit_bounds(1)[of PacketType.Data config] by (simp add: HELLO_MESSAGE_def fragment_count_def)

lemma hello_exchange:
  assumes "MAX_WIRE_BYTES \<le> length tx"
  obtains mid hello ack a1 a2 a3 b1 b2 where
    "EngineState_send_data config HELLO_MESSAGE (EngineState_new ida config) = (Ok mid, a1)"
    "EngineState_poll config t1 tx a1 = (Ok (EnginePoll.Transmit hello 0), a2)"
    "EngineState_receive config hello (EngineState_new idb config) = (Ok (ReceiveReport.Packet (PacketIndex 0)), b1)"
    "EngineState_poll config t3 tx b1 = (Ok (EnginePoll.Transmit ack 0), b2)"
    "EngineState_receive config ack a2 = (Ok (ReceiveReport.Ack (PacketIndex 0)), a3)" "quiet config a3"
proof -
  let ?a = "EngineState_new ida config" and ?b = "EngineState_new idb config"
  let ?fb = "fragment_limit config PacketType.Data" and ?frame = "\<lambda>mid. frag_frame (integrity config) PacketType.Data mid (fragment_limit config PacketType.Data) HELLO_MESSAGE 0"
  have len: "length HELLO_MESSAGE \<le> MAX_MESSAGE_BYTES" and one: "1 \<le> MAX_EVENTS" by (simp_all add: HELLO_MESSAGE_def)
  obtain mid numbers where al: "NumberState_alloc_message_id (es_numbers ?a) = (mid, numbers)" by fastforce
  obtain a1 a2 where A: "EngineState_send_data config HELLO_MESSAGE ?a = (Ok mid, a1)"
    "poll_times config t1 tx 1 a1 = (map (\<lambda>i. Ok (EnginePoll.Transmit
        (frag_frame (integrity config) PacketType.Data mid ?fb HELLO_MESSAGE i) 0)) [0..<1], a2)"
    "engine_ok config a2" "idle_stream a2" "no_urgent a2" "sched_view (es_scheduler a2) QueueKind.NewData = []"
    "message_list (es_message a2) = []" "es_numbers a2 = numbers" "dom (reasm_map (es_reassembly a2)) = {}"
    "tracked mid (frag_sent config mid HELLO_MESSAGE t1 0) {..<1} (inflight_map (rs_in_flight (es_recovery a2)))"
    by (rule transfer_send[OF quiet_new len assms al hello_fragments[symmetric] refl one, where now = t1])
  have pa: "EngineState_poll config t1 tx a1 = (Ok (EnginePoll.Transmit (?frame mid) 0), a2)"
    using A(2) by (simp split: prod.splits)
  have rec: "\<forall>k\<in>set (dedup_recent (rc_dedup (es_receive ?b))). key_message_id k \<noteq> mid" using new_engine_idle(3) by simp
  have ord: "distinct [0 :: nat]" "set [0 :: nat] = {..<1}" by auto
  obtain b1 b' ev where B: "receive_all config (map (frag_frame (integrity config) PacketType.Data mid ?fb HELLO_MESSAGE) [0]) ?b =
      (map (\<lambda>i. Ok (ReceiveReport.Packet (PacketIndex (of_nat i)))) [0], b1)"
    "poll_times config t3 tx (Suc (length [0 :: nat])) b1 =
      (map (\<lambda>i. Ok (EnginePoll.Transmit (wire_frame (integrity config) (ack_packet (frag_key mid i))) 0)) [0] @
       [Ok (EnginePoll.Message ev)], b')"
    by (rule transfer_receive[OF quiet_new len assms rec refl hello_fragments[symmetric] one ord, where now = t3]) blast
  have rb: "EngineState_receive config (?frame mid) ?b = (Ok (ReceiveReport.Packet (PacketIndex 0)), b1)"
    using B(1) by (simp split: prod.splits)
  obtain b2 where pb: "EngineState_poll config t3 tx b1 =
      (Ok (EnginePoll.Transmit (wire_frame (integrity config) (ack_packet (frag_key mid 0))) 0), b2)"
    using B(2) by (auto split: prod.splits)
  obtain a3 where R: "EngineState_receive config (wire_frame (integrity config) (ack_packet (frag_key mid 0))) a2 =
      (Ok (ReceiveReport.Ack (key_packet_index (frag_key mid 0))), a3)" "engine_ok config a3" "idle_stream a3"
    "inflight_map (rs_in_flight (es_recovery a3)) = (inflight_map (rs_in_flight (es_recovery a2)))(frag_key mid 0 := None)"
    "es_scheduler a3 = es_scheduler a2" "es_message a3 = es_message a2" "es_ack a3 = es_ack a2"
    "es_numbers a3 = es_numbers a2" "es_receive a3 = es_receive a2" "es_reassembly a3 = es_reassembly a2"
    by (rule receive_ack_frame[OF A(3,4)])
  have "dom (inflight_map (rs_in_flight (es_recovery a3))) = {}" using R(4) A(10) by (auto simp: tracked_def)
  then have q3: "quiet config a3" using R A(5-7,9) by (simp add: quiet_def no_urgent_def)
  show thesis by (rule that[OF A(1) pa rb pb _ q3]) (use R(1) in \<open>simp add: PacketKey_new_def\<close>)
qed

section \<open>Properties\<close>

text \<open>
  C9. Life cycle: whatever operations are applied to a new slot, with whatever bytes and times, none
  panics, the slot keeps its invariant (an engine exists exactly in the states Connecting and
  Connected, and only a connected slot waits for a pong), and the connection state, the two times
  and the pending ping change exactly as the events of the operations say.
\<close>

theorem peer_follows_life_cycle:
  "case peer_run ops (PeerSlot_new config) of (r, p) \<Rightarrow>
     peer_ok p \<and> ps_config p = config \<and>
     (\<exists>es. r = Ok es \<and> view_run es (slot_view (PeerSlot_new config)) = Some (slot_view p))"
  using peer_run_ok[OF peer_ok_new(1), of ops config] peer_ok_new(2)[of config] by auto

text \<open>
  C19. Keep-alive: in any run from a new slot, two pings are always separated by a pong or by the
  start of a new session, and within one session they are at least 5000 ms apart.  A ping is an observed effect of the
  code (\<open>ping_sent\<close>): a poll in which \<^verbatim>\<open>queue_ping_if_idle\<close> changed the slot, which by \<open>ping_sent_engine\<close> means a
  successful call of \<^verbatim>\<open>send_ping\<close>.
\<close>

theorem keepalive_discipline:
  assumes "fst (peer_run ops (PeerSlot_new config)) = Ok (es @ Pinged t1 # fs @ Pinged t2 # gs)"
  shows "(Ponged \<in> set fs \<or> (\<exists>t. Opened t \<in> set fs)) \<and> ((\<forall>t. Opened t \<notin> set fs) \<longrightarrow> unat t1 + 5000 \<le> unat t2)"
proof -
  obtain p where run: "view_run (es @ Pinged t1 # fs @ Pinged t2 # gs) (slot_view (PeerSlot_new config)) = Some (slot_view p)"
    using peer_run_ok[OF peer_ok_new(1), of ops config] assms by auto
  obtain v1 v2 v3 where v: "view_step (Pinged t1) v1 = Some v2" "view_run fs v2 = Some v3" "view_step (Pinged t2) v3 \<noteq> None"
    using run by (auto split: Option.bind_splits if_splits)
  have v2: "pv_pending_ping v2" "pv_last_ping_ms v2 = t1" using v(1) by (auto split: if_splits)
  have v3: "pv_state v3 = Connected" "\<not> pv_pending_ping v3" "idle_for t2 (pv_last_ping_ms v3)"
    using v(3) by (auto split: if_splits)
  have "Ponged \<in> set fs \<or> (\<exists>t. Opened t \<in> set fs)"
    using view_after_ping[OF v(2)] v2(1) v3 by auto
  moreover have "unat t1 + 5000 \<le> unat t2" if "\<forall>t. Opened t \<notin> set fs"
    using view_last_ping[OF v(2) that] v2(2) v3 by (simp add: idle_for_def)
  ultimately show ?thesis by blast
qed

theorem keepalive_discipline_witness:
  "\<exists>ops es fs gs. fst (peer_run ops (PeerSlot_new (EngineConfig_default None))) = Ok (es @ Pinged 5000 # fs @ Pinged 10000 # gs) \<and>
    (Ponged \<in> set fs \<or> (\<exists>t. Opened t \<in> set fs)) \<and> unat (5000 :: u64) + 5000 \<le> unat (10000 :: u64)"
proof -
  let ?c = "EngineConfig_default None" and ?tx = "replicate MAX_WIRE_BYTES (0 :: u8)"
  let ?pong = "wire_frame (integrity ?c) [PacketType_code PacketType.Pong]"
  let ?p0 = "PeerSlot_accept_passive 0 (PeerSlot_new ?c)"
  have tx: "MAX_WIRE_BYTES \<le> length ?tx" by simp
  have q0: "quiet_slot ?p0" "ps_config ?p0 = ?c" "ps_last_ping_ms ?p0 = 0"
    using quiet_new[of ?c] by (simp_all add: quiet_slot_def PeerSlot_accept_passive_def PeerSlot_new_def Engine_new_def)
  obtain p1 where p1: "peer_do (Receive 0 ?pong) ?p0 = (Ok [Heard 0, Ponged], p1)" "quiet_slot p1" "ps_config p1 = ?c"
    "ps_state p1 = Connected" "ps_last_seen_ms p1 = 0" "ps_last_ping_ms p1 = 0" "\<not> ps_pending_ping p1"
    using pong_cycle[OF q0(1), of 0] q0(2,3) by auto
  have due1: "ping_due 5000 p1" using p1(4-7) by (simp add: ping_due_def idle_for_def)
  obtain p2 where p2: "peer_do (Poll 5000 ?tx) p1 = (Ok [Pinged 5000], p2)" "quiet_slot p2" "ps_config p2 = ?c"
    "ps_last_ping_ms p2 = 5000"
    using ping_cycle[OF p1(2) due1 tx] p1(3) by auto
  obtain p3 where p3: "peer_do (Receive 5000 ?pong) p2 = (Ok [Heard 5000, Ponged], p3)" "quiet_slot p3" "ps_config p3 = ?c"
    "ps_state p3 = Connected" "ps_last_seen_ms p3 = 5000" "ps_last_ping_ms p3 = 5000" "\<not> ps_pending_ping p3"
    using pong_cycle[OF p2(2), of 5000] p2(3,4) by auto
  have due3: "ping_due 10000 p3" using p3(4-7) by (simp add: ping_due_def idle_for_def)
  obtain p4 where p4: "peer_do (Poll 10000 ?tx) p3 = (Ok [Pinged 10000], p4)" using ping_cycle[OF p3(2) due3 tx] by auto
  let ?ops = "[AcceptPassive 0, Receive 0 ?pong, Poll 5000 ?tx, Receive 5000 ?pong, Poll 10000 ?tx]"
  have run: "fst (peer_run ?ops (PeerSlot_new ?c)) =
      Ok ([Opened 0, Heard 0, Ponged] @ Pinged 5000 # [Heard 5000, Ponged] @ Pinged 10000 # [])"
    using p1(1) p2(1) p3(1) p4(1) by (simp del: peer_do.simps(6,7))
  note K = keepalive_discipline[OF run]
  show ?thesis
  proof (intro exI conjI)
    show "fst (peer_run ?ops (PeerSlot_new ?c)) =
        Ok ([Opened 0, Heard 0, Ponged] @ Pinged 5000 # [Heard 5000, Ponged] @ Pinged 10000 # [])" by (rule run)
    show "Ponged \<in> set [Heard 5000, Ponged] \<or> (\<exists>t. Opened t \<in> set [Heard 5000, Ponged])" using K by blast
    show "unat (5000 :: u64) + 5000 \<le> unat (10000 :: u64)" using K by simp
  qed
qed

text \<open>
  Handshake: a client that connects sends one hello frame; a passive endpoint without a session
  that receives it opens one, reports the packet and becomes connected, and its next poll, before
  the ping interval has passed, acknowledges the frame; the acknowledgement makes the client connected and leaves
  nothing in flight.  The endpoints share the configuration, and the buffers hold one wire frame.
\<close>

theorem handshake_connects:
  assumes "MAX_WIRE_BYTES \<le> length tx" "unat t3 < unat t2 + 5000"
  shows "\<exists>mid hello ack c1 c2 c3 p1 p2.
    ClientEndpoint_connect t0 (ClientEndpoint_new config) = (Ok mid, c1) \<and>
    ClientEndpoint_poll t1 tx c1 = (Ok (Transmit hello 0), c2) \<and>
    PassiveEndpoint_receive t2 hello (PassiveEndpoint_new config) = (Ok (ReceiveReport.Packet (PacketIndex 0)), p1) \<and>
    PassiveEndpoint_poll t3 tx p1 = (Ok (Transmit ack 0), p2) \<and>
    ClientEndpoint_receive t4 ack c2 = (Ok (ReceiveReport.Ack (PacketIndex 0)), c3) \<and>
    PeerSlot_is_connected (ce_peer c3) \<and> PeerSlot_is_connected (pe_peer p2) \<and> quiet_slot (ce_peer c3)"
proof -
  let ?id = "initial_message_id config"
  obtain mid hello ack a1 a2 a3 b1 b2 where
    E: "EngineState_send_data config HELLO_MESSAGE (EngineState_new ?id config) = (Ok mid, a1)"
    "EngineState_poll config t1 tx a1 = (Ok (EnginePoll.Transmit hello 0), a2)"
    "EngineState_receive config hello (EngineState_new ?id config) = (Ok (ReceiveReport.Packet (PacketIndex 0)), b1)"
    "EngineState_poll config t3 tx b1 = (Ok (EnginePoll.Transmit ack 0), b2)"
    "EngineState_receive config ack a2 = (Ok (ReceiveReport.Ack (PacketIndex 0)), a3)" "quiet config a3"
    by (rule hello_exchange[OF assms(1)])
  let ?slot = "\<lambda>s st seen ping. \<lparr>ps_config = config, ps_engine = Some \<lparr>en_config = config, en_state = s\<rparr>, ps_state = st,
    ps_last_seen_ms = seen, ps_last_ping_ms = ping, ps_pending_ping = False\<rparr>"
  let ?c1 = "\<lparr>ce_peer = ?slot a1 Connecting t0 t0\<rparr>" and ?c2 = "\<lparr>ce_peer = ?slot a2 Connecting t0 t0\<rparr>"
    and ?c3 = "\<lparr>ce_peer = ?slot a3 Connected t4 t0\<rparr>"
  let ?p1 = "\<lparr>pe_peer = ?slot b1 Connected t2 t2\<rparr>" and ?p2 = "\<lparr>pe_peer = ?slot b2 Connected t2 t2\<rparr>"
  have c1: "ClientEndpoint_connect t0 (ClientEndpoint_new config) = (Ok mid, ?c1)"
    using E(1) by (simp add: ClientEndpoint_connect_def ClientEndpoint_new_def PeerSlot_connect_def PeerSlot_new_def
        Engine_send_def Engine_new_def)
  have c2: "ClientEndpoint_poll t1 tx ?c1 = (Ok (Transmit hello 0), ?c2)"
    using E(2) by (simp add: ClientEndpoint_poll_def PeerSlot_poll_def PeerSlot_queue_ping_if_idle_def
        PeerSlot_is_connected_def Engine_poll_def)
  have p1: "PassiveEndpoint_receive t2 hello (PassiveEndpoint_new config) = (Ok (ReceiveReport.Packet (PacketIndex 0)), ?p1)"
    using E(3) by (simp add: PassiveEndpoint_receive_def PassiveEndpoint_new_def PeerSlot_new_def PeerSlot_receive_def
        PeerSlot_accept_passive_if_needed_def PeerSlot_accept_passive_def Engine_receive_def Engine_new_def)
  have "\<not> idle_for t3 t2" using assms(2) by (simp add: idle_for_def)
  then have p2: "PassiveEndpoint_poll t3 tx ?p1 = (Ok (Transmit ack 0), ?p2)"
    using E(4) by (simp add: idle_for_saturating PassiveEndpoint_poll_def PeerSlot_poll_def
        PeerSlot_queue_ping_if_idle_def Engine_poll_def)
  have c3: "ClientEndpoint_receive t4 ack ?c2 = (Ok (ReceiveReport.Ack (PacketIndex 0)), ?c3)"
    using E(5) by (simp add: ClientEndpoint_receive_def PeerSlot_receive_def Engine_receive_def)
  have "PeerSlot_is_connected (ce_peer ?c3)" "PeerSlot_is_connected (pe_peer ?p2)" "quiet_slot (ce_peer ?c3)"
    using E(6) by (simp_all add: PeerSlot_is_connected_def quiet_slot_def)
  then show ?thesis using c1 c2 p1 p2 c3 by blast
qed

theorem handshake_connects_witness:
  "\<exists>mid hello c1 c2. ClientEndpoint_connect 1 (ClientEndpoint_new (EngineConfig_default None)) = (Ok mid, c1) \<and>
    ClientEndpoint_poll 1 (replicate 128 0) c1 = (Ok (Transmit hello 0), c2)"
  using handshake_connects[where tx = "replicate 128 0" and ?t0.0 = 1 and ?t1.0 = 1 and ?t2.0 = 2 and ?t3.0 = 2
      and ?t4.0 = 3 and config = "EngineConfig_default None"]
  by auto


text \<open>
  C40. Ping and pong frames are queued under the same packet key: when a ping of the peer arrives while
  the own ping is still queued, the pong takes its place.  The pong is all that goes out, the ping
  is never sent, and the engine is idle with nothing left to send.
\<close>

theorem pong_replaces_ping:
  assumes "quiet config s" "MAX_WIRE_BYTES \<le> length tx"
  shows "\<exists>s1 s2 s3. EngineState_send_ping config s = (Ok (), s1) \<and>
    EngineState_receive config (wire_frame (integrity config) [PacketType_code PacketType.Ping]) s1 = (Ok ReceiveReport.Ping, s2) \<and>
    EngineState_poll config now tx s2 = (Ok (EnginePoll.Transmit (wire_frame (integrity config) [PacketType_code PacketType.Pong]) 0), s3) \<and>
    quiet config s3"
  using pong_over_ping[OF assms] by metis

theorem pong_replaces_ping_witness:
  "\<exists>s1 s2 s3. EngineState_send_ping (EngineConfig_default None) (EngineState_new (MessageId 0) (EngineConfig_default None)) = (Ok (), s1) \<and>
    EngineState_receive (EngineConfig_default None)
      (wire_frame (integrity (EngineConfig_default None)) [PacketType_code PacketType.Ping]) s1 = (Ok ReceiveReport.Ping, s2) \<and>
    EngineState_poll (EngineConfig_default None) 9 (replicate 128 0) s2 =
      (Ok (EnginePoll.Transmit (wire_frame (integrity (EngineConfig_default None)) [PacketType_code PacketType.Pong]) 0), s3) \<and>
    quiet (EngineConfig_default None) s3"
  by (rule pong_replaces_ping) (simp_all add: quiet_new)

end
