(* ===== verification/Endpoint_Server.thy ===== *)
theory Endpoint_Server
  imports Endpoint_Peer
begin

text \<open>
  The server endpoint (\<^verbatim>\<open>src/endpoint/server.rs\<close>): a fixed number of peer slots, each reserved for one
  peer key of the adapter.  The lemmas show that the table implements a partial map from peer keys
  to slots with at most as many entries as there are places, and that the peers are independent of
  each other.
\<close>

section \<open>endpoint/server.rs\<close>

datatype AcceptError = Full | EngineError Error

record 'p PeerEntry =
  pn_peer_id :: 'p
  pn_slot :: PeerSlot

record 'p ServerEndpoint =
  se_config :: EngineConfig
  se_peers :: "'p PeerEntry option list"

definition ServerEndpoint_new :: "nat \<Rightarrow> EngineConfig \<Rightarrow> 'p ServerEndpoint" where
  "ServerEndpoint_new N config = \<lparr>se_config = config, se_peers = replicate N None\<rparr>"

definition ServerEndpoint_default :: "nat \<Rightarrow> DynamicRecoveryConfig option \<Rightarrow> 'p ServerEndpoint" where
  "ServerEndpoint_default N dyn = ServerEndpoint_new N (EngineConfig_default dyn)"

definition ServerEndpoint_find_index :: "'p \<Rightarrow> 'p ServerEndpoint \<Rightarrow> usize option" where
  "ServerEndpoint_find_index peer_id s =
     position (\<lambda>peer. case peer of Some entry \<Rightarrow> pn_peer_id entry = peer_id | None \<Rightarrow> False) (se_peers s)"

definition ServerEndpoint_vacant_index :: "'p ServerEndpoint \<Rightarrow> usize option" where
  "ServerEndpoint_vacant_index s = position (\<lambda>peer. peer = None) (se_peers s)"

text \<open>Writing back the slot of the entry at an index.\<close>

definition update_slot :: "usize \<Rightarrow> 'p PeerEntry \<Rightarrow> PeerSlot \<Rightarrow> 'p ServerEndpoint \<Rightarrow> 'p ServerEndpoint" where
  "update_slot i entry slot s = s\<lparr>se_peers := (se_peers s)[i := Some (entry\<lparr>pn_slot := slot\<rparr>)]\<rparr>"

text \<open>
  \<^verbatim>\<open>accept\<close> returns its own error type; the outer option is \<open>None\<close> when the code panics.
\<close>

definition ServerEndpoint_reconnect_at ::
  "usize \<Rightarrow> u64 \<Rightarrow> 'p ServerEndpoint \<Rightarrow> (AcceptError + unit) option \<times> 'p ServerEndpoint" where
  "ServerEndpoint_reconnect_at i now s =
     (if i \<ge> length (se_peers s) then (None, s)
      else case se_peers s ! i of
        None \<Rightarrow> (Some (Inl (EngineError (Error_new Engine))), s)
      | Some entry \<Rightarrow>
          (case PeerSlot_connect now (pn_slot entry) of
             (Ok _, slot) \<Rightarrow> (Some (Inr ()), update_slot i entry slot s)
           | (Err e, slot) \<Rightarrow> (Some (Inl (EngineError e)), update_slot i entry slot s)
           | (Panic, slot) \<Rightarrow> (None, update_slot i entry slot s)))"

definition ServerEndpoint_accept ::
  "'p \<Rightarrow> u64 \<Rightarrow> 'p ServerEndpoint \<Rightarrow> (AcceptError + unit) option \<times> 'p ServerEndpoint" where
  "ServerEndpoint_accept peer_id now s =
     (case ServerEndpoint_find_index peer_id s of
        Some i \<Rightarrow> ServerEndpoint_reconnect_at i now s
      | None \<Rightarrow>
          (case ServerEndpoint_vacant_index s of
             None \<Rightarrow> (Some (Inl Full), s)
           | Some i \<Rightarrow>
               ServerEndpoint_reconnect_at i now
                 (s\<lparr>se_peers := (se_peers s)[i := Some \<lparr>pn_peer_id = peer_id, pn_slot = PeerSlot_new (se_config s)\<rparr>]\<rparr>)))"

definition ServerEndpoint_disconnect :: "'p \<Rightarrow> 'p ServerEndpoint \<Rightarrow> bool \<times> 'p ServerEndpoint" where
  "ServerEndpoint_disconnect peer_id s =
     (case ServerEndpoint_find_index peer_id s of
        None \<Rightarrow> (False, s)
      | Some i \<Rightarrow> (True, s\<lparr>se_peers := (se_peers s)[i := None]\<rparr>))"

text \<open>\<^verbatim>\<open>find_index\<close>, the access to the slot and the write-back shared by the operations on one peer.\<close>

definition on_peer :: "'p \<Rightarrow> (PeerSlot \<Rightarrow> 'r \<times> PeerSlot) \<Rightarrow> 'p ServerEndpoint \<Rightarrow> 'r option \<times> 'p ServerEndpoint" where
  "on_peer peer_id f s =
     (case ServerEndpoint_find_index peer_id s of
        None \<Rightarrow> (None, s)
      | Some i \<Rightarrow>
          (case se_peers s ! i of
             None \<Rightarrow> (None, s)
           | Some entry \<Rightarrow> (case f (pn_slot entry) of (r, slot) \<Rightarrow> (Some r, update_slot i entry slot s))))"

definition ServerEndpoint_receive ::
  "'p \<Rightarrow> u64 \<Rightarrow> bytes \<Rightarrow> 'p ServerEndpoint \<Rightarrow> ReceiveReport res option \<times> 'p ServerEndpoint" where
  "ServerEndpoint_receive peer_id now bs s = on_peer peer_id (PeerSlot_receive now bs) s"

definition ServerEndpoint_poll ::
  "'p \<Rightarrow> u64 \<Rightarrow> bytes \<Rightarrow> 'p ServerEndpoint \<Rightarrow> EndpointPoll res option \<times> 'p ServerEndpoint" where
  "ServerEndpoint_poll peer_id now tx_buf s = on_peer peer_id (PeerSlot_poll now tx_buf) s"

definition ServerEndpoint_send ::
  "'p \<Rightarrow> bytes \<Rightarrow> 'p ServerEndpoint \<Rightarrow> MessageId option res option \<times> 'p ServerEndpoint" where
  "ServerEndpoint_send peer_id msg s = on_peer peer_id (PeerSlot_send msg) s"

definition ServerEndpoint_peer :: "'p \<Rightarrow> 'p ServerEndpoint \<Rightarrow> PeerSlot option" where
  "ServerEndpoint_peer peer_id s =
     (case ServerEndpoint_find_index peer_id s of
        None \<Rightarrow> None
      | Some i \<Rightarrow> map_option pn_slot (se_peers s ! i))"

fun disconnect_idle_slots ::
  "u64 \<Rightarrow> u64 \<Rightarrow> 'p PeerEntry option list \<Rightarrow> usize \<Rightarrow> usize \<times> 'p PeerEntry option list" where
  "disconnect_idle_slots now timeout [] disconnected = (disconnected, [])"
| "disconnect_idle_slots now timeout (None # peers) disconnected =
     (case disconnect_idle_slots now timeout peers disconnected of (d, ps) \<Rightarrow> (d, None # ps))"
| "disconnect_idle_slots now timeout (Some entry # peers) disconnected =
     (case PeerSlot_disconnect_if_idle now timeout (pn_slot entry) of
        (True, slot) \<Rightarrow>
          (case disconnect_idle_slots now timeout peers (disconnected + 1) of (d, ps) \<Rightarrow> (d, None # ps))
      | (False, slot) \<Rightarrow>
          (case disconnect_idle_slots now timeout peers disconnected of
             (d, ps) \<Rightarrow> (d, Some (entry\<lparr>pn_slot := slot\<rparr>) # ps)))"

definition ServerEndpoint_disconnect_idle :: "u64 \<Rightarrow> u64 \<Rightarrow> 'p ServerEndpoint \<Rightarrow> usize \<times> 'p ServerEndpoint" where
  "ServerEndpoint_disconnect_idle now timeout s =
     (case disconnect_idle_slots now timeout (se_peers s) 0 of (d, ps) \<Rightarrow> (d, s\<lparr>se_peers := ps\<rparr>))"

definition ServerEndpoint_peers :: "'p ServerEndpoint \<Rightarrow> 'p PeerEntry list" where
  "ServerEndpoint_peers s = flatten (se_peers s)"

section \<open>Sessions by key\<close>

text \<open>
  The contract of a table of sessions: a step on a key that has a session runs on this session alone;
  a step on another key does nothing.  It follows that whatever happens to the other keys, the
  results and the session of a key are those of its own steps.
\<close>

locale keyed_sessions =
  fixes inv :: "'t \<Rightarrow> bool"
    and lookup :: "'t \<Rightarrow> 'k \<Rightarrow> 'v option"
    and allowed :: "('v \<Rightarrow> 'r \<times> 'v) \<Rightarrow> bool"
    and step :: "'k \<Rightarrow> ('v \<Rightarrow> 'r \<times> 'v) \<Rightarrow> 't \<Rightarrow> 'r option \<times> 't"
  assumes step_unknown: "inv t \<Longrightarrow> lookup t k = None \<Longrightarrow> step k f t = (None, t)"
    and step_known: "inv t \<Longrightarrow> lookup t k = Some v \<Longrightarrow> allowed f \<Longrightarrow> f v = (r, v') \<Longrightarrow>
      \<exists>t'. step k f t = (Some r, t') \<and> inv t' \<and> lookup t' = (lookup t)(k \<mapsto> v')"
begin

fun steps :: "('k \<times> ('v \<Rightarrow> 'r \<times> 'v)) list \<Rightarrow> 't \<Rightarrow> ('k \<times> 'r option) list \<times> 't" where
  "steps [] t = ([], t)"
| "steps ((k, f) # xs) t = (case step k f t of (r, t1) \<Rightarrow> case steps xs t1 of (rs, t2) \<Rightarrow> ((k, r) # rs, t2))"

fun alone :: "('v \<Rightarrow> 'r \<times> 'v) list \<Rightarrow> 'v option \<Rightarrow> 'r option list \<times> 'v option" where
  "alone [] v = ([], v)"
| "alone (f # fs) None = (case alone fs None of (rs, v) \<Rightarrow> (None # rs, v))"
| "alone (f # fs) (Some v) = (case f v of (r, w) \<Rightarrow> case alone fs (Some w) of (rs, u) \<Rightarrow> (Some r # rs, u))"

lemma step_lookup:
  assumes "inv t" "allowed f" "step k f t = (r, t')"
  shows "inv t'" "j \<noteq> k \<Longrightarrow> lookup t' j = lookup t j"
    "alone (f # fs) (lookup t k) = (case alone fs (lookup t' k) of (rs, v) \<Rightarrow> (r # rs, v))"
proof -
  have "inv t' \<and> (j \<noteq> k \<longrightarrow> lookup t' j = lookup t j) \<and>
    alone (f # fs) (lookup t k) = (case alone fs (lookup t' k) of (rs, v) \<Rightarrow> (r # rs, v))"
  proof (cases "lookup t k")
    case None
    then show ?thesis using step_unknown[OF assms(1) None, of f] assms by simp
  next
    case (Some v)
    obtain r1 v1 where f: "f v = (r1, v1)" by fastforce
    obtain t1 where "step k f t = (Some r1, t1)" "inv t1" "lookup t1 = (lookup t)(k \<mapsto> v1)"
      using step_known[OF assms(1) Some assms(2) f] by blast
    then show ?thesis using assms(3) Some f by simp
  qed
  then show "inv t'" "j \<noteq> k \<Longrightarrow> lookup t' j = lookup t j"
    "alone (f # fs) (lookup t k) = (case alone fs (lookup t' k) of (rs, v) \<Rightarrow> (r # rs, v))" by blast+
qed

lemma steps_independent:
  "inv t \<Longrightarrow> \<forall>(j, f)\<in>set xs. allowed f \<Longrightarrow> steps xs t = (rs, t') \<Longrightarrow>
    inv t' \<and> (map snd (filter (\<lambda>(j, r). j = k) rs), lookup t' k) =
      alone (map snd (filter (\<lambda>(j, f). j = k) xs)) (lookup t k)"
proof (induction xs arbitrary: t rs)
  case (Cons x xs)
  obtain j f where x: "x = (j, f)" by (cases x)
  obtain r t1 where s: "step j f t = (r, t1)" by fastforce
  obtain rs1 where ss: "steps xs t1 = (rs1, t')" "rs = (j, r) # rs1" using Cons.prems(3) x s by (auto split: prod.splits)
  have f: "allowed f" using Cons.prems(2) x by simp
  note L = step_lookup[OF Cons.prems(1) f s]
  have IH: "inv t'" "(map snd (filter (\<lambda>(j, r). j = k) rs1), lookup t' k) =
      alone (map snd (filter (\<lambda>(j, f). j = k) xs)) (lookup t1 k)"
    using Cons.IH[OF L(1) _ ss(1)] Cons.prems(2) by auto
  show ?case
  proof (cases "j = k")
    case True
    then show ?thesis using IH x ss(2) L(3)[of "map snd (filter (\<lambda>(j, f). j = k) xs)"] IH(2)[symmetric] by simp
  next
    case False
    then show ?thesis using IH x ss(2) L(2)[of k] by simp
  qed
qed auto

end

section \<open>The server is a map from peers to slots\<close>

definition server_map :: "'p ServerEndpoint \<Rightarrow> 'p \<Rightarrow> PeerSlot option" where
  "server_map s p = map_option pn_slot (slot_lookup pn_peer_id p (se_peers s))"

definition server_ok :: "nat \<Rightarrow> EngineConfig \<Rightarrow> 'p ServerEndpoint \<Rightarrow> bool" where
  "server_ok N config s \<longleftrightarrow> se_config s = config \<and> length (se_peers s) = N \<and>
     distinct (map pn_peer_id (flatten (se_peers s))) \<and>
     (\<forall>entry\<in>set (flatten (se_peers s)). peer_ok (pn_slot entry) \<and> ps_config (pn_slot entry) = config)"

lemma find_index_eq: "ServerEndpoint_find_index p s = slot_pos pn_peer_id p (se_peers s)"
  "ServerEndpoint_vacant_index s = slot_free (se_peers s)"
proof -
  have "(\<lambda>peer. case peer of Some entry \<Rightarrow> pn_peer_id entry = p | None \<Rightarrow> False) =
      (\<lambda>s. case s of None \<Rightarrow> False | Some v \<Rightarrow> pn_peer_id v = p)" by (auto split: option.splits)
  then show "ServerEndpoint_find_index p s = slot_pos pn_peer_id p (se_peers s)"
    by (simp add: ServerEndpoint_find_index_def slot_pos_def)
  show "ServerEndpoint_vacant_index s = slot_free (se_peers s)"
    by (simp add: ServerEndpoint_vacant_index_def slot_free_def)
qed

lemma dom_server_map: "dom (server_map s) = pn_peer_id ` set (flatten (se_peers s))"
  by (auto simp: server_map_def dom_def slot_lookup_None slot_pos_None)

lemma server_map_Some:
  assumes "server_map s p = Some slot"
  obtains i entry where "slot_pos pn_peer_id p (se_peers s) = Some i" "i < length (se_peers s)"
    "se_peers s ! i = Some entry" "pn_peer_id entry = p" "pn_slot entry = slot" "entry \<in> set (flatten (se_peers s))"
proof -
  obtain entry where e: "slot_lookup pn_peer_id p (se_peers s) = Some entry" "pn_slot entry = slot"
    using assms by (auto simp: server_map_def)
  then obtain i where i: "slot_pos pn_peer_id p (se_peers s) = Some i" "se_peers s ! i = Some entry"
    by (auto simp: slot_lookup_def split: option.splits)
  moreover have "i < length (se_peers s)" using slot_pos_Some[OF i(1)] by blast
  ultimately show thesis using that slot_lookup_SomeD[OF e(1)] e(2) by blast
qed

lemma server_ok_new: "server_ok N config (ServerEndpoint_new N config)" "server_map (ServerEndpoint_new N config) = Map.empty"
proof -
  have "flatten (replicate N None) = []" for N by (induction N) simp_all
  then show "server_ok N config (ServerEndpoint_new N config)" "server_map (ServerEndpoint_new N config) = Map.empty"
    by (simp_all add: server_ok_def ServerEndpoint_new_def server_map_def slot_lookup_find fun_eq_iff)
qed

lemma server_update:
  assumes "server_ok N config s" "slot_pos pn_peer_id p (se_peers s) = Some i" "se_peers s ! i = Some entry"
    and "peer_ok slot" "ps_config slot = config"
  shows "server_ok N config (update_slot i entry slot s)" "server_map (update_slot i entry slot s) = (server_map s)(p \<mapsto> slot)"
proof -
  have u: "i < length (se_peers s)" "pn_peer_id entry = p" using slot_pos_Some[OF assms(2)] assms(3) by auto
  show "server_ok N config (update_slot i entry slot s)"
    by (rule flatten_replace[OF u(1) assms(3)]) (use assms in \<open>auto simp: server_ok_def update_slot_def\<close>)
  show "server_map (update_slot i entry slot s) = (server_map s)(p \<mapsto> slot)"
    using slot_lookup_replace[of pn_peer_id "entry\<lparr>pn_slot := slot\<rparr>" "se_peers s" i] assms(2) u(2)
    by (auto simp: server_map_def update_slot_def fun_eq_iff)
qed

text \<open>Steps that keep the invariant of a slot.\<close>

definition keeps_slot :: "EngineConfig \<Rightarrow> (PeerSlot \<Rightarrow> 'r \<times> PeerSlot) \<Rightarrow> bool" where
  "keeps_slot config f \<longleftrightarrow> (\<forall>p. peer_ok p \<and> ps_config p = config \<longrightarrow>
     peer_ok (snd (f p)) \<and> ps_config (snd (f p)) = config)"

lemma keeps_slot_ops:
  "keeps_slot config (PeerSlot_receive now bs)" "keeps_slot config (PeerSlot_poll now tx)" "keeps_slot config (PeerSlot_send msg)"
  using receive_view poll_view send_view unfolding keeps_slot_def by (metis prod.collapse)+

interpretation peers: keyed_sessions "server_ok N config" server_map "keeps_slot config" on_peer for N config
proof (standard, goal_cases)
  case (1 t k f)
  then have "slot_pos pn_peer_id k (se_peers t) = None" by (simp add: server_map_def slot_lookup_None)
  then show ?case by (simp add: on_peer_def find_index_eq)
next
  case (2 t k v f r v')
  obtain i entry where e: "slot_pos pn_peer_id k (se_peers t) = Some i" "i < length (se_peers t)"
    "se_peers t ! i = Some entry" "pn_peer_id entry = k" "pn_slot entry = v" "entry \<in> set (flatten (se_peers t))"
    by (rule server_map_Some[OF 2(2)])
  have "peer_ok v" "ps_config v = config" using 2(1) e(5,6) by (auto simp: server_ok_def)
  then have v': "peer_ok v'" "ps_config v' = config" using 2(3,4) unfolding keeps_slot_def by (metis snd_conv)+
  have "on_peer k f t = (Some r, update_slot i entry v' t)" using e 2(4) by (simp add: on_peer_def find_index_eq)
  then show ?case using server_update[OF 2(1) e(1,3) v'] by blast
qed

lemma connect_fresh:
  "PeerSlot_connect now p = PeerSlot_connect now (PeerSlot_new (ps_config p))"
  by (cases p) (simp add: PeerSlot_connect_def PeerSlot_new_def update_field_def Let_def split: prod.splits)

lemma connect_succeeds:
  obtains mid slot where "PeerSlot_connect now (PeerSlot_new config) = (Ok mid, slot)" "peer_ok slot" "ps_config slot = config"
proof -
  have "MAX_WIRE_BYTES \<le> length (replicate MAX_WIRE_BYTES (0 :: u8))" by simp
  then obtain mid a1 where "EngineState_send_data config HELLO_MESSAGE (EngineState_new (initial_message_id config) config) = (Ok mid, a1)"
    by (rule hello_exchange)
  then obtain slot where s: "PeerSlot_connect now (PeerSlot_new config) = (Ok mid, slot)"
    by (simp add: PeerSlot_connect_def PeerSlot_new_def Engine_send_def Engine_new_def)
  show thesis using that[OF s] connect_view(1,3)[OF s] peer_ok_new(2)[of config] by simp
qed

lemma card_server_map:
  assumes "server_ok N config s"
  shows "card (dom (server_map s)) = length (flatten (se_peers s))"
  using assms distinct_card[of "map pn_peer_id (flatten (se_peers s))"] by (simp add: dom_server_map server_ok_def)

lemma accept_cases:
  assumes "server_ok N config s" "PeerSlot_connect now (PeerSlot_new config) = (Ok mid, slot)" "peer_ok slot" "ps_config slot = config"
  shows "if p \<in> dom (server_map s) \<or> card (dom (server_map s)) < N
    then \<exists>s'. ServerEndpoint_accept p now s = (Some (Inr ()), s') \<and> server_ok N config s' \<and>
      server_map s' = (server_map s)(p \<mapsto> slot)
    else ServerEndpoint_accept p now s = (Some (Inl Full), s)"
proof (cases "server_map s p")
  case (Some old)
  obtain i entry where e: "slot_pos pn_peer_id p (se_peers s) = Some i" "i < length (se_peers s)"
    "se_peers s ! i = Some entry" "pn_peer_id entry = p" "pn_slot entry = old" "entry \<in> set (flatten (se_peers s))"
    by (rule server_map_Some[OF Some])
  have "ps_config old = config" using assms(1) e(5,6) by (auto simp: server_ok_def)
  then have "PeerSlot_connect now old = (Ok mid, slot)" using connect_fresh[of now old] assms(2) by simp
  then have "ServerEndpoint_accept p now s = (Some (Inr ()), update_slot i entry slot s)"
    using e by (simp add: ServerEndpoint_accept_def find_index_eq ServerEndpoint_reconnect_at_def)
  then show ?thesis using server_update[OF assms(1) e(1,3) assms(3,4)] Some by auto
next
  case None
  then have np: "slot_pos pn_peer_id p (se_peers s) = None" by (simp add: server_map_def slot_lookup_None)
  have N: "length (se_peers s) = N" "se_config s = config" using assms(1) by (simp_all add: server_ok_def)
  show ?thesis
  proof (cases "slot_free (se_peers s)")
    case full: None
    then have "card (dom (server_map s)) = N" using card_server_map[OF assms(1)] N slot_free_None[of "se_peers s"] by simp
    moreover have "p \<notin> dom (server_map s)" using None by auto
    ultimately show ?thesis using np full by (simp add: ServerEndpoint_accept_def find_index_eq)
  next
    case (Some i)
    have i: "i < length (se_peers s)" "se_peers s ! i = None" using slot_free_Some[OF Some] by auto
    let ?new = "\<lparr>pn_peer_id = p, pn_slot = PeerSlot_new (se_config s)\<rparr>"
    let ?s = "s\<lparr>se_peers := (se_peers s)[i := Some ?new]\<rparr>"
    have ok: "server_ok N config ?s"
      by (rule flatten_insert[OF i])
         (use assms(1) np N peer_ok_new[of config] in \<open>auto simp: server_ok_def slot_pos_None\<close>)
    have m: "server_map ?s = (server_map s)(p \<mapsto> PeerSlot_new config)"
      using slot_lookup_insert[of pn_peer_id ?new "se_peers s" i] np i N(2) by (auto simp: server_map_def fun_eq_iff)
    have at: "ServerEndpoint_reconnect_at i now ?s = (Some (Inr ()), update_slot i ?new slot ?s)"
      using i assms(2) N(2) by (simp add: ServerEndpoint_reconnect_at_def)
    have pos: "slot_pos pn_peer_id p (se_peers ?s) = Some i"
    proof -
      have "\<not> (case xs ! k of None \<Rightarrow> False | Some v \<Rightarrow> pn_peer_id v = p)" if "k < i" "xs = se_peers s" for k xs
        using np that i(1) unfolding slot_pos_def position_None by auto
      then show ?thesis using i by (auto simp: slot_pos_def position_Some nth_list_update)
    qed
    have u: "server_ok N config (update_slot i ?new slot ?s)" "server_map (update_slot i ?new slot ?s) = (server_map ?s)(p \<mapsto> slot)"
      using server_update[OF ok pos _ assms(3,4), of ?new] i by simp_all
    have "card (dom (server_map s)) < N"
      using card_server_map[OF assms(1)] N(1) Some slot_free_None[of "se_peers s"] length_flatten_le[of "se_peers s"] by force
    then show ?thesis using at u m np Some by (simp add: ServerEndpoint_accept_def find_index_eq)
  qed
qed

lemma disconnect_map:
  assumes "server_ok N config s"
  shows "\<exists>s'. ServerEndpoint_disconnect p s = (p \<in> dom (server_map s), s') \<and> server_ok N config s' \<and>
    server_map s' = (server_map s)(p := None)"
proof (cases "server_map s p")
  case None
  then have "slot_pos pn_peer_id p (se_peers s) = None" by (simp add: server_map_def slot_lookup_None)
  then show ?thesis using None assms by (auto simp: ServerEndpoint_disconnect_def find_index_eq)
next
  case (Some slot)
  obtain i entry where e: "slot_pos pn_peer_id p (se_peers s) = Some i" "i < length (se_peers s)"
    "se_peers s ! i = Some entry" "pn_peer_id entry = p" "pn_slot entry = slot" "entry \<in> set (flatten (se_peers s))"
    by (rule server_map_Some[OF Some])
  have "server_ok N config (s\<lparr>se_peers := (se_peers s)[i := None]\<rparr>)"
    by (rule flatten_replace[OF e(2,3)]) (use assms in \<open>auto simp: server_ok_def\<close>)
  moreover have "server_map (s\<lparr>se_peers := (se_peers s)[i := None]\<rparr>) = (server_map s)(p := None)"
    using slot_lookup_remove[OF _ e(1)] assms by (auto simp: server_map_def server_ok_def fun_eq_iff)
  ultimately show ?thesis using e(1) Some by (auto simp: ServerEndpoint_disconnect_def find_index_eq)
qed

definition expired :: "u64 \<Rightarrow> u64 \<Rightarrow> PeerSlot \<Rightarrow> bool" where
  "expired now timeout slot \<longleftrightarrow> PeerSlot_has_session slot \<and> unat timeout \<le> unat now - unat (ps_last_seen_ms slot)"

lemma disconnect_idle_slots_eq:
  "disconnect_idle_slots now timeout xs d =
    (d + length (filter (\<lambda>e. expired now timeout (pn_slot e)) (flatten xs)),
     map (\<lambda>x. case x of Some e \<Rightarrow> if expired now timeout (pn_slot e) then None else Some e | None \<Rightarrow> None) xs)"
proof (induction xs arbitrary: d rule: flatten.induct)
  case (3 e xs)
  have "e\<lparr>pn_slot := pn_slot e\<rparr> = e" by simp
  moreover have "PeerSlot_disconnect_if_idle now timeout (pn_slot e) =
      (if expired now timeout (pn_slot e) then (True, PeerSlot_disconnect (pn_slot e)) else (False, pn_slot e))"
    by (simp add: PeerSlot_disconnect_if_idle_def expired_def PeerSlot_has_session_def word_le_nat_alt unat_saturating_sub)
  ultimately show ?case using 3 by simp
qed simp_all

lemma slot_lookup_drop:
  "distinct (map key (flatten xs)) \<Longrightarrow>
    slot_lookup key k (map (\<lambda>x. case x of Some e \<Rightarrow> if P e then None else Some e | None \<Rightarrow> None) xs) =
      (case slot_lookup key k xs of Some e \<Rightarrow> if P e then None else Some e | None \<Rightarrow> None)"
proof (induction xs rule: flatten.induct)
  case (3 e xs)
  have "slot_lookup key k xs = None" if "key e = k" using 3(2) that by (auto simp: slot_lookup_None slot_pos_None)
  then show ?case using 3 by auto
qed simp_all

lemma flatten_drop:
  "flatten (map (\<lambda>x. case x of Some e \<Rightarrow> if P e then None else Some e | None \<Rightarrow> None) xs) = filter (\<lambda>e. \<not> P e) (flatten xs)"
  by (induction xs rule: flatten.induct) simp_all

lemma disconnect_idle_map:
  assumes "server_ok N config s"
  shows "\<exists>s'. ServerEndpoint_disconnect_idle now timeout s = (card (dom (server_map s)) - card (dom (server_map s')), s') \<and>
    server_ok N config s' \<and> server_map s' = (\<lambda>q. case server_map s q of
      Some slot \<Rightarrow> if expired now timeout slot then None else Some slot | None \<Rightarrow> None)"
proof -
  let ?P = "\<lambda>e. expired now timeout (pn_slot e)"
  let ?xs = "map (\<lambda>x. case x of Some e \<Rightarrow> if ?P e then None else Some e | None \<Rightarrow> None) (se_peers s)"
  let ?s = "s\<lparr>se_peers := ?xs\<rparr>"
  have ok: "server_ok N config ?s" using assms by (auto simp: server_ok_def flatten_drop distinct_map_filter)
  have "server_map ?s q = (case server_map s q of Some slot \<Rightarrow> if expired now timeout slot then None else Some slot | None \<Rightarrow> None)" for q
    using assms slot_lookup_drop[of pn_peer_id "se_peers s" q ?P] by (auto simp: server_map_def server_ok_def split: option.splits)
  moreover have "length (filter ?P (flatten (se_peers s))) = card (dom (server_map s)) - card (dom (server_map ?s))"
    using card_server_map[OF assms] card_server_map[OF ok] sum_length_filter_compl[of ?P "flatten (se_peers s)"]
    by (simp add: flatten_drop)
  ultimately show ?thesis
    using ok by (intro exI[of _ ?s]) (simp add: ServerEndpoint_disconnect_idle_def disconnect_idle_slots_eq fun_eq_iff)
qed

lemma on_peer_map:
  assumes "server_ok N config s" "keeps_slot config f"
  shows "case server_map s p of
      None \<Rightarrow> on_peer p f s = (None, s)
    | Some slot \<Rightarrow> \<exists>s'. on_peer p f s = (Some (fst (f slot)), s') \<and> server_ok N config s' \<and>
        server_map s' = (server_map s)(p \<mapsto> snd (f slot))"
proof (cases "server_map s p")
  case (Some slot)
  then show ?thesis using peers.step_known[OF assms(1) Some assms(2), of "fst (f slot)" "snd (f slot)"] by simp
qed (use peers.step_unknown[OF assms(1)] in simp)

text \<open>Calls on behalf of single peers, as a stream the adapter issues.\<close>

datatype server_call = CallReceive u64 bytes | CallPoll u64 bytes | CallSend bytes

datatype server_result = Received "ReceiveReport res" | Polled "EndpointPoll res" | Sent "MessageId option res"

fun slot_call :: "server_call \<Rightarrow> PeerSlot \<Rightarrow> server_result \<times> PeerSlot" where
  "slot_call (CallReceive now bs) p = apfst Received (PeerSlot_receive now bs p)"
| "slot_call (CallPoll now tx) p = apfst Polled (PeerSlot_poll now tx p)"
| "slot_call (CallSend msg) p = apfst Sent (PeerSlot_send msg p)"

fun server_do :: "'p \<Rightarrow> server_call \<Rightarrow> 'p ServerEndpoint \<Rightarrow> server_result option \<times> 'p ServerEndpoint" where
  "server_do p (CallReceive now bs) s = apfst (map_option Received) (ServerEndpoint_receive p now bs s)"
| "server_do p (CallPoll now tx) s = apfst (map_option Polled) (ServerEndpoint_poll p now tx s)"
| "server_do p (CallSend msg) s = apfst (map_option Sent) (ServerEndpoint_send p msg s)"

fun server_calls :: "('p \<times> server_call) list \<Rightarrow> 'p ServerEndpoint \<Rightarrow> ('p \<times> server_result option) list \<times> 'p ServerEndpoint" where
  "server_calls [] s = ([], s)"
| "server_calls ((p, c) # cs) s =
     (case server_do p c s of (r, s1) \<Rightarrow> case server_calls cs s1 of (rs, s2) \<Rightarrow> ((p, r) # rs, s2))"

text \<open>The same calls on a slot of its own, or on none.\<close>

fun slot_calls :: "server_call list \<Rightarrow> PeerSlot option \<Rightarrow> server_result option list \<times> PeerSlot option" where
  "slot_calls [] slot = ([], slot)"
| "slot_calls (c # cs) None = (case slot_calls cs None of (rs, slot) \<Rightarrow> (None # rs, slot))"
| "slot_calls (c # cs) (Some slot) =
     (case slot_call c slot of (r, slot1) \<Rightarrow> case slot_calls cs (Some slot1) of (rs, slot2) \<Rightarrow> (Some r # rs, slot2))"

lemma server_do_eq: "server_do p c s = on_peer p (slot_call c) s"
  by (cases c) (auto simp: ServerEndpoint_receive_def ServerEndpoint_poll_def ServerEndpoint_send_def on_peer_def
      split: option.splits prod.splits)

lemma server_calls_eq: "server_calls cs s = peers.steps (map (apsnd slot_call) cs) s"
  by (induction cs s rule: server_calls.induct) (simp_all add: server_do_eq split: prod.splits)

lemma slot_calls_eq: "slot_calls cs slot = peers.alone (map slot_call cs) slot"
  by (induction cs slot rule: slot_calls.induct) (simp_all split: prod.splits)

lemma keeps_slot_call: "keeps_slot config (slot_call c)"
proof -
  have "keeps_slot config (\<lambda>p. apfst g (f p))" if "keeps_slot config f" for g and f :: "PeerSlot \<Rightarrow> 'a \<times> PeerSlot"
    using that by (simp add: keeps_slot_def)
  then show ?thesis using keeps_slot_ops by (cases c) (simp_all add: keeps_slot_def)
qed

section \<open>Properties\<close>

text \<open>
  C10. The server table is a partial map from peer keys to slots with at most as many entries as it
  has places.  Accepting a peer gives it a freshly connected slot, replacing an old one, and is refused
  exactly when all places are taken by other peers; disconnecting removes exactly the peer; an idle
  sweep removes exactly the peers whose session has been idle for the timeout and counts them; the
  operations on a peer run on its slot and leave every other slot alone.
\<close>

theorem server_refines_map:
  assumes "server_ok N config s"
  shows "(if p \<in> dom (server_map s) \<or> card (dom (server_map s)) < N
      then \<exists>s'. ServerEndpoint_accept p now s = (Some (Inr ()), s') \<and> server_ok N config s' \<and>
        server_map s' = (server_map s)(p \<mapsto> snd (PeerSlot_connect now (PeerSlot_new config)))
      else ServerEndpoint_accept p now s = (Some (Inl Full), s)) \<and>
    (\<exists>s'. ServerEndpoint_disconnect p s = (p \<in> dom (server_map s), s') \<and> server_ok N config s' \<and>
      server_map s' = (server_map s)(p := None)) \<and>
    (\<exists>s'. ServerEndpoint_disconnect_idle now timeout s = (card (dom (server_map s)) - card (dom (server_map s')), s') \<and>
      server_ok N config s' \<and> server_map s' = (\<lambda>q. case server_map s q of
        Some slot \<Rightarrow> if expired now timeout slot then None else Some slot | None \<Rightarrow> None)) \<and>
    (case server_map s p of
       None \<Rightarrow> ServerEndpoint_receive p now bs s = (None, s) \<and> ServerEndpoint_poll p now tx s = (None, s) \<and>
         ServerEndpoint_send p msg s = (None, s)
     | Some slot \<Rightarrow>
         (\<exists>s'. ServerEndpoint_receive p now bs s = (Some (fst (PeerSlot_receive now bs slot)), s') \<and>
            server_ok N config s' \<and> server_map s' = (server_map s)(p \<mapsto> snd (PeerSlot_receive now bs slot))) \<and>
         (\<exists>s'. ServerEndpoint_poll p now tx s = (Some (fst (PeerSlot_poll now tx slot)), s') \<and>
            server_ok N config s' \<and> server_map s' = (server_map s)(p \<mapsto> snd (PeerSlot_poll now tx slot))) \<and>
         (\<exists>s'. ServerEndpoint_send p msg s = (Some (fst (PeerSlot_send msg slot)), s') \<and>
            server_ok N config s' \<and> server_map s' = (server_map s)(p \<mapsto> snd (PeerSlot_send msg slot))))"
proof (intro conjI)
  obtain mid slot where c: "PeerSlot_connect now (PeerSlot_new config) = (Ok mid, slot)" "peer_ok slot" "ps_config slot = config"
    by (rule connect_succeeds)
  show "if p \<in> dom (server_map s) \<or> card (dom (server_map s)) < N
      then \<exists>s'. ServerEndpoint_accept p now s = (Some (Inr ()), s') \<and> server_ok N config s' \<and>
        server_map s' = (server_map s)(p \<mapsto> snd (PeerSlot_connect now (PeerSlot_new config)))
      else ServerEndpoint_accept p now s = (Some (Inl Full), s)"
    using accept_cases[OF assms c, of p] c(1) by simp
  show "case server_map s p of
       None \<Rightarrow> ServerEndpoint_receive p now bs s = (None, s) \<and> ServerEndpoint_poll p now tx s = (None, s) \<and>
         ServerEndpoint_send p msg s = (None, s)
     | Some slot \<Rightarrow>
         (\<exists>s'. ServerEndpoint_receive p now bs s = (Some (fst (PeerSlot_receive now bs slot)), s') \<and>
            server_ok N config s' \<and> server_map s' = (server_map s)(p \<mapsto> snd (PeerSlot_receive now bs slot))) \<and>
         (\<exists>s'. ServerEndpoint_poll p now tx s = (Some (fst (PeerSlot_poll now tx slot)), s') \<and>
            server_ok N config s' \<and> server_map s' = (server_map s)(p \<mapsto> snd (PeerSlot_poll now tx slot))) \<and>
         (\<exists>s'. ServerEndpoint_send p msg s = (Some (fst (PeerSlot_send msg slot)), s') \<and>
            server_ok N config s' \<and> server_map s' = (server_map s)(p \<mapsto> snd (PeerSlot_send msg slot)))"
    using on_peer_map[OF assms keeps_slot_ops(1), of p now bs] on_peer_map[OF assms keeps_slot_ops(2), of p now tx]
      on_peer_map[OF assms keeps_slot_ops(3), of p msg]
    by (cases "server_map s p") (simp_all add: ServerEndpoint_receive_def ServerEndpoint_poll_def ServerEndpoint_send_def)
qed (rule disconnect_map[OF assms] disconnect_idle_map[OF assms])+

theorem server_refines_map_witness:
  "\<exists>s'. ServerEndpoint_accept (7 :: nat) 3 (ServerEndpoint_new 2 (EngineConfig_default None)) = (Some (Inr ()), s')"
  using server_refines_map[OF server_ok_new(1)[of 2 "EngineConfig_default None"], where p = 7 and now = 3 and timeout = 1
      and bs = "[]" and tx = "[]" and msg = "[]"]
  by (auto simp: server_ok_new(2))

text \<open>
  C20. Peers are independent: for any interleaving of calls for different peers, the results a peer
  gets and the state of its slot are those of its own calls applied to its slot alone.
\<close>

theorem peers_isolated:
  assumes "server_ok N config s" "server_calls cs s = (rs, s')"
  shows "(map snd (filter (\<lambda>(q, r). q = p) rs), server_map s' p) =
    slot_calls (map snd (filter (\<lambda>(q, c). q = p) cs)) (server_map s p)"
proof -
  have f: "filter (\<lambda>(q, f). q = p) (map (apsnd slot_call) cs) = map (apsnd slot_call) (filter (\<lambda>(q, c). q = p) cs)"
    by (induction cs) auto
  have "\<forall>(q, f)\<in>set (map (apsnd slot_call) cs). keeps_slot config f" using keeps_slot_call by auto
  from peers.steps_independent[OF assms(1) this assms(2)[unfolded server_calls_eq], of p]
  show ?thesis unfolding f slot_calls_eq by (simp add: comp_def)
qed

theorem peers_isolated_witness:
  "(map snd (filter (\<lambda>(q, r). q = 7) (fst (server_calls [(7, CallSend [1]), (9, CallPoll 3 []), (7, CallPoll 4 [])]
      (snd (ServerEndpoint_accept (7 :: nat) 3 (ServerEndpoint_new 2 (EngineConfig_default None))))))),
    server_map (snd (server_calls [(7, CallSend [1]), (9, CallPoll 3 []), (7, CallPoll 4 [])]
      (snd (ServerEndpoint_accept (7 :: nat) 3 (ServerEndpoint_new 2 (EngineConfig_default None)))))) 7) =
   slot_calls [CallSend [1], CallPoll 4 []] (Some (snd (PeerSlot_connect 3 (PeerSlot_new (EngineConfig_default None)))))"
proof -
  let ?c = "EngineConfig_default None" and ?cs = "[(7, CallSend [1]), (9, CallPoll 3 []), (7, CallPoll 4 [])]"
  obtain mid slot where c: "PeerSlot_connect 3 (PeerSlot_new ?c) = (Ok mid, slot)" "peer_ok slot" "ps_config slot = ?c"
    by (rule connect_succeeds)
  obtain s where s: "ServerEndpoint_accept (7 :: nat) 3 (ServerEndpoint_new 2 ?c) = (Some (Inr ()), s)" "server_ok 2 ?c s"
    "server_map s = [7 \<mapsto> slot]"
    using accept_cases[OF server_ok_new(1)[of 2 ?c] c, of "7 :: nat"] by (auto simp: server_ok_new(2))
  obtain rs s' where r: "server_calls ?cs s = (rs, s')" by fastforce
  show ?thesis using peers_isolated[OF s(2) r, of 7] s(1,3) c(1) r by (simp del: server_calls.simps slot_calls.simps)
qed

end
