(* ===== verification/Drain.thy ===== *)
theory Drain
  imports Exchange
begin

text \<open>
  Polling an engine until it has nothing left, as the loop around an engine does.  Each poll takes
  one pending ACK, event or message, so the loop ends, and at one instant nothing is added behind it.
\<close>

section \<open>One poll\<close>

text \<open>What every poll of a calm engine leaves alone.\<close>

lemma poll_event_keeps:
  assumes "poll_event e now tx r = (res, r')" "recovery_ok r"
  shows "dom (inflight_map (rs_in_flight r')) = dom (inflight_map (rs_in_flight r))" "rs_last_tick_ms r' = rs_last_tick_ms r"
proof -
  have ok: "inflight_ok (rs_in_flight r)" using assms(2) by (simp add: recovery_ok_def)
  have D: "dom (inflight_map (rs_in_flight (RecoveryState_note_sent k now r))) = dom (inflight_map (rs_in_flight r))"
    "dom (inflight_map (rs_in_flight (RecoveryState_note_retransmit_sent k now r))) = dom (inflight_map (rs_in_flight r))" for k
    using inflight_note_sent(2)[OF ok, of now k] inflight_note_retransmit_sent(2)[OF ok, of now k]
    by (auto simp: RecoveryState_note_sent_def RecoveryState_note_retransmit_sent_def dom_def)
  have "r' = r \<or> (\<exists>k. r' = RecoveryState_note_sent k now r) \<or> (\<exists>k. r' = RecoveryState_note_retransmit_sent k now r)"
    using assms(1) by (cases e)
      (auto simp: poll_event_def poll_write_def Let_def sr_bind_def split: if_splits WritePriority.splits res.splits)
  then consider "r' = r" | k where "r' = RecoveryState_note_sent k now r" | k where "r' = RecoveryState_note_retransmit_sent k now r"
    by blast
  note c = this
  show "dom (inflight_map (rs_in_flight r')) = dom (inflight_map (rs_in_flight r))" using c by cases (simp_all only: D)
  show "rs_last_tick_ms r' = rs_last_tick_ms r"
    using c by cases (simp_all add: RecoveryState_note_sent_def RecoveryState_note_retransmit_sent_def)
qed

lemma poll_keeps_poll:
  assumes "calm config now s" "EngineState_poll config now tx s = (r, s')"
  shows "poll_keeps config now s s'" "calm config now s'"
proof -
  let ?s = "tick_start config now s"
  have ok: "engine_ok config s" using assms(1) by (simp add: calm_def)
  have rok: "recovery_ok (es_recovery ?s)" using engine_okD(2)[OF engine_ok_tick_start[OF ok]] .
  have F: "es_numbers s' = es_numbers ?s \<and> es_ingress s' = es_ingress ?s \<and> es_receive s' = es_receive ?s \<and>
      es_clock s' = es_clock ?s \<and> es_reassembly s' = es_reassembly ?s \<and>
      (es_recovery s' = es_recovery ?s \<or> (\<exists>e res. poll_event e now tx (es_recovery ?s) = (res, es_recovery s')))"
    using assms(2)
    by (auto simp: EngineState_poll_def calm_tick[OF assms(1)] Let_def update_field_def
        SchedulerState_poll_new_data_def split: prod.splits if_splits option.splits)
  then have "dom (inflight_map (rs_in_flight (es_recovery s'))) = dom (inflight_map (rs_in_flight (es_recovery ?s))) \<and>
      rs_last_tick_ms (es_recovery s') = rs_last_tick_ms (es_recovery ?s)"
    using poll_event_keeps[OF _ rok] by metis
  then show "poll_keeps config now s s'"
    using F tick_start_keeps[of config now s] by (simp add: poll_keeps_def)
  then show "calm config now s'" using engine_ok_poll(1)[OF ok assms(2)] poll_keeps_calm by blast
qed

lemma poll_times_keeps:
  assumes "calm config now s" "0 < n" "poll_times config now tx n s = (rs, s')"
  shows "poll_keeps config now s s'" "engine_ok config s'"
proof -
  have "poll_keeps config now s s' \<and> calm config now s'" using assms
  proof (induction n arbitrary: s rs)
    case (Suc n)
    obtain r s1 where p: "EngineState_poll config now tx s = (r, s1)" by fastforce
    obtain rs1 where q: "poll_times config now tx n s1 = (rs1, s')" using Suc.prems(3) p by (auto split: prod.splits)
    note K = poll_keeps_poll[OF Suc.prems(1) p]
    show ?case
    proof (cases n)
      case 0
      then show ?thesis using K q by simp
    next
      case (Suc m)
      then show ?thesis using Suc.IH[OF K(2) _ q] poll_keeps_trans[OF K(1)] by blast
    qed
  qed simp
  then show "poll_keeps config now s s'" "engine_ok config s'" by (simp_all add: calm_def)
qed

text \<open>Everything that waits to be handed out.\<close>

definition pending :: "EngineState \<Rightarrow> nat" where
  "pending s = length (ack_list (es_ack s)) + SchedulerState_len (es_scheduler s) + length (message_list (es_message s))"

lemma spec_pop_length:
  assumes "spec_pop ks v = (Some e, v')"
  shows "length (view_events v) = Suc (length (view_events v'))"
proof -
  obtain k where k: "v k \<noteq> []" "v' = v(k := tl (v k))"
    using assms by (auto simp: spec_pop_def find_Some_iff split: option.splits)
  then show ?thesis by (cases k) (simp_all add: view_events_def)
qed


lemma poll_event_answers:
  assumes "\<And>w. e = EngineOutput.Write w \<Longrightarrow> frame_for (integrity config) (wr_key w) (wr_bytes w) (wr_len w)"
    and "MAX_WIRE_BYTES \<le> length tx" "recovery_ok r"
  obtains p r' where "poll_event e now tx r = (Ok p, r')" "p \<noteq> EnginePoll.Idle"
proof (cases e)
  case (Write w)
  show thesis by (rule poll_event_write[OF assms(1)[OF Write] assms(2,3), of now]) (use that Write in auto)
next
  case (SendFailed f)
  then show thesis using that by (simp add: poll_event_def)
qed

text \<open>What a poll turns to, in the order of the code.\<close>

lemma poll_order:
  assumes "engine_ok config s" "SchedulerState_pop_urgent (es_scheduler s) = (u, q)"
  obtains (ack) k ks where "ack_list (es_ack s) = k # ks"
  | (urgent) e where "ack_list (es_ack s) = []" "u = Some e"
  | (message) m ms where "no_urgent s" "message_list (es_message s) = m # ms"
  | (data) e es where "no_urgent s" "message_list (es_message s) = []" "sched_view (es_scheduler s) QueueKind.NewData = e # es"
  | (idle) "no_urgent s" "message_list (es_message s) = []" "sched_view (es_scheduler s) QueueKind.NewData = []"
proof -
  have U: "spec_pop [QueueKind.Control, QueueKind.Retransmit, QueueKind.Local] (sched_view (es_scheduler s)) = (u, sched_view q)"
    using sched_pop_urgent(1)[OF engine_okD(1)[OF assms(1)] assms(2)] .
  have "no_urgent s" if "ack_list (es_ack s) = []" "u = None"
  proof -
    have "find (\<lambda>k. sched_view (es_scheduler s) k \<noteq> []) [QueueKind.Control, QueueKind.Retransmit, QueueKind.Local] = None"
      using U that(2) by (simp add: spec_pop_def del: find.simps split: option.splits)
    then have "\<forall>k\<in>{QueueKind.Control, QueueKind.Retransmit, QueueKind.Local}. sched_view (es_scheduler s) k = []"
      by (auto simp: find_None_iff simp del: find.simps sched_view_simps)
    then show ?thesis using that(1) by (simp only: no_urgent_def)
  qed
  then show thesis
    using that by (cases "ack_list (es_ack s)"; cases u; cases "message_list (es_message s)";
        cases "sched_view (es_scheduler s) QueueKind.NewData") auto
qed

lemma poll_next_urgent:
  assumes "calm config now s" "ack_list (es_ack s) = []" "SchedulerState_pop_urgent (es_scheduler s) = (Some e, q)"
    and "MAX_WIRE_BYTES \<le> length tx" "EngineState_poll config now tx s = (r, s')"
  obtains p where "r = Ok p" "p \<noteq> EnginePoll.Idle" "pending s = Suc (pending s')"
proof -
  let ?s = "tick_start config now s"
  have ok: "engine_ok config s" "ack_ok (es_ack s)" "writes_ok (integrity config) (es_scheduler s)"
    using assms(1) by (auto simp: calm_def engine_ok_def)
  have rok: "recovery_ok (es_recovery ?s)" using engine_okD(2)[OF engine_ok_tick_start[OF ok(1)]] .
  have "e \<in> set (view_events (sched_view (es_scheduler s)))" using pop_urgent_ok(2)[OF ok(3) assms(3)] by blast
  then have f: "frame_for (integrity config) (wr_key w) (wr_bytes w) (wr_len w)" if "e = EngineOutput.Write w" for w
    using ok(3) that by (auto simp: writes_ok_def)
  obtain p r' where p: "poll_event e now tx (es_recovery ?s) = (Ok p, r')" "p \<noteq> EnginePoll.Idle"
    by (rule poll_event_answers[OF f assms(4) rok])
  have na: "\<not> AckState_is_pending (es_ack s)" using ack_pending_iff[OF ok(2)] assms(2) by simp
  have "SchedulerState_len (es_scheduler s) = Suc (SchedulerState_len q)"
    using spec_pop_length[OF sched_pop_urgent(1)[OF engine_okD(1)[OF ok(1)] assms(3)]] by simp
  moreover have "r = Ok p" "s' = ?s\<lparr>es_scheduler := q, es_recovery := r'\<rparr>"
    using assms(3,5) na p(1) by (simp_all add: EngineState_poll_def calm_tick[OF assms(1)] Let_def)
  ultimately show thesis using that[OF _ p(2)] by (simp add: pending_def)
qed

lemma poll_next_event:
  assumes "calm config now s" "no_urgent s" "message_list (es_message s) = []"
    and "sched_view (es_scheduler s) QueueKind.NewData = e # es"
    and "MAX_WIRE_BYTES \<le> length tx" "EngineState_poll config now tx s = (r, s')"
  obtains p where "r = Ok p" "p \<noteq> EnginePoll.Idle" "pending s = Suc (pending s')"
proof -
  let ?s = "tick_start config now s"
  have ok: "engine_ok config s" "ack_ok (es_ack s)" "messages_ok (es_message s)" "writes_ok (integrity config) (es_scheduler s)"
    using assms(1) by (auto simp: calm_def engine_ok_def events_ok_def)
  have rok: "recovery_ok (es_recovery ?s)" using engine_okD(2)[OF engine_ok_tick_start[OF ok(1)]] .
  obtain q where q: "SchedulerState_pop_urgent (es_scheduler s) = (None, q)" "sched_view q = sched_view (es_scheduler s)" "sched_ok q"
    by (rule pop_urgent_none[OF ok(1) assms(2)])
  obtain d where d: "MessageState_pop (es_message s) = (None, d)" "message_list d = []"
    using messages.pop_empty[OF ok(3) assms(3)] assms(3) by blast
  have wq: "writes_ok (integrity config) q" using ok(4) q(2,3) by (simp add: writes_ok_def)
  obtain x dq where x: "EventQueue_pop (sc_new_data q) = (x, dq)" by fastforce
  note N = pop_new_data_ok[OF wq x]
  have xe: "x = Some e" using N(4) q(2) assms(4) by simp
  then have f: "frame_for (integrity config) (wr_key w) (wr_bytes w) (wr_len w)" if "e = EngineOutput.Write w" for w
    using wq N(2) that by (auto simp: writes_ok_def)
  obtain p r' where p: "poll_event e now tx (es_recovery ?s) = (Ok p, r')" "p \<noteq> EnginePoll.Idle"
    by (rule poll_event_answers[OF f assms(5) rok])
  have na: "ack_list (es_ack s) = []" "\<not> AckState_is_pending (es_ack s)"
    using ack_pending_iff[OF ok(2)] assms(2) by (simp_all add: no_urgent_def)
  have "sched_view (q\<lparr>sc_new_data := dq\<rparr>) = (sched_view (es_scheduler s))(QueueKind.NewData := es)"
    using N(3) q(2) assms(4) by simp
  then have "length (view_events (sched_view (es_scheduler s))) = Suc (length (view_events (sched_view (q\<lparr>sc_new_data := dq\<rparr>))))"
    using assms(4) by (simp add: view_events_def)
  moreover have "r = Ok p" "s' = ?s\<lparr>es_message := d, es_scheduler := q\<lparr>sc_new_data := dq\<rparr>, es_recovery := r'\<rparr>"
    using assms(6) na(2) q(1) d(1) x xe p(1)
    by (simp_all add: EngineState_poll_def calm_tick[OF assms(1)] SchedulerState_poll_new_data_def Let_def)
  ultimately show thesis
    using that[OF _ p(2)] d(2) assms(3) na(1) length_view_events[of "es_scheduler s"]
      length_view_events[of "q\<lparr>sc_new_data := dq\<rparr>"] by (simp add: pending_def)
qed

text \<open>A poll hands out one of the pending things, and is idle exactly when there is none.\<close>

lemma poll_pops:
  assumes "calm config now s" "MAX_WIRE_BYTES \<le> length tx" "EngineState_poll config now tx s = (r, s')"
  shows "if pending s = 0 then r = Ok EnginePoll.Idle \<and> pending s' = 0
    else (\<exists>p. r = Ok p \<and> p \<noteq> EnginePoll.Idle) \<and> pending s = Suc (pending s')"
proof -
  have ok: "engine_ok config s" using assms(1) by (simp add: calm_def)
  obtain u q where u: "SchedulerState_pop_urgent (es_scheduler s) = (u, q)" by fastforce
  from ok u show ?thesis
  proof (cases rule: poll_order)
    case (ack k ks)
    obtain s1 where "EngineState_poll config now tx s = (Ok (EnginePoll.Transmit (wire_frame (integrity config) (ack_packet k)) 0), s1)"
      "ack_list (es_ack s1) = ks" "es_scheduler s1 = es_scheduler s" "es_message s1 = es_message s"
      by (rule poll_next_ack[OF assms(1) ack assms(2)])
    then show ?thesis using assms(3) ack by (simp add: pending_def)
  next
    case (urgent e)
    show ?thesis by (rule poll_next_urgent[OF assms(1) urgent(1) u[unfolded urgent(2)] assms(2,3)]) simp
  next
    case (message m ms)
    obtain s1 where "EngineState_poll config now tx s = (Ok (EnginePoll.Message m), s1)" "ack_list (es_ack s1) = []"
      "sched_view (es_scheduler s1) = sched_view (es_scheduler s)" "message_list (es_message s1) = ms"
      by (rule poll_next_message[OF assms(1) message])
    then show ?thesis using assms(3) message length_view_events[of "es_scheduler s"] length_view_events[of "es_scheduler s1"]
      by (simp add: pending_def no_urgent_def)
  next
    case (data e es)
    show ?thesis by (rule poll_next_event[OF assms(1) data assms(2,3)]) simp
  next
    case idle
    obtain s1 where "EngineState_poll config now tx s = (Ok EnginePoll.Idle, s1)" "ack_list (es_ack s1) = []"
      "message_list (es_message s1) = []" "sched_view (es_scheduler s1) = sched_view (es_scheduler s)"
      by (rule poll_next_idle[OF assms(1) idle])
    moreover have "view_events (sched_view (es_scheduler s)) = []" using idle by (simp add: view_events_def no_urgent_def)
    ultimately show ?thesis using assms(3) idle length_view_events[of "es_scheduler s"] length_view_events[of "es_scheduler s1"]
      by (simp add: pending_def no_urgent_def)
  qed
qed

section \<open>Ticks\<close>

text \<open>What a tick leaves alone, whatever runs out.\<close>

lemma push_fields [simp]:
  "es_numbers (snd (EngineState_push e s)) = es_numbers s" "es_ingress (snd (EngineState_push e s)) = es_ingress s"
  "es_receive (snd (EngineState_push e s)) = es_receive s" "es_ack (snd (EngineState_push e s)) = es_ack s"
  "es_message (snd (EngineState_push e s)) = es_message s" "es_clock (snd (EngineState_push e s)) = es_clock s"
  "es_reassembly (snd (EngineState_push e s)) = es_reassembly s" "es_recovery (snd (EngineState_push e s)) = es_recovery s"
  by (simp_all add: EngineState_push_def update_field_def split: prod.splits)

lemma tick_failures_fields [simp]:
  "es_numbers (tick_failures F s) = es_numbers s" "es_ingress (tick_failures F s) = es_ingress s"
  "es_receive (tick_failures F s) = es_receive s" "es_ack (tick_failures F s) = es_ack s"
  "es_message (tick_failures F s) = es_message s" "es_clock (tick_failures F s) = es_clock s"
  "es_reassembly (tick_failures F s) = es_reassembly s"
  "rs_last_tick_ms (es_recovery (tick_failures F s)) = rs_last_tick_ms (es_recovery s)"
  by (induction F arbitrary: s) (simp_all add: Let_def RecoveryState_remove_message_def)

lemma tick_retransmits_fields [simp]:
  "es_numbers (tick_retransmits M R s) = es_numbers s" "es_ingress (tick_retransmits M R s) = es_ingress s"
  "es_receive (tick_retransmits M R s) = es_receive s" "es_ack (tick_retransmits M R s) = es_ack s"
  "es_message (tick_retransmits M R s) = es_message s" "es_clock (tick_retransmits M R s) = es_clock s"
  "es_reassembly (tick_retransmits M R s) = es_reassembly s" "es_recovery (tick_retransmits M R s) = es_recovery s"
  by (induction R arbitrary: s) (simp_all add: Let_def)

lemma tick_fields:
  "es_numbers (tick_retransmit config now s) = es_numbers s" "es_ingress (tick_retransmit config now s) = es_ingress s"
  "es_receive (tick_retransmit config now s) = es_receive s" "es_ack (tick_retransmit config now s) = es_ack s"
  "es_message (tick_retransmit config now s) = es_message s" "es_clock (tick_retransmit config now s) = ClockState now"
  "es_reassembly (tick_retransmit config now s) = ReassemblyState_expire now (reassembly_timeout_ms config) (es_reassembly s)"
  "rs_last_tick_ms (es_recovery (tick_retransmit config now s)) = Some now"
  by (simp_all add: tick_retransmit_eq split: prod.splits) (simp_all add: tick_start_def)

text \<open>A second tick at the same instant changes nothing, so a poll may start from the ticked state.\<close>

lemma poll_from_tick:
  "EngineState_poll config now tx s = EngineState_poll config now tx (tick_retransmit config now s)"
proof -
  let ?s = "tick_retransmit config now s"
  have "tick_retransmit config now ?s = tick_start config now ?s"
    by (subst tick_retransmit_eq) (simp add: tick_fields(8))
  also have "\<dots> = ?s" using tick_fields[of config now s] by (cases ?s; cases "es_recovery ?s") (simp add: tick_start_def)
  finally show ?thesis by (simp add: EngineState_poll_def)
qed

section \<open>The loop\<close>

text \<open>The loop around an engine: poll until idle, with fuel.\<close>

fun drain :: "EngineConfig \<Rightarrow> u64 \<Rightarrow> bytes \<Rightarrow> nat \<Rightarrow> EngineState \<Rightarrow> (EnginePoll res list \<times> EngineState) option" where
  "drain config now tx 0 s = None"
| "drain config now tx (Suc fuel) s =
     (case EngineState_poll config now tx s of
        (Ok EnginePoll.Idle, s1) \<Rightarrow> Some ([], s1)
      | (r, s1) \<Rightarrow> map_option (\<lambda>(rs, s2). (r # rs, s2)) (drain config now tx fuel s1))"

lemma drain_step:
  "EngineState_poll config now tx s = (Ok p, s1) \<Longrightarrow> p \<noteq> EnginePoll.Idle \<Longrightarrow>
    drain config now tx (Suc fuel) s = map_option (\<lambda>(rs, s2). (Ok p # rs, s2)) (drain config now tx fuel s1)"
  by (cases p) simp_all

lemma drain_calm:
  "calm config now s \<Longrightarrow> MAX_WIRE_BYTES \<le> length tx \<Longrightarrow> pending s < fuel \<Longrightarrow>
    \<exists>ps s'. drain config now tx fuel s = Some (map Ok ps, s') \<and> length ps = pending s \<and> EnginePoll.Idle \<notin> set ps \<and>
      pending s' = 0 \<and> engine_ok config s'"
proof (induction fuel arbitrary: s)
  case (Suc fuel)
  obtain r s1 where p: "EngineState_poll config now tx s = (r, s1)" by fastforce
  have P: "if pending s = 0 then r = Ok EnginePoll.Idle \<and> pending s1 = 0
    else (\<exists>p. r = Ok p \<and> p \<noteq> EnginePoll.Idle) \<and> pending s = Suc (pending s1)"
    by (rule poll_pops[OF Suc.prems(1,2) p])
  have c: "calm config now s1" by (rule poll_keeps_poll[OF Suc.prems(1) p])
  show ?case
  proof (cases "pending s = 0")
    case True
    then show ?thesis using P p c by (intro exI[of _ "[]"] exI[of _ s1]) (simp add: calm_def)
  next
    case False
    note P1 = P[unfolded if_not_P[OF False]]
    obtain q where q: "r = Ok q" "q \<noteq> EnginePoll.Idle" using P1 by (elim conjE exE)
    have less: "pending s = Suc (pending s1)" using P1 by (rule conjunct2)
    have "pending s1 < fuel" using less Suc.prems(3) by simp
    from Suc.IH[OF c Suc.prems(2) this]
    obtain ps s2 where "drain config now tx fuel s1 = Some (map Ok ps, s2)" "length ps = pending s1" "EnginePoll.Idle \<notin> set ps"
      "pending s2 = 0" "engine_ok config s2" by blast
    then show ?thesis using drain_step[OF p[unfolded q(1)] q(2), of fuel] q less by (intro exI[of _ "q # ps"] exI[of _ s2]) simp
  qed
qed simp

lemma drain_from_tick: "drain config now tx n s = drain config now tx n (tick_retransmit config now s)"
  by (cases n) (simp_all add: poll_from_tick[of config now tx s])

lemma pending_le: "engine_ok config s \<Longrightarrow> pending s \<le> MAX_PENDING_ACKS + MAX_EVENTS + MAX_MESSAGE_EVENTS"
  by (auto simp: pending_def engine_ok_def events_ok_def writes_ok_def ack_ok_def ack_list_def messages_ok_def message_list_def
      sched_ok_def ring_list_def dest!: ring_ok_le)

lemma drain_ends:
  assumes "engine_ok config s" "MAX_WIRE_BYTES \<le> length tx"
  shows "\<exists>ps s'. drain config now tx (MAX_PENDING_ACKS + MAX_EVENTS + MAX_MESSAGE_EVENTS + 1) s = Some (map Ok ps, s') \<and>
    length ps = pending (tick_retransmit config now s) \<and> EnginePoll.Idle \<notin> set ps \<and> pending s' = 0"
proof -
  let ?s = "tick_retransmit config now s"
  have ok: "engine_ok config ?s" by (rule engine_ok_tick[OF assms(1)])
  have "calm config now ?s" using ok tick_fields(8)[of config now s] by (simp add: calm_def)
  moreover have "pending ?s < MAX_PENDING_ACKS + MAX_EVENTS + MAX_MESSAGE_EVENTS + 1" using pending_le[OF ok] by simp
  ultimately show ?thesis unfolding drain_from_tick[of config now tx _ s] using drain_calm[OF _ assms(2)] by blast
qed

section \<open>Properties\<close>

text \<open>
  C15. The poll loop ends: in every reachable state, polling at one instant with a buffer for a whole
  frame becomes idle after at most 48 polls that are not.  None of them fails, they hand out as
  many frames, failures and messages as were waiting after the timers had run, and nothing is left.
\<close>

theorem poll_loop_ends:
  assumes "engine_reachable config s" "MAX_WIRE_BYTES \<le> length tx"
  shows "\<exists>ps s'. drain config now tx (MAX_PENDING_ACKS + MAX_EVENTS + MAX_MESSAGE_EVENTS + 1) s = Some (map Ok ps, s') \<and>
    length ps = pending (tick_retransmit config now s) \<and> EnginePoll.Idle \<notin> set ps \<and> pending s' = 0"
  by (rule drain_ends[OF engine_reachable_ok[OF assms(1)] assms(2)])

theorem poll_loop_ends_witness:
  "\<exists>ps s'. drain (EngineConfig_default None) 7 (replicate 128 0) (MAX_PENDING_ACKS + MAX_EVENTS + MAX_MESSAGE_EVENTS + 1)
      (snd (EngineState_send_ping (EngineConfig_default None) (EngineState_new (MessageId 0) (EngineConfig_default None)))) =
      Some (map Ok ps, s') \<and> EnginePoll.Idle \<notin> set ps \<and> pending s' = 0"
proof -
  have "engine_reachable (EngineConfig_default None)
      (snd (EngineState_send_ping (EngineConfig_default None) (EngineState_new (MessageId 0) (EngineConfig_default None))))"
    by (intro engine_reachable.intros)
  from poll_loop_ends[OF this, of "replicate 128 0" 7] show ?thesis by auto
qed

end
