(* ===== verification/Adapter.thy ===== *)
theory Adapter
  imports Endpoint_Server Drain
begin

text \<open>
  What the programs around an endpoint share: the loop that polls a slot as long as it transmits, and
  the facts on a polled slot that its users rely on.  The loop is that of \<^verbatim>\<open>examples/std_client.rs\<close> and
  \<^verbatim>\<open>examples/std_server.rs\<close>.
\<close>

section \<open>Polling while something is transmitted\<close>

text \<open>
  \<^verbatim>\<open>while let Transmit = poll(tx_buf) { write(bytes) }\<close>: what was written, the result that ended the loop, the buffer and
  the state.  A loop that never ends has the value \<^term>\<open>None\<close>.  The buffer keeps the frame at its front.
\<close>

partial_function (option) while_transmit ::
  "(bytes \<Rightarrow> 's \<Rightarrow> 'r \<times> 's) \<Rightarrow> ('r \<Rightarrow> bytes option) \<Rightarrow> bytes \<Rightarrow> 's \<Rightarrow> (bytes list \<times> 'r \<times> bytes \<times> 's) option" where
  "while_transmit poll sent tx s =
     (case poll tx s of (r, s1) \<Rightarrow>
      case sent r of
        None \<Rightarrow> Some ([], r, tx, s1)
      | Some bs \<Rightarrow> Option.bind (while_transmit poll sent (copy_at tx 0 bs) s1) (\<lambda>(ws, rest). Some (bs # ws, rest)))"

text \<open>A poll that transmits makes the rank of the state smaller, so the loop ends.\<close>

locale transmit_loop =
  fixes inv :: "'s \<Rightarrow> bool"
    and rank :: "'s \<Rightarrow> nat"
    and poll :: "bytes \<Rightarrow> 's \<Rightarrow> 'r \<times> 's"
    and sent :: "'r \<Rightarrow> bytes option"
    and frame :: "bytes \<Rightarrow> bool"
    and final :: "'r \<Rightarrow> bool"
  assumes poll_inv: "inv s \<Longrightarrow> MAX_WIRE_BYTES \<le> length tx \<Longrightarrow> poll tx s = (r, s1) \<Longrightarrow> inv s1"
    and poll_sent: "inv s \<Longrightarrow> MAX_WIRE_BYTES \<le> length tx \<Longrightarrow> poll tx s = (r, s1) \<Longrightarrow> sent r = Some bs \<Longrightarrow>
      rank s1 < rank s \<and> frame bs \<and> length bs \<le> length tx"
    and poll_final: "inv s \<Longrightarrow> MAX_WIRE_BYTES \<le> length tx \<Longrightarrow> poll tx s = (r, s1) \<Longrightarrow> sent r = None \<Longrightarrow> final r"
begin

lemma loop_ends:
  "inv s \<Longrightarrow> MAX_WIRE_BYTES \<le> length tx \<Longrightarrow> \<exists>ws r tx' s'. while_transmit poll sent tx s = Some (ws, r, tx', s') \<and>
    length ws \<le> rank s \<and> list_all frame ws \<and> length tx' = length tx \<and> inv s' \<and> final r"
proof (induction "rank s" arbitrary: s tx rule: less_induct)
  case less
  obtain r s1 where p: "poll tx s = (r, s1)" by fastforce
  have i: "inv s1" by (rule poll_inv[OF less.prems p])
  show ?case
  proof (cases "sent r")
    case None
    then show ?thesis using p i poll_final[OF less.prems p] by (subst while_transmit.simps) simp
  next
    case (Some bs)
    note S = poll_sent[OF less.prems p Some]
    have len: "length (copy_at tx 0 bs) = length tx" using S by simp
    obtain ws r' tx' s' where "while_transmit poll sent (copy_at tx 0 bs) s1 = Some (ws, r', tx', s')"
      "length ws \<le> rank s1" "list_all frame ws" "length tx' = length tx" "inv s'" "final r'"
      using less.hyps[OF _ i, of "copy_at tx 0 bs"] S less.prems(2) unfolding len by blast
    then show ?thesis using p Some S by (subst while_transmit.simps) simp
  qed
qed

end

section \<open>A slot that is polled\<close>

lemma poll_event_fits: "poll_event e now tx r = (Ok (EnginePoll.Transmit bs k), r') \<Longrightarrow> length bs \<le> length tx"
  by (cases e) (auto simp: poll_event_def poll_write_def Let_def sr_bind_def split: if_splits res.splits)

lemma poll_ack_fits: "SchedulerState_poll_ack config tx a = (Ok (EnginePoll.Transmit bs k), a') \<Longrightarrow> length bs \<le> length tx"
  by (auto simp: SchedulerState_poll_ack_def poll_pending_ack_def encode_ack_packet_eq split: prod.splits option.splits if_splits)

lemma poll_fits: "EngineState_poll config now tx s = (Ok (EnginePoll.Transmit bs k), s') \<Longrightarrow> length bs \<le> length tx"
  by (auto simp: EngineState_poll_def Let_def update_field_def SchedulerState_poll_new_data_def
      dest: poll_event_fits poll_ack_fits split: if_splits prod.splits option.splits)

text \<open>
  A slot is settled at an instant when its timers have run and no ping is due: polling it again at the same instant
  only takes out what is pending.
\<close>

definition settled :: "u64 \<Rightarrow> PeerSlot \<Rightarrow> bool" where
  "settled now p \<longleftrightarrow> \<not> ping_due now p \<and>
     (case ps_engine p of None \<Rightarrow> True | Some e \<Rightarrow> calm (ps_config p) now (en_state e))"

text \<open>The frames at most that a slot transmits at one instant.\<close>

abbreviation MAX_BURST :: nat where
  "MAX_BURST \<equiv> MAX_PENDING_ACKS + MAX_EVENTS + MAX_MESSAGE_EVENTS + 1"

definition slot_rank :: "u64 \<Rightarrow> PeerSlot \<Rightarrow> nat" where
  "slot_rank now p =
     (if settled now p then case ps_engine p of None \<Rightarrow> 0 | Some e \<Rightarrow> pending (en_state e)
      else MAX_BURST)"

lemma slot_rank_le: "peer_ok p \<Longrightarrow> slot_rank now p \<le> MAX_BURST"
  using pending_le by (fastforce simp: slot_rank_def peer_ok_def split: option.splits)

lemma queue_ping_cases:
  assumes "peer_ok p" "PeerSlot_queue_ping_if_idle now p = (Ok u, p1)"
  shows "\<not> ping_due now p1" "settled now p \<Longrightarrow> p1 = p"
proof -
  have "idle_for now now = False" by (simp add: idle_for_def)
  then show "\<not> ping_due now p1" using ping_view(5)[OF assms refl] by (auto simp: ping_due_def slot_view_def split: if_splits)
  show "p1 = p" if "settled now p"
    using assms that by (auto simp: PeerSlot_queue_ping_if_idle_def settled_def ping_due_def PeerSlot_is_connected_def
        idle_for_saturating split: if_splits option.splits)
qed

lemma slot_transmit:
  assumes "peer_ok p" "MAX_WIRE_BYTES \<le> length tx" "PeerSlot_poll now tx p = (Ok (Transmit bs k), p')"
  shows "slot_rank now p' < slot_rank now p" "valid_frame (integrity (ps_config p)) bs" "length bs \<le> length tx"
proof -
  obtain u p1 where p1: "PeerSlot_queue_ping_if_idle now p = (Ok u, p1)"
    using assms(3) by (cases "PeerSlot_queue_ping_if_idle now p"; cases "fst (PeerSlot_queue_ping_if_idle now p)")
      (auto simp: PeerSlot_poll_def)
  note P = ping_view[OF assms(1) p1] and Q = queue_ping_cases[OF assms(1) p1]
  obtain e where e: "ps_engine p1 = Some e" using assms(3) p1 by (cases "ps_engine p1") (auto simp: PeerSlot_poll_def)
  obtain r s' where s: "EngineState_poll (en_config e) now tx (en_state e) = (r, s')" by fastforce
  have c: "en_config e = ps_config p" "engine_ok (ps_config p) (en_state e)" using P(1,3) e by (auto simp: peer_ok_def)
  have r: "r = Ok (EnginePoll.Transmit bs k)" and p': "p' = p1\<lparr>ps_engine := Some (e\<lparr>en_state := s'\<rparr>)\<rparr>"
    using assms(3) p1 e s by (auto simp: PeerSlot_poll_def Engine_poll_def split: res.splits EnginePoll.splits)
  let ?t = "tick_retransmit (ps_config p) now (en_state e)"
  have ok: "engine_ok (ps_config p) ?t" by (rule engine_ok_tick[OF c(2)])
  have calm: "calm (ps_config p) now ?t" using ok tick_fields(8)[of "ps_config p" now "en_state e"] by (simp add: calm_def)
  have poll: "EngineState_poll (ps_config p) now tx ?t = (r, s')" using s c(1) poll_from_tick by simp
  have calm': "calm (ps_config p) now s'" by (rule poll_keeps_poll(2)[OF calm poll])
  have "\<not> ping_due now p'" using Q(1) p' by (simp add: ping_due_def)
  then have st: "settled now p'" using calm' p' P(3) by (simp add: settled_def)
  have "engine_ok (ps_config p) s'" using calm' by (simp add: calm_def)
  then have le: "slot_rank now p' < MAX_BURST" using st p' pending_le by (fastforce simp: slot_rank_def)
  show "slot_rank now p' < slot_rank now p"
  proof (cases "settled now p")
    case True
    have pe: "p1 = p" by (rule Q(2)[OF True])
    have cs: "calm (ps_config p) now (en_state e)" using True e pe by (simp add: settled_def)
    have "pending (en_state e) = Suc (pending s')"
      using poll_pops[OF cs assms(2) s[unfolded c(1)]] r by (simp split: if_splits)
    then show ?thesis using True st p' pe e by (simp add: slot_rank_def)
  qed (use le in \<open>simp add: slot_rank_def\<close>)
  show "valid_frame (integrity (ps_config p)) bs" using engine_ok_poll(2)[OF ok poll] r by simp
  show "length bs \<le> length tx" by (rule poll_fits[OF poll[unfolded r]])
qed

end
