(* ===== verification/Endpoint_Session.thy ===== *)
theory Endpoint_Session
  imports Endpoint_Peer
begin

text \<open>
  A client and a passive endpoint on a link that reorders frames: the session the two endpoints are made
  for.  No code of its own; the drivers below call \<^verbatim>\<open>connect\<close>, \<^verbatim>\<open>send\<close>, \<^verbatim>\<open>poll\<close> and \<^verbatim>\<open>receive\<close> the way an adapter does, with a
  separate time for each batch of calls.  The lemmas lift the steps of an engine transfer
  (\<open>transfer_steps\<close>) through the peer slots, which add the connection state and the keep-alive.
\<close>

section \<open>The adapter\<close>

fun each :: "('x \<Rightarrow> 's \<Rightarrow> 'r \<times> 's) \<Rightarrow> 'x list \<Rightarrow> 's \<Rightarrow> 'r list \<times> 's" where
  "each f [] s = ([], s)"
| "each f (x # xs) s = (case f x s of (r, s1) \<Rightarrow> case each f xs s1 of (rs, s2) \<Rightarrow> (r # rs, s2))"

definition polled_frames :: "EndpointPoll res list \<Rightarrow> bytes list" where
  "polled_frames rs = concat (map (\<lambda>r. case r of Ok (Transmit bs attempts) \<Rightarrow> [bs] | _ \<Rightarrow> []) rs)"

definition polled_messages :: "EndpointPoll res list \<Rightarrow> MessageEvent list" where
  "polled_messages rs = concat (map (\<lambda>r. case r of Ok (Message ev) \<Rightarrow> [ev] | _ \<Rightarrow> []) rs)"

text \<open>
  One trip over the link: the client is polled at \<open>ta\<close>, the passive endpoint gets the frames in the given
  order at \<open>tb\<close> and is polled at \<open>tc\<close>, and the client gets the acknowledgements at \<open>td\<close>.
\<close>

type_synonym trip = "nat list \<times> u64 \<times> u64 \<times> u64 \<times> u64"

definition carry :: "bytes \<Rightarrow> trip \<Rightarrow> ClientEndpoint \<times> PassiveEndpoint \<Rightarrow> MessageEvent list \<times> ClientEndpoint \<times> PassiveEndpoint" where
  "carry tx = (\<lambda>(order, ta, tb, tc, td) (c, p).
     let (out, c1) = each (\<lambda>_. ClientEndpoint_poll ta tx) [0..<length order] c;
         (reports, p1) = each (PassiveEndpoint_receive tb) (map (nth (polled_frames out)) order) p;
         (back, p2) = each (\<lambda>_. PassiveEndpoint_poll tc tx) [0..<Suc (length order)] p1;
         (acks, c2) = each (ClientEndpoint_receive td) (polled_frames back) c1
     in (polled_messages back, c2, p2))"

fun exchanges :: "bytes \<Rightarrow> (bytes \<times> trip) list \<Rightarrow> ClientEndpoint \<times> PassiveEndpoint \<Rightarrow>
    MessageEvent list \<times> ClientEndpoint \<times> PassiveEndpoint" where
  "exchanges tx [] (c, p) = ([], c, p)"
| "exchanges tx ((msg, tr) # xs) (c, p) =
     (case carry tx tr (snd (ClientEndpoint_send msg c), p) of (ms, c1, p1) \<Rightarrow>
      case exchanges tx xs (c1, p1) of (ms', c2, p2) \<Rightarrow> (ms @ ms', c2, p2))"

text \<open>A session: connect, carry the hello message, then the messages of the application.\<close>

definition endpoint_session :: "EngineConfig \<Rightarrow> bytes \<Rightarrow> u64 \<Rightarrow> trip \<Rightarrow> (bytes \<times> trip) list \<Rightarrow>
    MessageEvent list \<times> ClientEndpoint \<times> PassiveEndpoint" where
  "endpoint_session config tx t0 tr xs =
     (case carry tx tr (snd (ClientEndpoint_connect t0 (ClientEndpoint_new config)), PassiveEndpoint_new config) of
        (ms, c1, p1) \<Rightarrow> case exchanges tx xs (c1, p1) of (ms', c2, p2) \<Rightarrow> (ms @ ms', c2, p2))"

text \<open>
  A session is busy when neither side is polled after 5000 ms of silence, so that no ping is due: \<open>tc\<close>
  follows \<open>tb\<close> within the interval, and the next trip starts within it after the acknowledgements.
\<close>

fun busy :: "EngineConfig \<Rightarrow> u64 \<Rightarrow> (bytes \<times> trip) list \<Rightarrow> bool" where
  "busy config t [] \<longleftrightarrow> True"
| "busy config t ((msg, order, ta, tb, tc, td) # xs) \<longleftrightarrow>
     carried config (msg, order, ta, tc) \<and> \<not> idle_for ta t \<and> \<not> idle_for tc tb \<and> busy config td xs"

section \<open>Lifting engine steps to endpoints\<close>

definition open_slot :: "EngineConfig \<Rightarrow> EngineState \<Rightarrow> PeerState \<Rightarrow> u64 \<Rightarrow> u64 \<Rightarrow> PeerSlot" where
  "open_slot config s st seen pinged = \<lparr>ps_config = config, ps_engine = Some \<lparr>en_config = config, en_state = s\<rparr>,
     ps_state = st, ps_last_seen_ms = seen, ps_last_ping_ms = pinged, ps_pending_ping = False\<rparr>"

lemma open_slot_poll:
  assumes "st = Connecting \<or> \<not> idle_for now seen"
  shows "EngineState_poll config now tx s = (Ok (EnginePoll.Transmit bs k), s') \<Longrightarrow>
      PeerSlot_poll now tx (open_slot config s st seen pinged) = (Ok (Transmit bs k), open_slot config s' st seen pinged)"
    and "EngineState_poll config now tx s = (Ok (EnginePoll.Message ev), s') \<Longrightarrow>
      PeerSlot_poll now tx (open_slot config s st seen pinged) = (Ok (Message ev), open_slot config s' Connected now pinged)"
  using assms by (auto simp: PeerSlot_poll_def PeerSlot_queue_ping_if_idle_def PeerSlot_is_connected_def idle_for_saturating
      open_slot_def Engine_poll_def)

lemma open_slot_receive:
  assumes "EngineState_receive config bs s = (Ok report, s')" "is_peer_traffic report" "report \<noteq> ReceiveReport.Pong"
  shows "PeerSlot_receive now bs (open_slot config s st seen pinged) = (Ok report, open_slot config s' Connected now pinged)"
  using assms by (cases report) (simp_all add: PeerSlot_receive_def open_slot_def Engine_receive_def Let_def)

lemma open_slot_accept [simp]:
  "PeerSlot_accept_passive_if_needed now (open_slot config s st seen pinged) = open_slot config s st now pinged"
  by (simp add: PeerSlot_accept_passive_if_needed_def open_slot_def)

lemma each_const: "length xs = length ys \<Longrightarrow> each (\<lambda>_. f) xs s = each (\<lambda>_. f) ys s"
  by (induction xs ys arbitrary: s rule: list_induct2) (auto split: prod.splits)

lemma each_append: "each f xs s = (rs, s1) \<Longrightarrow> each f ys s1 = (rs', s2) \<Longrightarrow> each f (xs @ ys) s = (rs @ rs', s2)"
  by (induction xs arbitrary: s rs) (auto split: prod.splits)

text \<open>
  A batch of polls that only transmit, and a batch of received frames, when a single call on the endpoint
  \<open>mk s\<close> does what the call on its engine \<open>s\<close> does.
\<close>

lemma polls_lifted:
  assumes "\<And>s bs k s'. EngineState_poll config now tx s = (Ok (EnginePoll.Transmit bs k), s') \<Longrightarrow>
      f (mk s) = (Ok (Transmit bs k), mk s')"
    and "poll_times config now tx (length xs) s = (map (\<lambda>i. Ok (EnginePoll.Transmit (g i) 0)) xs, s')"
  shows "each (\<lambda>_. f) xs (mk s) = (map (\<lambda>i. Ok (Transmit (g i) 0)) xs, mk s')"
  using assms(2)
proof (induction xs arbitrary: s)
  case (Cons x xs)
  obtain s1 where s1: "EngineState_poll config now tx s = (Ok (EnginePoll.Transmit (g x) 0), s1)"
    "poll_times config now tx (length xs) s1 = (map (\<lambda>i. Ok (EnginePoll.Transmit (g i) 0)) xs, s')"
    using Cons.prems by (auto split: prod.splits)
  show ?case using assms(1)[OF s1(1)] Cons.IH[OF s1(2)] by simp
qed simp

lemma receives_lifted:
  assumes "\<And>s bs r s'. EngineState_receive config bs s = (Ok r, s') \<Longrightarrow> r \<in> range report \<Longrightarrow> f bs (mk s) = (Ok r, mk s')"
    and "receive_all config (map g xs) s = (map (\<lambda>i. Ok (report i)) xs, s')"
  shows "each f (map g xs) (mk s) = (map (\<lambda>i. Ok (report i)) xs, mk s')"
  using assms(2)
proof (induction xs arbitrary: s)
  case (Cons x xs)
  obtain s1 where s1: "EngineState_receive config (g x) s = (Ok (report x), s1)"
    "receive_all config (map g xs) s1 = (map (\<lambda>i. Ok (report i)) xs, s')"
    using Cons.prems by (auto split: prod.splits)
  show ?case using assms(1)[OF s1(1)] Cons.IH[OF s1(2)] by simp
qed simp

lemma receives_lifted_first:
  assumes "\<And>s bs r s'. EngineState_receive config bs s = (Ok r, s') \<Longrightarrow> r \<in> range report \<Longrightarrow>
      f bs (mk s) = (Ok r, mk' s') \<and> f bs (mk' s) = (Ok r, mk' s')"
    and "receive_all config (map g xs) s = (map (\<lambda>i. Ok (report i)) xs, s')" "xs \<noteq> []"
  shows "each f (map g xs) (mk s) = (map (\<lambda>i. Ok (report i)) xs, mk' s')"
proof (cases xs)
  case (Cons x ys)
  obtain s1 where s1: "EngineState_receive config (g x) s = (Ok (report x), s1)"
    "receive_all config (map g ys) s1 = (map (\<lambda>i. Ok (report i)) ys, s')"
    using assms(2) Cons by (auto split: prod.splits)
  have "each f (map g ys) (mk' s1) = (map (\<lambda>i. Ok (report i)) ys, mk' s')"
    by (rule receives_lifted[OF _ s1(2)]) (use assms(1) in blast)
  then show ?thesis using assms(1)[OF s1(1)] Cons by simp
qed (use assms(3) in simp)

lemma poll_times_split:
  "poll_times config now tx (Suc (length xs)) s = (map f xs @ [r], s') \<Longrightarrow>
    \<exists>s1. poll_times config now tx (length xs) s = (map f xs, s1) \<and> EngineState_poll config now tx s1 = (r, s')"
proof (induction xs arbitrary: s)
  case (Cons x xs)
  obtain s1 where s1: "EngineState_poll config now tx s = (f x, s1)"
    "poll_times config now tx (Suc (length xs)) s1 = (map f xs @ [r], s')"
    using Cons.prems by (auto simp del: poll_times.simps(2) simp: poll_times.simps(2)[of _ _ _ "Suc (length xs)"] split: prod.splits)
  show ?case using Cons.IH[OF s1(2)] s1(1) by auto
qed (auto split: prod.splits)

section \<open>One trip\<close>

definition client_at :: "EngineConfig \<Rightarrow> EngineState \<Rightarrow> PeerState \<Rightarrow> u64 \<Rightarrow> u64 \<Rightarrow> ClientEndpoint" where
  "client_at config s st seen pinged = \<lparr>ce_peer = open_slot config s st seen pinged\<rparr>"

definition passive_at :: "EngineConfig \<Rightarrow> EngineState \<Rightarrow> PeerState \<Rightarrow> u64 \<Rightarrow> u64 \<Rightarrow> PassiveEndpoint" where
  "passive_at config s st seen pinged = \<lparr>pe_peer = open_slot config s st seen pinged\<rparr>"

lemma polled_simps:
  "polled_frames (map (\<lambda>i. Ok (Transmit (f i) 0)) xs) = map f xs"
  "polled_frames (map (\<lambda>i. Ok (Transmit (f i) 0)) xs @ [Ok (Message ev)]) = map f xs"
  "polled_messages (map (\<lambda>i. Ok (Transmit (f i) 0)) xs @ [Ok (Message ev)]) = [ev]"
  by (induction xs) (simp_all add: polled_frames_def polled_messages_def)

text \<open>
  What the four batches of a trip return, for any endpoints whose engines do what \<open>transfer_steps\<close> says.
\<close>

lemma carry_steps:
  assumes "poll_times config ta tx (length order) a1 = (map (\<lambda>i. Ok (EnginePoll.Transmit (frame i) 0)) [0..<length order], a2)"
    and "receive_all config (map frame order) b = (map (\<lambda>i. Ok (ReceiveReport.Packet (PacketIndex (of_nat i)))) order, b1)"
    and "poll_times config tc tx (Suc (length order)) b1 =
      (map (\<lambda>i. Ok (EnginePoll.Transmit (ack i) 0)) order @ [Ok (EnginePoll.Message ev)], b2)"
    and "receive_all config (map ack order) a2 = (map (\<lambda>i. Ok (ReceiveReport.Ack (PacketIndex (of_nat i)))) order, a3)"
    and "set order = {..<length order}" "order \<noteq> []" "st = Connecting \<or> \<not> idle_for ta seen" "\<not> idle_for tc tb"
  shows "carry tx (order, ta, tb, tc, td) (client_at config a1 st seen pinged, passive_at config b st' seen' pinged') =
    ([ev], client_at config a3 Connected td pinged, passive_at config b2 Connected tc pinged')"
proof -
  have out: "each (\<lambda>_. ClientEndpoint_poll ta tx) [0..<length order] (client_at config a1 st seen pinged) =
      (map (\<lambda>i. Ok (Transmit (frame i) 0)) [0..<length order], client_at config a2 st seen pinged)"
    by (rule polls_lifted[where mk = "\<lambda>s. client_at config s st seen pinged" and config = config])
       (use assms(1,7) in \<open>simp_all add: ClientEndpoint_poll_def client_at_def open_slot_poll(1)\<close>)
  have reports: "each (PassiveEndpoint_receive tb) (map frame order) (passive_at config b st' seen' pinged') =
      (map (\<lambda>i. Ok (ReceiveReport.Packet (PacketIndex (of_nat i)))) order, passive_at config b1 Connected tb pinged')"
    by (rule receives_lifted_first[where mk = "\<lambda>s. passive_at config s st' seen' pinged'" and config = config, OF _ assms(2,6)])
       (auto simp: PassiveEndpoint_receive_def passive_at_def open_slot_receive)
  obtain b' where b': "poll_times config tc tx (length order) b1 = (map (\<lambda>i. Ok (EnginePoll.Transmit (ack i) 0)) order, b')"
    "EngineState_poll config tc tx b' = (Ok (EnginePoll.Message ev), b2)"
    using poll_times_split assms(3) by blast
  have acks: "each (\<lambda>_. PassiveEndpoint_poll tc tx) order (passive_at config b1 Connected tb pinged') =
      (map (\<lambda>i. Ok (Transmit (ack i) 0)) order, passive_at config b' Connected tb pinged')"
    by (rule polls_lifted[where mk = "\<lambda>s. passive_at config s Connected tb pinged'" and config = config, OF _ b'(1)])
       (use assms(8) in \<open>simp add: PassiveEndpoint_poll_def passive_at_def open_slot_poll(1)\<close>)
  have final: "each (\<lambda>_. PassiveEndpoint_poll tc tx) [0] (passive_at config b' Connected tb pinged') =
      ([Ok (Message ev)], passive_at config b2 Connected tc pinged')"
    using assms(8) b'(2) by (simp add: PassiveEndpoint_poll_def passive_at_def open_slot_poll(2))
  have returned: "each (\<lambda>_. PassiveEndpoint_poll tc tx) [0..<Suc (length order)] (passive_at config b1 Connected tb pinged') =
      (map (\<lambda>i. Ok (Transmit (ack i) 0)) order @ [Ok (Message ev)], passive_at config b2 Connected tc pinged')"
    using trans[OF each_const each_append[OF acks final], of "[0..<Suc (length order)]"] by simp
  have confirmed: "each (ClientEndpoint_receive td) (map ack order) (client_at config a2 st seen pinged) =
      (map (\<lambda>i. Ok (ReceiveReport.Ack (PacketIndex (of_nat i)))) order, client_at config a3 Connected td pinged)"
    by (rule receives_lifted_first[where mk = "\<lambda>s. client_at config s st seen pinged" and config = config, OF _ assms(4,6)])
       (auto simp: ClientEndpoint_receive_def client_at_def open_slot_receive)
  show ?thesis
    unfolding carry_def prod.case by (simp only: out reports returned confirmed polled_simps link_order[OF assms(5)] Let_def prod.case)
qed

section \<open>Whole sessions\<close>

lemma carried_nonempty:
  assumes "carried config (msg, order, ta, tb)"
  shows "order \<noteq> []"
proof -
  let ?n = "fragment_count (length msg) (fragment_limit config PacketType.Data)"
  have "0 < ?n" using fragment_count_bounds(1) fragment_limit_bounds(1)[of PacketType.Data config] by simp
  then have "0 \<in> set order" using assms by (simp add: carried_def)
  then show ?thesis by auto
qed

text \<open>A message that the client's engine has queued comes out of the passive endpoint after one trip.\<close>

lemma carry_delivers:
  assumes "quiet config a" "quiet config b" "carried config (msg, order, ta, tc)" "MAX_WIRE_BYTES \<le> length tx"
    and "NumberState_alloc_message_id (es_numbers a) = (mid, numbers)"
    and "\<forall>k\<in>set (dedup_recent (rc_dedup (es_receive b))). key_message_id k \<noteq> mid"
    and "st = Connecting \<or> \<not> idle_for ta seen" "\<not> idle_for tc tb"
  obtains ev a1 a' b' where "EngineState_send_data config msg a = (Ok mid, a1)"
    "\<forall>st' seen' pinged'. carry tx (order, ta, tb, tc, td) (client_at config a1 st seen pinged, passive_at config b st' seen' pinged') =
      ([ev], client_at config a' Connected td pinged, passive_at config b' Connected tc pinged')"
    "MessageEvent_as_bytes ev = Ok msg" "me_message_id ev = mid" "quiet config a'" "quiet config b'" "es_numbers a' = numbers"
    "\<forall>k\<in>set (dedup_recent (rc_dedup (es_receive b'))). key_message_id k = mid \<or> k \<in> set (dedup_recent (rc_dedup (es_receive b)))"
proof (rule transfer_steps[OF assms(1-6)], rule that)
  fix ev a1 a2 a3 b1 b2
  let ?frame = "frag_frame (integrity config) PacketType.Data mid (fragment_limit config PacketType.Data) msg"
    and ?ack = "\<lambda>i. wire_frame (integrity config) (ack_packet (frag_key mid i))"
  assume "poll_times config ta tx (length order) a1 = (map (\<lambda>i. Ok (EnginePoll.Transmit (?frame i) 0)) [0..<length order], a2)"
    "receive_all config (map ?frame order) b = (map (\<lambda>i. Ok (ReceiveReport.Packet (PacketIndex (of_nat i)))) order, b1)"
    "poll_times config tc tx (Suc (length order)) b1 =
      (map (\<lambda>i. Ok (EnginePoll.Transmit (?ack i) 0)) order @ [Ok (EnginePoll.Message ev)], b2)"
    "receive_all config (map ?ack order) a2 = (map (\<lambda>i. Ok (ReceiveReport.Ack (PacketIndex (of_nat i)))) order, a3)"
  from carry_steps[OF this carried_order[OF assms(3)] carried_nonempty[OF assms(3)] assms(7,8)]
  show "\<forall>st' seen' pinged'. carry tx (order, ta, tb, tc, td) (client_at config a1 st seen pinged, passive_at config b st' seen' pinged') =
      ([ev], client_at config a3 Connected td pinged, passive_at config b2 Connected tc pinged')" by blast
qed

lemma client_send:
  "EngineState_send_data config msg a = (Ok mid, a1) \<Longrightarrow>
    ClientEndpoint_send msg (client_at config a st seen pinged) = (Ok (Some mid), client_at config a1 st seen pinged)"
  by (simp add: ClientEndpoint_send_def client_at_def PeerSlot_send_def open_slot_def Engine_send_def)

lemma exchanges_deliver:
  "quiet config a \<Longrightarrow> quiet config b \<Longrightarrow> busy config seen xs \<Longrightarrow> MAX_WIRE_BYTES \<le> length tx \<Longrightarrow>
    distinct (alloc_ids (length xs) (es_numbers a)) \<Longrightarrow>
    \<forall>k\<in>set (dedup_recent (rc_dedup (es_receive b))). key_message_id k \<notin> set (alloc_ids (length xs) (es_numbers a)) \<Longrightarrow>
    \<exists>ms a' b' seen1 seen2. exchanges tx xs (client_at config a Connected seen pinged, passive_at config b Connected seen' pinged') =
        (ms, client_at config a' Connected seen1 pinged, passive_at config b' Connected seen2 pinged') \<and>
      map MessageEvent_as_bytes ms = map (\<lambda>(msg, _). Ok msg) xs \<and>
      map me_message_id ms = alloc_ids (length xs) (es_numbers a) \<and> quiet config a' \<and> quiet config b'"
proof (induction xs arbitrary: a b seen seen')
  case (Cons x xs)
  obtain msg order ta tb tc td where x: "x = (msg, order, ta, tb, tc, td)" by (cases x)
  obtain mid numbers where al: "NumberState_alloc_message_id (es_numbers a) = (mid, numbers)" by fastforce
  have ids: "alloc_ids (length (x # xs)) (es_numbers a) = mid # alloc_ids (length xs) numbers" using al by simp
  have B: "carried config (msg, order, ta, tc)" "Connected = Connecting \<or> \<not> idle_for ta seen" "\<not> idle_for tc tb" "busy config td xs"
    using Cons.prems(3) x by auto
  have fresh: "\<forall>k\<in>set (dedup_recent (rc_dedup (es_receive b))). key_message_id k \<noteq> mid"
    using Cons.prems(6) unfolding ids by auto
  obtain ev a1 a2 b2 where T: "EngineState_send_data config msg a = (Ok mid, a1)"
    "\<forall>st' seen' pinged'. carry tx (order, ta, tb, tc, td) (client_at config a1 Connected seen pinged, passive_at config b st' seen' pinged') =
      ([ev], client_at config a2 Connected td pinged, passive_at config b2 Connected tc pinged')"
    "MessageEvent_as_bytes ev = Ok msg" "me_message_id ev = mid" "quiet config a2" "quiet config b2" "es_numbers a2 = numbers"
    "\<forall>k\<in>set (dedup_recent (rc_dedup (es_receive b2))). key_message_id k = mid \<or> k \<in> set (dedup_recent (rc_dedup (es_receive b)))"
    by (rule carry_delivers[OF Cons.prems(1,2) B(1) Cons.prems(4) al fresh B(2,3), where pinged = pinged])
  have d: "distinct (alloc_ids (length xs) (es_numbers a2))" using Cons.prems(5) T(7) unfolding ids by simp
  have "\<forall>k\<in>set (dedup_recent (rc_dedup (es_receive b2))). key_message_id k \<notin> set (alloc_ids (length xs) (es_numbers a2))"
    using T(7,8) Cons.prems(5,6) unfolding ids by auto
  from Cons.IH[OF T(5,6) B(4) Cons.prems(4) d this, of tc] obtain ms a3 b3 seen1 seen2 where
    "exchanges tx xs (client_at config a2 Connected td pinged, passive_at config b2 Connected tc pinged') =
      (ms, client_at config a3 Connected seen1 pinged, passive_at config b3 Connected seen2 pinged')"
    "map MessageEvent_as_bytes ms = map (\<lambda>(msg, _). Ok msg) xs"
    "map me_message_id ms = alloc_ids (length xs) (es_numbers a2)" "quiet config a3" "quiet config b3" by blast
  then show ?case
    using T(2-4,7) x ids client_send[OF T(1)]
    by (intro exI[of _ "ev # ms"] exI[of _ a3] exI[of _ b3] exI[of _ seen1] exI[of _ seen2]) simp
next
  case Nil
  then show ?case by (intro exI[of _ "[]"] exI[of _ a] exI[of _ b] exI[of _ seen] exI[of _ seen']) simp
qed

lemma connect_client:
  "EngineState_send_data config HELLO_MESSAGE (EngineState_new (initial_message_id config) config) = (Ok mid, a1) \<Longrightarrow>
    ClientEndpoint_connect t0 (ClientEndpoint_new config) = (Ok mid, client_at config a1 Connecting t0 t0)"
  by (simp add: ClientEndpoint_connect_def ClientEndpoint_new_def PeerSlot_connect_def PeerSlot_new_def Engine_send_def
      Engine_new_def client_at_def open_slot_def)

text \<open>The first frame opens the session of a passive endpoint.\<close>

lemma passive_opens:
  "PassiveEndpoint_receive now bs (PassiveEndpoint_new config) =
    PassiveEndpoint_receive now bs (passive_at config (EngineState_new (initial_message_id config) config) Connecting now now)"
  by (simp add: PassiveEndpoint_receive_def PassiveEndpoint_new_def PeerSlot_new_def PeerSlot_accept_passive_if_needed_def
      PeerSlot_accept_passive_def Engine_new_def passive_at_def open_slot_def)

lemma carry_opens:
  "carry tx ([i], ta, tb, tc, td) (c, PassiveEndpoint_new config) =
    carry tx ([i], ta, tb, tc, td) (c, passive_at config (EngineState_new (initial_message_id config) config) Connecting tb tb)"
  by (simp add: carry_def passive_opens)

lemma hello_carried: "carried config (HELLO_MESSAGE, [0], ta, tc)"
proof -
  have "{0} = {..<1 :: nat}" by auto
  then show ?thesis using hello_fragments[of config] by (simp add: carried_def HELLO_MESSAGE_def)
qed

section \<open>Properties\<close>

text \<open>
  C3. Endpoint sessions: a client connects to a passive endpoint and sends any sequence of messages of at most 256 bytes and
  16 fragments, while the link hands over the frames of a message in an arbitrary order and both sides
  are polled before the ping interval has passed in silence.  The passive endpoint opens its session by itself and delivers the hello message of the client
  and then exactly the messages that were sent, once each, in order and byte for byte, under the ids the
  client allocated; at the end both endpoints are connected and have nothing left to send.
\<close>

theorem endpoint_session_delivers:
  assumes "MAX_WIRE_BYTES \<le> length tx" "\<not> idle_for tc tb" "busy config td xs" "length xs < 2 ^ 32"
  shows "case endpoint_session config tx t0 ([0], ta, tb, tc, td) xs of (ms, c, p) \<Rightarrow>
    map MessageEvent_as_bytes ms = Ok HELLO_MESSAGE # map (\<lambda>(msg, _). Ok msg) xs \<and>
    map me_message_id ms = alloc_ids (Suc (length xs)) (NumberState_new (initial_message_id config)) \<and>
    PeerSlot_is_connected (ce_peer c) \<and> PeerSlot_is_connected (pe_peer p) \<and> quiet_slot (ce_peer c) \<and> quiet_slot (pe_peer p)"
proof -
  let ?e = "EngineState_new (initial_message_id config) config"
  obtain mid numbers where al: "NumberState_alloc_message_id (es_numbers ?e) = (mid, numbers)" by fastforce
  have ids: "alloc_ids (Suc (length xs)) (es_numbers ?e) = mid # alloc_ids (length xs) numbers" using al by simp
  have dist: "distinct (alloc_ids (Suc (length xs)) (es_numbers ?e))" by (rule alloc_ids_distinct) (use assms(4) in simp)
  have none: "set (dedup_recent (rc_dedup (es_receive ?e))) = {}" using new_engine_idle(3)[of "initial_message_id config" config] by simp
  then have fresh: "\<forall>k\<in>set (dedup_recent (rc_dedup (es_receive ?e))). key_message_id k \<noteq> mid" by simp
  have connecting: "Connecting = Connecting \<or> \<not> idle_for ta t0" by simp
  obtain ev a1 a2 b2 where H: "EngineState_send_data config HELLO_MESSAGE ?e = (Ok mid, a1)"
    "\<forall>st' seen' pinged'. carry tx ([0], ta, tb, tc, td) (client_at config a1 Connecting t0 t0, passive_at config ?e st' seen' pinged') =
      ([ev], client_at config a2 Connected td t0, passive_at config b2 Connected tc pinged')"
    "MessageEvent_as_bytes ev = Ok HELLO_MESSAGE" "me_message_id ev = mid" "quiet config a2" "quiet config b2" "es_numbers a2 = numbers"
    "\<forall>k\<in>set (dedup_recent (rc_dedup (es_receive b2))). key_message_id k = mid \<or> k \<in> set (dedup_recent (rc_dedup (es_receive ?e)))"
    by (rule carry_delivers[OF quiet_new quiet_new hello_carried assms(1) al fresh connecting assms(2), where pinged = t0])
  have "\<forall>k\<in>set (dedup_recent (rc_dedup (es_receive b2))). key_message_id k \<notin> set (alloc_ids (length xs) (es_numbers a2))"
    using H(7,8) none dist unfolding ids by auto
  moreover have "distinct (alloc_ids (length xs) (es_numbers a2))" using dist H(7) unfolding ids by simp
  ultimately obtain ms a' b' seen1 seen2 where
    E: "exchanges tx xs (client_at config a2 Connected td t0, passive_at config b2 Connected tc tb) =
      (ms, client_at config a' Connected seen1 t0, passive_at config b' Connected seen2 tb)"
    "map MessageEvent_as_bytes ms = map (\<lambda>(msg, _). Ok msg) xs"
    "map me_message_id ms = alloc_ids (length xs) (es_numbers a2)" "quiet config a'" "quiet config b'"
    using exchanges_deliver[OF H(5,6) assms(3,1)] by blast
  have n: "es_numbers ?e = NumberState_new (initial_message_id config)" by (simp add: EngineState_new_def)
  have "endpoint_session config tx t0 ([0], ta, tb, tc, td) xs =
      (ev # ms, client_at config a' Connected seen1 t0, passive_at config b' Connected seen2 tb)"
    using H(2) E(1) by (simp add: endpoint_session_def connect_client[OF H(1)] carry_opens)
  then show ?thesis
    using E(2-5) H(3,4,7) ids n
    by (simp add: PeerSlot_is_connected_def quiet_slot_def client_at_def passive_at_def open_slot_def del: alloc_ids.simps)
qed

theorem endpoint_session_delivers_witness:
  "case endpoint_session (EngineConfig_default None\<lparr>fragment_bytes := 2\<rparr>) (replicate 128 0) 1 ([0], 2, 3, 4, 5)
      [([1, 2, 3], [1, 0], 10, 12, 13, 14), ([], [0], 4000, 20000, 20001, 20002)] of (ms, c, p) \<Rightarrow>
    map MessageEvent_as_bytes ms = [Ok [0], Ok [1, 2, 3], Ok []]"
proof -
  let ?c = "EngineConfig_default None\<lparr>fragment_bytes := 2\<rparr>"
  let ?xs = "[([1, 2, 3], [1, 0], 10, 12, 13, 14), ([], [0], 4000, 20000, 20001, 20002)] :: (bytes \<times> trip) list"
  have "fragment_limit ?c PacketType.Data = 2"
    using Integrity_tag_len_le[of "integrity ?c"] by (simp add: fragment_limit_def)
  then have b: "busy ?c 5 ?xs" by (auto simp: carried_def fragment_count_def idle_for_def)
  obtain ms c p where "endpoint_session ?c (replicate 128 0) 1 ([0], 2, 3, 4, 5) ?xs = (ms, c, p)" by (metis prod_cases3)
  then show ?thesis
    using endpoint_session_delivers[OF _ _ b, of "replicate 128 0" 4 3 1 2] by (simp add: HELLO_MESSAGE_def idle_for_def)
qed

end
