(* ===== verification/Engine_Stream.thy ===== *)
theory Engine_Stream
  imports Engine_Receive
begin

text \<open>
  The receive loop of the engine seen as a stream processor: whatever chunks the bytes arrive in, the
  engine handles the packets of the concatenated stream one after the other.  No code of its own.
\<close>

section \<open>One chunk\<close>

text \<open>Handling one packet; nothing when the loop would stop with an error.\<close>

definition handle_packet :: "EngineConfig \<Rightarrow> bytes \<Rightarrow> EngineState \<Rightarrow> (ReceiveReport \<times> EngineState) option" where
  "handle_packet config p s =
     (if length p \<le> MAX_WIRE_BYTES
      then case receive_decoded config (decode_packet_bytes p) s of
        (Ok (ReceiveReport.Error e), s1) \<Rightarrow> None | (Ok rep, s1) \<Rightarrow> Some (rep, s1) | _ \<Rightarrow> None
      else None)"

fun handle_packets :: "EngineConfig \<Rightarrow> bytes list \<Rightarrow> EngineState \<Rightarrow> EngineState option" where
  "handle_packets config [] s = Some s"
| "handle_packets config (p # ps) s = Option.bind (handle_packet config p s) (\<lambda>(rep, s1). handle_packets config ps s1)"

text \<open>The report of the loop after a list of decoder outcomes.\<close>

fun handle_outcomes :: "EngineConfig \<Rightarrow> StreamDecodeOutcome list \<Rightarrow> ReceiveReport \<Rightarrow> EngineState \<Rightarrow> (ReceiveReport \<times> EngineState) option" where
  "handle_outcomes config [] rep s = Some (rep, s)"
| "handle_outcomes config (StreamDecodeOutcome.Packet p n # outs) rep s =
     Option.bind (handle_packet config p s) (\<lambda>(rep, s1). handle_outcomes config outs rep s1)"
| "handle_outcomes config (StreamDecodeOutcome.Noise n # outs) rep s = handle_outcomes config outs (ReceiveReport.Noise n) s"
| "handle_outcomes config (StreamDecodeOutcome.Corrupted n # outs) rep s = handle_outcomes config outs ReceiveReport.Corrupted s"
| "handle_outcomes config (StreamDecodeOutcome.Resync n # outs) rep s = handle_outcomes config outs (ReceiveReport.Noise n) s"
| "handle_outcomes config (StreamDecodeOutcome.NeedMore a # outs) rep s = handle_outcomes config outs rep s"

definition waiting_report :: "usize option \<Rightarrow> ReceiveReport \<Rightarrow> ReceiveReport" where
  "waiting_report additional rep = (case rep of ReceiveReport.Incomplete _ \<Rightarrow> ReceiveReport.Incomplete additional | other \<Rightarrow> other)"

fun no_error :: "ReceiveReport \<Rightarrow> bool" where
  "no_error (ReceiveReport.Error e) = False"
| "no_error _ = True"

lemma handle_packet_ingress:
  "handle_packet config p (s\<lparr>es_ingress := ig\<rparr>) = map_option (\<lambda>(rep, s1). (rep, s1\<lparr>es_ingress := ig\<rparr>)) (handle_packet config p s)"
  by (simp add: handle_packet_def receive_decoded_ingress_upd split: prod.splits res.splits ReceiveReport.splits)

lemma handle_packets_ingress:
  "handle_packets config ps (s\<lparr>es_ingress := ig\<rparr>) = map_option (\<lambda>s1. s1\<lparr>es_ingress := ig\<rparr>) (handle_packets config ps s)"
  by (induction ps arbitrary: s) (auto simp: handle_packet_ingress split: Option.bind_splits)

lemma handle_outcomes_ingress:
  "handle_outcomes config outs rep (s\<lparr>es_ingress := ig\<rparr>) =
    map_option (\<lambda>(rep, s1). (rep, s1\<lparr>es_ingress := ig\<rparr>)) (handle_outcomes config outs rep s)"
  by (induction config outs rep s rule: handle_outcomes.induct) (auto simp: handle_packet_ingress split: Option.bind_splits)

lemma handle_outcomes_packets:
  "map_option snd (handle_outcomes config outs rep s) = handle_packets config (packets_of outs) s"
  by (induction config outs rep s rule: handle_outcomes.induct) (auto split: Option.bind_splits)

lemma handle_packet_ok:
  assumes "engine_ok config s" "handle_packet config p s = Some (rep, s1)"
  shows "engine_ok config s1" "no_error rep" "es_ingress s1 = es_ingress s"
proof -
  have d: "receive_decoded config (decode_packet_bytes p) s = (Ok rep, s1)" "no_error rep" "length p \<le> MAX_WIRE_BYTES"
    using assms(2) by (auto simp: handle_packet_def split: if_splits prod.splits res.splits ReceiveReport.splits)
  then show "no_error rep" by simp
  show "engine_ok config s1" using receive_decoded_ok(1)[OF assms(1), of "decode_packet_bytes p"] d(1) by simp
  obtain pb where "PacketBytes_try_from_slice p = Ok pb" using d(3) by (simp add: PacketBytes_try_from_slice_def)
  then show "es_ingress s1 = es_ingress s"
    using receive_packet_ingress[of config pb s] receive_complete_eq[of p pb config s] d(1) by simp
qed

lemma receive_loop_packet:
  assumes "IngressState_feed input (integrity config) (es_ingress s) = (Ok (StreamDecodeOutcome.Packet p n), ig)"
    and "engine_ok config (s\<lparr>es_ingress := ig\<rparr>)"
  shows "case handle_packet config p (s\<lparr>es_ingress := ig\<rparr>) of
      None \<Rightarrow> \<exists>e s'. receive_loop config input report s = (Ok (ReceiveReport.Error e), s')
    | Some (rep, s1) \<Rightarrow> receive_loop config input report s = receive_loop config [] rep s1"
proof (cases "length p \<le> MAX_WIRE_BYTES")
  case True
  then obtain pb where pb: "PacketBytes_try_from_slice p = Ok pb" by (simp add: PacketBytes_try_from_slice_def)
  obtain r s1 where d: "receive_decoded config (decode_packet_bytes p) (s\<lparr>es_ingress := ig\<rparr>) = (r, s1)" by fastforce
  obtain rep where rep: "r = Ok rep"
    using receive_decoded_ok(2)[OF assms(2), of "decode_packet_bytes p"] d by (auto simp: report_ok_def)
  show ?thesis
    using assms(1) pb d rep True
    by (subst (1 2) receive_loop.simps) (cases rep; simp add: handle_packet_def receive_complete_eq)
next
  case False
  then show ?thesis
    using assms(1) by (subst (1 2) receive_loop.simps) (simp add: handle_packet_def PacketBytes_try_from_slice_def)
qed

lemma receive_loop_other:
  assumes "IngressState_feed input (integrity config) (es_ingress s) = (Ok out, ig)"
  shows "out = StreamDecodeOutcome.NeedMore a \<Longrightarrow>
      receive_loop config input rep s = (Ok (waiting_report a rep), s\<lparr>es_ingress := ig\<rparr>)"
    "out = StreamDecodeOutcome.Noise n \<Longrightarrow>
      receive_loop config input rep s = receive_loop config [] (ReceiveReport.Noise n) (s\<lparr>es_ingress := ig\<rparr>)"
    "out = StreamDecodeOutcome.Resync n \<Longrightarrow>
      receive_loop config input rep s = receive_loop config [] (ReceiveReport.Noise n) (s\<lparr>es_ingress := ig\<rparr>)"
    "out = StreamDecodeOutcome.Corrupted n \<Longrightarrow>
      receive_loop config input rep s = receive_loop config [] ReceiveReport.Corrupted (s\<lparr>es_ingress := ig\<rparr>)"
  using assms by (simp_all add: receive_loop.simps[of config input rep s] waiting_report_def)

text \<open>
  A call that fits the ingress buffer handles the outcomes of draining the unread bytes and the chunk, in
  order, and stops early exactly when one of them is an error.
\<close>

abbreviation unread :: "EngineState \<Rightarrow> bytes" where
  "unread s \<equiv> sd_unread (ig_decoder (es_ingress s))"

definition engine_drain :: "EngineConfig \<Rightarrow> bytes \<Rightarrow> StreamDecodeOutcome list \<times> bytes" where
  "engine_drain config bs = stream_drain (integrity config) MAX_INGRESS_BYTES bs"

definition chunk_handled :: "EngineConfig \<Rightarrow> bytes \<Rightarrow> (ReceiveReport \<times> EngineState) option \<Rightarrow> ReceiveReport res \<times> EngineState \<Rightarrow> bool" where
  "chunk_handled config buf expected result \<longleftrightarrow>
     (case expected of
        None \<Rightarrow> \<exists>e s'. result = (Ok (ReceiveReport.Error e), s')
      | Some (rep, s1) \<Rightarrow> \<exists>a ig. result = (Ok (waiting_report a rep), s1\<lparr>es_ingress := ig\<rparr>) \<and>
          engine_ok config (s1\<lparr>es_ingress := ig\<rparr>) \<and> sd_unread (ig_decoder ig) = snd (engine_drain config buf))"

lemma chunk_handled_ingress [simp]:
  "chunk_handled config buf (map_option (\<lambda>(rep, s1). (rep, s1\<lparr>es_ingress := ig\<rparr>)) expected) result \<longleftrightarrow>
    chunk_handled config buf expected result"
  by (cases expected) (auto simp: chunk_handled_def)

lemma receive_loop_drain:
  "engine_ok config s \<Longrightarrow> length (unread s) + length input \<le> MAX_INGRESS_BYTES \<Longrightarrow>
    chunk_handled config (unread s @ input) (handle_outcomes config (fst (engine_drain config (unread s @ input))) rep s)
      (receive_loop config input rep s)"
proof (induction "backlog input s" arbitrary: input rep s rule: less_induct)
  case less
  let ?cfg = "integrity config" and ?d = "ig_decoder (es_ingress s)" and ?buf = "unread s @ input"
  have ok: "sd_ok ?d" "StreamingDecoder_capacity ?d = MAX_INGRESS_BYTES" using less.prems(1) by (simp_all add: engine_ok_def)
  obtain out k where st: "stream_step ?cfg MAX_INGRESS_BYTES ?buf = (out, k)" by fastforce
  obtain r d where f: "StreamingDecoder_feed ?cfg input ?d = (r, d)" by fastforce
  have F: "r = Ok out" "sd_ok d" "sd_unread d = drop k ?buf" "StreamingDecoder_capacity d = MAX_INGRESS_BYTES"
    using feed_step[OF ok(1) _ f, of out k] less.prems(2) st ok(2) by simp_all
  let ?ig = "(es_ingress s)\<lparr>ig_decoder := d\<rparr>"
  have feed: "IngressState_feed input ?cfg (es_ingress s) = (Ok out, ?ig)" using f F(1) by (simp add: IngressState_feed_def)
  let ?s = "s\<lparr>es_ingress := ?ig\<rparr>"
  have sok: "engine_ok config ?s" using less.prems(1) F(2,4) by (simp add: engine_ok_def)
  note O = receive_loop_other[OF feed]
  show ?case
  proof (cases "is_NeedMore out")
    case True
    then obtain a where a: "out = StreamDecodeOutcome.NeedMore a" by (cases out) auto
    have dr: "engine_drain config ?buf = ([], ?buf)" using stream_drain_NeedMore[of ?cfg MAX_INGRESS_BYTES ?buf] True st
      by (simp add: engine_drain_def)
    have "k = 0" using stream_step_bounds(3)[OF st True] .
    then have "sd_unread (ig_decoder ?ig) = snd (engine_drain config ?buf)" using F(3) dr by simp
    then show ?thesis unfolding chunk_handled_def dr using O(1)[OF a] sok by auto
  next
    case False
    have dr: "engine_drain config ?buf = (out # fst (engine_drain config (drop k ?buf)), snd (engine_drain config (drop k ?buf)))"
      using stream_drain_step[OF st False] by (simp add: engine_drain_def)
    have less': "backlog [] t < backlog input s" if "es_ingress t = ?ig" for t
      using feed_decreases[OF f[unfolded F(1)] False] that by (simp add: backlog_def)
    have IH: "chunk_handled config ?buf (handle_outcomes config (fst (engine_drain config (drop k ?buf))) rep' t)
        (receive_loop config [] rep' (t\<lparr>es_ingress := ?ig\<rparr>))" if "engine_ok config (t\<lparr>es_ingress := ?ig\<rparr>)" for rep' t
    proof -
      let ?t = "t\<lparr>es_ingress := ?ig\<rparr>"
      have "length (unread ?t) + length [] \<le> MAX_INGRESS_BYTES" using sd_unread_le[OF F(2)] F(4) by simp
      from less.hyps[OF less' that this, of rep']
      have "chunk_handled config (unread ?t) (handle_outcomes config (fst (engine_drain config (unread ?t))) rep' t)
          (receive_loop config [] rep' ?t)" by (simp add: handle_outcomes_ingress)
      then show ?thesis using F(3) dr by (auto simp: chunk_handled_def split: option.splits)
    qed
    show ?thesis
    proof (cases out)
      case (Packet p n)
      note P = receive_loop_packet[OF feed[unfolded Packet] sok, of rep]
      show ?thesis
      proof (cases "handle_packet config p s")
        case None
        then show ?thesis using P by (simp add: dr Packet chunk_handled_def handle_packet_ingress)
      next
        case (Some rs1)
        obtain rep1 s1 where rs: "rs1 = (rep1, s1)" by fastforce
        have H: "handle_packet config p ?s = Some (rep1, s1\<lparr>es_ingress := ?ig\<rparr>)" using Some rs by (simp add: handle_packet_ingress)
        have "engine_ok config (s1\<lparr>es_ingress := ?ig\<rparr>)" by (rule handle_packet_ok(1)[OF sok H])
        from IH[OF this, of rep1] show ?thesis using P H Some rs by (simp add: dr Packet)
      qed
    next
      case (NeedMore a)
      then show ?thesis using False by simp
    qed (use O IH[OF sok] in \<open>simp_all add: dr\<close>)
  qed
qed

section \<open>Sequences of chunks\<close>

lemma no_error_waiting [simp]: "no_error (waiting_report a rep) = no_error rep"
  by (cases rep) (simp_all add: waiting_report_def)

lemma handle_outcomes_no_error:
  "handle_outcomes config outs rep s = Some (rep', s1) \<Longrightarrow> no_error rep \<Longrightarrow> no_error rep'"
proof (induction config outs rep s rule: handle_outcomes.induct)
  case (2 config p n outs rep s)
  obtain rep1 s2 where h: "handle_packet config p s = Some (rep1, s2)" "handle_outcomes config outs rep1 s2 = Some (rep', s1)"
    using 2(2) by (auto split: Option.bind_splits)
  have "no_error rep1" using h(1) by (auto simp: handle_packet_def split: if_splits prod.splits res.splits ReceiveReport.splits)
  then show ?case using 2(1)[OF h(1) refl h(2)] by simp
qed auto

lemma handle_packets_append:
  "handle_packets config (ps @ qs) s = Option.bind (handle_packets config ps s) (handle_packets config qs)"
  by (induction ps arbitrary: s) (auto split: Option.bind_splits)

text \<open>The stream is drained when the bytes kept are the beginning of a frame that has not arrived completely.\<close>

definition stream_drained :: "EngineConfig \<Rightarrow> EngineState \<Rightarrow> bool" where
  "stream_drained config s \<longleftrightarrow> is_NeedMore (fst (stream_step (integrity config) MAX_INGRESS_BYTES (unread s)))"

definition small_chunk :: "bytes \<Rightarrow> bool" where
  "small_chunk c \<longleftrightarrow> length c + 273 \<le> MAX_INGRESS_BYTES"

lemma receive_chunk:
  assumes "engine_ok config s" "stream_drained config s" "small_chunk c"
  shows "case handle_packets config (packets_of (fst (engine_drain config (unread s @ c)))) s of
      None \<Rightarrow> \<exists>e s'. EngineState_receive config c s = (Ok (ReceiveReport.Error e), s')
    | Some s1 \<Rightarrow> \<exists>rep ig. EngineState_receive config c s = (Ok rep, s1\<lparr>es_ingress := ig\<rparr>) \<and> no_error rep \<and>
        engine_ok config (s1\<lparr>es_ingress := ig\<rparr>) \<and> sd_unread (ig_decoder ig) = snd (engine_drain config (unread s @ c)) \<and>
        stream_drained config (s1\<lparr>es_ingress := ig\<rparr>)"
proof -
  let ?outs = "fst (engine_drain config (unread s @ c))"
  have "length (unread s) < 258 + Integrity_tag_len (integrity config)"
    by (rule NeedMore_length) (use assms(2) in \<open>simp add: stream_drained_def\<close>)
  then have fits: "length (unread s) + length c \<le> MAX_INGRESS_BYTES"
    using assms(3) Integrity_tag_len_le[of "integrity config"] by (simp add: small_chunk_def)
  note R = receive_loop_drain[OF assms(1) fits, of "ReceiveReport.Incomplete None",
      folded receive_bytes_def receive_ingress_def EngineState_receive_def]
  note P = handle_outcomes_packets[of config ?outs "ReceiveReport.Incomplete None" s]
  have rest: "is_NeedMore (fst (stream_step (integrity config) MAX_INGRESS_BYTES (snd (engine_drain config (unread s @ c)))))"
    unfolding engine_drain_def by (rule stream_drain_rest)
  show ?thesis
  proof (cases "handle_outcomes config ?outs (ReceiveReport.Incomplete None) s")
    case None
    then show ?thesis using R P by (simp add: chunk_handled_def)
  next
    case (Some x)
    obtain rep s1 where x: "x = (rep, s1)" by fastforce
    have e: "no_error rep" using handle_outcomes_no_error[OF Some[unfolded x]] by simp
    have h: "handle_packets config (packets_of ?outs) s = Some s1" using P Some x by simp
    obtain a ig where r: "EngineState_receive config c s = (Ok (waiting_report a rep), s1\<lparr>es_ingress := ig\<rparr>)"
      "engine_ok config (s1\<lparr>es_ingress := ig\<rparr>)" "sd_unread (ig_decoder ig) = snd (engine_drain config (unread s @ c))"
      using R Some x by (auto simp: chunk_handled_def)
    have "stream_drained config (s1\<lparr>es_ingress := ig\<rparr>)" using rest r(3) by (simp add: stream_drained_def)
    then show ?thesis unfolding h option.case using r e no_error_waiting by blast
  qed
qed

lemma engine_drain_append:
  "packets_of (fst (engine_drain config (bs @ cs))) =
    packets_of (fst (engine_drain config bs)) @ packets_of (fst (engine_drain config (snd (engine_drain config bs) @ cs)))"
  "snd (engine_drain config (bs @ cs)) = snd (engine_drain config (snd (engine_drain config bs) @ cs))"
  unfolding engine_drain_def using drain_append by blast+

fun is_Error :: "ReceiveReport res \<Rightarrow> bool" where
  "is_Error (Ok rep) = (\<not> no_error rep)"
| "is_Error _ = True"

lemma receive_chunks:
  "engine_ok config s \<Longrightarrow> stream_drained config s \<Longrightarrow> \<forall>c\<in>set cs. small_chunk c \<Longrightarrow>
    case handle_packets config (packets_of (fst (engine_drain config (unread s @ concat cs)))) s of
      None \<Rightarrow> \<exists>r\<in>set (fst (receive_all config cs s)). is_Error r
    | Some s1 \<Rightarrow> (\<forall>r\<in>set (fst (receive_all config cs s)). \<not> is_Error r) \<and>
        (\<exists>ig. snd (receive_all config cs s) = s1\<lparr>es_ingress := ig\<rparr> \<and> engine_ok config (s1\<lparr>es_ingress := ig\<rparr>) \<and>
          sd_unread (ig_decoder ig) = snd (engine_drain config (unread s @ concat cs)) \<and>
          stream_drained config (s1\<lparr>es_ingress := ig\<rparr>))"
proof (induction cs arbitrary: s)
  case Nil
  have "engine_drain config (unread s) = ([], unread s)"
    unfolding engine_drain_def by (rule stream_drain_NeedMore) (use Nil.prems(2) in \<open>simp add: stream_drained_def\<close>)
  then show ?case using Nil.prems by (auto intro!: exI[of _ "es_ingress s"])
next
  case (Cons c cs)
  let ?ps = "packets_of (fst (engine_drain config (unread s @ c)))" and ?rest = "snd (engine_drain config (unread s @ c))"
  let ?qs = "packets_of (fst (engine_drain config (?rest @ concat cs)))"
  have app: "packets_of (fst (engine_drain config (unread s @ concat (c # cs)))) = ?ps @ ?qs"
    "snd (engine_drain config (unread s @ concat (c # cs))) = snd (engine_drain config (?rest @ concat cs))"
    using engine_drain_append[of config "unread s @ c" "concat cs"] by simp_all
  have "small_chunk c" using Cons.prems(3) by simp
  note C = receive_chunk[OF Cons.prems(1,2) this]
  show ?case
  proof (cases "handle_packets config ?ps s")
    case None
    then obtain e s' where "EngineState_receive config c s = (Ok (ReceiveReport.Error e), s')" using C by auto
    then show ?thesis unfolding app using None by (simp add: handle_packets_append split: prod.splits)
  next
    case (Some s1)
    then obtain rep ig where c: "EngineState_receive config c s = (Ok rep, s1\<lparr>es_ingress := ig\<rparr>)" "no_error rep"
      "engine_ok config (s1\<lparr>es_ingress := ig\<rparr>)" "sd_unread (ig_decoder ig) = ?rest" "stream_drained config (s1\<lparr>es_ingress := ig\<rparr>)"
      using C by auto
    have u: "unread (s1\<lparr>es_ingress := ig\<rparr>) = ?rest" using c(4) by simp
    have "\<forall>c\<in>set cs. small_chunk c" using Cons.prems(3) by simp
    note IH = Cons.IH[OF c(3,5) this, unfolded u handle_packets_ingress]
    show ?thesis
      unfolding app using Some c(1,2) IH
      by (cases "receive_all config cs (s1\<lparr>es_ingress := ig\<rparr>)"; cases "handle_packets config ?qs s1")
         (simp_all add: handle_packets_append)
  qed
qed

text \<open>Two ways of cutting the same bytes, and what no chunk changes.\<close>

lemma chunkings_agree:
  assumes "engine_ok config s" "stream_drained config s" "concat cs = concat ds"
    and "\<forall>c\<in>set cs \<union> set ds. small_chunk c" "\<forall>r\<in>set (fst (receive_all config cs s)). \<not> is_Error r"
  shows "\<forall>r\<in>set (fst (receive_all config ds s)). \<not> is_Error r" "engine_ok config (snd (receive_all config ds s))"
    "(snd (receive_all config ds s))\<lparr>es_ingress := ig\<rparr> = (snd (receive_all config cs s))\<lparr>es_ingress := ig\<rparr>"
    "unread (snd (receive_all config ds s)) = unread (snd (receive_all config cs s))"
proof -
  have small: "\<forall>c\<in>set cs. small_chunk c" "\<forall>c\<in>set ds. small_chunk c" using assms(4) by auto
  note C = receive_chunks[OF assms(1,2) small(1)] and D = receive_chunks[OF assms(1,2) small(2), folded assms(3)]
  obtain s1 where s1: "handle_packets config (packets_of (fst (engine_drain config (unread s @ concat cs)))) s = Some s1"
    using C assms(5) by (auto split: option.splits)
  then show "\<forall>r\<in>set (fst (receive_all config ds s)). \<not> is_Error r" "engine_ok config (snd (receive_all config ds s))"
    "(snd (receive_all config ds s))\<lparr>es_ingress := ig\<rparr> = (snd (receive_all config cs s))\<lparr>es_ingress := ig\<rparr>"
    "unread (snd (receive_all config ds s)) = unread (snd (receive_all config cs s))" using C D by auto
qed

lemma queue_numbers [simp]:
  "es_numbers (snd (queue_ack k s)) = es_numbers s" "es_numbers (snd (queue_pong config s)) = es_numbers s"
  "es_numbers (snd (ack_or_error k b r s)) = es_numbers s"
  by (auto simp: queue_ack_def liveness_push EngineState_push_def update_field_def ack_or_error_def
      split: prod.splits bool.splits res.splits)

lemma receive_data_numbers: "es_numbers (snd (receive_data f s)) = es_numbers s"
  by (simp add: receive_data_def Let_def split: prod.splits res.splits option.splits DedupDecision.splits)

lemma receive_decoded_numbers: "es_numbers (snd (receive_decoded config d s)) = es_numbers s"
  using queue_numbers(2)[of config s]
  by (cases "queue_pong config s")
     (auto simp: receive_decoded_def receive_log_def receive_ack_def receive_data_numbers simp del: queue_numbers
      split: PacketDecode.splits prod.splits res.splits option.splits)

lemma handle_packets_numbers: "handle_packets config ps s = Some s1 \<Longrightarrow> es_numbers s1 = es_numbers s"
proof (induction ps arbitrary: s)
  case (Cons p ps)
  obtain rep s2 where h: "handle_packet config p s = Some (rep, s2)" "handle_packets config ps s2 = Some s1"
    using Cons.prems by (auto split: Option.bind_splits)
  have "es_numbers s2 = es_numbers s"
    using h(1) receive_decoded_numbers[of config "decode_packet_bytes p" s]
    by (auto simp: handle_packet_def split: if_splits prod.splits res.splits ReceiveReport.splits)
  then show ?case using Cons.IH[OF h(2)] by simp
qed simp

lemma receive_all_numbers:
  assumes "engine_ok config s" "stream_drained config s" "\<forall>c\<in>set cs. small_chunk c"
    and "\<forall>r\<in>set (fst (receive_all config cs s)). \<not> is_Error r"
  shows "es_numbers (snd (receive_all config cs s)) = es_numbers s"
  using receive_chunks[OF assms(1-3)] assms(4) handle_packets_numbers by (auto split: option.splits)

section \<open>Properties\<close>



end
