(* ===== verification/Retry.thy ===== *)
theory Retry
  imports Drain
begin

text \<open>
  The two sides of a transfer over a link that loses frames: the sender, which holds some fragments of
  a message in flight and sends them again when their timer runs out, and the receiver, which has some
  of the fragments and acknowledges every frame of the message, new or repeated.
\<close>

section \<open>Sending again\<close>

text \<open>
  The sender waits for the ACKs of the fragments \<open>U\<close>, all of which went out at \<open>t\<close>, and has nothing
  else to do.
\<close>

definition awaiting :: "EngineConfig \<Rightarrow> MessageId \<Rightarrow> bytes \<Rightarrow> nat set \<Rightarrow> u64 \<Rightarrow> u8 \<Rightarrow> EngineState \<Rightarrow> bool" where
  "awaiting config mid msg U t attempts a \<longleftrightarrow> engine_ok config a \<and> idle_stream a \<and> ack_list (es_ack a) = [] \<and>
     sched_view (es_scheduler a) = (\<lambda>_. []) \<and> message_list (es_message a) = [] \<and> dom (reasm_map (es_reassembly a)) = {} \<and>
     tracked mid (frag_sent config mid msg t attempts) U (inflight_map (rs_in_flight (es_recovery a))) \<and>
     rs_last_tick_ms (es_recovery a) = Some t"

lemma awaiting_none_quiet: "awaiting config mid msg {} t attempts a \<Longrightarrow> quiet config a"
  by (auto simp: awaiting_def quiet_def no_urgent_def tracked_def)

text \<open>A later tick queues every waiting fragment again, unless the attempts are used up.\<close>

lemma tick_again:
  assumes "awaiting config mid msg U t attempts a" "dynamic_recovery config = None" "t < now"
    and "retransmit_timeout_ms config \<le> now - t" "attempts < max_retransmit_attempts config"
  defines "ps \<equiv> RecoveryState_packets (es_recovery a)" and "s \<equiv> tick_retransmit config now a"
  shows "engine_ok config s" "set ps = frag_sent config mid msg t attempts ` U" "distinct (map if_key ps)"
    "inflight_map (rs_in_flight (es_recovery s)) = inflight_map (rs_in_flight (es_recovery a))"
    "sched_view (es_scheduler s) = (\<lambda>_. [])(QueueKind.Retransmit := map (EngineOutput.Write \<circ> retransmission) ps)"
proof -
  have A: "engine_ok config a" "sched_view (es_scheduler a) = (\<lambda>_. [])"
    "tracked mid (frag_sent config mid msg t attempts) U (inflight_map (rs_in_flight (es_recovery a)))"
    "rs_last_tick_ms (es_recovery a) = Some t" using assms(1) by (auto simp: awaiting_def)
  show ok: "engine_ok config s" unfolding s_def by (rule engine_ok_tick[OF A(1)])
  show ps: "set ps = frag_sent config mid msg t attempts ` U" unfolding ps_def by (rule packets_tracked[OF A(1,3)])
  have due: "due config now a p" "\<not> exhausted config now a p" if "p \<in> set ps" for p
    using that assms(2-5) unfolding ps
    by (auto simp: due_def exhausted_def frag_sent_def frag_inflight_def EngineState_retransmit_timeout_ms_def saturating_sub_def)
  have none: "given_up config now a = {}" using due(2) unfolding given_up_def ps_def[symmetric] by blast
  have neq: "rs_last_tick_ms (es_recovery a) \<noteq> Some now" using A(4) assms(3) by auto
  obtain F where T: "RecoveryState_packets (es_recovery s) = filter (\<lambda>p. message_of p \<notin> given_up config now a) ps"
    "recovery_ok (es_recovery s)" "set F = given_up config now a" "distinct F"
    "es_scheduler s = push_events (map failed_event F @ map (EngineOutput.Write \<circ> retransmission)
       (filter (\<lambda>p. due config now a p \<and> message_of p \<notin> given_up config now a) ps)) (es_scheduler a)"
    unfolding s_def ps_def by (rule tick_outcome[OF A(1) neq])
  have F: "F = []" using T(3) none by simp
  have all: "filter (\<lambda>p. due config now a p \<and> message_of p \<notin> given_up config now a) ps = ps"
    using due(1) none by (intro filter_True) auto
  let ?ws = "map retransmission ps"
  have iok: "inflight_ok (rs_in_flight (es_recovery a))" "inflight_ok (rs_in_flight (es_recovery s))"
    using engine_okD(2)[OF A(1)] T(2) by (simp_all add: recovery_ok_def)
  show dist: "distinct (map if_key ps)"
    using iok(1) by (simp add: ps_def RecoveryState_packets_def InFlightPackets_packets_def inflight_ok_def)
  have "RecoveryState_packets (es_recovery s) = ps" using T(1) none by simp
  then have "inflight_map (rs_in_flight (es_recovery s)) k = Some p \<longleftrightarrow> inflight_map (rs_in_flight (es_recovery a)) k = Some p" for k p
    by (simp add: inflight_map_Some[OF iok(1)] inflight_map_Some[OF iok(2)] ps_def RecoveryState_packets_def)
  then show "inflight_map (rs_in_flight (es_recovery s)) = inflight_map (rs_in_flight (es_recovery a))"
    by (intro ext) (metis not_Some_eq)
  have len: "length ps \<le> MAX_EVENTS"
    using iok(1) length_flatten_le[of "ifs_packets (rs_in_flight (es_recovery a))"]
    by (simp add: ps_def RecoveryState_packets_def InFlightPackets_packets_def inflight_ok_def)
  have q: "es_scheduler s = push_writes ?ws (es_scheduler a)"
    unfolding T(5) all F by (simp add: push_events_def push_writes_def fold_map comp_def)
  have ve: "view_events (sched_view (es_scheduler a)) = []" using A(2) by (simp add: view_events_def)
  have "sched_view (push_writes ?ws (es_scheduler a)) = (sched_view (es_scheduler a))(QueueKind.Retransmit :=
      sched_view (es_scheduler a) QueueKind.Retransmit @ map EngineOutput.Write ?ws)"
    by (rule push_writes_view)
       (use engine_okD(1)[OF A(1)] len ve length_view_events[of "es_scheduler a"] dist in
         \<open>simp_all add: retransmission_def queue_for_event_def comp_def\<close>)
  then show "sched_view (es_scheduler s) = (\<lambda>_. [])(QueueKind.Retransmit := map (EngineOutput.Write \<circ> retransmission) ps)"
    unfolding q A(2) by simp
qed


lemma awaiting_idle:
  assumes "awaiting config mid msg U t attempts a"
  obtains a' where "poll_times config t tx n a = (replicate n (Ok EnginePoll.Idle), a')"
    "awaiting config mid msg U t attempts a'" "es_numbers a' = es_numbers a" "es_receive a' = es_receive a"
proof -
  have A: "engine_ok config a" "idle_stream a" "ack_list (es_ack a) = []" "sched_view (es_scheduler a) = (\<lambda>_. [])"
    "message_list (es_message a) = []" "dom (reasm_map (es_reassembly a)) = {}" "rs_last_tick_ms (es_recovery a) = Some t"
    "tracked mid (frag_sent config mid msg t attempts) U (inflight_map (rs_in_flight (es_recovery a)))"
    using assms by (auto simp: awaiting_def)
  have c: "calm config t a" "no_urgent a" and nd: "sched_view (es_scheduler a) QueueKind.NewData = []"
    using A by (simp_all add: calm_def no_urgent_def)
  obtain a' where a': "poll_times config t tx n a = (replicate n (Ok EnginePoll.Idle), a')"
    "0 < n \<longrightarrow> poll_keeps config t a a'" "calm config t a'" "ack_list (es_ack a') = []" "message_list (es_message a') = []"
    "sched_view (es_scheduler a') = sched_view (es_scheduler a)"
    "inflight_map (rs_in_flight (es_recovery a')) = inflight_map (rs_in_flight (es_recovery a))"
    using poll_times_idle[OF c A(5) nd, of tx n] by blast
  show thesis
  proof (cases n)
    case 0
    then show thesis using that[of a] assms by simp
  next
    case (Suc m)
    then have K: "poll_keeps config t a a'" using a'(2) by simp
    have "awaiting config mid msg U t attempts a'"
      using a' A K poll_keeps_no_slots[OF A(1) K A(6)]
      by (simp add: awaiting_def calm_def poll_keeps_def idle_stream_def)
    then show thesis using that[OF a'(1)] K by (simp add: poll_keeps_def)
  qed
qed

text \<open>The first transmission and every later one, with the engine polled until it has nothing left.\<close>

lemma send_awaiting:
  assumes "quiet config a" "length msg \<le> MAX_MESSAGE_BYTES" "MAX_WIRE_BYTES \<le> length tx"
    and "NumberState_alloc_message_id (es_numbers a) = (mid, numbers)"
    and "n = fragment_count (length msg) (fragment_limit config PacketType.Data)" "n \<le> MAX_EVENTS"
  obtains a1 a2 where "EngineState_send_data config msg a = (Ok mid, a1)"
    "poll_times config now tx n a1 =
      (map (\<lambda>i. Ok (EnginePoll.Transmit (frag_frame (integrity config) PacketType.Data mid
         (fragment_limit config PacketType.Data) msg i) 0)) [0..<n], a2)"
    "awaiting config mid msg {..<n} now 0 a2" "es_numbers a2 = numbers" "es_receive a2 = es_receive a"
proof -
  let ?fb = "fragment_limit config PacketType.Data"
  obtain a1 a2 where A: "EngineState_send_data config msg a = (Ok mid, a1)"
    "poll_times config now tx n a1 =
      (map (\<lambda>i. Ok (EnginePoll.Transmit (frag_frame (integrity config) PacketType.Data mid ?fb msg i) 0)) [0..<n], a2)"
    "engine_ok config a2" "idle_stream a2" "no_urgent a2" "sched_view (es_scheduler a2) QueueKind.NewData = []"
    "message_list (es_message a2) = []" "es_numbers a2 = numbers" "dom (reasm_map (es_reassembly a2)) = {}"
    "tracked mid (frag_sent config mid msg now 0) {..<n} (inflight_map (rs_in_flight (es_recovery a2)))"
    "rs_last_tick_ms (es_recovery a2) = Some now" "es_receive a2 = es_receive a"
    by (rule transfer_send[OF assms(1-4,5) refl assms(6), where now = now])
  have "sched_view (es_scheduler a2) k = []" for k using A(5,6) by (cases k) (simp_all add: no_urgent_def)
  then have "awaiting config mid msg {..<n} now 0 a2" using A by (simp add: awaiting_def no_urgent_def fun_eq_iff)
  then show thesis using that[OF A(1,2)] A(8,12) by blast
qed

lemma first_send:
  assumes "quiet config a" "length msg \<le> MAX_MESSAGE_BYTES" "MAX_WIRE_BYTES \<le> length tx"
    and "NumberState_alloc_message_id (es_numbers a) = (mid, numbers)"
    and "n = fragment_count (length msg) (fragment_limit config PacketType.Data)" "n \<le> MAX_EVENTS"
  obtains a1 a2 where "EngineState_send_data config msg a = (Ok mid, a1)"
    "poll_times config now tx MAX_EVENTS a1 =
      (map (\<lambda>i. Ok (EnginePoll.Transmit (frag_frame (integrity config) PacketType.Data mid
         (fragment_limit config PacketType.Data) msg i) 0)) [0..<n] @ replicate (MAX_EVENTS - n) (Ok EnginePoll.Idle), a2)"
    "awaiting config mid msg {..<n} now 0 a2" "es_numbers a2 = numbers"
proof -
  obtain a1 a2 where A: "EngineState_send_data config msg a = (Ok mid, a1)"
    "poll_times config now tx n a1 =
      (map (\<lambda>i. Ok (EnginePoll.Transmit (frag_frame (integrity config) PacketType.Data mid
         (fragment_limit config PacketType.Data) msg i) 0)) [0..<n], a2)"
    "awaiting config mid msg {..<n} now 0 a2" "es_numbers a2 = numbers"
    by (rule send_awaiting[OF assms])
  obtain a3 where a3: "poll_times config now tx (MAX_EVENTS - n) a2 = (replicate (MAX_EVENTS - n) (Ok EnginePoll.Idle), a3)"
    "awaiting config mid msg {..<n} now 0 a3" "es_numbers a3 = es_numbers a2" by (rule awaiting_idle[OF A(3)])
  have "n + (MAX_EVENTS - n) = MAX_EVENTS" using assms(6) by simp
  then show thesis using that[OF A(1) _ a3(2)] poll_times_append[OF A(2) a3(1)] a3(3) A(4) by simp
qed

lemma poll_times_from_tick:
  "0 < n \<Longrightarrow> poll_times config now tx n s = poll_times config now tx n (tick_retransmit config now s)"
  by (cases n) (simp_all add: poll_from_tick[of config now tx s])

text \<open>The packets in flight, listed by fragment.\<close>

lemma packets_listed:
  assumes "set ps = frag_sent config mid msg t attempts ` U" "distinct (map if_key ps)" "U \<subseteq> {..<MAX_EVENTS}"
  obtains us where "ps = map (frag_sent config mid msg t attempts) us" "set us = U" "distinct us"
proof -
  let ?f = "frag_sent config mid msg t attempts" and ?idx = "\<lambda>p. unat (PacketIndex_get (key_packet_index (if_key p)))"
  have idx: "?idx (?f i) = i" if "i \<in> U" for i
    using that assms(3)
    by (auto simp: frag_sent_def frag_inflight_def frag_write_def Let_def PacketKey_new_def unat_of_nat subset_iff)
  have ps: "ps = map ?f (map ?idx ps)"
    using assms(1) idx by (auto simp: comp_def intro!: map_idI[symmetric])
  have us: "set (map ?idx ps) = U" using assms(1) idx by force
  have "distinct (map if_key (map ?f (map ?idx ps)))" using assms(2) ps by (simp only:)
  then have "distinct (map ?idx ps)" by (metis distinct_map)
  then show thesis by (rule that[OF ps us])
qed

lemma retransmission_sent:
  "wr_key (retransmission (frag_sent config mid msg t attempts i)) = frag_key mid i"
  "take (wr_len (retransmission (frag_sent config mid msg t attempts i))) (wr_bytes (retransmission (frag_sent config mid msg t attempts i))) =
    frag_frame (integrity config) PacketType.Data mid (fragment_limit config PacketType.Data) msg i"
  "wr_attempts (retransmission (frag_sent config mid msg t attempts i)) = saturating_add attempts 1"
  "note_packet WritePriority.Retransmit now (frag_sent config mid msg t attempts i) =
    frag_sent config mid msg now (saturating_add attempts 1) i"
  by (simp_all add: retransmission_def note_packet_def frag_sent_def frag_inflight_def frag_write_def Let_def)

lemma resend:
  assumes "awaiting config mid msg U t attempts a" "dynamic_recovery config = None" "t < now"
    and "retransmit_timeout_ms config \<le> now - t" "attempts < max_retransmit_attempts config"
    and "MAX_WIRE_BYTES \<le> length tx" "U \<subseteq> {..<MAX_EVENTS}"
  obtains us a' where "distinct us" "set us = U"
    "poll_times config now tx MAX_EVENTS a =
      (map (\<lambda>i. Ok (EnginePoll.Transmit (frag_frame (integrity config) PacketType.Data mid
         (fragment_limit config PacketType.Data) msg i) (attempts + 1))) us @
       replicate (MAX_EVENTS - length us) (Ok EnginePoll.Idle), a')"
    "awaiting config mid msg U now (attempts + 1) a'" "es_numbers a' = es_numbers a"
proof -
  let ?s = "tick_retransmit config now a" and ?ps = "RecoveryState_packets (es_recovery a)"
  let ?f = "frag_sent config mid msg t attempts" and ?ws = "map retransmission ?ps"
  let ?fb = "fragment_limit config PacketType.Data"
  note T = tick_again[OF assms(1-5)]
  have A: "engine_ok config a" "idle_stream a" "ack_list (es_ack a) = []"
    "message_list (es_message a) = []" "dom (reasm_map (es_reassembly a)) = {}"
    "tracked mid ?f U (inflight_map (rs_in_flight (es_recovery a)))"
    using assms(1) by (auto simp: awaiting_def)
  obtain us where us: "?ps = map ?f us" "set us = U" "distinct us" by (rule packets_listed[OF T(2,3) assms(7)])
  have K0: "poll_keeps config now a ?s" using tick_fields[of config now a] T(4) by (simp add: poll_keeps_def)
  have ws: "distinct (map wr_key ?ws)" "\<forall>w\<in>set ?ws. wr_priority w = WritePriority.Retransmit"
    using T(3) by (simp_all add: retransmission_def comp_def)
  have q: "sched_view (es_scheduler ?s) QueueKind.Control = []"
    "sched_view (es_scheduler ?s) QueueKind.Retransmit = map EngineOutput.Write ?ws"
    "ack_list (es_ack ?s) = []" using T(5) A(3) tick_fields(4)[of config now a] by simp_all
  obtain s1 where s1: "poll_times config now tx (length ?ws) ?s =
      (map (\<lambda>w. Ok (EnginePoll.Transmit (take (wr_len w) (wr_bytes w)) (wr_attempts w))) ?ws, s1)"
    "?ws \<noteq> [] \<longrightarrow> poll_keeps config now ?s s1" "calm config now s1" "ack_list (es_ack s1) = []" "es_message s1 = es_message ?s"
    "sched_view (es_scheduler s1) = (sched_view (es_scheduler ?s))(QueueKind.Retransmit := [])"
    "inflight_map (rs_in_flight (es_recovery s1)) =
      noted WritePriority.Retransmit now (wr_key ` set ?ws) (inflight_map (rs_in_flight (es_recovery ?s)))"
    using poll_times_retransmits[OF poll_keeps_calm[OF K0 T(1)] q(3) assms(6) q(1,2) ws] by blast
  have K: "poll_keeps config now a s1"
    using K0 s1(1,2) poll_keeps_trans[OF K0, of s1] by (cases "?ws = []") auto
  have "unat attempts < 255"
    using assms(5) unat_lt2p[of "max_retransmit_attempts config"] by (simp add: word_less_nat_alt)
  then have sat: "saturating_add attempts 1 = attempts + 1" by (simp add: saturating_add_def Let_def)
  have noted: "note_packet WritePriority.Retransmit now \<circ> ?f = frag_sent config mid msg now (attempts + 1)"
    using sat by (simp add: fun_eq_iff retransmission_sent)
  have keys: "wr_key ` set ?ws = frag_key mid ` U" unfolding us(1) using us(2) by (simp add: image_image retransmission_sent)
  have tr: "tracked mid (frag_sent config mid msg now (attempts + 1)) U (inflight_map (rs_in_flight (es_recovery s1)))"
    using tracked_noted[OF A(6), of WritePriority.Retransmit now] s1(7) keys T(4) unfolding noted by simp
  have "(sched_view (es_scheduler ?s))(QueueKind.Retransmit := []) = (\<lambda>_. [])" unfolding T(5) by (simp add: fun_eq_iff)
  then have "awaiting config mid msg U now (attempts + 1) s1"
    using s1 tr A K poll_keeps_no_slots[OF A(1) K A(5)] tick_fields(5)[of config now a]
    by (simp add: awaiting_def calm_def poll_keeps_def idle_stream_def)
  then obtain a' where a': "poll_times config now tx (MAX_EVENTS - length us) s1 = (replicate (MAX_EVENTS - length us) (Ok EnginePoll.Idle), a')"
    "awaiting config mid msg U now (attempts + 1) a'" "es_numbers a' = es_numbers s1" by (rule awaiting_idle)
  have frames: "map (\<lambda>w. Ok (EnginePoll.Transmit (take (wr_len w) (wr_bytes w)) (wr_attempts w))) ?ws =
      map (\<lambda>i. Ok (EnginePoll.Transmit (frag_frame (integrity config) PacketType.Data mid ?fb msg i) (attempts + 1))) us"
    unfolding us(1) by (simp add: retransmission_sent sat)
  have len: "length ?ws = length us" unfolding us(1) by simp
  have "card U \<le> MAX_EVENTS" using card_mono[OF _ assms(7)] by simp
  then have "length us + (MAX_EVENTS - length us) = MAX_EVENTS" using distinct_card[OF us(3)] us(2) by simp
  then have "poll_times config now tx MAX_EVENTS ?s =
      (map (\<lambda>i. Ok (EnginePoll.Transmit (frag_frame (integrity config) PacketType.Data mid ?fb msg i) (attempts + 1))) us @
       replicate (MAX_EVENTS - length us) (Ok EnginePoll.Idle), a')"
    using poll_times_append[OF s1(1) a'(1)] unfolding frames len by simp
  moreover have "poll_times config now tx MAX_EVENTS a = poll_times config now tx MAX_EVENTS ?s"
    by (rule poll_times_from_tick) simp
  ultimately show thesis using that[OF us(3,2) _ a'(2)] a'(3) K by (simp add: poll_keeps_def)
qed


text \<open>ACKs of fragments take them out of the packet table.\<close>

lemma awaiting_acks:
  assumes "awaiting config mid msg U t attempts a" "U \<union> set js \<subseteq> {..<2 ^ 16}"
  obtains a' where
    "receive_all config (map (\<lambda>i. wire_frame (integrity config) (ack_packet (frag_key mid i))) js) a =
      (map (\<lambda>i. Ok (ReceiveReport.Ack (PacketIndex (of_nat i)))) js, a')"
    "awaiting config mid msg (U - set js) t attempts a'" "es_numbers a' = es_numbers a" "es_receive a' = es_receive a"
proof -
  have A: "engine_ok config a" "idle_stream a" "tracked mid (frag_sent config mid msg t attempts) U (inflight_map (rs_in_flight (es_recovery a)))"
    using assms(1) by (auto simp: awaiting_def)
  obtain a' where R: "receive_all config (map (\<lambda>k. wire_frame (integrity config) (ack_packet k)) (map (frag_key mid) js)) a =
      (map (\<lambda>k. Ok (ReceiveReport.Ack (key_packet_index k))) (map (frag_key mid) js), a')" "engine_ok config a'" "idle_stream a'"
    "inflight_map (rs_in_flight (es_recovery a')) = inflight_map (rs_in_flight (es_recovery a)) |` (- set (map (frag_key mid) js))"
    "es_scheduler a' = es_scheduler a" "es_message a' = es_message a" "es_ack a' = es_ack a"
    "es_numbers a' = es_numbers a" "es_reassembly a' = es_reassembly a" "es_receive a' = es_receive a"
    "rs_last_tick_ms (es_recovery a') = rs_last_tick_ms (es_recovery a)"
    using receive_ack_frames[OF A(1,2), of "map (frag_key mid) js"] by blast
  have "awaiting config mid msg (U - set js) t attempts a'"
    using assms(1) R tracked_acked[OF A(3) assms(2)] by (simp add: awaiting_def)
  then show thesis using that R(1,8,10) by (simp add: comp_def PacketKey_new_def)
qed

section \<open>Receiving again\<close>

text \<open>
  The receiver has the fragments \<open>rs\<close> of a message of \<open>n\<close> fragments, in the order of arrival: their keys
  are the latest ones in the duplicate detector, after keys of \<open>D\<close>, and unless all are there the only reassembly slot
  holds what arrived.  No time stamp lies before \<open>c\<close>.
\<close>

abbreviation data_key :: "MessageId \<Rightarrow> MessageKey" where
  "data_key mid \<equiv> \<lparr>mk_packet_type = PacketType.Data, mk_message_id = mid\<rparr>"

definition held :: "u64 \<Rightarrow> MessageId \<Rightarrow> usize \<Rightarrow> bytes \<Rightarrow> nat list \<Rightarrow> (MessageKey \<Rightarrow> ReassemblySlot option) \<Rightarrow> bool" where
  "held c mid fb msg rs m \<longleftrightarrow> dom m \<subseteq> {data_key mid} \<and>
     (if rs = [] \<or> set rs = {..<fragment_count (length msg) fb} then m (data_key mid) = None
      else \<exists>slot. m (data_key mid) = Some slot \<and> c \<le> rl_updated_at_ms slot \<and>
        collected (data_key mid) msg (frag_arrivals mid fb msg 0 rs) slot)"

definition gathering :: "EngineConfig \<Rightarrow> u64 \<Rightarrow> PacketKey set \<Rightarrow> MessageId \<Rightarrow> bytes \<Rightarrow> nat list \<Rightarrow> EngineState \<Rightarrow> bool" where
  "gathering config c D mid msg rs b \<longleftrightarrow> engine_ok config b \<and> idle_stream b \<and> sched_view (es_scheduler b) = (\<lambda>_. []) \<and>
     dom (inflight_map (rs_in_flight (es_recovery b))) = {} \<and> c \<le> ClockState_now_ms (es_clock b) \<and>
     distinct rs \<and> set rs \<subseteq> {..<fragment_count (length msg) (fragment_limit config PacketType.Data)} \<and>
     (\<exists>old. dedup_recent (rc_dedup (es_receive b)) = old @ map (frag_key mid) rs \<and> set old \<subseteq> {k\<in>D. key_message_id k \<noteq> mid}) \<and>
     held c mid (fragment_limit config PacketType.Data) msg rs (reasm_map (es_reassembly b))"

lemma gathering_quiet:
  assumes "quiet config b" "\<forall>k\<in>set (dedup_recent (rc_dedup (es_receive b))). key_message_id k \<noteq> mid"
  shows "gathering config (ClockState_now_ms (es_clock b)) (set (dedup_recent (rc_dedup (es_receive b)))) mid msg [] b"
proof -
  have "sched_view (es_scheduler b) k = []" for k using assms(1) by (cases k) (simp_all add: quiet_def no_urgent_def)
  then show ?thesis using assms by (auto simp: gathering_def held_def quiet_def)
qed

lemma quiet_gathered:
  assumes "gathering config c D mid msg rs b" "ack_list (es_ack b) = []" "message_list (es_message b) = []"
    and "set rs = {..<fragment_count (length msg) (fragment_limit config PacketType.Data)}"
  shows "quiet config b"
  using assms by (auto simp: gathering_def held_def quiet_def no_urgent_def)

text \<open>The times of arrival do not matter for what was collected.\<close>

lemma collected_times:
  "collected k msg (frag_arrivals mid fb msg t is @ [(frag_fragment mid fb msg i, t')]) s \<longleftrightarrow>
    collected k msg (frag_arrivals mid fb msg 0 (is @ [i])) s"
  by (simp add: collected_def)

definition carries :: "MessageId \<Rightarrow> bytes \<Rightarrow> MessageEvent \<Rightarrow> bool" where
  "carries mid msg ev \<longleftrightarrow> MessageEvent_as_bytes ev = Ok msg \<and> me_packet_type ev = PacketType.Data \<and> me_message_id ev = mid"

text \<open>What is delivered while the receiver goes from the fragments \<open>R\<close> to the fragments \<open>R'\<close>.\<close>

definition handed :: "MessageId \<Rightarrow> bytes \<Rightarrow> nat \<Rightarrow> nat set \<Rightarrow> nat set \<Rightarrow> MessageEvent list \<Rightarrow> bool" where
  "handed mid msg n R R' ms \<longleftrightarrow>
     (if R \<noteq> {..<n} \<and> R' = {..<n} then \<exists>ev. ms = [ev] \<and> carries mid msg ev else ms = [])"

lemma handed_refl [simp]: "handed mid msg n R R ms \<longleftrightarrow> ms = []"
  by (simp add: handed_def)

lemma handed_trans:
  assumes "handed mid msg n R R1 ms" "handed mid msg n R1 R2 ms'" "R \<subseteq> R1" "R1 \<subseteq> R2" "R2 \<subseteq> {..<n}"
  shows "handed mid msg n R R2 (ms @ ms')"
proof -
  have "R = {..<n} \<longrightarrow> R1 = {..<n}" "R1 = {..<n} \<longrightarrow> R2 = {..<n}" using assms(3-5) by blast+
  then show ?thesis using assms(1,2) by (simp add: handed_def split: if_splits) blast
qed

lemma handed_length: "handed mid msg n R R' ms \<Longrightarrow> length ms \<le> 1"
  by (auto simp: handed_def split: if_splits)

lemma handed_full:
  assumes "handed mid msg n {} {..<n} ms" "0 < n"
  shows "ms \<noteq> []"
proof -
  have "{} \<noteq> {..<n}" using assms(2) by blast
  then show ?thesis using assms(1) by (cases "ms = []") (simp_all add: handed_def)
qed

lemma handed_cases: "handed mid msg n R R' ms \<Longrightarrow> ms = [] \<or> (\<exists>ev. ms = [ev] \<and> carries mid msg ev)"
  by (auto simp: handed_def split: if_splits)

text \<open>A fragment that is not there yet: it is stored, or it completes the message and frees the slot.\<close>

lemma held_observe:
  assumes "held c mid fb msg rs m" "i \<notin> set rs" "set (rs @ [i]) \<subseteq> {..<fragment_count (length msg) fb}"
    and "0 < fb" "length msg \<le> MAX_MESSAGE_BYTES" "c \<le> now" "i * fb \<le> length msg"
    and "entry_observe (frag_fragment mid fb msg i) now (m (data_key mid)) = (r, e)"
  shows "held c mid fb msg (rs @ [i]) (m(data_key mid := e))"
    "if set (rs @ [i]) = {..<fragment_count (length msg) fb} then \<exists>ev. r = Ok (Some ev) \<and> carries mid msg ev else r = Ok None"
proof -
  let ?n = "fragment_count (length msg) fb" and ?f = "frag_fragment mid fb msg i" and ?k = "data_key mid"
  let ?s = "case m ?k of Some slot \<Rightarrow> slot | None \<Rightarrow> ReassemblySlot_start (fragment_key ?f) (mf_message_len ?f) now"
  have notall: "set rs \<noteq> {..<?n}" using assms(2,3) by auto
  have c: "collected ?k msg (frag_arrivals mid fb msg 0 rs) ?s"
    using assms(1) notall collected_start[OF assms(5), of ?k now] by (auto simp: held_def split: if_splits)
  have part: "part_of msg ?f" by (rule frag_part_of[OF assms(7)])
  note O = collected_observe[OF c part assms(5), of now]
  have full: "complete_set msg (frag_arrivals mid fb msg 0 rs @ [(?f, now)]) \<longleftrightarrow> set (rs @ [i]) = {..<?n}"
    using frags_complete[OF assms(4,3), of mid 0] by (simp add: complete_set_def)
  have upd: "rl_updated_at_ms (slot_store ?f now ?s) = now" by (simp add: slot_store_def)
  have dom: "dom (m(?k := e)) \<subseteq> {?k}" using assms(1) by (auto simp: held_def)
  let ?t = "slot_store ?f now ?s" and ?all = "set (rs @ [i]) = {..<?n}"
  have t: "collected ?k msg (frag_arrivals mid fb msg 0 (rs @ [i])) ?t" using O(1) unfolding collected_times .
  then have act: "rl_active ?t" "rl_key ?t = ?k" by (simp_all add: collected_def)
  have e: "(r, e) = (if ?all then (Ok (Some (slot_event ?t)), None) else (Ok None, Some ?t))"
    unfolding assms(8)[symmetric] entry_observe_def O(2) full using act(1) by simp
  show "held c mid fb msg (rs @ [i]) (m(?k := e))"
  proof (cases ?all)
    case True
    then show ?thesis using e dom by (simp add: held_def)
  next
    case False
    then have "e = Some ?t" using e by (simp only: if_False prod.inject)
    then show ?thesis unfolding held_def if_not_P[OF False] using False t dom upd assms(6) by auto
  qed
  show "if ?all then \<exists>ev. r = Ok (Some ev) \<and> carries mid msg ev else r = Ok None"
  proof (cases ?all)
    case True
    then have "r = Ok (Some (slot_event ?t))" "MessageEvent_as_bytes (slot_event ?t) = Ok msg"
      using e O(3) full by simp_all
    then show ?thesis using True act(2) by (simp add: carries_def slot_event_def)
  next
    case False
    then have "r = Ok None" using e by (simp only: if_False prod.inject)
    then show ?thesis using False by (simp only: if_False)
  qed
qed


lemma frag_index:
  assumes "i < fragment_count (length msg) fb" "0 < fb"
  shows "i * fb \<le> length msg"
  using assms fragment_count_less[OF assms(2), of i "length msg"] by (auto split: if_splits)

lemma gatheringD:
  assumes "gathering config c D mid msg rs b" "fb = fragment_limit config PacketType.Data" "n = fragment_count (length msg) fb"
  shows "engine_ok config b" "idle_stream b" "set rs \<subseteq> {..<n}" "held c mid fb msg rs (reasm_map (es_reassembly b))"
    "n \<le> MAX_EVENTS \<Longrightarrow> i < n \<Longrightarrow> frag_key mid i \<in> set (dedup_recent (rc_dedup (es_receive b))) \<longleftrightarrow> i \<in> set rs"
proof -
  show B: "engine_ok config b" "idle_stream b" "set rs \<subseteq> {..<n}" "held c mid fb msg rs (reasm_map (es_reassembly b))"
    using assms(1) unfolding gathering_def assms(2,3) by auto
  obtain old where old: "dedup_recent (rc_dedup (es_receive b)) = old @ map (frag_key mid) rs"
    "set old \<subseteq> {k\<in>D. key_message_id k \<noteq> mid}" using assms(1) by (auto simp: gathering_def)
  show "frag_key mid i \<in> set (dedup_recent (rc_dedup (es_receive b))) \<longleftrightarrow> i \<in> set rs" if "n \<le> MAX_EVENTS" "i < n"
  proof -
    have "frag_key mid i \<notin> set old" using old(2) by (auto simp: PacketKey_new_def)
    moreover have "frag_key mid i = frag_key mid j \<longleftrightarrow> i = j" if "j \<in> set rs" for j
      by (rule frag_key_eq) (use that B(3) \<open>n \<le> MAX_EVENTS\<close> \<open>i < n\<close> in auto)
    ultimately show ?thesis unfolding old(1) by auto
  qed
qed

text \<open>A frame whose fragment is already there is only acknowledged again.\<close>

lemma gather_again:
  assumes "gathering config c D mid msg rs b" "length (ack_list (es_ack b)) < MAX_PENDING_ACKS" "length msg \<le> MAX_MESSAGE_BYTES"
    and "fb = fragment_limit config PacketType.Data" "n = fragment_count (length msg) fb" "n \<le> MAX_EVENTS" "i < n" "i \<in> set rs"
  obtains b' where "EngineState_receive config (frag_frame (integrity config) PacketType.Data mid fb msg i) b =
      (Ok (ReceiveReport.Duplicate (PacketIndex (of_nat i))), b')"
    "gathering config c D mid msg rs b'" "ack_list (es_ack b') = ack_list (es_ack b) @ [frag_key mid i]" "es_message b' = es_message b"
proof -
  note B = gatheringD[OF assms(1,4,5)]
  have fb: "0 < fb" "fb \<le> 113 - Integrity_tag_len (integrity config)"
    using fragment_limit_bounds[of PacketType.Data config] assms(4) by simp_all
  have off: "i * fb \<le> length msg" using frag_index[OF _ fb(1)] assms(5,7) by simp
  have dec: "decode_packet_bytes (frag_packet PacketType.Data mid fb msg i) =
    PacketDecode.Data \<lparr>dd_header = DataHeader_new Flags_ACK_ELICITING mid (PacketIndex (of_nat i)) (length msg) (i * fb),
      dd_fragment = frag_fragment mid fb msg i\<rparr>"
    using frag_decode[of PacketType.Data msg i fb mid] assms(3) off by (simp add: frag_fragment_def Let_def)
  have len: "length (frag_packet PacketType.Data mid fb msg i) \<le> MAX_WIRE_BYTES"
    using fb(2) by (auto simp: frag_packet_def Let_def)
  obtain ig x where r: "EngineState_receive config (wire_frame (integrity config) (frag_packet PacketType.Data mid fb msg i)) b =
      (Ok (ReceiveReport.Duplicate (PacketIndex (of_nat i))), b\<lparr>es_ack := x, es_ingress := ig\<rparr>)"
    "ack_list x = ack_list (es_ack b) @ [frag_key mid i]" "idle_stream (b\<lparr>es_ack := x, es_ingress := ig\<rparr>)"
    using receive_duplicate[OF B(1,2) len dec _ refl _ assms(2)] B(5)[OF assms(6,7)] assms(8) by auto
  have "engine_ok config (b\<lparr>es_ack := x, es_ingress := ig\<rparr>)"
    using engine_ok_ops(9)[OF B(1), of "wire_frame (integrity config) (frag_packet PacketType.Data mid fb msg i)"] r(1) by simp
  then have "gathering config c D mid msg rs (b\<lparr>es_ack := x, es_ingress := ig\<rparr>)"
    using assms(1) r(3) by (simp add: gathering_def)
  then show thesis by (rule that[OF r(1)[folded frag_frame_def]]) (simp_all add: r(2))
qed

text \<open>A new fragment is stored; the last missing one completes the message.\<close>

lemma gather_new:
  assumes "gathering config c D mid msg rs b" "length (ack_list (es_ack b)) < MAX_PENDING_ACKS" "length msg \<le> MAX_MESSAGE_BYTES"
    and "fb = fragment_limit config PacketType.Data" "n = fragment_count (length msg) fb" "n \<le> MAX_EVENTS" "i < n" "i \<notin> set rs"
    and "length (message_list (es_message b)) < MAX_MESSAGE_EVENTS"
  obtains b' ms where "EngineState_receive config (frag_frame (integrity config) PacketType.Data mid fb msg i) b =
      (Ok (ReceiveReport.Packet (PacketIndex (of_nat i))), b')"
    "gathering config c D mid msg (rs @ [i]) b'" "ack_list (es_ack b') = ack_list (es_ack b) @ [frag_key mid i]"
    "message_list (es_message b') = message_list (es_message b) @ ms"
    "handed mid msg n (set rs) (set (rs @ [i])) ms"
proof -
  let ?now = "ClockState_now_ms (es_clock b)" and ?f = "frag_fragment mid fb msg i" and ?k = "data_key mid"
  note B = gatheringD[OF assms(1,4,5)]
  have G: "sched_view (es_scheduler b) = (\<lambda>_. [])" "dom (inflight_map (rs_in_flight (es_recovery b))) = {}" "c \<le> ?now"
    "distinct rs" using assms(1) by (auto simp: gathering_def)
  have fb: "0 < fb" "fb \<le> 113 - Integrity_tag_len (integrity config)"
    using fragment_limit_bounds[of PacketType.Data config] assms(4) by simp_all
  have off: "i * fb \<le> length msg" using frag_index[OF _ fb(1)] assms(5,7) by simp
  have sub: "set (rs @ [i]) \<subseteq> {..<fragment_count (length msg) fb}" using B(3) assms(5,7) by auto
  have new: "frag_key mid i \<notin> set (dedup_recent (rc_dedup (es_receive b)))" using B(5)[OF assms(6,7)] assms(8) by simp
  obtain r ra where o: "ReassemblyState_observe ?f ?now (es_reassembly b) = (r, ra)" by fastforce
  have rok: "reasm_ok (es_reassembly b)" using B(1) by (simp add: engine_ok_def)
  have "card (dom (reasm_map (es_reassembly b))) \<le> card {?k}"
    using B(4) by (intro card_mono) (simp_all add: held_def)
  then have card: "card (dom (reasm_map (es_reassembly b))) < MAX_REASSEMBLY_MESSAGES" by simp
  obtain e where e: "entry_observe ?f ?now (reasm_map (es_reassembly b) ?k) = (r, e)"
    "reasm_map ra = (reasm_map (es_reassembly b))(?k := e)"
    by (rule reasm_observe[OF rok _ o]) (use assms(3) card in auto)
  note H = held_observe[OF B(4) assms(8) sub fb(1) assms(3) G(3) off e(1), folded assms(5)]
  obtain m where m: "r = Ok m" "if set (rs @ [i]) = {..<n} then \<exists>ev. m = Some ev \<and> carries mid msg ev else m = None"
    using H(2) by (auto split: if_splits)
  obtain b' where b': "EngineState_receive config (frag_frame (integrity config) PacketType.Data mid fb msg i) b =
      (Ok (ReceiveReport.Packet (PacketIndex (of_nat i))), b')"
    "engine_ok config b'" "idle_stream b'" "es_reassembly b' = ra" "es_clock b' = es_clock b"
    "es_message b' = (case m of Some ev \<Rightarrow> MessageState_push (ev\<lparr>me_packet_type := PacketType.Data\<rparr>) (es_message b)
       | None \<Rightarrow> es_message b)"
    "ack_list (es_ack b') = ack_list (es_ack b) @ [frag_key mid i]"
    "dedup_recent (rc_dedup (es_receive b')) = (let ks = dedup_recent (rc_dedup (es_receive b)) in
       (if length ks = MAX_IN_FLIGHT_PACKETS then tl ks else ks) @ [frag_key mid i])"
    "es_scheduler b' = es_scheduler b" "es_recovery b' = es_recovery b"
    by (rule receive_fragment[OF B(1,2) assms(3) off fb(2) new assms(2) o[unfolded m(1)]])
  have "messages_ok (es_message b)" using B(1) by (simp add: engine_ok_def events_ok_def)
  then have msgs: "message_list (es_message b') = message_list (es_message b) @ (case m of Some ev \<Rightarrow> [ev\<lparr>me_packet_type := PacketType.Data\<rparr>] | None \<Rightarrow> [])"
    using messages.push_contents[of "es_message b"] b'(6) assms(9) by (auto split: option.splits)
  obtain old where old: "dedup_recent (rc_dedup (es_receive b)) = old @ map (frag_key mid) rs"
    "set old \<subseteq> {k\<in>D. key_message_id k \<noteq> mid}" using assms(1) by (auto simp: gathering_def)
  have "card (set rs) < card {..<n}" using B(3) assms(7,8) by (intro psubset_card_mono) auto
  then have short: "length rs < MAX_IN_FLIGHT_PACKETS" using distinct_card[OF G(4)] assms(6) by simp
  let ?old = "if length old + length rs = MAX_IN_FLIGHT_PACKETS then tl old else old"
  have "dedup_recent (rc_dedup (es_receive b')) = ?old @ map (frag_key mid) (rs @ [i])"
    using b'(8) short unfolding old(1) by (cases old) (simp_all add: Let_def)
  moreover have "set ?old \<subseteq> {k\<in>D. key_message_id k \<noteq> mid}" using old(2) by (cases old) auto
  ultimately have "gathering config c D mid msg (rs @ [i]) b'"
    unfolding gathering_def b'(4,5,9,10) e(2) assms(4)[symmetric] using b'(2,3) G H(1) sub assms(8) by auto
  moreover have "set rs \<noteq> {..<n}" using assms(7,8) by auto
  then have "handed mid msg n (set rs) (set (rs @ [i])) (case m of Some ev \<Rightarrow> [ev\<lparr>me_packet_type := PacketType.Data\<rparr>] | None \<Rightarrow> [])"
    using m(2) by (auto simp: handed_def carries_def MessageEvent_as_bytes_def split: if_splits)
  ultimately show thesis by (rule that[OF b'(1) _ b'(7) msgs])
qed

lemma gather_frame:
  assumes "gathering config c D mid msg rs b" "length (ack_list (es_ack b)) < MAX_PENDING_ACKS" "length msg \<le> MAX_MESSAGE_BYTES"
    and "fb = fragment_limit config PacketType.Data" "n = fragment_count (length msg) fb" "n \<le> MAX_EVENTS" "i < n"
    and "set rs = {..<n} \<or> length (message_list (es_message b)) < MAX_MESSAGE_EVENTS"
  obtains report b' rs' ms where
    "EngineState_receive config (frag_frame (integrity config) PacketType.Data mid fb msg i) b = (report, b')"
    "gathering config c D mid msg rs' b'" "set rs' = insert i (set rs)"
    "ack_list (es_ack b') = ack_list (es_ack b) @ [frag_key mid i]"
    "message_list (es_message b') = message_list (es_message b) @ ms" "handed mid msg n (set rs) (set rs') ms"
proof (cases "i \<in> set rs")
  case True
  obtain b' where "EngineState_receive config (frag_frame (integrity config) PacketType.Data mid fb msg i) b =
      (Ok (ReceiveReport.Duplicate (PacketIndex (of_nat i))), b')"
    "gathering config c D mid msg rs b'" "ack_list (es_ack b') = ack_list (es_ack b) @ [frag_key mid i]" "es_message b' = es_message b"
    by (rule gather_again[OF assms(1-7) True])
  then show thesis using that[of _ b' rs "[]"] True by (simp add: insert_absorb)
next
  case False
  then have "length (message_list (es_message b)) < MAX_MESSAGE_EVENTS" using assms(7,8) by auto
  then obtain b' ms where "EngineState_receive config (frag_frame (integrity config) PacketType.Data mid fb msg i) b =
      (Ok (ReceiveReport.Packet (PacketIndex (of_nat i))), b')"
    "gathering config c D mid msg (rs @ [i]) b'" "ack_list (es_ack b') = ack_list (es_ack b) @ [frag_key mid i]"
    "message_list (es_message b') = message_list (es_message b) @ ms" "handed mid msg n (set rs) (set (rs @ [i])) ms"
    by (rule gather_new[OF assms(1-7) False])
  then show thesis using that[of _ b' "rs @ [i]" ms] by simp
qed

text \<open>Any frames of the message, with repetitions and in any order.\<close>

lemma gather_frames:
  assumes "gathering config c D mid msg rs b" "length (ack_list (es_ack b)) + length is \<le> MAX_PENDING_ACKS"
    and "set is \<subseteq> {..<n}" "set rs = {..<n} \<or> length (message_list (es_message b)) < MAX_MESSAGE_EVENTS"
    and "length msg \<le> MAX_MESSAGE_BYTES" "fb = fragment_limit config PacketType.Data" "n = fragment_count (length msg) fb"
    and "n \<le> MAX_EVENTS"
  shows "\<exists>reports b' rs' ms.
    receive_all config (map (frag_frame (integrity config) PacketType.Data mid fb msg) is) b = (reports, b') \<and>
    gathering config c D mid msg rs' b' \<and> set rs' = set rs \<union> set is \<and>
    ack_list (es_ack b') = ack_list (es_ack b) @ map (frag_key mid) is \<and>
    message_list (es_message b') = message_list (es_message b) @ ms \<and> handed mid msg n (set rs) (set rs') ms"
  using assms(1-4)
proof (induction "is" arbitrary: b rs)
  case Nil
  then show ?case by (intro exI[of _ "[]"] exI[of _ b] exI[of _ rs]) simp
next
  case (Cons i "is")
  let ?frame = "frag_frame (integrity config) PacketType.Data mid fb msg"
  have i: "i < n" and sub: "set is \<subseteq> {..<n}" using Cons.prems(3) by auto
  have room: "length (ack_list (es_ack b)) < MAX_PENDING_ACKS" using Cons.prems(2) by simp
  obtain r b1 rs1 ms1 where b1: "EngineState_receive config (?frame i) b = (r, b1)" "gathering config c D mid msg rs1 b1"
    "set rs1 = insert i (set rs)" "ack_list (es_ack b1) = ack_list (es_ack b) @ [frag_key mid i]"
    "message_list (es_message b1) = message_list (es_message b) @ ms1" "handed mid msg n (set rs) (set rs1) ms1"
    by (rule gather_frame[OF Cons.prems(1) room assms(5-8) i Cons.prems(4)])
  have sub1: "set rs1 \<subseteq> {..<n}" by (rule gatheringD(3)[OF b1(2) assms(6,7)])
  have room1: "length (ack_list (es_ack b1)) + length is \<le> MAX_PENDING_ACKS" using Cons.prems(2) b1(4) by simp
  have "set rs1 = {..<n} \<or> length (message_list (es_message b1)) < MAX_MESSAGE_EVENTS"
  proof (cases "set rs1 = {..<n}")
    case False
    then have "set rs \<noteq> {..<n}" using b1(3) sub1 i by blast
    moreover have "ms1 = []" using b1(6) False by (simp add: handed_def)
    ultimately show ?thesis using Cons.prems(4) b1(5) by simp
  qed simp
  from Cons.IH[OF b1(2) room1 sub this] obtain rr b2 rs2 ms2 where b2: "receive_all config (map ?frame is) b1 = (rr, b2)"
    "gathering config c D mid msg rs2 b2" "set rs2 = set rs1 \<union> set is"
    "ack_list (es_ack b2) = ack_list (es_ack b1) @ map (frag_key mid) is"
    "message_list (es_message b2) = message_list (es_message b1) @ ms2" "handed mid msg n (set rs1) (set rs2) ms2" by blast
  have "handed mid msg n (set rs) (set rs2) (ms1 @ ms2)"
    using b1(3) b2(3) gatheringD(3)[OF b2(2) assms(6,7)] by (intro handed_trans[OF b1(6) b2(6)]) auto
  then show ?case
    using b1(1,3,4,5) b2(1-5) by (intro exI[of _ "r # rr"] exI[of _ b2] exI[of _ rs2] exI[of _ "ms1 @ ms2"]) simp
qed


text \<open>Polling the receiver: first the ACKs, then the message, then nothing; a slot in time survives.\<close>

lemma held_expire:
  assumes "held c mid fb msg rs (reasm_map s)" "reasm_ok s" "c \<le> now" "now - c < timeout"
  shows "held c mid fb msg rs (reasm_map (ReassemblyState_expire now timeout s))"
proof -
  have keep: "saturating_sub now (rl_updated_at_ms slot) < timeout" if "c \<le> rl_updated_at_ms slot" for slot
  proof -
    have "unat (saturating_sub now (rl_updated_at_ms slot)) \<le> unat now - unat c"
      using that by (simp add: unat_saturating_sub word_le_nat_alt)
    also have "\<dots> = unat (now - c)" using assms(3) by (simp add: unat_sub)
    finally show ?thesis using assms(4) by (simp add: word_less_nat_alt)
  qed
  have fresh: "c \<le> rl_updated_at_ms slot" if "reasm_map s k = Some slot" for k slot
  proof -
    have "k = data_key mid" using assms(1) that by (auto simp: held_def)
    then show ?thesis using assms(1) that by (simp add: held_def split: if_splits)
  qed
  have "reasm_map (ReassemblyState_expire now timeout s) k = Some slot \<longleftrightarrow> reasm_map s k = Some slot" for k slot
    using reasm_expire(2)[OF assms(2), of now timeout k slot] keep fresh by auto
  then have "reasm_map (ReassemblyState_expire now timeout s) = reasm_map s" by (intro ext) (metis not_Some_eq)
  then show ?thesis using assms(1) by simp
qed

lemma gathering_keeps:
  assumes "gathering config c D mid msg rs b" "poll_keeps config now b b'" "engine_ok config b'"
    and "sched_view (es_scheduler b') = sched_view (es_scheduler b)" "c \<le> now" "now - c < reassembly_timeout_ms config"
  shows "gathering config c D mid msg rs b'"
proof -
  have "reasm_ok (es_reassembly b)" using assms(1) by (simp add: gathering_def engine_ok_def)
  then show ?thesis
    using assms held_expire[of c mid "fragment_limit config PacketType.Data" msg rs "es_reassembly b" now]
    by (simp add: gathering_def poll_keeps_def idle_stream_def)
qed

lemma gathering_calm:
  assumes "gathering config c D mid msg rs b"
  shows "calm config now b" "sched_view (es_scheduler b) = (\<lambda>_. [])"
  using assms quiet_packets(1)[of config b] by (simp_all add: gathering_def calm_def)

lemma gather_poll:
  assumes "gathering config c D mid msg rs b" "ack_list (es_ack b) = map (frag_key mid) is" "message_list (es_message b) = ms"
    and "length is + length ms \<le> n" "length ms \<le> 1" "0 < n" "MAX_WIRE_BYTES \<le> length tx"
    and "c \<le> now" "now - c < reassembly_timeout_ms config"
  obtains b' where
    "poll_times config now tx n b =
      (map (\<lambda>i. Ok (EnginePoll.Transmit (wire_frame (integrity config) (ack_packet (frag_key mid i))) 0)) is @
       map (Ok \<circ> EnginePoll.Message) ms @ replicate (n - (length is + length ms)) (Ok EnginePoll.Idle), b')"
    "gathering config c D mid msg rs b'" "ack_list (es_ack b') = []" "message_list (es_message b') = []"
    "es_receive b' = es_receive b" "es_clock b' = ClockState now"
proof -
  let ?ks = "map (frag_key mid) is"
  have wait: "calm config now b" "sched_view (es_scheduler b) = (\<lambda>_. [])"
    by (rule gathering_calm[OF assms(1)])+
  obtain b1 where b1: "poll_times config now tx (length ?ks) b =
      (map (\<lambda>k. Ok (EnginePoll.Transmit (wire_frame (integrity config) (ack_packet k)) 0)) ?ks, b1)"
    "calm config now b1" "ack_list (es_ack b1) = []" "es_scheduler b1 = es_scheduler b" "es_message b1 = es_message b"
    using poll_times_acks[OF wait(1) assms(2,7)] by blast
  have nu1: "no_urgent b1" using b1(3,4) wait(2) by (simp add: no_urgent_def)
  obtain b2 where b2: "poll_times config now tx (length ms) b1 = (map (Ok \<circ> EnginePoll.Message) ms, b2)"
    "calm config now b2" "ack_list (es_ack b2) = []" "sched_view (es_scheduler b2) = (\<lambda>_. [])" "message_list (es_message b2) = []"
  proof (cases ms)
    case Nil
    then show thesis using that[of b1] b1 wait(2) assms(3) by simp
  next
    case (Cons m ms')
    then have ms: "message_list (es_message b1) = m # []" "ms = [m]" using assms(3,5) b1(5) by simp_all
    obtain b2 where "EngineState_poll config now tx b1 = (Ok (EnginePoll.Message m), b2)"
      "poll_keeps config now b1 b2" "engine_ok config b2" "ack_list (es_ack b2) = []"
      "sched_view (es_scheduler b2) = sched_view (es_scheduler b1)" "message_list (es_message b2) = []"
      by (rule poll_next_message[OF b1(2) nu1 ms(1)])
    then show thesis using that[of b2] poll_keeps_calm[of config now b1 b2] ms(2) b1(4) wait(2) by simp
  qed
  let ?m = "n - (length is + length ms)"
  obtain b3 where b3: "poll_times config now tx ?m b2 = (replicate ?m (Ok EnginePoll.Idle), b3)"
    "ack_list (es_ack b3) = []" "message_list (es_message b3) = []" "sched_view (es_scheduler b3) = sched_view (es_scheduler b2)"
    using poll_times_idle[OF b2(2) _ b2(5), of tx ?m] b2(3,4) by (auto simp: no_urgent_def)
  have "length ?ks + (length ms + ?m) = n" using assms(4) by simp
  then have p: "poll_times config now tx n b =
      (map (\<lambda>k. Ok (EnginePoll.Transmit (wire_frame (integrity config) (ack_packet k)) 0)) ?ks @
       map (Ok \<circ> EnginePoll.Message) ms @ replicate ?m (Ok EnginePoll.Idle), b3)"
    using poll_times_append[OF b1(1) poll_times_append[OF b2(1) b3(1)]] by simp
  note K = poll_times_keeps[OF wait(1) assms(6) p]
  have "gathering config c D mid msg rs b3"
    using gathering_keeps[OF assms(1) K _ assms(8,9)] b3(4) b2(4) wait(2) by simp
  then show thesis
    by (rule that[OF p[unfolded map_map comp_def[where g = "frag_key mid"]] _ b3(2,3)]) (use K(1) in \<open>simp_all add: poll_keeps_def\<close>)
qed

end
