(* ===== verification/Adapter_Mcu.thy ===== *)
theory Adapter_Mcu
  imports Adapter Endpoint_Session Engine_Stream Retry
begin

text \<open>
  The firmware program of the repository, \<^verbatim>\<open>examples/mcu.rs\<close>: a passive endpoint behind a byte-wise link.  The bytes that
  \<^verbatim>\<open>read_transport_byte\<close> finds in each turn of the endless loop are an argument, what \<^verbatim>\<open>write_transport\<close> gets is part of the result.
  The lemmas show that no input stops the program, and that it answers every message of a host.
\<close>

section \<open>examples/mcu.rs\<close>

definition MCU_TX_BUF_BYTES :: usize where "MCU_TX_BUF_BYTES = 256"

definition POLLS_PER_TICK :: usize where "POLLS_PER_TICK = 16"

record McuMsrt =
  mc_endpoint :: PassiveEndpoint
  mc_tx_buf :: bytes

definition McuMsrt_new :: "DynamicRecoveryConfig option \<Rightarrow> McuMsrt" where
  "McuMsrt_new dyn =
     \<lparr>mc_endpoint = PassiveEndpoint_new (EngineConfig_default dyn), mc_tx_buf = replicate MCU_TX_BUF_BYTES 0\<rparr>"

definition McuMsrt_default :: "DynamicRecoveryConfig option \<Rightarrow> McuMsrt" where
  "McuMsrt_default dyn = McuMsrt_new dyn"

definition McuMsrt_on_rx_byte :: "u64 \<Rightarrow> u8 \<Rightarrow> McuMsrt \<Rightarrow> ReceiveReport res \<times> McuMsrt" where
  "McuMsrt_on_rx_byte now b m =
     update_field (PassiveEndpoint_receive now [b] (mc_endpoint m)) (\<lambda>e. m\<lparr>mc_endpoint := e\<rparr>)"

definition MCU_REPLY :: bytes where
  "MCU_REPLY = map of_char ''mcu msrt received host message''"

definition McuMsrt_on_message :: "MessageEvent \<Rightarrow> McuMsrt \<Rightarrow> unit res \<times> McuMsrt" where
  "McuMsrt_on_message message m =
     sr_bind (update_field (PassiveEndpoint_send MCU_REPLY (mc_endpoint m)) (\<lambda>e. m\<lparr>mc_endpoint := e\<rparr>)) (\<lambda>_ m. (Ok (), m))"

text \<open>The loop of \<^verbatim>\<open>poll\<close>, with the number of polls left; the first component is what was written.\<close>

fun mcu_polls :: "nat \<Rightarrow> u64 \<Rightarrow> McuMsrt \<Rightarrow> bytes list \<times> unit res \<times> McuMsrt" where
  "mcu_polls 0 now m = ([], Ok (), m)"
| "mcu_polls (Suc n) now m =
     (case update_field (PassiveEndpoint_poll now (mc_tx_buf m) (mc_endpoint m)) (\<lambda>e. m\<lparr>mc_endpoint := e\<rparr>) of
        (Ok (Transmit bs attempts), m) \<Rightarrow>
          (case mcu_polls n now (m\<lparr>mc_tx_buf := copy_at (mc_tx_buf m) 0 bs\<rparr>) of (ws, rest) \<Rightarrow> (bs # ws, rest))
      | (Ok (Message message), m) \<Rightarrow>
          (case McuMsrt_on_message message m of
             (Ok _, m) \<Rightarrow> mcu_polls n now m
           | (r, m) \<Rightarrow> ([], r, m))
      | (Ok (SendFailed event), m) \<Rightarrow> ([], Ok (), m)
      | (Ok Idle, m) \<Rightarrow> ([], Ok (), m)
      | (Err e, m) \<Rightarrow> ([], Err e, m)
      | (Panic, m) \<Rightarrow> ([], Panic, m))"

definition McuMsrt_poll :: "u64 \<Rightarrow> McuMsrt \<Rightarrow> bytes list \<times> unit res \<times> McuMsrt" where
  "McuMsrt_poll now m = mcu_polls POLLS_PER_TICK now m"

fun mcu_read :: "u64 \<Rightarrow> bytes \<Rightarrow> McuMsrt \<Rightarrow> unit res \<times> McuMsrt" where
  "mcu_read now [] m = (Ok (), m)"
| "mcu_read now (b # bs) m = sr_bind (McuMsrt_on_rx_byte now b m) (\<lambda>_ m. mcu_read now bs m)"

text \<open>One turn of \<^verbatim>\<open>main\<close>: it drops the result of \<^verbatim>\<open>poll\<close>, but a panic would stop it.\<close>

definition mcu_turn :: "u64 \<Rightarrow> bytes \<Rightarrow> McuMsrt \<Rightarrow> bytes list \<times> unit res \<times> McuMsrt" where
  "mcu_turn now input m =
     (case mcu_read now input m of
        (Ok _, m) \<Rightarrow> (case McuMsrt_poll now m of (ws, r, m) \<Rightarrow> (ws, (if r = Panic then Panic else Ok ()), m))
      | (r, m) \<Rightarrow> ([], r, m))"

fun mcu_loop :: "u64 \<Rightarrow> bytes list \<Rightarrow> McuMsrt \<Rightarrow> bytes list list \<times> unit res \<times> McuMsrt" where
  "mcu_loop now [] m = ([], Ok (), m)"
| "mcu_loop now (input # inputs) m =
     (case mcu_turn now input m of
        (ws, Ok _, m) \<Rightarrow> (case mcu_loop (now + 1) inputs m of (wss, rest) \<Rightarrow> (ws # wss, rest))
      | (ws, r, m) \<Rightarrow> ([ws], r, m))"

definition mcu_main :: "DynamicRecoveryConfig option \<Rightarrow> bytes list \<Rightarrow> bytes list list \<times> unit res \<times> McuMsrt" where
  "mcu_main dyn inputs = mcu_loop 0 inputs (McuMsrt_new dyn)"

section \<open>No input stops the program\<close>

definition mcu_ok :: "EngineConfig \<Rightarrow> McuMsrt \<Rightarrow> bool" where
  "mcu_ok config m \<longleftrightarrow> peer_ok (pe_peer (mc_endpoint m)) \<and> ps_config (pe_peer (mc_endpoint m)) = config \<and>
     length (mc_tx_buf m) = MCU_TX_BUF_BYTES"

lemma mcu_on_rx_byte_ok:
  assumes "mcu_ok config m" "McuMsrt_on_rx_byte now b m = (r, m')"
  shows "\<exists>report. r = Ok report" "mcu_ok config m'"
proof -
  let ?p = "PeerSlot_accept_passive_if_needed now (pe_peer (mc_endpoint m))"
  obtain r' p' where p: "PeerSlot_receive now [b] ?p = (r', p')" by fastforce
  have ok: "peer_ok (pe_peer (mc_endpoint m))" using assms(1) by (simp add: mcu_ok_def)
  note A = accept_if_needed_view[OF ok, of now]
  note V = receive_view[OF A(1) p]
  show "\<exists>report. r = Ok report" "mcu_ok config m'"
    using assms p V A(3) by (auto simp: McuMsrt_on_rx_byte_def PassiveEndpoint_receive_def Let_def mcu_ok_def)
qed

lemma mcu_on_message_ok:
  assumes "mcu_ok config m" "McuMsrt_on_message ev m = (r, m')"
  shows "r \<noteq> Panic" "mcu_ok config m'"
proof -
  obtain r' p' where p: "PeerSlot_send MCU_REPLY (pe_peer (mc_endpoint m)) = (r', p')" by fastforce
  have ok: "peer_ok (pe_peer (mc_endpoint m))" using assms(1) by (simp add: mcu_ok_def)
  show "r \<noteq> Panic" "mcu_ok config m'"
    using assms p send_view[OF ok p]
    by (cases r'; auto simp: McuMsrt_on_message_def PassiveEndpoint_send_def mcu_ok_def)+
qed

lemma mcu_polls_ok:
  "mcu_ok config m \<Longrightarrow> mcu_polls n now m = (ws, r, m') \<Longrightarrow>
    r \<noteq> Panic \<and> mcu_ok config m' \<and> length ws \<le> n \<and> list_all (valid_frame (integrity config)) ws"
proof (induction n arbitrary: m ws)
  case (Suc n)
  let ?e = "mc_endpoint m"
  have ok: "peer_ok (pe_peer ?e)" "ps_config (pe_peer ?e) = config" "length (mc_tx_buf m) = 256"
    using Suc.prems(1) by (auto simp: mcu_ok_def MCU_TX_BUF_BYTES_def)
  obtain r0 p' where p: "PeerSlot_poll now (mc_tx_buf m) (pe_peer ?e) = (r0, p')" by fastforce
  let ?m = "m\<lparr>mc_endpoint := ?e\<lparr>pe_peer := p'\<rparr>\<rparr>"
  have V: "peer_ok p'" "ps_config p' = config" "r0 \<noteq> Panic" using poll_view[OF ok(1) p] ok(2) by auto
  then have m: "mcu_ok config ?m" using Suc.prems(1) by (simp add: mcu_ok_def)
  have u: "update_field (PassiveEndpoint_poll now (mc_tx_buf m) ?e) (\<lambda>e. m\<lparr>mc_endpoint := e\<rparr>) = (r0, ?m)"
    using p by (simp add: PassiveEndpoint_poll_def)
  show ?case
  proof (cases r0)
    case (Ok x)
    note u = u[unfolded Ok]
    show ?thesis
    proof (cases x)
      case (Transmit bs k)
      have fits: "MAX_WIRE_BYTES \<le> length (mc_tx_buf m)" using ok(3) by simp
      note T = slot_transmit[OF ok(1) fits p[unfolded Ok Transmit]]
      let ?n = "?m\<lparr>mc_tx_buf := copy_at (mc_tx_buf ?m) 0 bs\<rparr>"
      obtain vs where vs: "mcu_polls n now ?n = (vs, r, m')" "ws = bs # vs"
        using Suc.prems(2) u Transmit by (auto split: prod.splits)
      have "mcu_ok config ?n" using m T(3) by (simp add: mcu_ok_def)
      then show ?thesis using Suc.IH[OF _ vs(1)] vs(2) T(2) ok(2) by simp
    next
      case (Message ev)
      obtain r1 m1 where s: "McuMsrt_on_message ev ?m = (r1, m1)" by fastforce
      note S = mcu_on_message_ok[OF m s]
      show ?thesis using Suc.prems(2) u Message s S Suc.IH[OF S(2), of ws] by (cases r1) auto
    qed (use Suc.prems(2) u m in \<open>cases r; auto\<close>)+
  qed (use Suc.prems(2) u m V(3) in \<open>cases r; auto\<close>)+
qed auto

lemma mcu_read_ok: "mcu_ok config m \<Longrightarrow> \<exists>m'. mcu_read now bs m = (Ok (), m') \<and> mcu_ok config m'"
proof (induction bs arbitrary: m)
  case (Cons b bs)
  obtain r m1 where b: "McuMsrt_on_rx_byte now b m = (r, m1)" by fastforce
  show ?case using mcu_on_rx_byte_ok[OF Cons.prems b] Cons.IH[of m1] b by auto
qed simp

lemma mcu_turn_ok:
  assumes "mcu_ok config m"
  shows "\<exists>ws m'. mcu_turn now input m = (ws, Ok (), m') \<and> mcu_ok config m' \<and> length ws \<le> POLLS_PER_TICK \<and>
    list_all (valid_frame (integrity config)) ws"
proof -
  obtain m1 where m1: "mcu_read now input m = (Ok (), m1)" "mcu_ok config m1" using mcu_read_ok[OF assms] by blast
  obtain ws r m2 where p: "McuMsrt_poll now m1 = (ws, r, m2)" by (metis prod_cases3)
  show ?thesis using mcu_polls_ok[OF m1(2) p[unfolded McuMsrt_poll_def]] m1(1) p by (simp add: mcu_turn_def)
qed

lemma mcu_loop_ok:
  "mcu_ok config m \<Longrightarrow> \<exists>wss m'. mcu_loop now inputs m = (wss, Ok (), m') \<and> mcu_ok config m' \<and> length wss = length inputs \<and>
    list_all (\<lambda>ws. length ws \<le> POLLS_PER_TICK \<and> list_all (valid_frame (integrity config)) ws) wss"
proof (induction inputs arbitrary: now m)
  case (Cons input inputs)
  obtain ws m1 where t: "mcu_turn now input m = (ws, Ok (), m1)" "mcu_ok config m1" "length ws \<le> POLLS_PER_TICK"
    "list_all (valid_frame (integrity config)) ws"
    using mcu_turn_ok[OF Cons.prems] by blast
  obtain wss m2 where "mcu_loop (now + 1) inputs m1 = (wss, Ok (), m2)" "mcu_ok config m2" "length wss = length inputs"
    "list_all (\<lambda>ws. length ws \<le> POLLS_PER_TICK \<and> list_all (valid_frame (integrity config)) ws) wss"
    using Cons.IH[OF t(2)] by blast
  then show ?case using t by simp
qed simp

section \<open>The engine behind the program\<close>

text \<open>What is in the buffer does not matter to a poll.\<close>

lemma poll_event_buffer: "length tx = length ty \<Longrightarrow> poll_event e now tx r = poll_event e now ty r"
  by (cases e) (auto simp: poll_event_def poll_write_def WriteEvent_as_bytes_def split_at_fst_def copy_at_0 Let_def sr_bind_def
      split: res.splits if_splits)

lemma poll_buffer: "length tx = length ty \<Longrightarrow> EngineState_poll config now tx s = EngineState_poll config now ty s"
proof -
  assume l: "length tx = length ty"
  have "SchedulerState_poll_ack config tx a = SchedulerState_poll_ack config ty a" for a
    using l by (auto simp: SchedulerState_poll_ack_def poll_pending_ack_def encode_ack_packet_eq split: prod.splits option.splits)
  moreover have "SchedulerState_poll_new_data now tx q r = SchedulerState_poll_new_data now ty q r" for q r
    using poll_event_buffer[OF l] by (simp add: SchedulerState_poll_new_data_def cong: option.case_cong prod.case_cong)
  ultimately show ?thesis
    by (simp add: EngineState_poll_def Let_def poll_event_buffer[OF l] split: prod.splits option.splits)
qed

definition mcu_at :: "EngineConfig \<Rightarrow> EngineState \<Rightarrow> PeerState \<Rightarrow> u64 \<Rightarrow> u64 \<Rightarrow> bytes \<Rightarrow> McuMsrt" where
  "mcu_at config s st seen pinged tx = \<lparr>mc_endpoint = passive_at config s st seen pinged, mc_tx_buf = tx\<rparr>"

lemma open_slot_idle:
  assumes "st = Connecting \<or> \<not> idle_for now seen" "EngineState_poll config now tx s = (Ok EnginePoll.Idle, s')"
  shows "PeerSlot_poll now tx (open_slot config s st seen pinged) = (Ok Idle, open_slot config s' st seen pinged)"
  using assms by (auto simp: PeerSlot_poll_def PeerSlot_queue_ping_if_idle_def PeerSlot_is_connected_def idle_for_saturating
      open_slot_def Engine_poll_def)

lemma mcu_poll_step:
  assumes "st = Connecting \<or> \<not> idle_for now seen"
  shows "EngineState_poll config now tx s = (Ok (EnginePoll.Transmit bs k), s') \<Longrightarrow>
      mcu_polls (Suc n) now (mcu_at config s st seen pinged tx) =
        (case mcu_polls n now (mcu_at config s' st seen pinged (copy_at tx 0 bs)) of (ws, rest) \<Rightarrow> (bs # ws, rest))"
    and "EngineState_poll config now tx s = (Ok (EnginePoll.Message ev), s') \<Longrightarrow>
      EngineState_send_data config MCU_REPLY s' = (Ok mid, s'') \<Longrightarrow>
      mcu_polls (Suc n) now (mcu_at config s st seen pinged tx) = mcu_polls n now (mcu_at config s'' Connected now pinged tx)"
    and "EngineState_poll config now tx s = (Ok EnginePoll.Idle, s') \<Longrightarrow>
      mcu_polls (Suc n) now (mcu_at config s st seen pinged tx) = ([], Ok (), mcu_at config s' st seen pinged tx)"
proof -
  note defs = mcu_at_def passive_at_def PassiveEndpoint_poll_def McuMsrt_on_message_def PassiveEndpoint_send_def
  assume "EngineState_poll config now tx s = (Ok (EnginePoll.Transmit bs k), s')"
  from open_slot_poll(1)[OF assms this, of pinged]
  show "mcu_polls (Suc n) now (mcu_at config s st seen pinged tx) =
    (case mcu_polls n now (mcu_at config s' st seen pinged (copy_at tx 0 bs)) of (ws, rest) \<Rightarrow> (bs # ws, rest))"
    by (simp add: defs)
next
  note defs = mcu_at_def passive_at_def PassiveEndpoint_poll_def McuMsrt_on_message_def PassiveEndpoint_send_def
  assume p: "EngineState_poll config now tx s = (Ok (EnginePoll.Message ev), s')"
    and m: "EngineState_send_data config MCU_REPLY s' = (Ok mid, s'')"
  have "PeerSlot_send MCU_REPLY (open_slot config s' Connected now pinged) = (Ok (Some mid), open_slot config s'' Connected now pinged)"
    using m by (simp add: PeerSlot_send_def open_slot_def Engine_send_def)
  then show "mcu_polls (Suc n) now (mcu_at config s st seen pinged tx) = mcu_polls n now (mcu_at config s'' Connected now pinged tx)"
    using open_slot_poll(2)[OF assms p, of pinged] by (simp add: defs)
next
  assume "EngineState_poll config now tx s = (Ok EnginePoll.Idle, s')"
  then show "mcu_polls (Suc n) now (mcu_at config s st seen pinged tx) = ([], Ok (), mcu_at config s' st seen pinged tx)"
    using open_slot_idle[OF assms] by (simp add: mcu_at_def passive_at_def PassiveEndpoint_poll_def)
qed

lemma poll_times_buffer: "length tx = length ty \<Longrightarrow> poll_times config now tx n s = poll_times config now ty n s"
  by (induction n arbitrary: s) (simp_all add: poll_buffer[of tx ty])

lemma mcu_polls_frames:
  "poll_times config now tx (length xs) s = (map (\<lambda>x. Ok (EnginePoll.Transmit (f x) 0)) xs, s') \<Longrightarrow>
    st = Connecting \<or> \<not> idle_for now seen \<Longrightarrow>
    \<exists>ty. length ty = length tx \<and> mcu_polls (length xs + n) now (mcu_at config s st seen pinged tx) =
      (case mcu_polls n now (mcu_at config s' st seen pinged ty) of (ws, rest) \<Rightarrow> (map f xs @ ws, rest))"
proof (induction xs arbitrary: s tx)
  case (Cons x xs)
  obtain s1 where s1: "EngineState_poll config now tx s = (Ok (EnginePoll.Transmit (f x) 0), s1)"
    "poll_times config now tx (length xs) s1 = (map (\<lambda>x. Ok (EnginePoll.Transmit (f x) 0)) xs, s')"
    using Cons.prems(1) by (auto split: prod.splits)
  let ?tx = "copy_at tx 0 (f x)"
  have len: "length ?tx = length tx" using poll_fits[OF s1(1)] by simp
  have p: "poll_times config now ?tx (length xs) s1 = (map (\<lambda>x. Ok (EnginePoll.Transmit (f x) 0)) xs, s')"
    using s1(2) poll_times_buffer[OF len] by simp
  obtain ty where ty: "length ty = length tx" "mcu_polls (length xs + n) now (mcu_at config s1 st seen pinged ?tx) =
      (case mcu_polls n now (mcu_at config s' st seen pinged ty) of (ws, rest) \<Rightarrow> (map f xs @ ws, rest))"
    using Cons.IH[OF p Cons.prems(2)] unfolding len by blast
  show ?case using mcu_poll_step(1)[OF Cons.prems(2) s1(1)] ty by (intro exI[of _ ty]) (simp split: prod.splits)
qed (auto split: prod.splits)

lemma open_slot_receive_any:
  assumes "EngineState_receive config bs s = (Ok rep, s')" "no_error rep"
  shows "\<exists>st'. PeerSlot_receive now bs (open_slot config s st now pinged) = (Ok rep, open_slot config s' st' now pinged) \<and>
    (st' = st \<or> st' = Connected)"
  using assms by (cases rep) (auto simp: PeerSlot_receive_def open_slot_def Engine_receive_def Let_def)

lemma mcu_read_engine:
  "\<forall>r\<in>set (fst (receive_all config (map (\<lambda>b. [b]) bs) s)). \<not> is_Error r \<Longrightarrow> bs \<noteq> [] \<Longrightarrow>
    \<exists>st'. mcu_read now bs (mcu_at config s st seen pinged tx) =
      (Ok (), mcu_at config (snd (receive_all config (map (\<lambda>b. [b]) bs) s)) st' now pinged tx) \<and> (st' = st \<or> st' = Connected)"
proof (induction bs arbitrary: s st seen)
  case (Cons b bs)
  obtain r s1 where r: "EngineState_receive config [b] s = (r, s1)" by fastforce
  have e: "\<not> is_Error r" and es: "\<forall>r\<in>set (fst (receive_all config (map (\<lambda>b. [b]) bs) s1)). \<not> is_Error r"
    using Cons.prems(1) r by (auto split: prod.splits)
  obtain rep where rep: "r = Ok rep" "no_error rep" using e by (cases r) auto
  obtain st1 where st1: "PeerSlot_receive now [b] (open_slot config s st now pinged) = (Ok rep, open_slot config s1 st1 now pinged)"
    "st1 = st \<or> st1 = Connected" using open_slot_receive_any[OF r[unfolded rep(1)] rep(2)] by blast
  have b: "McuMsrt_on_rx_byte now b (mcu_at config s st seen pinged tx) = (Ok rep, mcu_at config s1 st1 now pinged tx)"
    using st1(1) by (simp add: McuMsrt_on_rx_byte_def PassiveEndpoint_receive_def mcu_at_def passive_at_def)
  show ?case
  proof (cases "bs = []")
    case True
    then show ?thesis using b r st1(2) by auto
  next
    case False
    from Cons.IH[OF es this, of st1 now] show ?thesis using b r st1(2) by (auto split: prod.splits)
  qed
qed simp

text \<open>The first byte opens the session.\<close>

lemma mcu_opens:
  "input \<noteq> [] \<Longrightarrow> mcu_turn now input (McuMsrt_new dyn) =
    mcu_turn now input (mcu_at (EngineConfig_default dyn)
      (EngineState_new (initial_message_id (EngineConfig_default dyn)) (EngineConfig_default dyn)) Connecting now now
      (replicate MCU_TX_BUF_BYTES 0))"
  by (cases input) (simp_all add: mcu_turn_def McuMsrt_on_rx_byte_def McuMsrt_new_def passive_opens mcu_at_def)

lemma idle_stream_drained: "idle_stream s \<Longrightarrow> stream_drained config s"
  by (simp add: idle_stream_def stream_drained_def stream_step_def)

text \<open>Frames that arrive byte by byte have the effect of the frames.\<close>

lemma bytewise:
  assumes "engine_ok config s" "idle_stream s" "\<forall>c\<in>set cs. length c \<le> MAX_WIRE_BYTES"
    and "receive_all config cs s = (rs, s1)" "\<forall>r\<in>set rs. \<not> is_Error r" "idle_stream s1"
  obtains ig where "snd (receive_all config (map (\<lambda>b. [b]) (concat cs)) s) = s1\<lparr>es_ingress := ig\<rparr>"
    "\<forall>r\<in>set (fst (receive_all config (map (\<lambda>b. [b]) (concat cs)) s)). \<not> is_Error r"
    "engine_ok config (s1\<lparr>es_ingress := ig\<rparr>)" "idle_stream (s1\<lparr>es_ingress := ig\<rparr>)" "es_numbers s1 = es_numbers s"
proof -
  let ?ds = "map (\<lambda>b. [b]) (concat cs)" let ?s = "snd (receive_all config ?ds s)"
  have c: "concat cs = concat ?ds" by simp
  have small: "\<forall>c\<in>set cs \<union> set ?ds. small_chunk c" using assms(3) by (fastforce simp: small_chunk_def)
  have e: "\<forall>r\<in>set (fst (receive_all config cs s)). \<not> is_Error r" using assms(4,5) by simp
  note d = idle_stream_drained[OF assms(2)]
  note A = chunkings_agree[OF assms(1) d c small e]
  have eq: "?s = s1\<lparr>es_ingress := es_ingress ?s\<rparr>" using A(3)[of "es_ingress ?s"] assms(4) by simp
  have "idle_stream ?s" using A(4) assms(4,6) by (simp add: idle_stream_def)
  moreover have "es_numbers s1 = es_numbers s" using receive_all_numbers[OF assms(1) d _ e] small assms(4) by simp
  ultimately show thesis using that[OF eq A(1)] A(2) eq by metis
qed

lemma quiet_ingress: "quiet config s \<Longrightarrow> engine_ok config (s\<lparr>es_ingress := ig\<rparr>) \<Longrightarrow> idle_stream (s\<lparr>es_ingress := ig\<rparr>) \<Longrightarrow>
    quiet config (s\<lparr>es_ingress := ig\<rparr>)"
  by (simp add: quiet_def no_urgent_def)

lemma quiet_poll:
  assumes "quiet config s"
  obtains s' where "EngineState_poll config now tx s = (Ok EnginePoll.Idle, s')" "quiet config s'"
    "es_numbers s' = es_numbers s" "es_receive s' = es_receive s"
proof -
  have Q: "no_urgent s" "message_list (es_message s) = []" "sched_view (es_scheduler s) QueueKind.NewData = []"
    "engine_ok config s" "dom (reasm_map (es_reassembly s)) = {}" "dom (inflight_map (rs_in_flight (es_recovery s))) = {}"
    "idle_stream s" using assms by (auto simp: quiet_def)
  obtain s' where s': "EngineState_poll config now tx s = (Ok EnginePoll.Idle, s')" "poll_keeps config now s s'" "engine_ok config s'"
    "ack_list (es_ack s') = []" "message_list (es_message s') = []" "sched_view (es_scheduler s') = sched_view (es_scheduler s)"
    "inflight_map (rs_in_flight (es_recovery s')) = inflight_map (rs_in_flight (es_recovery s))"
    by (rule poll_next_idle[OF quiet_calm[OF assms] Q(1-3)])
  have "quiet config s'"
    using s' Q poll_keeps_no_slots[OF Q(4) s'(2) Q(5)] by (simp add: quiet_def no_urgent_def poll_keeps_def idle_stream_def)
  then show thesis using that[OF s'(1)] s'(2) by (simp add: poll_keeps_def)
qed

section \<open>The turns that answer a message\<close>

abbreviation data_frame :: "EngineConfig \<Rightarrow> MessageId \<Rightarrow> bytes \<Rightarrow> nat \<Rightarrow> bytes" where
  "data_frame config mid msg \<equiv> frag_frame (integrity config) PacketType.Data mid (fragment_limit config PacketType.Data) msg"

abbreviation ack_frame :: "EngineConfig \<Rightarrow> MessageId \<Rightarrow> nat \<Rightarrow> bytes" where
  "ack_frame config mid i \<equiv> wire_frame (integrity config) (ack_packet (frag_key mid i))"

abbreviation frames_of :: "EngineConfig \<Rightarrow> bytes \<Rightarrow> nat" where
  "frames_of config msg \<equiv> fragment_count (length msg) (fragment_limit config PacketType.Data)"

lemma frame_lengths: "length (data_frame config mid msg i) \<le> MAX_WIRE_BYTES" "length (ack_frame config mid i) \<le> MAX_WIRE_BYTES"
  using fragment_limit_bounds(2)[of PacketType.Data config] Integrity_tag_len_le[of "integrity config"]
  by (auto simp: length_frag_frame)

lemma dedup_keys: "D \<subseteq> frag_key mid ` X \<union> E \<Longrightarrow> \<forall>k\<in>D. key_message_id k = mid \<or> k \<in> E"
  by (auto simp: PacketKey_new_def)

lemma wire_frame_nonempty: "wire_frame cfg pkt \<noteq> []"
  using length_wire_frame[of cfg pkt] by (metis add_is_0 list.size(3) zero_neq_numeral)

text \<open>
  The polls of a turn on an engine that holds a complete message: the ACKs go out, the message is answered, the reply goes
  out, and the next poll is idle.
\<close>

lemma mcu_answer_polls:
  assumes "engine_ok config b" "idle_stream b" "sched_view (es_scheduler b) = (\<lambda>_. [])" "message_list (es_message b) = [ev]"
    and "ack_list (es_ack b) = map (frag_key mid) order" "order \<noteq> []" "dom (inflight_map (rs_in_flight (es_recovery b))) = {}"
    and "dom (reasm_map (es_reassembly b)) = {}" "MAX_WIRE_BYTES \<le> length tx"
    and "NumberState_alloc_message_id (es_numbers b) = (rid, numbers)" "frames_of config MCU_REPLY = 1"
  obtains b' ty where "length ty = length tx" "awaiting config rid MCU_REPLY {..<1} now 0 b'" "es_numbers b' = numbers"
    "es_receive b' = es_receive b"
    "mcu_polls (length order + (3 + n)) now (mcu_at config b st now pinged tx) =
      (map (ack_frame config mid) order @ [data_frame config rid MCU_REPLY 0], Ok (), mcu_at config b' Connected now pinged ty)"
proof -
  have ni: "st' = Connecting \<or> \<not> idle_for now now" for st' by (simp add: idle_for_def)
  obtain b2 where b2: "poll_times config now tx (Suc (length order)) b =
      (map (\<lambda>i. Ok (EnginePoll.Transmit (ack_frame config mid i) 0)) order @ [Ok (EnginePoll.Message ev)], b2)"
    "quiet config b2" "es_receive b2 = es_receive b" "es_numbers b2 = es_numbers b"
    by (rule answer_polls[OF assms(1-9)])
  obtain b1 where b1: "poll_times config now tx (length order) b = (map (\<lambda>i. Ok (EnginePoll.Transmit (ack_frame config mid i) 0)) order, b1)"
    "EngineState_poll config now tx b1 = (Ok (EnginePoll.Message ev), b2)"
    using poll_times_split[OF b2(1)] by blast
  have reply: "length MCU_REPLY \<le> MAX_MESSAGE_BYTES" by (simp add: MCU_REPLY_def)
  obtain b3 b4 where b4: "EngineState_send_data config MCU_REPLY b2 = (Ok rid, b3)"
    "poll_times config now tx 1 b3 = (map (\<lambda>i. Ok (EnginePoll.Transmit (data_frame config rid MCU_REPLY i) 0)) [0..<1], b4)"
    "awaiting config rid MCU_REPLY {..<1} now 0 b4" "es_numbers b4 = numbers" "es_receive b4 = es_receive b2"
    by (rule send_awaiting[OF b2(2) reply assms(9) assms(10)[folded b2(4)] assms(11)[symmetric], where now = now]) simp
  obtain b5 where b5: "poll_times config now tx 1 b4 = (replicate 1 (Ok EnginePoll.Idle), b5)"
    "awaiting config rid MCU_REPLY {..<1} now 0 b5" "es_numbers b5 = es_numbers b4" "es_receive b5 = es_receive b4"
    by (rule awaiting_idle[OF b4(3)])
  have idle: "EngineState_poll config now ty b4 = (Ok EnginePoll.Idle, b5)" if "length ty = length tx" for ty
    using b5(1) poll_buffer[OF that, of config now b4] by (auto split: prod.splits)
  obtain t1 where t1: "length t1 = length tx" "mcu_polls (length order + (3 + n)) now (mcu_at config b st now pinged tx) =
      (case mcu_polls (3 + n) now (mcu_at config b1 st now pinged t1) of (ws, rest) \<Rightarrow> (map (ack_frame config mid) order @ ws, rest))"
    using mcu_polls_frames[OF b1(1) ni] by blast
  have m: "EngineState_poll config now t1 b1 = (Ok (EnginePoll.Message ev), b2)" using b1(2) poll_buffer[OF t1(1)] by simp
  have "poll_times config now t1 (length [0..<1]) b3 = (map (\<lambda>i. Ok (EnginePoll.Transmit (data_frame config rid MCU_REPLY i) 0)) [0..<1], b4)"
    using b4(2) unfolding poll_times_buffer[OF t1(1)] by (simp only: length_upt diff_zero)
  from mcu_polls_frames[OF this ni, of "Suc n" Connected pinged]
  obtain t2 where t2: "length t2 = length tx" "mcu_polls (1 + Suc n) now (mcu_at config b3 Connected now pinged t1) =
      (case mcu_polls (Suc n) now (mcu_at config b4 Connected now pinged t2) of (ws, rest) \<Rightarrow> (data_frame config rid MCU_REPLY 0 # ws, rest))"
    using t1(1) by auto
  have "mcu_polls (3 + n) now (mcu_at config b1 st now pinged t1) = mcu_polls (1 + Suc n) now (mcu_at config b3 Connected now pinged t1)"
    using mcu_poll_step(2)[OF ni m b4(1), where n = "Suc (Suc n)"] by (simp add: numeral_3_eq_3)
  also have "\<dots> = ([data_frame config rid MCU_REPLY 0], Ok (), mcu_at config b5 Connected now pinged t2)"
    unfolding t2(2) mcu_poll_step(3)[OF ni idle[OF t2(1)]] by simp
  finally show thesis using that[OF t2(1) b5(2)] b5(3,4) b4(4,5) b2(3) t1(2) by simp
qed

lemma packet_reports: "\<forall>r\<in>set (map (\<lambda>i. Ok (ReceiveReport.Packet (f i))) xs). \<not> is_Error r"
  "\<forall>r\<in>set (map (\<lambda>i. Ok (ReceiveReport.Ack (f i))) xs). \<not> is_Error r"
  by auto

text \<open>The turn in which the frames of a message arrive.\<close>

lemma mcu_answer_turn:
  assumes "quiet config b" "length msg \<le> MAX_MESSAGE_BYTES" "MAX_WIRE_BYTES \<le> length tx"
    and "\<forall>k\<in>set (dedup_recent (rc_dedup (es_receive b))). key_message_id k \<noteq> mid"
    and "NumberState_alloc_message_id (es_numbers b) = (rid, numbers)" "frames_of config MCU_REPLY = 1"
    and "frames_of config msg + 3 \<le> POLLS_PER_TICK"
  obtains b' ty where "length ty = length tx" "awaiting config rid MCU_REPLY {..<1} now 0 b'" "es_numbers b' = numbers"
    "mcu_turn now (concat (map (data_frame config mid msg) [0..<frames_of config msg])) (mcu_at config b st seen pinged tx) =
      (map (ack_frame config mid) [0..<frames_of config msg] @ [data_frame config rid MCU_REPLY 0], Ok (),
       mcu_at config b' Connected now pinged ty)"
    "\<forall>k\<in>set (dedup_recent (rc_dedup (es_receive b'))). key_message_id k = mid \<or> k \<in> set (dedup_recent (rc_dedup (es_receive b)))"
proof -
  let ?n = "frames_of config msg" let ?frames = "map (data_frame config mid msg) [0..<?n]" let ?input = "concat ?frames"
  have n: "?n \<le> MAX_EVENTS" using assms(7) by (simp add: POLLS_PER_TICK_def)
  have set: "set [0..<?n] = {..<?n}" by auto
  have Q: "engine_ok config b" "idle_stream b" using assms(1) by (auto simp: quiet_def)
  obtain b1 ev where R: "receive_all config ?frames b = (map (\<lambda>i. Ok (ReceiveReport.Packet (PacketIndex (of_nat i)))) [0..<?n], b1)"
    "MessageEvent_as_bytes ev = Ok msg" "me_packet_type ev = PacketType.Data" "me_message_id ev = mid"
    "engine_ok config b1" "idle_stream b1" "sched_view (es_scheduler b1) = (\<lambda>_. [])" "message_list (es_message b1) = [ev]"
    "ack_list (es_ack b1) = map (frag_key mid) [0..<?n]" "[0..<?n] \<noteq> []" "dom (inflight_map (rs_in_flight (es_recovery b1))) = {}"
    "dom (reasm_map (es_reassembly b1)) = {}"
    "set (dedup_recent (rc_dedup (es_receive b1))) \<subseteq> frag_key mid ` set [0..<?n] \<union> set (dedup_recent (rc_dedup (es_receive b)))"
    by (rule receive_quiet[OF assms(1,2,4) refl refl n distinct_upt set])
  have lens: "\<forall>c\<in>set ?frames. length c \<le> MAX_WIRE_BYTES" using frame_lengths(1) by auto
  obtain ig where B: "snd (receive_all config (map (\<lambda>b. [b]) ?input) b) = b1\<lparr>es_ingress := ig\<rparr>"
    "\<forall>r\<in>set (fst (receive_all config (map (\<lambda>b. [b]) ?input) b)). \<not> is_Error r"
    "engine_ok config (b1\<lparr>es_ingress := ig\<rparr>)" "idle_stream (b1\<lparr>es_ingress := ig\<rparr>)" "es_numbers b1 = es_numbers b"
    by (rule bytewise[OF Q lens R(1) packet_reports(1) R(6)])
  let ?b = "b1\<lparr>es_ingress := ig\<rparr>"
  have F: "sched_view (es_scheduler ?b) = (\<lambda>_. [])" "message_list (es_message ?b) = [ev]"
    "ack_list (es_ack ?b) = map (frag_key mid) [0..<?n]" "dom (inflight_map (rs_in_flight (es_recovery ?b))) = {}"
    "dom (reasm_map (es_reassembly ?b)) = {}" "NumberState_alloc_message_id (es_numbers ?b) = (rid, numbers)"
    using R(7-9,11,12) B(5) assms(5) by simp_all
  have ne: "?input \<noteq> []" using R(10) by (auto simp: frag_frame_def wire_frame_nonempty)
  obtain st' where r: "mcu_read now ?input (mcu_at config b st seen pinged tx) = (Ok (), mcu_at config ?b st' now pinged tx)"
    using mcu_read_engine[OF B(2) ne] unfolding B(1) by blast
  obtain b' ty where P: "length ty = length tx" "awaiting config rid MCU_REPLY {..<1} now 0 b'" "es_numbers b' = numbers"
    "es_receive b' = es_receive ?b"
    "mcu_polls (length [0..<?n] + (3 + (13 - ?n))) now (mcu_at config ?b st' now pinged tx) =
      (map (ack_frame config mid) [0..<?n] @ [data_frame config rid MCU_REPLY 0], Ok (), mcu_at config b' Connected now pinged ty)"
    by (rule mcu_answer_polls[OF B(3,4) F(1-3) R(10) F(4,5) assms(3) F(6) assms(6)])
  have "length [0..<?n] + (3 + (13 - ?n)) = POLLS_PER_TICK" using assms(7) by (simp add: POLLS_PER_TICK_def)
  then have "mcu_turn now ?input (mcu_at config b st seen pinged tx) =
      (map (ack_frame config mid) [0..<?n] @ [data_frame config rid MCU_REPLY 0], Ok (), mcu_at config b' Connected now pinged ty)"
    using r P(5) by (simp add: mcu_turn_def McuMsrt_poll_def)
  then show thesis using that[OF P(1-3)] dedup_keys[OF R(13)] P(4) by simp
qed

text \<open>The turn in which the ACK of the reply arrives.\<close>

lemma mcu_acked_turn:
  assumes "awaiting config rid MCU_REPLY {..<1} t 0 b"
  obtains b' where "quiet config b'" "es_numbers b' = es_numbers b" "es_receive b' = es_receive b"
    "mcu_turn now (ack_frame config rid 0) (mcu_at config b Connected seen pinged tx) =
      ([], Ok (), mcu_at config b' Connected now pinged tx)"
proof -
  have A: "engine_ok config b" "idle_stream b" using assms by (auto simp: awaiting_def)
  have "{..<1} \<union> set [0] \<subseteq> {..<2 ^ 16 :: nat}" by auto
  then obtain b1 where R: "receive_all config (map (\<lambda>i. ack_frame config rid i) [0]) b =
      (map (\<lambda>i. Ok (ReceiveReport.Ack (PacketIndex (of_nat i)))) [0], b1)"
    "awaiting config rid MCU_REPLY ({..<1} - set [0]) t 0 b1" "es_numbers b1 = es_numbers b" "es_receive b1 = es_receive b"
    by (rule awaiting_acks[OF assms])
  have "{..<1} - set [0 :: nat] = {}" by auto
  then have q: "quiet config b1" using R(2) awaiting_none_quiet by metis
  then have i: "idle_stream b1" by (simp add: quiet_def)
  have lens: "\<forall>c\<in>set (map (\<lambda>i. ack_frame config rid i) [0]). length c \<le> MAX_WIRE_BYTES" using frame_lengths(2) by simp
  obtain ig where B: "snd (receive_all config (map (\<lambda>b. [b]) (concat (map (\<lambda>i. ack_frame config rid i) [0]))) b) = b1\<lparr>es_ingress := ig\<rparr>"
    "\<forall>r\<in>set (fst (receive_all config (map (\<lambda>b. [b]) (concat (map (\<lambda>i. ack_frame config rid i) [0]))) b)). \<not> is_Error r"
    "engine_ok config (b1\<lparr>es_ingress := ig\<rparr>)" "idle_stream (b1\<lparr>es_ingress := ig\<rparr>)"
    by (rule bytewise[OF A lens R(1) packet_reports(2) i])
  note q' = quiet_ingress[OF q B(3,4)]
  obtain b' where P: "EngineState_poll config now tx (b1\<lparr>es_ingress := ig\<rparr>) = (Ok EnginePoll.Idle, b')" "quiet config b'"
    "es_numbers b' = es_numbers (b1\<lparr>es_ingress := ig\<rparr>)" "es_receive b' = es_receive (b1\<lparr>es_ingress := ig\<rparr>)"
    by (rule quiet_poll[OF q'])
  have "concat (map (\<lambda>i. ack_frame config rid i) [0]) = ack_frame config rid 0" by simp
  note B = B[unfolded this]
  have ne: "ack_frame config rid 0 \<noteq> []" by (rule wire_frame_nonempty)
  have r: "mcu_read now (ack_frame config rid 0) (mcu_at config b Connected seen pinged tx) =
      (Ok (), mcu_at config (b1\<lparr>es_ingress := ig\<rparr>) Connected now pinged tx)"
    using mcu_read_engine[OF B(2) ne, of now Connected seen pinged tx] unfolding B(1) by auto
  have ni: "Connected = Connecting \<or> \<not> idle_for now now" by (simp add: idle_for_def)
  have "POLLS_PER_TICK = Suc 15" by (simp add: POLLS_PER_TICK_def)
  then have "mcu_turn now (ack_frame config rid 0) (mcu_at config b Connected seen pinged tx) =
      ([], Ok (), mcu_at config b' Connected now pinged tx)"
    using r mcu_poll_step(3)[OF ni P(1), of 15 pinged] by (simp add: mcu_turn_def McuMsrt_poll_def)
  then show thesis using that[OF P(2)] P(3,4) R(3,4) by simp
qed

section \<open>A host\<close>

text \<open>
  A host sends a message and the program answers it.  The host polls its frames at \<open>ta\<close>, the link carries them byte by byte into one turn of
  the program, the host gets what the turn wrote at \<open>tb\<close> and polls twice at \<open>tc\<close>, and the next turn gets what the host wrote.
\<close>

type_synonym host_times = "u64 \<times> u64 \<times> u64"

definition host_exchange :: "EngineConfig \<Rightarrow> bytes \<Rightarrow> bytes \<Rightarrow> host_times \<Rightarrow> u64 \<Rightarrow> ClientEndpoint \<times> McuMsrt \<Rightarrow>
    MessageEvent list \<times> ClientEndpoint \<times> McuMsrt" where
  "host_exchange config tx msg = (\<lambda>(ta, tb, tc) now (c, m).
     let (out, c1) = each (\<lambda>_. ClientEndpoint_poll ta tx) [0..<frames_of config msg] c;
         (ws, r1, m1) = mcu_turn now (concat (polled_frames out)) m;
         (reports, c2) = each (ClientEndpoint_receive tb) ws c1;
         (answers, c3) = each (\<lambda>_. ClientEndpoint_poll tc tx) [0..<2] c2;
         (ws', r2, m2) = mcu_turn (now + 1) (concat (polled_frames answers)) m1
     in (polled_messages answers, c3, m2))"

fun host_messages :: "EngineConfig \<Rightarrow> bytes \<Rightarrow> (bytes \<times> host_times) list \<Rightarrow> u64 \<Rightarrow> ClientEndpoint \<times> McuMsrt \<Rightarrow>
    MessageEvent list \<times> ClientEndpoint \<times> McuMsrt" where
  "host_messages config tx [] now (c, m) = ([], c, m)"
| "host_messages config tx ((msg, ts) # xs) now (c, m) =
     (case host_exchange config tx msg ts now (snd (ClientEndpoint_send msg c), m) of (ms, c1, m1) \<Rightarrow>
      case host_messages config tx xs (now + 2) (c1, m1) of (ms', c2, m2) \<Rightarrow> (ms @ ms', c2, m2))"

text \<open>The host connects to a program that has just been started, and sends its messages.\<close>

definition host_session :: "DynamicRecoveryConfig option \<Rightarrow> bytes \<Rightarrow> u64 \<Rightarrow> host_times \<Rightarrow> (bytes \<times> host_times) list \<Rightarrow>
    MessageEvent list \<times> ClientEndpoint \<times> McuMsrt" where
  "host_session dyn tx t0 ts xs =
     (let config = EngineConfig_default dyn;
          c = snd (ClientEndpoint_connect t0 (ClientEndpoint_new config))
      in case host_exchange config tx HELLO_MESSAGE ts 0 (c, McuMsrt_new dyn) of (ms, c1, m1) \<Rightarrow>
         case host_messages config tx xs 2 (c1, m1) of (ms', c2, m2) \<Rightarrow> (ms @ ms', c2, m2))"

text \<open>The host is polled before its ping interval has passed in silence.\<close>

fun host_busy :: "u64 \<Rightarrow> (bytes \<times> host_times) list \<Rightarrow> bool" where
  "host_busy t [] \<longleftrightarrow> True"
| "host_busy t ((msg, ta, tb, tc) # xs) \<longleftrightarrow>
     length msg \<le> MAX_MESSAGE_BYTES \<and> \<not> idle_for ta t \<and> \<not> idle_for tc tb \<and> host_busy tc xs"

text \<open>The four batches of calls on the host.\<close>

lemma host_out:
  assumes "poll_times config ta tx n a1 = (map (\<lambda>i. Ok (EnginePoll.Transmit (f i) 0)) [0..<n], a2)"
    and "st = Connecting \<or> \<not> idle_for ta seen"
  shows "each (\<lambda>_. ClientEndpoint_poll ta tx) [0..<n] (client_at config a1 st seen pinged) =
    (map (\<lambda>i. Ok (Transmit (f i) 0)) [0..<n], client_at config a2 st seen pinged)"
  by (rule polls_lifted[where mk = "\<lambda>s. client_at config s st seen pinged" and config = config])
     (use assms in \<open>simp_all add: ClientEndpoint_poll_def client_at_def open_slot_poll(1)\<close>)

lemma host_in:
  assumes "receive_all config (map f xs) a2 = (map (\<lambda>i. Ok (ReceiveReport.Ack (PacketIndex (of_nat i)))) xs, a3)" "xs \<noteq> []"
    and "EngineState_receive config bs a3 = (Ok (ReceiveReport.Packet i), a4)"
  shows "snd (each (ClientEndpoint_receive tb) (map f xs @ [bs]) (client_at config a2 st seen pinged)) =
    client_at config a4 Connected tb pinged"
proof -
  have 1: "each (ClientEndpoint_receive tb) (map f xs) (client_at config a2 st seen pinged) =
      (map (\<lambda>i. Ok (ReceiveReport.Ack (PacketIndex (of_nat i)))) xs, client_at config a3 Connected tb pinged)"
    by (rule receives_lifted_first[where mk = "\<lambda>s. client_at config s st seen pinged" and config = config, OF _ assms(1,2)])
       (auto simp: ClientEndpoint_receive_def client_at_def open_slot_receive)
  have 2: "each (ClientEndpoint_receive tb) [bs] (client_at config a3 Connected tb pinged) =
      ([Ok (ReceiveReport.Packet i)], client_at config a4 Connected tb pinged)"
    using open_slot_receive[OF assms(3)] by (simp add: ClientEndpoint_receive_def client_at_def)
  show ?thesis using each_append[OF 1 2] by simp
qed

lemma host_answers:
  assumes "poll_times config tc tx 2 a4 = ([Ok (EnginePoll.Transmit bs 0), Ok (EnginePoll.Message ev)], a5)" "\<not> idle_for tc tb"
  shows "each (\<lambda>_. ClientEndpoint_poll tc tx) [0..<2] (client_at config a4 Connected tb pinged) =
    ([Ok (Transmit bs 0), Ok (Message ev)], client_at config a5 Connected tc pinged)"
proof -
  obtain s where s: "EngineState_poll config tc tx a4 = (Ok (EnginePoll.Transmit bs 0), s)"
    "EngineState_poll config tc tx s = (Ok (EnginePoll.Message ev), a5)"
    using assms(1) by (auto simp: numeral_2_eq_2 split: prod.splits)
  have ni: "Connected = Connecting \<or> \<not> idle_for tc tb" using assms(2) by simp
  show ?thesis
    using open_slot_poll(1)[OF ni s(1)] open_slot_poll(2)[OF ni s(2)]
    by (simp add: ClientEndpoint_poll_def client_at_def upt_rec numeral_2_eq_2)
qed

text \<open>The host side of an exchange: the frames go out, the ACKs and the reply come in, the ACK of the reply and the reply come out.\<close>

lemma host_side:
  assumes "quiet config a" "length msg \<le> MAX_MESSAGE_BYTES" "MAX_WIRE_BYTES \<le> length tx"
    and "NumberState_alloc_message_id (es_numbers a) = (mid, numbers)" "frames_of config msg \<le> MAX_EVENTS"
    and "length reply \<le> MAX_MESSAGE_BYTES" "frames_of config reply = 1"
    and "\<forall>k\<in>set (dedup_recent (rc_dedup (es_receive a))). key_message_id k \<noteq> rid"
  obtains a1 a2 a3 a4 a5 ev where "EngineState_send_data config msg a = (Ok mid, a1)"
    "poll_times config ta tx (frames_of config msg) a1 =
      (map (\<lambda>i. Ok (EnginePoll.Transmit (data_frame config mid msg i) 0)) [0..<frames_of config msg], a2)"
    "receive_all config (map (ack_frame config mid) [0..<frames_of config msg]) a2 =
      (map (\<lambda>i. Ok (ReceiveReport.Ack (PacketIndex (of_nat i)))) [0..<frames_of config msg], a3)"
    "EngineState_receive config (data_frame config rid reply 0) a3 = (Ok (ReceiveReport.Packet (PacketIndex 0)), a4)"
    "poll_times config tc tx 2 a4 = ([Ok (EnginePoll.Transmit (ack_frame config rid 0) 0), Ok (EnginePoll.Message ev)], a5)"
    "MessageEvent_as_bytes ev = Ok reply" "quiet config a5" "es_numbers a5 = numbers"
    "\<forall>k\<in>set (dedup_recent (rc_dedup (es_receive a5))). key_message_id k = rid \<or> k \<in> set (dedup_recent (rc_dedup (es_receive a)))"
proof -
  let ?n = "frames_of config msg"
  obtain a1 a2 where A: "EngineState_send_data config msg a = (Ok mid, a1)"
    "poll_times config ta tx ?n a1 = (map (\<lambda>i. Ok (EnginePoll.Transmit (data_frame config mid msg i) 0)) [0..<?n], a2)"
    "awaiting config mid msg {..<?n} ta 0 a2" "es_numbers a2 = numbers" "es_receive a2 = es_receive a"
    by (rule send_awaiting[OF assms(1-4) refl assms(5)])
  have "{..<?n} \<subseteq> {..<2 ^ 16}" using assms(5) by (simp only: lessThan_subset_iff) simp
  then have "{..<?n} \<union> set [0..<?n] \<subseteq> {..<2 ^ 16}" by (simp only: set_upt atLeast0LessThan Un_absorb)
  then obtain a3 where B: "receive_all config (map (ack_frame config mid) [0..<?n]) a2 =
      (map (\<lambda>i. Ok (ReceiveReport.Ack (PacketIndex (of_nat i)))) [0..<?n], a3)"
    "awaiting config mid msg ({..<?n} - set [0..<?n]) ta 0 a3" "es_numbers a3 = es_numbers a2" "es_receive a3 = es_receive a2"
    by (rule awaiting_acks[OF A(3)])
  have "{..<?n} - set [0..<?n] = {}" by (simp only: set_upt atLeast0LessThan Diff_cancel)
  then have q: "quiet config a3" using B(2) awaiting_none_quiet by metis
  have fresh: "\<forall>k\<in>set (dedup_recent (rc_dedup (es_receive a3))). key_message_id k \<noteq> rid" using assms(8) A(5) B(4) by simp
  have order: "frames_of config reply \<le> MAX_EVENTS" "distinct [0 :: nat]" "set [0] = {..<frames_of config reply}"
    using assms(7) by auto
  obtain a4 a5 ev where C: "receive_all config (map (data_frame config rid reply) [0]) a3 =
      (map (\<lambda>i. Ok (ReceiveReport.Packet (PacketIndex (of_nat i)))) [0], a4)"
    "poll_times config tc tx (Suc (length [0 :: nat])) a4 =
      (map (\<lambda>i. Ok (EnginePoll.Transmit (ack_frame config rid i) 0)) [0] @ [Ok (EnginePoll.Message ev)], a5)"
    "MessageEvent_as_bytes ev = Ok reply" "me_packet_type ev = PacketType.Data" "me_message_id ev = rid" "quiet config a5"
    "set (dedup_recent (rc_dedup (es_receive a5))) \<subseteq> frag_key rid ` set [0] \<union> set (dedup_recent (rc_dedup (es_receive a3)))"
    "es_numbers a5 = es_numbers a4"
    by (rule transfer_receive[OF q assms(6,3) fresh refl refl order])
  have r: "EngineState_receive config (data_frame config rid reply 0) a3 = (Ok (ReceiveReport.Packet (PacketIndex 0)), a4)"
    using C(1) by (auto split: prod.splits)
  have p: "poll_times config tc tx 2 a4 = ([Ok (EnginePoll.Transmit (ack_frame config rid 0) 0), Ok (EnginePoll.Message ev)], a5)"
    using C(2) by (simp only: list.size(3,4) numeral_2_eq_2 One_nat_def list.map append.simps add_0 add_Suc_right)
  have Q: "engine_ok config a3" "stream_drained config a3" using q idle_stream_drained by (auto simp: quiet_def)
  have "es_numbers (snd (receive_all config (map (data_frame config rid reply) [0]) a3)) = es_numbers a3"
    by (rule receive_all_numbers[OF Q]) (use C(1) frame_lengths(1)[of config rid reply 0] in \<open>simp_all add: small_chunk_def\<close>)
  then have "es_numbers a5 = numbers" using C(1,8) B(3) A(4) by (simp del: receive_all.simps)
  then show thesis using that[OF A(1,2) B(1) r p C(3,6)] dedup_keys[OF C(7)] B(4) A(5) by simp
qed

lemma exchange_answers:
  assumes "quiet config a" "quiet config b" "length msg \<le> MAX_MESSAGE_BYTES" "MAX_WIRE_BYTES \<le> length tx" "MAX_WIRE_BYTES \<le> length ty"
    and "NumberState_alloc_message_id (es_numbers a) = (mid, na)" "NumberState_alloc_message_id (es_numbers b) = (rid, nb)"
    and "\<forall>k\<in>set (dedup_recent (rc_dedup (es_receive b))). key_message_id k \<noteq> mid"
    and "\<forall>k\<in>set (dedup_recent (rc_dedup (es_receive a))). key_message_id k \<noteq> rid"
    and "frames_of config MCU_REPLY = 1" "frames_of config msg + 3 \<le> POLLS_PER_TICK"
    and "st = Connecting \<or> \<not> idle_for ta seen" "\<not> idle_for tc tb"
    and "\<And>input. input \<noteq> [] \<Longrightarrow> mcu_turn now input m = mcu_turn now input (mcu_at config b st' seen' pinged' ty)"
  obtains ev a1 a' b' ty' where "EngineState_send_data config msg a = (Ok mid, a1)"
    "host_exchange config tx msg (ta, tb, tc) now (client_at config a1 st seen pinged, m) =
      ([ev], client_at config a' Connected tc pinged, mcu_at config b' Connected (now + 1) pinged' ty')"
    "MessageEvent_as_bytes ev = Ok MCU_REPLY" "quiet config a'" "quiet config b'" "es_numbers a' = na" "es_numbers b' = nb"
    "length ty' = length ty"
    "\<forall>k\<in>set (dedup_recent (rc_dedup (es_receive a'))). key_message_id k = rid \<or> k \<in> set (dedup_recent (rc_dedup (es_receive a)))"
    "\<forall>k\<in>set (dedup_recent (rc_dedup (es_receive b'))). key_message_id k = mid \<or> k \<in> set (dedup_recent (rc_dedup (es_receive b)))"
proof -
  let ?n = "frames_of config msg" and ?D = "\<lambda>s. set (dedup_recent (rc_dedup (es_receive s)))"
  have n: "?n \<le> MAX_EVENTS" using assms(11) by (simp add: POLLS_PER_TICK_def)
  have ne: "[0..<?n] \<noteq> []"
    using fragment_count_bounds(1)[of "fragment_limit config PacketType.Data" "length msg"] fragment_limit_bounds(1)[of PacketType.Data config] by simp
  have reply: "length MCU_REPLY \<le> MAX_MESSAGE_BYTES" by (simp add: MCU_REPLY_def)
  obtain a1 a2 a3 a4 a5 ev where A: "EngineState_send_data config msg a = (Ok mid, a1)"
    "poll_times config ta tx ?n a1 = (map (\<lambda>i. Ok (EnginePoll.Transmit (data_frame config mid msg i) 0)) [0..<?n], a2)"
    "receive_all config (map (ack_frame config mid) [0..<?n]) a2 = (map (\<lambda>i. Ok (ReceiveReport.Ack (PacketIndex (of_nat i)))) [0..<?n], a3)"
    "EngineState_receive config (data_frame config rid MCU_REPLY 0) a3 = (Ok (ReceiveReport.Packet (PacketIndex 0)), a4)"
    "poll_times config tc tx 2 a4 = ([Ok (EnginePoll.Transmit (ack_frame config rid 0) 0), Ok (EnginePoll.Message ev)], a5)"
    "MessageEvent_as_bytes ev = Ok MCU_REPLY" "quiet config a5" "es_numbers a5 = na" "\<forall>k\<in>?D a5. key_message_id k = rid \<or> k \<in> ?D a"
    by (rule host_side[OF assms(1,3,4,6) n reply assms(10,9)])
  obtain b1 ty1 where B: "length ty1 = length ty" "awaiting config rid MCU_REPLY {..<1} now 0 b1" "es_numbers b1 = nb"
    "mcu_turn now (concat (map (data_frame config mid msg) [0..<?n])) (mcu_at config b st' seen' pinged' ty) =
      (map (ack_frame config mid) [0..<?n] @ [data_frame config rid MCU_REPLY 0], Ok (), mcu_at config b1 Connected now pinged' ty1)"
    "\<forall>k\<in>?D b1. key_message_id k = mid \<or> k \<in> ?D b"
    by (rule mcu_answer_turn[OF assms(2,3,5,8,7,10,11)])
  have input: "concat (map (data_frame config mid msg) [0..<?n]) \<noteq> []" using ne by (auto simp: frag_frame_def wire_frame_nonempty)
  obtain b2 where C: "quiet config b2" "es_numbers b2 = es_numbers b1" "es_receive b2 = es_receive b1"
    "mcu_turn (now + 1) (ack_frame config rid 0) (mcu_at config b1 Connected now pinged' ty1) =
      ([], Ok (), mcu_at config b2 Connected (now + 1) pinged' ty1)"
    by (rule mcu_acked_turn[OF B(2)])
  obtain reports where I: "each (ClientEndpoint_receive tb) (map (ack_frame config mid) [0..<?n] @ [data_frame config rid MCU_REPLY 0])
      (client_at config a2 st seen pinged) = (reports, client_at config a4 Connected tb pinged)"
    using host_in[OF A(3) ne A(4)] by (metis prod.collapse)
  have f: "polled_frames [Ok (Transmit (ack_frame config rid 0) 0), Ok (Message ev)] = [ack_frame config rid 0]"
    "polled_messages [Ok (Transmit (ack_frame config rid 0) 0), Ok (Message ev)] = [ev]"
    by (simp_all add: polled_frames_def polled_messages_def)
  have "concat [ack_frame config rid 0] = ack_frame config rid 0" by simp
  then have "host_exchange config tx msg (ta, tb, tc) now (client_at config a1 st seen pinged, m) =
      ([ev], client_at config a5 Connected tc pinged, mcu_at config b2 Connected (now + 1) pinged' ty1)"
    unfolding host_exchange_def prod.case
    by (simp only: host_out[OF A(2) assms(12)] polled_simps(1) assms(14)[OF input] B(4) I host_answers[OF A(5) assms(13)] f C(4) Let_def prod.case)
  then show thesis using that[OF A(1) _ A(6,7) C(1) A(8) _ B(1) A(9)] C(2,3) B(3,5) by simp
qed

lemma default_frames:
  "frames_of (EngineConfig_default dyn) MCU_REPLY = 1"
  "length msg \<le> MAX_MESSAGE_BYTES \<Longrightarrow> frames_of (EngineConfig_default dyn) msg + 3 \<le> POLLS_PER_TICK"
proof -
  have l: "fragment_limit (EngineConfig_default dyn) PacketType.Data = 64"
    using Integrity_tag_len_le[of "integrity (EngineConfig_default dyn)"]
    by (simp add: fragment_limit_def EngineConfig_default_def DEFAULT_FRAGMENT_BYTES_def)
  show "frames_of (EngineConfig_default dyn) MCU_REPLY = 1" unfolding l by (simp add: MCU_REPLY_def fragment_count_def)
  show "frames_of (EngineConfig_default dyn) msg + 3 \<le> POLLS_PER_TICK" if "length msg \<le> MAX_MESSAGE_BYTES"
  proof -
    have "(length msg + 63) div 64 \<le> (256 + 63) div 64" by (rule div_le_mono) (use that in simp)
    then show ?thesis unfolding l by (simp add: fragment_count_def POLLS_PER_TICK_def add.commute)
  qed
qed

lemma messages_answered:
  assumes "config = EngineConfig_default dyn" "MAX_WIRE_BYTES \<le> length tx"
  shows "quiet config a \<Longrightarrow> quiet config b \<Longrightarrow> host_busy seen xs \<Longrightarrow> MAX_WIRE_BYTES \<le> length ty \<Longrightarrow>
    distinct (alloc_ids (length xs) (es_numbers a)) \<Longrightarrow> distinct (alloc_ids (length xs) (es_numbers b)) \<Longrightarrow>
    \<forall>k\<in>set (dedup_recent (rc_dedup (es_receive b))). key_message_id k \<notin> set (alloc_ids (length xs) (es_numbers a)) \<Longrightarrow>
    \<forall>k\<in>set (dedup_recent (rc_dedup (es_receive a))). key_message_id k \<notin> set (alloc_ids (length xs) (es_numbers b)) \<Longrightarrow>
    \<exists>ms a' b' seen1 seen2 ty'.
      host_messages config tx xs now (client_at config a Connected seen pinged, mcu_at config b Connected seen' pinged' ty) =
        (ms, client_at config a' Connected seen1 pinged, mcu_at config b' Connected seen2 pinged' ty') \<and>
      map MessageEvent_as_bytes ms = replicate (length xs) (Ok MCU_REPLY) \<and> quiet config a' \<and> quiet config b'"
proof (induction xs arbitrary: a b seen seen' ty now)
  case (Cons x xs)
  obtain msg ta tb tc where x: "x = (msg, ta, tb, tc)" by (cases x)
  obtain mid na where al: "NumberState_alloc_message_id (es_numbers a) = (mid, na)" by fastforce
  obtain rid nb where bl: "NumberState_alloc_message_id (es_numbers b) = (rid, nb)" by fastforce
  have ids: "alloc_ids (length (x # xs)) (es_numbers a) = mid # alloc_ids (length xs) na"
    "alloc_ids (length (x # xs)) (es_numbers b) = rid # alloc_ids (length xs) nb" using al bl by simp_all
  note P = Cons.prems[unfolded ids]
  have H: "length msg \<le> MAX_MESSAGE_BYTES" "Connected = Connecting \<or> \<not> idle_for ta seen" "\<not> idle_for tc tb" "host_busy tc xs"
    using P(3) x by auto
  have fresh: "\<forall>k\<in>set (dedup_recent (rc_dedup (es_receive b))). key_message_id k \<noteq> mid"
    "\<forall>k\<in>set (dedup_recent (rc_dedup (es_receive a))). key_message_id k \<noteq> rid" using P(7,8) by auto
  note F = default_frames(1)[of dyn, folded assms(1)] default_frames(2)[OF H(1), of dyn, folded assms(1)]
  obtain ev a1 a2 b2 ty2 where E: "EngineState_send_data config msg a = (Ok mid, a1)"
    "host_exchange config tx msg (ta, tb, tc) now (client_at config a1 Connected seen pinged, mcu_at config b Connected seen' pinged' ty) =
      ([ev], client_at config a2 Connected tc pinged, mcu_at config b2 Connected (now + 1) pinged' ty2)"
    "MessageEvent_as_bytes ev = Ok MCU_REPLY" "quiet config a2" "quiet config b2" "es_numbers a2 = na" "es_numbers b2 = nb"
    "length ty2 = length ty"
    "\<forall>k\<in>set (dedup_recent (rc_dedup (es_receive a2))). key_message_id k = rid \<or> k \<in> set (dedup_recent (rc_dedup (es_receive a)))"
    "\<forall>k\<in>set (dedup_recent (rc_dedup (es_receive b2))). key_message_id k = mid \<or> k \<in> set (dedup_recent (rc_dedup (es_receive b)))"
    by (rule exchange_answers[OF P(1,2) H(1) assms(2) P(4) al bl fresh F H(2,3) refl])
  have "distinct (alloc_ids (length xs) (es_numbers a2))" "distinct (alloc_ids (length xs) (es_numbers b2))" "MAX_WIRE_BYTES \<le> length ty2"
    using P(4-6) E(6-8) by simp_all
  moreover have "\<forall>k\<in>set (dedup_recent (rc_dedup (es_receive b2))). key_message_id k \<notin> set (alloc_ids (length xs) (es_numbers a2))"
    using E(6,10) P(5,7) by auto
  moreover have "\<forall>k\<in>set (dedup_recent (rc_dedup (es_receive a2))). key_message_id k \<notin> set (alloc_ids (length xs) (es_numbers b2))"
    using E(7,9) P(6,8) by auto
  ultimately obtain ms a3 b3 s1 s2 ty3 where
    "host_messages config tx xs (now + 2) (client_at config a2 Connected tc pinged, mcu_at config b2 Connected (now + 1) pinged' ty2) =
      (ms, client_at config a3 Connected s1 pinged, mcu_at config b3 Connected s2 pinged' ty3)"
    "map MessageEvent_as_bytes ms = replicate (length xs) (Ok MCU_REPLY)" "quiet config a3" "quiet config b3"
    using Cons.IH[OF E(4,5) H(4)] by blast
  then show ?case
    using E(2,3) x client_send[OF E(1)]
    by (intro exI[of _ "ev # ms"] exI[of _ a3] exI[of _ b3] exI[of _ s1] exI[of _ s2] exI[of _ ty3]) simp
next
  case Nil
  then show ?case
    by (intro exI[of _ "[]"] exI[of _ a] exI[of _ b] exI[of _ seen] exI[of _ seen'] exI[of _ ty]) simp
qed

lemma hello_answered:
  assumes "config = EngineConfig_default dyn" "MAX_WIRE_BYTES \<le> length tx" "\<not> idle_for tc tb"
    and "NumberState_alloc_message_id (NumberState_new (initial_message_id config)) = (mid, ids)"
  obtains ev a b ty where
    "host_exchange config tx HELLO_MESSAGE (ta, tb, tc) 0 (snd (ClientEndpoint_connect t0 (ClientEndpoint_new config)), McuMsrt_new dyn) =
      ([ev], client_at config a Connected tc t0, mcu_at config b Connected 1 0 ty)"
    "MessageEvent_as_bytes ev = Ok MCU_REPLY" "quiet config a" "quiet config b" "es_numbers a = ids" "es_numbers b = ids"
    "MAX_WIRE_BYTES \<le> length ty"
    "\<forall>k\<in>set (dedup_recent (rc_dedup (es_receive a))). key_message_id k = mid"
    "\<forall>k\<in>set (dedup_recent (rc_dedup (es_receive b))). key_message_id k = mid"
proof -
  let ?e = "EngineState_new (initial_message_id config) config" and ?ty = "replicate MCU_TX_BUF_BYTES 0 :: bytes"
  have al: "NumberState_alloc_message_id (es_numbers ?e) = (mid, ids)" using assms(4) by (simp add: EngineState_new_def)
  have none: "set (dedup_recent (rc_dedup (es_receive ?e))) = {}" using new_engine_idle(3)[of "initial_message_id config" config] by simp
  have fresh: "\<forall>k\<in>set (dedup_recent (rc_dedup (es_receive ?e))). key_message_id k \<noteq> mid" using none by simp
  have hello: "length HELLO_MESSAGE \<le> MAX_MESSAGE_BYTES" by (simp add: HELLO_MESSAGE_def)
  have ty: "MAX_WIRE_BYTES \<le> length ?ty" by (simp add: MCU_TX_BUF_BYTES_def)
  have connecting: "Connecting = Connecting \<or> \<not> idle_for ta t0" by simp
  note F = default_frames(1)[of dyn, folded assms(1)] default_frames(2)[OF hello, of dyn, folded assms(1)]
  obtain ev a1 a b ty2 where E: "EngineState_send_data config HELLO_MESSAGE ?e = (Ok mid, a1)"
    "host_exchange config tx HELLO_MESSAGE (ta, tb, tc) 0 (client_at config a1 Connecting t0 t0, McuMsrt_new dyn) =
      ([ev], client_at config a Connected tc t0, mcu_at config b Connected (0 + 1) 0 ty2)"
    "MessageEvent_as_bytes ev = Ok MCU_REPLY" "quiet config a" "quiet config b" "es_numbers a = ids" "es_numbers b = ids"
    "length ty2 = length ?ty"
    "\<forall>k\<in>set (dedup_recent (rc_dedup (es_receive a))). key_message_id k = mid \<or> k \<in> set (dedup_recent (rc_dedup (es_receive ?e)))"
    "\<forall>k\<in>set (dedup_recent (rc_dedup (es_receive b))). key_message_id k = mid \<or> k \<in> set (dedup_recent (rc_dedup (es_receive ?e)))"
    by (rule exchange_answers[OF quiet_new quiet_new hello assms(2) ty al al fresh fresh F connecting assms(3)
          mcu_opens[of _ 0 dyn, folded assms(1)], where pinged = t0])
  show thesis using that[OF _ E(3-7)] E(2,8-10) ty none by (simp add: connect_client[OF E(1)])
qed

section \<open>Properties\<close>

text \<open>
  C18. No input stops the firmware: whatever bytes arrive in whatever turns, every turn of its main loop ends without a panic,
  and writes at most 16 frames, all of them complete and sealed.
\<close>

theorem mcu_survives_any_input:
  "\<exists>wss m. mcu_main dyn inputs = (wss, Ok (), m) \<and> length wss = length inputs \<and>
    list_all (\<lambda>ws. length ws \<le> 16 \<and> list_all (valid_frame (integrity (EngineConfig_default dyn))) ws) wss"
proof -
  have "mcu_ok (EngineConfig_default dyn) (McuMsrt_new dyn)"
    by (simp add: mcu_ok_def McuMsrt_new_def PassiveEndpoint_new_def peer_ok_new)
  from mcu_loop_ok[OF this, of 0 inputs] show ?thesis by (auto simp: mcu_main_def POLLS_PER_TICK_def)
qed

text \<open>
  C4. The firmware answers every message: a host connects to a freshly started program and sends any sequence of messages of at most 256 bytes;
  the link feeds the frames to the program byte by byte, and the host is polled before its ping interval passes in silence.
  Then the host delivers exactly one reply for its hello message and for each message it sent, and at the end both sides
  are connected and have nothing left to send.
\<close>

theorem mcu_answers_host:
  assumes "MAX_WIRE_BYTES \<le> length tx" "\<not> idle_for tc tb" "host_busy tc xs" "length xs < 2 ^ 32"
  shows "case host_session dyn tx t0 (ta, tb, tc) xs of (ms, c, m) \<Rightarrow>
    map MessageEvent_as_bytes ms = replicate (Suc (length xs)) (Ok MCU_REPLY) \<and>
    PeerSlot_is_connected (ce_peer c) \<and> PeerSlot_is_connected (pe_peer (mc_endpoint m)) \<and>
    quiet_slot (ce_peer c) \<and> quiet_slot (pe_peer (mc_endpoint m))"
proof -
  define config where "config = EngineConfig_default dyn"
  let ?new = "NumberState_new (initial_message_id config)"
  obtain mid ids where al: "NumberState_alloc_message_id ?new = (mid, ids)" by fastforce
  have split: "alloc_ids (Suc (length xs)) ?new = mid # alloc_ids (length xs) ids" using al by simp
  have "distinct (alloc_ids (Suc (length xs)) ?new)" by (rule alloc_ids_distinct) (use assms(4) in simp)
  then have dist: "distinct (alloc_ids (length xs) ids)" "mid \<notin> set (alloc_ids (length xs) ids)" unfolding split by simp_all
  obtain ev a b ty where H: "host_exchange config tx HELLO_MESSAGE (ta, tb, tc) 0
      (snd (ClientEndpoint_connect t0 (ClientEndpoint_new config)), McuMsrt_new dyn) =
      ([ev], client_at config a Connected tc t0, mcu_at config b Connected 1 0 ty)"
    "MessageEvent_as_bytes ev = Ok MCU_REPLY" "quiet config a" "quiet config b" "es_numbers a = ids" "es_numbers b = ids"
    "MAX_WIRE_BYTES \<le> length ty" "\<forall>k\<in>set (dedup_recent (rc_dedup (es_receive a))). key_message_id k = mid"
    "\<forall>k\<in>set (dedup_recent (rc_dedup (es_receive b))). key_message_id k = mid"
    by (rule hello_answered[OF config_def assms(1,2) al])
  have "\<exists>ms a' b' seen1 seen2 ty'.
      host_messages config tx xs 2 (client_at config a Connected tc t0, mcu_at config b Connected 1 0 ty) =
        (ms, client_at config a' Connected seen1 t0, mcu_at config b' Connected seen2 0 ty') \<and>
      map MessageEvent_as_bytes ms = replicate (length xs) (Ok MCU_REPLY) \<and> quiet config a' \<and> quiet config b'"
    by (rule messages_answered[OF config_def assms(1) H(3,4) assms(3) H(7)]) (use H(5,6,8,9) dist in auto)
  then obtain ms a' b' s1 s2 ty' where M:
    "host_messages config tx xs 2 (client_at config a Connected tc t0, mcu_at config b Connected 1 0 ty) =
      (ms, client_at config a' Connected s1 t0, mcu_at config b' Connected s2 0 ty')"
    "map MessageEvent_as_bytes ms = replicate (length xs) (Ok MCU_REPLY)" "quiet config a'" "quiet config b'" by blast
  have "host_session dyn tx t0 (ta, tb, tc) xs = (ev # ms, client_at config a' Connected s1 t0, mcu_at config b' Connected s2 0 ty')"
    unfolding host_session_def Let_def config_def[symmetric] H(1) prod.case M(1) by simp
  then show ?thesis
    using H(2) M(2-4) by (simp add: PeerSlot_is_connected_def quiet_slot_def client_at_def mcu_at_def passive_at_def open_slot_def)
qed

theorem mcu_answers_host_witness:
  "case host_session None (replicate 128 0) 1 (2, 3, 4) [([1, 2, 3], 10, 12, 13), ([], 4000, 4001, 4002)] of (ms, c, m) \<Rightarrow>
    map MessageEvent_as_bytes ms = [Ok MCU_REPLY, Ok MCU_REPLY, Ok MCU_REPLY]"
proof -
  let ?xs = "[([1, 2, 3], 10, 12, 13), ([], 4000, 4001, 4002)] :: (bytes \<times> host_times) list"
  have b: "host_busy 4 ?xs" by (simp add: idle_for_def)
  obtain ms c m where "host_session None (replicate 128 0) 1 (2, 3, 4) ?xs = (ms, c, m)" by (metis prod_cases3)
  then show ?thesis
    using mcu_answers_host[OF _ _ b, of "replicate 128 0" 3 None 1 2] by (simp add: idle_for_def)
qed

end
