(* ===== verification/Adapter_Std.thy ===== *)
theory Adapter_Std
  imports Adapter
begin

text \<open>
  The two desktop programs of the repository, \<^verbatim>\<open>examples/std_client.rs\<close> and \<^verbatim>\<open>examples/std_server.rs\<close>.  What the
  transport delivers and the clock are arguments: one pair of elapsed milliseconds and received packets for each turn of the
  endless loop.  The result lists what each turn wrote to the transport.
\<close>

section \<open>examples/std_client.rs\<close>

definition TX_BUF_BYTES :: usize where "TX_BUF_BYTES = 256"

definition elapsed_ms :: "128 word \<Rightarrow> u64" where
  "elapsed_ms elapsed = (if unat elapsed < 2 ^ 64 then ucast elapsed else - 1)"

record StdClient =
  cl_endpoint :: ClientEndpoint
  cl_tx_buf :: bytes

fun std_client_read :: "u64 \<Rightarrow> bytes list \<Rightarrow> ClientEndpoint \<Rightarrow> unit res \<times> ClientEndpoint" where
  "std_client_read now [] c = (Ok (), c)"
| "std_client_read now (packet # packets) c =
     sr_bind (ClientEndpoint_receive now packet c) (\<lambda>_ c. std_client_read now packets c)"

definition CLIENT_GREETING :: bytes where
  "CLIENT_GREETING = map of_char ''hello from std client''"

definition std_client_greet :: "ClientEndpoint \<Rightarrow> unit res \<times> ClientEndpoint" where
  "std_client_greet c =
     (if PeerSlot_is_connected (ce_peer c)
      then sr_bind (ClientEndpoint_send CLIENT_GREETING c) (\<lambda>_ c. (Ok (), c))
      else (Ok (), c))"

definition client_sent :: "EndpointPoll res \<Rightarrow> bytes option" where
  "client_sent r = (case r of Ok (Transmit bs attempts) \<Rightarrow> Some bs | _ \<Rightarrow> None)"

definition std_client_turn :: "u64 \<Rightarrow> bytes list \<Rightarrow> StdClient \<Rightarrow> (bytes list \<times> unit res \<times> StdClient) option" where
  "std_client_turn now packets cl =
     (case sr_bind (std_client_read now packets (cl_endpoint cl)) (\<lambda>_ c. std_client_greet c) of
        (Ok _, c) \<Rightarrow>
          Option.bind (while_transmit (ClientEndpoint_poll now) client_sent (cl_tx_buf cl) c) (\<lambda>(ws, r, tx, c).
            Some (ws, (case r of Ok _ \<Rightarrow> Ok () | Err e \<Rightarrow> Err e | Panic \<Rightarrow> Panic), \<lparr>cl_endpoint = c, cl_tx_buf = tx\<rparr>))
      | (r, c) \<Rightarrow> Some ([], r, cl\<lparr>cl_endpoint := c\<rparr>))"

fun std_client_loop ::
  "(128 word \<times> bytes list) list \<Rightarrow> StdClient \<Rightarrow> (bytes list list \<times> unit res \<times> StdClient) option" where
  "std_client_loop [] cl = Some ([], Ok (), cl)"
| "std_client_loop ((elapsed, packets) # turns) cl =
     Option.bind (std_client_turn (elapsed_ms elapsed) packets cl) (\<lambda>(ws, r, cl).
       case r of
         Ok _ \<Rightarrow> Option.bind (std_client_loop turns cl) (\<lambda>(wss, rest). Some (ws # wss, rest))
       | _ \<Rightarrow> Some ([ws], r, cl))"

definition std_client_main ::
  "DynamicRecoveryConfig option \<Rightarrow> (128 word \<times> bytes list) list \<Rightarrow> (bytes list list \<times> unit res \<times> StdClient) option" where
  "std_client_main dyn turns =
     (case ClientEndpoint_connect 0 (ClientEndpoint_new (EngineConfig_default dyn)) of
        (Ok _, c) \<Rightarrow> std_client_loop turns \<lparr>cl_endpoint = c, cl_tx_buf = replicate TX_BUF_BYTES 0\<rparr>
      | (Err e, c) \<Rightarrow> Some ([], Err e, \<lparr>cl_endpoint = c, cl_tx_buf = replicate TX_BUF_BYTES 0\<rparr>)
      | (Panic, c) \<Rightarrow> Some ([], Panic, \<lparr>cl_endpoint = c, cl_tx_buf = replicate TX_BUF_BYTES 0\<rparr>))"

section \<open>examples/std_server.rs\<close>

definition MAX_PEERS :: usize where "MAX_PEERS = 8"

record StdServer =
  sv_endpoint :: "u32 ServerEndpoint"
  sv_tx_buf :: bytes

fun std_server_read :: "u64 \<Rightarrow> (u32 \<times> bytes) list \<Rightarrow> u32 ServerEndpoint \<Rightarrow> unit res \<times> u32 ServerEndpoint" where
  "std_server_read now [] s = (Ok (), s)"
| "std_server_read now ((peer_id, packet) # packets) s =
     (case (if ServerEndpoint_peer peer_id s = None then ServerEndpoint_accept peer_id now s else (Some (Inr ()), s)) of
        (None, s) \<Rightarrow> (Panic, s)
      | (Some _, s) \<Rightarrow>
          (case ServerEndpoint_receive peer_id now packet s of
             (Some Panic, s) \<Rightarrow> (Panic, s)
           | (_, s) \<Rightarrow> std_server_read now packets s))"

definition server_sent :: "EndpointPoll res option \<Rightarrow> bytes option" where
  "server_sent r = (case r of Some (Ok (Transmit bs attempts)) \<Rightarrow> Some bs | _ \<Rightarrow> None)"

fun std_server_flush ::
  "u64 \<Rightarrow> u32 list \<Rightarrow> bytes \<Rightarrow> u32 ServerEndpoint \<Rightarrow> ((u32 \<times> bytes) list \<times> unit res \<times> bytes \<times> u32 ServerEndpoint) option" where
  "std_server_flush now [] tx s = Some ([], Ok (), tx, s)"
| "std_server_flush now (peer_id # peer_ids) tx s =
     Option.bind (while_transmit (ServerEndpoint_poll peer_id now) server_sent tx s) (\<lambda>(ws, r, tx, s).
       if r = Some Panic then Some (map (Pair peer_id) ws, Panic, tx, s)
       else Option.bind (std_server_flush now peer_ids tx s) (\<lambda>(wss, rest). Some (map (Pair peer_id) ws @ wss, rest)))"

definition std_server_turn ::
  "u64 \<Rightarrow> (u32 \<times> bytes) list \<Rightarrow> StdServer \<Rightarrow> ((u32 \<times> bytes) list \<times> unit res \<times> StdServer) option" where
  "std_server_turn now packets sv =
     (case std_server_read now packets (sv_endpoint sv) of
        (Ok _, s) \<Rightarrow>
          Option.bind (std_server_flush now (map pn_peer_id (ServerEndpoint_peers s)) (sv_tx_buf sv) s) (\<lambda>(ws, r, tx, s).
            Some (ws, r, \<lparr>sv_endpoint = s, sv_tx_buf = tx\<rparr>))
      | (r, s) \<Rightarrow> Some ([], r, sv\<lparr>sv_endpoint := s\<rparr>))"

fun std_server_loop ::
  "(128 word \<times> (u32 \<times> bytes) list) list \<Rightarrow> StdServer \<Rightarrow> ((u32 \<times> bytes) list list \<times> unit res \<times> StdServer) option" where
  "std_server_loop [] sv = Some ([], Ok (), sv)"
| "std_server_loop ((elapsed, packets) # turns) sv =
     Option.bind (std_server_turn (elapsed_ms elapsed) packets sv) (\<lambda>(ws, r, sv).
       case r of
         Ok _ \<Rightarrow> Option.bind (std_server_loop turns sv) (\<lambda>(wss, rest). Some (ws # wss, rest))
       | _ \<Rightarrow> Some ([ws], r, sv))"

definition std_server_main :: "DynamicRecoveryConfig option \<Rightarrow> (128 word \<times> (u32 \<times> bytes) list) list \<Rightarrow>
    ((u32 \<times> bytes) list list \<times> unit res \<times> StdServer) option" where
  "std_server_main dyn turns =
     std_server_loop turns \<lparr>sv_endpoint = ServerEndpoint_default MAX_PEERS dyn, sv_tx_buf = replicate TX_BUF_BYTES 0\<rparr>"

section \<open>The client\<close>

definition client_inv :: "EngineConfig \<Rightarrow> ClientEndpoint \<Rightarrow> bool" where
  "client_inv config c \<longleftrightarrow> peer_ok (ce_peer c) \<and> ps_config (ce_peer c) = config"

lemma client_poll_slot:
  assumes "client_inv config c" "ClientEndpoint_poll now tx c = (r, c')"
  obtains p' where "PeerSlot_poll now tx (ce_peer c) = (r, p')" "ce_peer c' = p'" "peer_ok (ce_peer c)"
    "client_inv config c'" "r \<noteq> Panic"
proof -
  obtain r' p' where p: "PeerSlot_poll now tx (ce_peer c) = (r', p')" by fastforce
  have ok: "peer_ok (ce_peer c)" "ps_config (ce_peer c) = config" using assms(1) by (simp_all add: client_inv_def)
  have c: "r' = r" "ce_peer c' = p'" using assms(2) p by (auto simp: ClientEndpoint_poll_def)
  show thesis using that[OF p[unfolded c(1)] c(2) ok(1)] poll_view[OF ok(1) p] ok(2) c by (simp add: client_inv_def)
qed

interpretation client_flush: transmit_loop "client_inv config" "slot_rank now \<circ> ce_peer" "ClientEndpoint_poll now" client_sent
  "valid_frame (integrity config)" "\<lambda>r. r \<noteq> Panic" for config now
proof (standard, goal_cases)
  case (1 s tx r s1)
  show ?case by (rule client_poll_slot[OF 1(1,3)])
next
  case (2 s tx r s1 bs)
  obtain k where r: "r = Ok (Transmit bs k)" using 2(4) by (auto simp: client_sent_def split: res.splits EndpointPoll.splits)
  obtain p' where p: "PeerSlot_poll now tx (ce_peer s) = (r, p')" "ce_peer s1 = p'" "peer_ok (ce_peer s)"
    by (rule client_poll_slot[OF 2(1,3)])
  show ?case using slot_transmit[OF p(3) 2(2) p(1)[unfolded r]] p(2) 2(1) by (simp add: client_inv_def)
next
  case (3 s tx r s1)
  show ?case by (rule client_poll_slot[OF 3(1,3)])
qed

lemma client_read_ok:
  "client_inv config c \<Longrightarrow> \<exists>c'. std_client_read now packets c = (Ok (), c') \<and> client_inv config c'"
proof (induction packets arbitrary: c)
  case (Cons packet packets)
  obtain r p' where r: "PeerSlot_receive now packet (ce_peer c) = (r, p')" by fastforce
  have "peer_ok (ce_peer c)" using Cons.prems by (simp add: client_inv_def)
  note V = receive_view[OF this r]
  then obtain report where "r = Ok report" by blast
  then show ?case using Cons.IH[of "c\<lparr>ce_peer := p'\<rparr>"] V Cons.prems r by (simp add: client_inv_def ClientEndpoint_receive_def)
qed simp

lemma client_greet_ok:
  assumes "client_inv config c" "std_client_greet c = (r, c')"
  shows "client_inv config c'" "r \<noteq> Panic"
proof -
  obtain r0 p' where s: "PeerSlot_send CLIENT_GREETING (ce_peer c) = (r0, p')" by fastforce
  have "peer_ok (ce_peer c)" using assms(1) by (simp add: client_inv_def)
  note V = send_view[OF this s]
  show "client_inv config c'" "r \<noteq> Panic"
    using assms s V by (cases r0; auto simp: std_client_greet_def ClientEndpoint_send_def client_inv_def split: if_splits)+
qed

definition std_client_ok :: "EngineConfig \<Rightarrow> StdClient \<Rightarrow> bool" where
  "std_client_ok config cl \<longleftrightarrow> client_inv config (cl_endpoint cl) \<and> length (cl_tx_buf cl) = TX_BUF_BYTES"

lemma buffer_fits: "MAX_WIRE_BYTES \<le> TX_BUF_BYTES"
  by (simp add: TX_BUF_BYTES_def)

lemma client_turn_ok:
  assumes "std_client_ok config cl"
  shows "\<exists>ws r cl'. std_client_turn now packets cl = Some (ws, r, cl') \<and> r \<noteq> Panic \<and> std_client_ok config cl' \<and>
    length ws \<le> MAX_BURST \<and> list_all (valid_frame (integrity config)) ws"
proof -
  have A: "client_inv config (cl_endpoint cl)" "length (cl_tx_buf cl) = TX_BUF_BYTES" using assms by (auto simp: std_client_ok_def)
  obtain c1 where c1: "std_client_read now packets (cl_endpoint cl) = (Ok (), c1)" "client_inv config c1"
    using client_read_ok[OF A(1)] by blast
  obtain r c2 where c2: "std_client_greet c1 = (r, c2)" by fastforce
  note G = client_greet_ok[OF c1(2) c2]
  show ?thesis
  proof (cases r)
    case (Ok u)
    obtain ws r' tx' c3 where L: "while_transmit (ClientEndpoint_poll now) client_sent (cl_tx_buf cl) c2 = Some (ws, r', tx', c3)"
      "length ws \<le> slot_rank now (ce_peer c2)" "list_all (valid_frame (integrity config)) ws" "length tx' = length (cl_tx_buf cl)"
      "client_inv config c3" "r' \<noteq> Panic"
      using client_flush.loop_ends[OF G(1), of "cl_tx_buf cl" now] A(2) buffer_fits by auto
    have "length ws \<le> MAX_BURST" using L(2) slot_rank_le[of "ce_peer c2" now] G(1) by (simp add: client_inv_def)
    then show ?thesis using c1 c2 Ok L A(2) by (cases r') (simp_all add: std_client_turn_def std_client_ok_def)
  next
    case (Err e)
    then show ?thesis using c1 c2 G A(2) by (simp add: std_client_turn_def std_client_ok_def)
  qed (use G in simp)
qed

lemma client_loop_ok:
  "std_client_ok config cl \<Longrightarrow> \<exists>wss r cl'. std_client_loop turns cl = Some (wss, r, cl') \<and> r \<noteq> Panic \<and> std_client_ok config cl' \<and>
    list_all (\<lambda>ws. length ws \<le> MAX_BURST \<and> list_all (valid_frame (integrity config)) ws) wss"
proof (induction turns arbitrary: cl)
  case (Cons turn turns)
  obtain elapsed packets where t: "turn = (elapsed, packets)" by (cases turn)
  obtain ws r cl1 where T: "std_client_turn (elapsed_ms elapsed) packets cl = Some (ws, r, cl1)" "r \<noteq> Panic"
    "std_client_ok config cl1" "length ws \<le> MAX_BURST" "list_all (valid_frame (integrity config)) ws"
    using client_turn_ok[OF Cons.prems] by blast
  show ?case
  proof (cases r)
    case (Ok u)
    obtain wss r' cl2 where "std_client_loop turns cl1 = Some (wss, r', cl2)" "r' \<noteq> Panic" "std_client_ok config cl2"
      "list_all (\<lambda>ws. length ws \<le> MAX_BURST \<and> list_all (valid_frame (integrity config)) ws) wss"
      using Cons.IH[OF T(3)] by blast
    then show ?thesis using T t Ok by simp
  qed (use T t in simp_all)
qed simp

section \<open>The server\<close>

definition server_rank :: "u64 \<Rightarrow> u32 \<Rightarrow> u32 ServerEndpoint \<Rightarrow> nat" where
  "server_rank now peer_id s = (case server_map s peer_id of None \<Rightarrow> 0 | Some slot \<Rightarrow> slot_rank now slot)"

lemma server_slot:
  assumes "server_ok N config s" "server_map s p = Some slot"
  shows "peer_ok slot" "ps_config slot = config"
proof -
  obtain entry where "pn_slot entry = slot" "entry \<in> set (flatten (se_peers s))" by (rule server_map_Some[OF assms(2)])
  then show "peer_ok slot" "ps_config slot = config" using assms(1) by (auto simp: server_ok_def)
qed

lemma server_poll_cases:
  assumes "server_ok N config s" "ServerEndpoint_poll p now tx s = (r, s')"
  obtains "server_map s p = None" "r = None" "s' = s"
  | slot where "server_map s p = Some slot" "r = Some (fst (PeerSlot_poll now tx slot))" "server_ok N config s'"
      "server_map s' = (server_map s)(p \<mapsto> snd (PeerSlot_poll now tx slot))"
proof (cases "server_map s p")
  case None
  then have "on_peer p (PeerSlot_poll now tx) s = (None, s)"
    using on_peer_map[OF assms(1) keeps_slot_ops(2), of p now tx] by simp
  then show thesis using that(1)[OF None] assms(2) by (simp add: ServerEndpoint_poll_def)
next
  case (Some slot)
  then obtain s1 where "on_peer p (PeerSlot_poll now tx) s = (Some (fst (PeerSlot_poll now tx slot)), s1)" "server_ok N config s1"
    "server_map s1 = (server_map s)(p \<mapsto> snd (PeerSlot_poll now tx slot))"
    using on_peer_map[OF assms(1) keeps_slot_ops(2), of p now tx] by auto
  then show thesis using that(2)[OF Some] assms(2) by (simp add: ServerEndpoint_poll_def)
qed

interpretation server_flush: transmit_loop "server_ok N config" "server_rank now peer_id" "ServerEndpoint_poll peer_id now"
  server_sent "valid_frame (integrity config)" "\<lambda>r. r \<noteq> Some Panic" for N config now peer_id
proof (standard, goal_cases)
  case (1 s tx r s1)
  from 1(1,3) show ?case using 1(1) by (cases rule: server_poll_cases) simp_all
next
  case (2 s tx r s1 bs)
  from 2(1,3) show ?case
  proof (cases rule: server_poll_cases)
    case (2 slot)
    obtain k where "fst (PeerSlot_poll now tx slot) = Ok (Transmit bs k)"
      using \<open>server_sent r = Some bs\<close> 2(2) by (auto simp: server_sent_def split: res.splits EndpointPoll.splits)
    then have p: "PeerSlot_poll now tx slot = (Ok (Transmit bs k), snd (PeerSlot_poll now tx slot))" by (metis prod.collapse)
    note S = server_slot[OF \<open>server_ok N config s\<close> 2(1)]
    show ?thesis using slot_transmit[OF S(1) \<open>MAX_WIRE_BYTES \<le> length tx\<close> p] S(2) 2(1,4) by (simp add: server_rank_def)
  qed (use 2(4) in \<open>simp add: server_sent_def\<close>)
next
  case (3 s tx r s1)
  from 3(1,3) show ?case
  proof (cases rule: server_poll_cases)
    case (2 slot)
    have "fst (PeerSlot_poll now tx slot) \<noteq> Panic"
      using poll_view[OF server_slot(1)[OF \<open>server_ok N config s\<close> 2(1)], of now tx] by (metis prod.collapse)
    then show ?thesis using 2(2) by simp
  qed simp
qed

lemma server_read_ok:
  "server_ok N config s \<Longrightarrow> \<exists>s'. std_server_read now packets s = (Ok (), s') \<and> server_ok N config s'"
proof (induction packets arbitrary: s)
  case (Cons x packets)
  obtain p packet where x: "x = (p, packet)" by (cases x)
  obtain mid slot where c: "PeerSlot_connect now (PeerSlot_new config) = (Ok mid, slot)" "peer_ok slot" "ps_config slot = config"
    by (rule connect_succeeds)
  obtain a s1 where s1: "(if ServerEndpoint_peer p s = None then ServerEndpoint_accept p now s else (Some (Inr ()), s)) = (Some a, s1)"
    "server_ok N config s1"
  proof (cases "ServerEndpoint_peer p s = None")
    case True
    then show ?thesis using that accept_cases[OF Cons.prems c, of p] Cons.prems by (metis (full_types))
  next
    case False
    then show ?thesis using that[OF if_not_P] Cons.prems by blast
  qed
  obtain r s2 where s2: "ServerEndpoint_receive p now packet s1 = (r, s2)" by fastforce
  have "server_ok N config s2 \<and> r \<noteq> Some Panic"
  proof (cases "server_map s1 p")
    case (Some slot)
    have "fst (PeerSlot_receive now packet slot) \<noteq> Panic"
      using receive_view[OF server_slot(1)[OF s1(2) Some], of now packet] by (metis prod.collapse res.distinct(3))
    then show ?thesis
      using on_peer_map[OF s1(2) keeps_slot_ops(1), of p now packet] s2 Some by (auto simp: ServerEndpoint_receive_def)
  qed (use on_peer_map[OF s1(2) keeps_slot_ops(1), of p now packet] s2 s1(2) in \<open>simp add: ServerEndpoint_receive_def\<close>)
  then have s2': "server_ok N config s2" "r \<noteq> Some Panic" by simp_all
  have "std_server_read now (x # packets) s = std_server_read now packets s2"
    using s1(1) s2 s2'(2) x by (cases r; cases "the r") (simp_all del: split_paired_Ex)
  then show ?case using Cons.IH[OF s2'(1)] by simp
qed simp

text \<open>What a turn writes for one peer, and what a turn may write at all: for at most eight peers, for each at most \<^term>\<open>MAX_BURST\<close> frames.\<close>

definition frames_for :: "u32 \<Rightarrow> (u32 \<times> bytes) list \<Rightarrow> bytes list" where
  "frames_for peer_id ws = map snd (filter (\<lambda>(q, bs). q = peer_id) ws)"

definition turn_ok :: "EngineConfig \<Rightarrow> (u32 \<times> bytes) list \<Rightarrow> bool" where
  "turn_ok config ws \<longleftrightarrow> card (fst ` set ws) \<le> MAX_PEERS \<and> (\<forall>peer_id. length (frames_for peer_id ws) \<le> MAX_BURST) \<and>
     list_all (\<lambda>(peer_id, bs). valid_frame (integrity config) bs) ws"

lemma frames_for_simps:
  "frames_for p (ws @ vs) = frames_for p ws @ frames_for p vs" "frames_for p (map (Pair q) bss) = (if q = p then bss else [])"
  by (induction bss) (simp_all add: frames_for_def comp_def)

lemma frames_for_other: "p \<notin> fst ` set ws \<Longrightarrow> frames_for p ws = []"
  by (force simp: frames_for_def filter_empty_conv)

lemma server_flush_ok:
  "server_ok N config s \<Longrightarrow> length tx = TX_BUF_BYTES \<Longrightarrow> distinct ids \<Longrightarrow>
    \<exists>ws tx' s'. std_server_flush now ids tx s = Some (ws, Ok (), tx', s') \<and> server_ok N config s' \<and> length tx' = TX_BUF_BYTES \<and>
      fst ` set ws \<subseteq> set ids \<and> (\<forall>peer_id. length (frames_for peer_id ws) \<le> MAX_BURST) \<and>
      list_all (\<lambda>(peer_id, bs). valid_frame (integrity config) bs) ws"
proof (induction ids arbitrary: s tx)
  case (Cons p ids)
  have fits: "MAX_WIRE_BYTES \<le> length tx" using Cons.prems(2) buffer_fits by simp
  obtain ws r tx1 s1 where L: "while_transmit (ServerEndpoint_poll p now) server_sent tx s = Some (ws, r, tx1, s1)"
    "length ws \<le> server_rank now p s" "list_all (valid_frame (integrity config)) ws" "length tx1 = length tx"
    "server_ok N config s1" "r \<noteq> Some Panic"
    using server_flush.loop_ends[OF Cons.prems(1) fits, of p now] by blast
  have "server_rank now p s \<le> MAX_BURST"
    using slot_rank_le server_slot(1)[OF Cons.prems(1)] by (auto simp: server_rank_def split: option.splits)
  then have burst: "length ws \<le> MAX_BURST" using L(2) by simp
  obtain wss tx2 s2 where I: "std_server_flush now ids tx1 s1 = Some (wss, Ok (), tx2, s2)" "server_ok N config s2"
    "length tx2 = TX_BUF_BYTES" "fst ` set wss \<subseteq> set ids" "\<forall>peer_id. length (frames_for peer_id wss) \<le> MAX_BURST"
    "list_all (\<lambda>(peer_id, bs). valid_frame (integrity config) bs) wss"
    using Cons.IH[OF L(5), of tx1] L(4) Cons.prems(2,3) by auto
  have "p \<notin> fst ` set wss" using I(4) Cons.prems(3) by auto
  then have "frames_for p wss = []" by (rule frames_for_other)
  then have "length (frames_for q (map (Pair p) ws @ wss)) \<le> MAX_BURST" for q
    using burst I(5) by (cases "q = p") (simp_all add: frames_for_simps)
  moreover have "fst ` set (map (Pair p) ws @ wss) \<subseteq> set (p # ids)" using I(4) by auto
  ultimately show ?case using L I by (simp add: list.pred_map comp_def)
qed (simp add: frames_for_def)

definition std_server_ok :: "EngineConfig \<Rightarrow> StdServer \<Rightarrow> bool" where
  "std_server_ok config sv \<longleftrightarrow> server_ok MAX_PEERS config (sv_endpoint sv) \<and> length (sv_tx_buf sv) = TX_BUF_BYTES"

lemma server_turn_ok:
  assumes "std_server_ok config sv"
  shows "\<exists>ws sv'. std_server_turn now packets sv = Some (ws, Ok (), sv') \<and> std_server_ok config sv' \<and> turn_ok config ws"
proof -
  have A: "server_ok MAX_PEERS config (sv_endpoint sv)" "length (sv_tx_buf sv) = TX_BUF_BYTES"
    using assms by (auto simp: std_server_ok_def)
  obtain s1 where s1: "std_server_read now packets (sv_endpoint sv) = (Ok (), s1)" "server_ok MAX_PEERS config s1"
    using server_read_ok[OF A(1)] by blast
  let ?ids = "map pn_peer_id (ServerEndpoint_peers s1)"
  have ids: "distinct ?ids" "length (se_peers s1) = MAX_PEERS" using s1(2) by (simp_all add: server_ok_def ServerEndpoint_peers_def)
  have len: "length ?ids \<le> MAX_PEERS" using ids(2) length_flatten_le[of "se_peers s1"] by (simp add: ServerEndpoint_peers_def)
  obtain ws tx' s2 where F: "std_server_flush now ?ids (sv_tx_buf sv) s1 = Some (ws, Ok (), tx', s2)" "server_ok MAX_PEERS config s2"
    "length tx' = TX_BUF_BYTES" "fst ` set ws \<subseteq> set ?ids" "\<forall>peer_id. length (frames_for peer_id ws) \<le> MAX_BURST"
    "list_all (\<lambda>(peer_id, bs). valid_frame (integrity config) bs) ws"
    using server_flush_ok[OF s1(2) A(2) ids(1)] by blast
  have "card (fst ` set ws) \<le> card (set ?ids)" by (rule card_mono[OF _ F(4)]) simp
  then have "turn_ok config ws" using F(5,6) len card_length[of ?ids] by (simp add: turn_ok_def del: set_map)
  then show ?thesis using s1(1) F(1-3) by (simp add: std_server_turn_def std_server_ok_def)
qed

lemma server_loop_ok:
  "std_server_ok config sv \<Longrightarrow> \<exists>wss sv'. std_server_loop turns sv = Some (wss, Ok (), sv') \<and> std_server_ok config sv' \<and>
    length wss = length turns \<and> list_all (turn_ok config) wss"
proof (induction turns arbitrary: sv)
  case (Cons turn turns)
  obtain elapsed packets where t: "turn = (elapsed, packets)" by (cases turn)
  obtain ws sv1 where T: "std_server_turn (elapsed_ms elapsed) packets sv = Some (ws, Ok (), sv1)" "std_server_ok config sv1"
    "turn_ok config ws"
    using server_turn_ok[OF Cons.prems] by blast
  obtain wss sv2 where "std_server_loop turns sv1 = Some (wss, Ok (), sv2)" "std_server_ok config sv2" "length wss = length turns"
    "list_all (turn_ok config) wss"
    using Cons.IH[OF T(2)] by blast
  then show ?case using T t by simp
qed simp

section \<open>Properties\<close>

text \<open>
  C16. The desktop client always comes back to its transport: for every sequence of turns, whatever bytes arrive and
  whatever the clock shows, each turn ends, none panics, and each writes at most 49 frames, all of them complete and sealed.
\<close>

theorem std_client_turns_end:
  "\<exists>wss r cl. std_client_main dyn turns = Some (wss, r, cl) \<and> r \<noteq> Panic \<and> std_client_ok (EngineConfig_default dyn) cl \<and>
    list_all (\<lambda>ws. length ws \<le> 49 \<and> list_all (valid_frame (integrity (EngineConfig_default dyn))) ws) wss"
proof -
  let ?config = "EngineConfig_default dyn"
  obtain mid slot where c: "PeerSlot_connect 0 (PeerSlot_new ?config) = (Ok mid, slot)" "peer_ok slot" "ps_config slot = ?config"
    by (rule connect_succeeds)
  have "std_client_ok ?config \<lparr>cl_endpoint = \<lparr>ce_peer = slot\<rparr>, cl_tx_buf = replicate TX_BUF_BYTES 0\<rparr>"
    using c by (simp add: std_client_ok_def client_inv_def)
  from client_loop_ok[OF this, of turns] show ?thesis
    using c by (simp add: std_client_main_def ClientEndpoint_connect_def ClientEndpoint_new_def)
qed

text \<open>
  C17. The desktop server never stops: for every sequence of turns, whatever bytes arrive under whatever peer ids, each turn ends without
  error or panic, at most eight peers have a place, and a turn writes to at most eight peers and to each of them at most 49 frames,
  all complete and sealed.
\<close>

theorem std_server_never_stops:
  "\<exists>wss sv. std_server_main dyn turns = Some (wss, Ok (), sv) \<and> length wss = length turns \<and>
    card (dom (server_map (sv_endpoint sv))) \<le> 8 \<and>
    list_all (\<lambda>ws. card (fst ` set ws) \<le> 8 \<and> (\<forall>peer_id. length (frames_for peer_id ws) \<le> 49) \<and>
      list_all (\<lambda>(peer_id, bs). valid_frame (integrity (EngineConfig_default dyn)) bs) ws) wss"
proof -
  let ?config = "EngineConfig_default dyn"
  have "std_server_ok ?config \<lparr>sv_endpoint = ServerEndpoint_default MAX_PEERS dyn, sv_tx_buf = replicate TX_BUF_BYTES 0\<rparr>"
    using server_ok_new(1)[of MAX_PEERS ?config] by (simp add: std_server_ok_def ServerEndpoint_default_def)
  from server_loop_ok[OF this, of turns] obtain wss sv where S: "std_server_main dyn turns = Some (wss, Ok (), sv)" "std_server_ok ?config sv"
    "length wss = length turns" "list_all (turn_ok ?config) wss"
    by (auto simp: std_server_main_def)
  have sv: "server_ok MAX_PEERS ?config (sv_endpoint sv)" using S(2) by (simp add: std_server_ok_def)
  then have "card (dom (server_map (sv_endpoint sv))) \<le> 8"
    using card_server_map[OF sv] length_flatten_le[of "se_peers (sv_endpoint sv)"] by (simp add: server_ok_def MAX_PEERS_def)
  then show ?thesis using S by (simp add: turn_ok_def MAX_PEERS_def list_all_iff)
qed

text \<open>
  The client does not wait for room: once the table of packets in flight is full, a turn in which nothing arrives
  ends the program with an error instead of sending again what is due.
\<close>

theorem client_stops_when_full:
  assumes "std_client_ok config cl" "ps_engine (ce_peer (cl_endpoint cl)) = Some e" "PeerSlot_is_connected (ce_peer (cl_endpoint cl))"
    and "RecoveryState_in_flight_len (es_recovery (en_state e)) = MAX_IN_FLIGHT_PACKETS"
  shows "\<exists>cl'. std_client_turn now [] cl = Some ([], Err (Error_new Engine), cl')"
proof -
  let ?p = "ce_peer (cl_endpoint cl)"
  have ok: "engine_ok config (en_state e)" "en_config e = config"
    using assms(1,2) by (auto simp: std_client_ok_def client_inv_def peer_ok_def)
  obtain mid numbers where a: "NumberState_alloc_message_id (es_numbers (en_state e)) = (mid, numbers)" by fastforce
  have "0 < fragment_count (length CLIENT_GREETING) (fragment_limit config PacketType.Data)"
    using fragment_count_bounds(1) fragment_limit_bounds(1)[of PacketType.Data config] by simp
  then obtain s where "EngineState_send_data config CLIENT_GREETING (en_state e) = (Err (Error_new Engine), s)"
    using send_fragmented_message_eq[OF engine_okD[OF ok(1)] _ a, of PacketType.Data config CLIENT_GREETING] assms(4)
    by (simp add: EngineState_send_data_def send_data_impl_def)
  then have "PeerSlot_send CLIENT_GREETING ?p = (Err (Error_new Engine), ?p\<lparr>ps_engine := Some (e\<lparr>en_state := s\<rparr>)\<rparr>)"
    using assms(2) ok(2) by (simp add: PeerSlot_send_def Engine_send_def)
  then show ?thesis using assms(3) by (simp add: std_client_turn_def std_client_greet_def ClientEndpoint_send_def)
qed

end
