(* ===== verification/Loss.thy ===== *)
theory Loss
  imports Retry
begin

text \<open>
  A link that loses, repeats and reorders frames in both directions.  A message goes from one engine
  to another in rounds: the sender is polled and the link passes on some of its frames, the receiver
  is polled and the link passes some of its ACKs back.  The invariant over the rounds says which
  fragments the sender still has in flight and which the receiver already has; a round in which
  nothing is lost completes the message and empties the packet table.
\<close>

section \<open>Rounds over the link\<close>

text \<open>
  What the link hands over of the frames \<open>xs\<close>: those at the positions \<open>pick\<close>, in this order.  A frame is
  lost when its position is missing and repeated when it occurs more than once.
\<close>

definition through :: "nat list \<Rightarrow> 'a list \<Rightarrow> 'a list" where
  "through pick xs = map (nth xs) (filter (\<lambda>i. i < length xs) pick)"

lemma through_map: "through pick (map f xs) = map f (through pick xs)"
  by (simp add: through_def)

lemma through_set: "set (through pick xs) \<subseteq> set xs" "length (through pick xs) \<le> length pick"
  by (auto simp: through_def)

lemma through_all: "{..<length xs} \<subseteq> set pick \<Longrightarrow> set (through pick xs) = set xs"
proof -
  assume "{..<length xs} \<subseteq> set pick"
  then have "{i \<in> set pick. i < length xs} = {0..<length xs}" by auto
  then show ?thesis using nth_image[of "length xs" xs] by (simp add: through_def)
qed

text \<open>
  One round: the sender is polled at \<open>ta\<close>, the link passes on \<open>pick\<close> of its frames, the receiver is polled
  at \<open>tb\<close>, and the link passes on \<open>reply\<close> of its frames.  Both engines are polled as often as their
  queues can hold something.  The result is the list of messages the receiver delivered.
\<close>

type_synonym link_round = "u64 \<times> nat list \<times> u64 \<times> nat list"

definition lossy_round :: "EngineConfig \<Rightarrow> bytes \<Rightarrow> link_round \<Rightarrow> EngineState \<times> EngineState \<Rightarrow>
    MessageEvent list \<times> EngineState \<times> EngineState" where
  "lossy_round config tx = (\<lambda>(ta, pick, tb, reply) (a, b).
     let (out, a1) = poll_times config ta tx MAX_EVENTS a;
         (reports, b1) = receive_all config (through pick (transmitted out)) b;
         (answer, b2) = poll_times config tb tx (Suc MAX_PENDING_ACKS) b1;
         (acks, a2) = receive_all config (through reply (transmitted answer)) a1
     in (messages_of answer, a2, b2))"

fun lossy_rounds :: "EngineConfig \<Rightarrow> bytes \<Rightarrow> link_round list \<Rightarrow> EngineState \<times> EngineState \<Rightarrow>
    MessageEvent list \<times> EngineState \<times> EngineState" where
  "lossy_rounds config tx [] (a, b) = ([], a, b)"
| "lossy_rounds config tx (x # xs) (a, b) =
     (case lossy_round config tx x (a, b) of (ms, a1, b1) \<Rightarrow>
      case lossy_rounds config tx xs (a1, b1) of (ms', a2, b2) \<Rightarrow> (ms @ ms', a2, b2))"

text \<open>
  A round no ACK queue overflows in and no reassembly slot is given up in, for slots filled since \<open>c\<close>: the link hands over
  at most 16 data frames, and the receiver is polled less than \<open>reassembly_timeout_ms\<close> after \<open>c\<close>.
\<close>

definition round_ok :: "EngineConfig \<Rightarrow> u64 \<Rightarrow> link_round \<Rightarrow> bool" where
  "round_ok config c = (\<lambda>(ta, pick, tb, reply).
     length pick \<le> MAX_PENDING_ACKS \<and> c \<le> tb \<and> tb - c < reassembly_timeout_ms config)"

definition lossless :: "link_round \<Rightarrow> bool" where
  "lossless = (\<lambda>(ta, pick, tb, reply). {..<MAX_EVENTS} \<subseteq> set pick \<and> {..<MAX_PENDING_ACKS} \<subseteq> set reply)"

text \<open>Successive rounds are at least one retransmission timeout apart.\<close>

fun paced :: "EngineConfig \<Rightarrow> u64 \<Rightarrow> link_round list \<Rightarrow> bool" where
  "paced config t [] = True"
| "paced config t ((ta, pick, tb, reply) # xs) =
     (t < ta \<and> retransmit_timeout_ms config \<le> ta - t \<and> paced config ta xs)"

lemma transmitted_simps [simp]:
  "transmitted [] = []" "transmitted (Ok (EnginePoll.Transmit bs k) # rs) = bs # transmitted rs"
  "transmitted (Ok (EnginePoll.Message ev) # rs) = transmitted rs" "transmitted (Ok EnginePoll.Idle # rs) = transmitted rs"
  "transmitted (rs @ rs') = transmitted rs @ transmitted rs'"
  by (simp_all add: transmitted_def)

lemma messages_of_simps [simp]:
  "messages_of [] = []" "messages_of (Ok (EnginePoll.Transmit bs k) # rs) = messages_of rs"
  "messages_of (Ok (EnginePoll.Message ev) # rs) = ev # messages_of rs" "messages_of (Ok EnginePoll.Idle # rs) = messages_of rs"
  "messages_of (rs @ rs') = messages_of rs @ messages_of rs'"
  by (simp_all add: messages_of_def)

lemma poll_outputs:
  "transmitted (map (\<lambda>i. Ok (EnginePoll.Transmit (f i) k)) xs) = map f xs"
  "messages_of (map (\<lambda>i. Ok (EnginePoll.Transmit (f i) k)) xs) = []"
  by (induction xs) simp_all

lemma idle_outputs [simp]:
  "transmitted (replicate m (Ok EnginePoll.Idle)) = []" "messages_of (replicate m (Ok EnginePoll.Idle)) = []"
  by (induction m) simp_all

lemma message_outputs [simp]:
  "transmitted (map (Ok \<circ> EnginePoll.Message) ms) = []" "messages_of (map (Ok \<circ> EnginePoll.Message) ms) = ms"
  by (induction ms) simp_all

text \<open>
  A round after the sender put the frames of the fragments \<open>us\<close> on the link.  Every fragment is either
  still in flight or already there, before and after.
\<close>

lemma round_outcome:
  assumes "poll_times config ta tx MAX_EVENTS a =
      (map (\<lambda>i. Ok (EnginePoll.Transmit (frag_frame (integrity config) PacketType.Data mid fb msg i) k)) us @
       replicate m (Ok EnginePoll.Idle), a1)"
    and "awaiting config mid msg (set us) ta attempts a1" "set us \<subseteq> {..<n}" "{..<n} - set us \<subseteq> set rs" "length us \<le> MAX_EVENTS"
    and "gathering config c D mid msg rs b" "ack_list (es_ack b) = []" "message_list (es_message b) = []"
    and "length msg \<le> MAX_MESSAGE_BYTES" "fb = fragment_limit config PacketType.Data" "n = fragment_count (length msg) fb"
    and "n \<le> MAX_EVENTS" "round_ok config c (ta, pick, tb, reply)" "MAX_WIRE_BYTES \<le> length tx"
  obtains ms a2 b2 U rs' where "lossy_round config tx (ta, pick, tb, reply) (a, b) = (ms, a2, b2)"
    "awaiting config mid msg U ta attempts a2" "U \<subseteq> {..<n}" "{..<n} - U \<subseteq> set rs'" "es_numbers a2 = es_numbers a1"
    "gathering config c D mid msg rs' b2" "ack_list (es_ack b2) = []" "message_list (es_message b2) = []"
    "es_clock b2 = ClockState tb" "set rs \<subseteq> set rs'" "handed mid msg n (set rs) (set rs') ms"
    "lossless (ta, pick, tb, reply) \<longrightarrow> U = {} \<and> set rs' = {..<n}"
proof -
  let ?is = "through pick us"
  let ?js = "through reply ?is"
  have R: "length pick \<le> MAX_PENDING_ACKS" "c \<le> tb" "tb - c < reassembly_timeout_ms config"
    using assms(13) by (simp_all add: round_ok_def)
  have is_sub: "set ?is \<subseteq> {..<n}" and len: "length ?is \<le> MAX_PENDING_ACKS"
    using through_set[of pick us] assms(3) R(1) by auto
  obtain reports b1 rs' ms where B: "receive_all config (map (frag_frame (integrity config) PacketType.Data mid fb msg) ?is) b = (reports, b1)"
    "gathering config c D mid msg rs' b1" "set rs' = set rs \<union> set ?is" "ack_list (es_ack b1) = map (frag_key mid) ?is"
    "message_list (es_message b1) = ms" "handed mid msg n (set rs) (set rs') ms"
    using gather_frames[OF assms(6) _ is_sub _ assms(9-12)] assms(7,8) len by auto
  obtain b2 where B2: "poll_times config tb tx (Suc MAX_PENDING_ACKS) b1 =
      (map (\<lambda>i. Ok (EnginePoll.Transmit (wire_frame (integrity config) (ack_packet (frag_key mid i))) 0)) ?is @
       map (Ok \<circ> EnginePoll.Message) ms @ replicate (Suc MAX_PENDING_ACKS - (length ?is + length ms)) (Ok EnginePoll.Idle), b2)"
    "gathering config c D mid msg rs' b2" "ack_list (es_ack b2) = []" "message_list (es_message b2) = []"
    "es_receive b2 = es_receive b1" "es_clock b2 = ClockState tb"
    by (rule gather_poll[OF B(2,4,5) _ handed_length[OF B(6)] _ assms(14) R(2,3), where n = "Suc MAX_PENDING_ACKS"])
       (use handed_length[OF B(6)] len in simp_all)
  have js_sub: "set ?js \<subseteq> set ?is" by (rule through_set)
  obtain acks a2 where A2: "receive_all config (map (\<lambda>i. wire_frame (integrity config) (ack_packet (frag_key mid i))) ?js) a1 = (acks, a2)"
    "awaiting config mid msg (set us - set ?js) ta attempts a2" "es_numbers a2 = es_numbers a1"
  proof (rule awaiting_acks[OF assms(2)])
    have "n \<le> 2 ^ 16" using assms(12) by simp
    then show "set us \<union> set ?js \<subseteq> {..<2 ^ 16}" using assms(3) js_sub is_sub by (meson Un_least lessThan_subset_iff subset_trans)
  qed
  have round: "lossy_round config tx (ta, pick, tb, reply) (a, b) = (ms, a2, b2)"
    using assms(1) B(1) B2(1) A2(1)
    by (simp add: lossy_round_def Let_def poll_outputs through_map)
  have full: "lossless (ta, pick, tb, reply) \<longrightarrow> set us - set ?js = {} \<and> set rs' = {..<n}"
  proof
    assume that: "lossless (ta, pick, tb, reply)"
    have "set ?is = set us" using that assms(5) by (intro through_all) (auto simp: lossless_def)
    moreover have "set ?js = set ?is" using that len by (intro through_all) (auto simp: lossless_def)
    ultimately show "set us - set ?js = {} \<and> set rs' = {..<n}" using B(3) assms(4) gatheringD(3)[OF B(2) assms(10,11)] by auto
  qed
  show thesis
    by (rule that[OF round A2(2) _ _ A2(3) B2(2-4,6) _ B(6) full])
       (use assms(3,4) B(3) js_sub in auto)
qed


definition answered_at :: "link_round \<Rightarrow> u64" where
  "answered_at = (\<lambda>(ta, pick, tb, reply). tb)"

text \<open>The state of a transfer between two rounds.\<close>

definition under_way :: "EngineConfig \<Rightarrow> u64 \<Rightarrow> PacketKey set \<Rightarrow> MessageId \<Rightarrow> bytes \<Rightarrow> nat \<Rightarrow>
    nat set \<Rightarrow> nat list \<Rightarrow> u64 \<Rightarrow> u8 \<Rightarrow> EngineState \<times> EngineState \<Rightarrow> bool" where
  "under_way config c D mid msg n U rs t attempts = (\<lambda>(a, b). awaiting config mid msg U t attempts a \<and> U \<subseteq> {..<n} \<and>
     {..<n} - U \<subseteq> set rs \<and> gathering config c D mid msg rs b \<and> ack_list (es_ack b) = [] \<and> message_list (es_message b) = [])"

lemma next_round:
  assumes "under_way config c D mid msg n U rs t attempts (a, b)" "dynamic_recovery config = None" "t < ta"
    and "retransmit_timeout_ms config \<le> ta - t" "attempts < max_retransmit_attempts config"
    and "length msg \<le> MAX_MESSAGE_BYTES" "n = fragment_count (length msg) (fragment_limit config PacketType.Data)"
    and "n \<le> MAX_EVENTS" "round_ok config c (ta, pick, tb, reply)" "MAX_WIRE_BYTES \<le> length tx"
  obtains ms a2 b2 U' rs' where "lossy_round config tx (ta, pick, tb, reply) (a, b) = (ms, a2, b2)"
    "under_way config c D mid msg n U' rs' ta (attempts + 1) (a2, b2)" "es_numbers a2 = es_numbers a"
    "es_clock b2 = ClockState tb" "set rs \<subseteq> set rs'" "handed mid msg n (set rs) (set rs') ms"
    "lossless (ta, pick, tb, reply) \<longrightarrow> U' = {} \<and> set rs' = {..<n}"
proof -
  have W: "awaiting config mid msg U t attempts a" "U \<subseteq> {..<n}" "{..<n} - U \<subseteq> set rs"
    "gathering config c D mid msg rs b" "ack_list (es_ack b) = []" "message_list (es_message b) = []"
    using assms(1) by (auto simp: under_way_def)
  have "U \<subseteq> {..<MAX_EVENTS}" using W(2) assms(8) by (meson lessThan_subset_iff subset_trans)
  then obtain us a1 where S: "distinct us" "set us = U"
    "poll_times config ta tx MAX_EVENTS a =
      (map (\<lambda>i. Ok (EnginePoll.Transmit (frag_frame (integrity config) PacketType.Data mid
         (fragment_limit config PacketType.Data) msg i) (attempts + 1))) us @
       replicate (MAX_EVENTS - length us) (Ok EnginePoll.Idle), a1)"
    "awaiting config mid msg U ta (attempts + 1) a1" "es_numbers a1 = es_numbers a"
    by (rule resend[OF W(1) assms(2-5,10)])
  have len: "length us \<le> MAX_EVENTS"
    using card_mono[OF finite_lessThan \<open>U \<subseteq> {..<MAX_EVENTS}\<close>] distinct_card[OF S(1)] S(2) by simp
  obtain ms a2 b2 U' rs' where "lossy_round config tx (ta, pick, tb, reply) (a, b) = (ms, a2, b2)"
    "awaiting config mid msg U' ta (attempts + 1) a2" "U' \<subseteq> {..<n}" "{..<n} - U' \<subseteq> set rs'" "es_numbers a2 = es_numbers a1"
    "gathering config c D mid msg rs' b2" "ack_list (es_ack b2) = []" "message_list (es_message b2) = []"
    "es_clock b2 = ClockState tb" "set rs \<subseteq> set rs'" "handed mid msg n (set rs) (set rs') ms"
    "lossless (ta, pick, tb, reply) \<longrightarrow> U' = {} \<and> set rs' = {..<n}"
    by (rule round_outcome[OF S(3) S(4)[folded S(2)] W(2,3)[folded S(2)] len W(4-6) assms(6) refl assms(7-10)])
  then show thesis using that[of ms a2 b2 U' rs'] S(5) by (simp add: under_way_def)
qed

lemma later_rounds:
  assumes "dynamic_recovery config = None" "length msg \<le> MAX_MESSAGE_BYTES" "MAX_WIRE_BYTES \<le> length tx"
    and "n = fragment_count (length msg) (fragment_limit config PacketType.Data)" "n \<le> MAX_EVENTS"
  shows "under_way config c D mid msg n U rs t attempts (a, b) \<Longrightarrow> paced config t xs \<Longrightarrow>
    unat attempts + length xs \<le> unat (max_retransmit_attempts config) \<Longrightarrow> \<forall>x\<in>set xs. round_ok config c x \<Longrightarrow>
    \<exists>ms a' b' U' rs' t' attempts'. lossy_rounds config tx xs (a, b) = (ms, a', b') \<and>
      under_way config c D mid msg n U' rs' t' attempts' (a', b') \<and> es_numbers a' = es_numbers a \<and>
      es_clock b' = (if xs = [] then es_clock b else ClockState (answered_at (last xs))) \<and>
      set rs \<subseteq> set rs' \<and> handed mid msg n (set rs) (set rs') ms \<and>
      (if xs = [] then U' = U \<and> rs' = rs else lossless (last xs) \<longrightarrow> U' = {} \<and> set rs' = {..<n})"
proof (induction xs arbitrary: a b U rs t attempts)
  case Nil
  then show ?case by (intro exI[of _ "[]"] exI[of _ a] exI[of _ b] exI[of _ U] exI[of _ rs] exI[of _ t] exI[of _ attempts]) simp
next
  case (Cons x xs)
  obtain ta pick tb reply where x: "x = (ta, pick, tb, reply)" by (cases x)
  have less: "attempts < max_retransmit_attempts config" using Cons.prems(3) by (simp add: word_less_nat_alt)
  have P: "t < ta" "retransmit_timeout_ms config \<le> ta - t" "paced config ta xs" using Cons.prems(2) x by simp_all
  have r: "round_ok config c (ta, pick, tb, reply)" using Cons.prems(4) x by simp
  obtain ms a1 b1 U1 rs1 where N: "lossy_round config tx (ta, pick, tb, reply) (a, b) = (ms, a1, b1)"
    "under_way config c D mid msg n U1 rs1 ta (attempts + 1) (a1, b1)" "es_numbers a1 = es_numbers a"
    "es_clock b1 = ClockState tb" "set rs \<subseteq> set rs1" "handed mid msg n (set rs) (set rs1) ms"
    "lossless (ta, pick, tb, reply) \<longrightarrow> U1 = {} \<and> set rs1 = {..<n}"
    by (rule next_round[OF Cons.prems(1) assms(1) P(1,2) less assms(2,4,5) r assms(3)])
  have "unat attempts < 255" using less unat_lt2p[of "max_retransmit_attempts config"] by (simp add: word_less_nat_alt)
  then have "unat (attempts + 1) + length xs \<le> unat (max_retransmit_attempts config)"
    using Cons.prems(3) by (simp add: unat_word_ariths)
  moreover have "\<forall>x\<in>set xs. round_ok config c x" using Cons.prems(4) by simp
  ultimately obtain ms' a2 b2 U2 rs2 t2 k2 where L: "lossy_rounds config tx xs (a1, b1) = (ms', a2, b2)"
    "under_way config c D mid msg n U2 rs2 t2 k2 (a2, b2)" "es_numbers a2 = es_numbers a1"
    "es_clock b2 = (if xs = [] then es_clock b1 else ClockState (answered_at (last xs)))"
    "set rs1 \<subseteq> set rs2" "handed mid msg n (set rs1) (set rs2) ms'"
    "if xs = [] then U2 = U1 \<and> rs2 = rs1 else lossless (last xs) \<longrightarrow> U2 = {} \<and> set rs2 = {..<n}"
    using Cons.IH[OF N(2) P(3)] by blast
  have "gathering config c D mid msg rs2 b2" using L(2) by (simp add: under_way_def)
  then have "set rs2 \<subseteq> {..<n}" by (rule gatheringD(3)[OF _ refl assms(4)])
  then have H: "handed mid msg n (set rs) (set rs2) (ms @ ms')" by (rule handed_trans[OF N(6) L(6) N(5) L(5)])
  have E: "lossless (last (x # xs)) \<longrightarrow> U2 = {} \<and> set rs2 = {..<n}"
    using L(7) N(7) x by (cases "xs = []") simp_all
  show ?case
    by (intro exI[of _ "ms @ ms'"] exI[of _ a2] exI[of _ b2] exI[of _ U2] exI[of _ rs2] exI[of _ t2] exI[of _ k2])
       (use N(1,3,4,5) L(1-5) H E x in \<open>simp add: answered_at_def\<close>)
qed


section \<open>Messages over a lossy link\<close>

definition lossy_transfer :: "EngineConfig \<Rightarrow> bytes \<Rightarrow> bytes \<times> link_round list \<Rightarrow> EngineState \<times> EngineState \<Rightarrow>
    MessageEvent list \<times> EngineState \<times> EngineState" where
  "lossy_transfer config tx = (\<lambda>(msg, xs) (a, b). lossy_rounds config tx xs (snd (EngineState_send_data config msg a), b))"

text \<open>
  The rounds of a transfer that starts at the receiver's time \<open>c\<close>: the first one and as many more as the retransmission
  limit allows, at least one timeout apart.
\<close>

definition rounds_ok :: "EngineConfig \<Rightarrow> u64 \<Rightarrow> link_round list \<Rightarrow> bool" where
  "rounds_ok config c xs \<longleftrightarrow> xs \<noteq> [] \<and> paced config (fst (hd xs)) (tl xs) \<and>
     length xs \<le> Suc (unat (max_retransmit_attempts config)) \<and> (\<forall>x\<in>set xs. round_ok config c x)"

lemma first_round:
  assumes "quiet config a" "quiet config b" "length msg \<le> MAX_MESSAGE_BYTES" "MAX_WIRE_BYTES \<le> length tx"
    and "NumberState_alloc_message_id (es_numbers a) = (mid, numbers)"
    and "D = set (dedup_recent (rc_dedup (es_receive b)))" "\<forall>k\<in>D. key_message_id k \<noteq> mid"
    and "n = fragment_count (length msg) (fragment_limit config PacketType.Data)" "n \<le> MAX_EVENTS"
    and "c = ClockState_now_ms (es_clock b)" "round_ok config c (ta, pick, tb, reply)"
  obtains ms a2 b2 U rs where
    "lossy_round config tx (ta, pick, tb, reply) (snd (EngineState_send_data config msg a), b) = (ms, a2, b2)"
    "under_way config c D mid msg n U rs ta 0 (a2, b2)" "es_numbers a2 = numbers"
    "es_clock b2 = ClockState tb" "handed mid msg n {} (set rs) ms"
    "lossless (ta, pick, tb, reply) \<longrightarrow> U = {} \<and> set rs = {..<n}"
proof -
  let ?fb = "fragment_limit config PacketType.Data"
  obtain a1 a2 where A: "EngineState_send_data config msg a = (Ok mid, a1)"
    "poll_times config ta tx MAX_EVENTS a1 =
      (map (\<lambda>i. Ok (EnginePoll.Transmit (frag_frame (integrity config) PacketType.Data mid ?fb msg i) 0)) [0..<n] @
       replicate (MAX_EVENTS - n) (Ok EnginePoll.Idle), a2)"
    "awaiting config mid msg {..<n} ta 0 a2" "es_numbers a2 = numbers"
    by (rule first_send[OF assms(1,3,4,5,8,9)])
  have all: "set [0..<n] = {..<n}" by auto
  have g: "gathering config c D mid msg [] b" using gathering_quiet[OF assms(2)] assms(6,7,10) by simp
  have e: "ack_list (es_ack b) = []" "message_list (es_message b) = []" using assms(2) by (auto simp: quiet_def no_urgent_def)
  obtain ms a3 b3 U rs where "lossy_round config tx (ta, pick, tb, reply) (a1, b) = (ms, a3, b3)"
    "awaiting config mid msg U ta 0 a3" "U \<subseteq> {..<n}" "{..<n} - U \<subseteq> set rs" "es_numbers a3 = es_numbers a2"
    "gathering config c D mid msg rs b3" "ack_list (es_ack b3) = []" "message_list (es_message b3) = []"
    "es_clock b3 = ClockState tb" "set [] \<subseteq> set rs" "handed mid msg n (set []) (set rs) ms"
    "lossless (ta, pick, tb, reply) \<longrightarrow> U = {} \<and> set rs = {..<n}"
    by (rule round_outcome[OF A(2) A(3)[folded all] _ _ _ g e assms(3) refl assms(8,9,11,4)])
       (use assms(9) in auto)
  then show thesis using that[of ms a3 b3 U rs] A(1,4) by (simp add: under_way_def)
qed

text \<open>
  However many frames are lost, repeated and reordered, the message is delivered at most once, and
  once nothing is lost it has been delivered and both engines are as quiet as before.
\<close>

lemma lossy_transfer_outcome:
  assumes "quiet config a" "quiet config b" "length msg \<le> MAX_MESSAGE_BYTES" "MAX_WIRE_BYTES \<le> length tx"
    and "NumberState_alloc_message_id (es_numbers a) = (mid, numbers)"
    and "D = set (dedup_recent (rc_dedup (es_receive b)))" "\<forall>k\<in>D. key_message_id k \<noteq> mid"
    and "n = fragment_count (length msg) (fragment_limit config PacketType.Data)" "n \<le> MAX_EVENTS"
    and "dynamic_recovery config = None" "rounds_ok config (ClockState_now_ms (es_clock b)) xs"
  obtains ms a' b' where "lossy_transfer config tx (msg, xs) (a, b) = (ms, a', b')"
    "ms = [] \<or> (\<exists>ev. ms = [ev] \<and> carries mid msg ev)" "es_numbers a' = numbers"
    "lossless (last xs) \<longrightarrow> ms \<noteq> [] \<and> quiet config a' \<and> quiet config b' \<and>
       es_clock b' = ClockState (answered_at (last xs)) \<and>
       (\<forall>k\<in>set (dedup_recent (rc_dedup (es_receive b'))). key_message_id k = mid \<or> k \<in> D)"
proof -
  let ?c = "ClockState_now_ms (es_clock b)" and ?a = "snd (EngineState_send_data config msg a)"
  obtain x ys where xs: "xs = x # ys" using assms(11) by (cases xs) (auto simp: rounds_ok_def)
  obtain ta pick tb reply where x: "x = (ta, pick, tb, reply)" by (cases x)
  have X: "paced config ta ys" "length ys \<le> unat (max_retransmit_attempts config)"
    "round_ok config ?c (ta, pick, tb, reply)" "\<forall>x\<in>set ys. round_ok config ?c x"
    using assms(11) by (auto simp: rounds_ok_def xs x)
  obtain ms a1 b1 U rs where F: "lossy_round config tx (ta, pick, tb, reply) (?a, b) = (ms, a1, b1)"
    "under_way config ?c D mid msg n U rs ta 0 (a1, b1)" "es_numbers a1 = numbers"
    "es_clock b1 = ClockState tb" "handed mid msg n {} (set rs) ms"
    "lossless (ta, pick, tb, reply) \<longrightarrow> U = {} \<and> set rs = {..<n}"
    by (rule first_round[OF assms(1-9) refl X(3)])
  obtain ms' a2 b2 U' rs' t' k' where L: "lossy_rounds config tx ys (a1, b1) = (ms', a2, b2)"
    "under_way config ?c D mid msg n U' rs' t' k' (a2, b2)" "es_numbers a2 = es_numbers a1"
    "es_clock b2 = (if ys = [] then es_clock b1 else ClockState (answered_at (last ys)))"
    "set rs \<subseteq> set rs'" "handed mid msg n (set rs) (set rs') ms'"
    "if ys = [] then U' = U \<and> rs' = rs else lossless (last ys) \<longrightarrow> U' = {} \<and> set rs' = {..<n}"
    using later_rounds[OF assms(10,3,4,8,9) F(2) X(1) _ X(4)] X(2) by auto
  have W: "awaiting config mid msg U' t' k' a2" "gathering config ?c D mid msg rs' b2" "ack_list (es_ack b2) = []"
    "message_list (es_message b2) = []" using L(2) by (simp_all add: under_way_def)
  have sub: "set rs' \<subseteq> {..<n}" by (rule gatheringD(3)[OF W(2) refl assms(8)])
  have H: "handed mid msg n {} (set rs') (ms @ ms')" by (rule handed_trans[OF F(5) L(6) _ L(5) sub]) simp
  have "lossy_transfer config tx (msg, xs) (a, b) = (ms @ ms', a2, b2)"
    using F(1) L(1) by (simp add: lossy_transfer_def xs x)
  moreover have "ms @ ms' = [] \<or> (\<exists>ev. ms @ ms' = [ev] \<and> carries mid msg ev)"
    by (rule handed_cases[OF H])
  moreover have "ms @ ms' \<noteq> [] \<and> quiet config a2 \<and> quiet config b2 \<and> es_clock b2 = ClockState (answered_at (last xs)) \<and>
      (\<forall>k\<in>set (dedup_recent (rc_dedup (es_receive b2))). key_message_id k = mid \<or> k \<in> D)" if "lossless (last xs)"
  proof -
    have E: "U' = {}" "set rs' = {..<n}" using L(7) F(6) that by (simp_all add: xs x split: if_splits)
    have "0 < fragment_limit config PacketType.Data" using fragment_limit_bounds by simp
    then have "0 < n" using fragment_count_bounds(1) assms(8) by simp
    then have "ms @ ms' \<noteq> []" using handed_full[OF H[unfolded E(2)]] by simp
    moreover have "quiet config a2" using W(1) E(1) awaiting_none_quiet by blast
    moreover have "quiet config b2" using quiet_gathered[OF W(2-4)] E(2) assms(8) by simp
    moreover have "es_clock b2 = ClockState (answered_at (last xs))"
      using L(4) F(4) by (simp add: xs x answered_at_def)
    moreover have "\<forall>k\<in>set (dedup_recent (rc_dedup (es_receive b2))). key_message_id k = mid \<or> k \<in> D"
      using W(2) by (auto simp: gathering_def PacketKey_new_def)
    ultimately show ?thesis by blast
  qed
  ultimately show thesis using that L(3) F(3) by metis
qed


fun lossy_session :: "EngineConfig \<Rightarrow> bytes \<Rightarrow> (bytes \<times> link_round list) list \<Rightarrow> EngineState \<times> EngineState \<Rightarrow>
    MessageEvent list \<times> EngineState \<times> EngineState" where
  "lossy_session config tx [] (a, b) = ([], a, b)"
| "lossy_session config tx (x # xs) (a, b) =
     (case lossy_transfer config tx x (a, b) of (ms, a1, b1) \<Rightarrow>
      case lossy_session config tx xs (a1, b1) of (ms', a2, b2) \<Rightarrow> (ms @ ms', a2, b2))"

text \<open>
  The hypotheses on a session, from the receiver's clock \<open>c\<close> on: messages of legal size, and for each
  of them lossy rounds that end with one that loses nothing.
\<close>

fun session_ok :: "EngineConfig \<Rightarrow> u64 \<Rightarrow> (bytes \<times> link_round list) list \<Rightarrow> bool" where
  "session_ok config c [] = True"
| "session_ok config c ((msg, xs) # rest) = (length msg \<le> MAX_MESSAGE_BYTES \<and>
     fragment_count (length msg) (fragment_limit config PacketType.Data) \<le> MAX_EVENTS \<and>
     rounds_ok config c xs \<and> lossless (last xs) \<and> session_ok config (answered_at (last xs)) rest)"

lemma lossy_session_from_quiet:
  assumes "dynamic_recovery config = None" "MAX_WIRE_BYTES \<le> length tx"
  shows "quiet config a \<Longrightarrow> quiet config b \<Longrightarrow> session_ok config (ClockState_now_ms (es_clock b)) xs \<Longrightarrow>
    distinct (alloc_ids (length xs) (es_numbers a)) \<Longrightarrow>
    \<forall>k\<in>set (dedup_recent (rc_dedup (es_receive b))). key_message_id k \<notin> set (alloc_ids (length xs) (es_numbers a)) \<Longrightarrow>
    \<exists>ms a' b'. lossy_session config tx xs (a, b) = (ms, a', b') \<and> map MessageEvent_as_bytes ms = map (\<lambda>(msg, _). Ok msg) xs \<and>
      map me_message_id ms = alloc_ids (length xs) (es_numbers a) \<and> quiet config a' \<and> quiet config b'"
proof (induction xs arbitrary: a b)
  case (Cons x xs)
  obtain msg rounds where x: "x = (msg, rounds)" by (cases x)
  let ?D = "set (dedup_recent (rc_dedup (es_receive b)))"
  obtain mid numbers where al: "NumberState_alloc_message_id (es_numbers a) = (mid, numbers)" by fastforce
  have ids: "alloc_ids (length (x # xs)) (es_numbers a) = mid # alloc_ids (length xs) numbers" using al by simp
  have S: "length msg \<le> MAX_MESSAGE_BYTES" "fragment_count (length msg) (fragment_limit config PacketType.Data) \<le> MAX_EVENTS"
    "rounds_ok config (ClockState_now_ms (es_clock b)) rounds" "lossless (last rounds)"
    "session_ok config (answered_at (last rounds)) xs" using Cons.prems(3) x by simp_all
  have fresh: "\<forall>k\<in>?D. key_message_id k \<noteq> mid" using Cons.prems(5) unfolding ids by auto
  obtain ms a1 b1 where T: "lossy_transfer config tx (msg, rounds) (a, b) = (ms, a1, b1)"
    "ms = [] \<or> (\<exists>ev. ms = [ev] \<and> carries mid msg ev)" "es_numbers a1 = numbers"
    "lossless (last rounds) \<longrightarrow> ms \<noteq> [] \<and> quiet config a1 \<and> quiet config b1 \<and>
       es_clock b1 = ClockState (answered_at (last rounds)) \<and>
       (\<forall>k\<in>set (dedup_recent (rc_dedup (es_receive b1))). key_message_id k = mid \<or> k \<in> ?D)"
    by (rule lossy_transfer_outcome[OF Cons.prems(1,2) S(1) assms(2) al refl fresh refl S(2) assms(1) S(3)])
  have Q: "quiet config a1" "quiet config b1" "es_clock b1 = ClockState (answered_at (last rounds))"
    "\<forall>k\<in>set (dedup_recent (rc_dedup (es_receive b1))). key_message_id k = mid \<or> k \<in> ?D" "ms \<noteq> []"
    using T(4) S(4) by blast+
  obtain ev where ev: "ms = [ev]" "carries mid msg ev" using T(2) Q(5) by blast
  have d: "distinct (alloc_ids (length xs) (es_numbers a1))" using Cons.prems(4) T(3) unfolding ids by simp
  have k: "\<forall>k\<in>set (dedup_recent (rc_dedup (es_receive b1))). key_message_id k \<notin> set (alloc_ids (length xs) (es_numbers a1))"
    using T(3) Q(4) Cons.prems(4,5) unfolding ids by auto
  have "session_ok config (ClockState_now_ms (es_clock b1)) xs" using S(5) Q(3) by simp
  from Cons.IH[OF Q(1,2) this d k] obtain ms' a2 b2 where
    "lossy_session config tx xs (a1, b1) = (ms', a2, b2)" "map MessageEvent_as_bytes ms' = map (\<lambda>(msg, _). Ok msg) xs"
    "map me_message_id ms' = alloc_ids (length xs) (es_numbers a1)" "quiet config a2" "quiet config b2" by blast
  then show ?case using T(1,3) ev x ids by (intro exI[of _ "ev # ms'"] exI[of _ a2] exI[of _ b2]) (simp add: carries_def)
qed simp

text \<open>A new engine that has been polled once knows the time and is otherwise as new.\<close>

lemma quiet_started:
  fixes config :: EngineConfig and initial :: MessageId
  defines "b \<equiv> EngineState_new initial config"
  shows "quiet config (snd (EngineState_poll config now tx b))"
    "es_clock (snd (EngineState_poll config now tx b)) = ClockState now"
    "es_receive (snd (EngineState_poll config now tx b)) = es_receive b"
proof -
  have q: "quiet config b" unfolding b_def by (rule quiet_new)
  then have Q: "no_urgent b" "message_list (es_message b) = []" "sched_view (es_scheduler b) QueueKind.NewData = []"
    "engine_ok config b" "dom (reasm_map (es_reassembly b)) = {}" "idle_stream b"
    "dom (inflight_map (rs_in_flight (es_recovery b))) = {}" by (auto simp: quiet_def)
  obtain b' where p: "EngineState_poll config now tx b = (Ok EnginePoll.Idle, b')"
    "poll_keeps config now b b'" "engine_ok config b'" "ack_list (es_ack b') = []" "message_list (es_message b') = []"
    "sched_view (es_scheduler b') = sched_view (es_scheduler b)"
    "inflight_map (rs_in_flight (es_recovery b')) = inflight_map (rs_in_flight (es_recovery b))"
    by (rule poll_next_idle[OF quiet_calm[OF q] Q(1-3)])
  have "dom (reasm_map (es_reassembly b')) = {}" by (rule poll_keeps_no_slots[OF Q(4) p(2) Q(5)])
  then show "quiet config (snd (EngineState_poll config now tx b))"
    "es_clock (snd (EngineState_poll config now tx b)) = ClockState now"
    "es_receive (snd (EngineState_poll config now tx b)) = es_receive b"
    using p Q by (simp_all add: quiet_def poll_keeps_def no_urgent_def idle_stream_def)
qed

text \<open>A fragment that is alone in the reassembly table and does not make up the message.\<close>

lemma lone_fragment:
  assumes "engine_ok config b" "idle_stream b" "dom (reasm_map (es_reassembly b)) = {}"
    and "length msg \<le> MAX_MESSAGE_BYTES" "fb = fragment_limit config PacketType.Data"
    and "i < fragment_count (length msg) fb" "fragment_count (length msg) fb \<noteq> 1"
    and "frag_key mid i \<notin> set (dedup_recent (rc_dedup (es_receive b)))" "length (ack_list (es_ack b)) < MAX_PENDING_ACKS"
  obtains b' slot where
    "EngineState_receive config (frag_frame (integrity config) PacketType.Data mid fb msg i) b =
      (Ok (ReceiveReport.Packet (PacketIndex (of_nat i))), b')" "engine_ok config b'" "idle_stream b'"
    "reasm_map (es_reassembly b') = [data_key mid \<mapsto> slot]" "rl_updated_at_ms slot = ClockState_now_ms (es_clock b)"
    "es_message b' = es_message b" "ack_list (es_ack b') = ack_list (es_ack b) @ [frag_key mid i]"
    "es_scheduler b' = es_scheduler b" "es_recovery b' = es_recovery b"
    "set (dedup_recent (rc_dedup (es_receive b'))) \<subseteq> insert (frag_key mid i) (set (dedup_recent (rc_dedup (es_receive b))))"
proof -
  let ?f = "frag_fragment mid fb msg i" and ?now = "ClockState_now_ms (es_clock b)"
  let ?slot = "slot_store ?f ?now (ReassemblySlot_start (fragment_key ?f) (mf_message_len ?f) ?now)"
  have fb: "0 < fb" "fb \<le> 113 - Integrity_tag_len (integrity config)"
    using fragment_limit_bounds[of PacketType.Data config] assms(5) by simp_all
  have off: "i * fb \<le> length msg" by (rule frag_index[OF assms(6) fb(1)])
  have rok: "reasm_ok (es_reassembly b)" using assms(1) by (simp add: engine_ok_def)
  have empty: "reasm_map (es_reassembly b) = Map.empty" using assms(3) by simp
  obtain r ra where o: "ReassemblyState_observe ?f ?now (es_reassembly b) = (r, ra)" by fastforce
  obtain e where e: "entry_observe ?f ?now None = (r, e)" "reasm_map ra = Map.empty(data_key mid := e)"
    by (rule reasm_observe[OF rok _ o]) (use assms(4) empty in auto)
  have c: "collected (data_key mid) msg [] (ReassemblySlot_start (fragment_key ?f) (mf_message_len ?f) ?now)"
    using collected_start[OF assms(4)] by simp
  have "{i} \<noteq> {..<fragment_count (length msg) fb}"
    using assms(7) card_lessThan[of "fragment_count (length msg) fb"] by (metis One_nat_def card_1_singleton_iff)
  then have "\<not> complete_set msg (frag_arrivals mid fb msg ?now [i])"
    using frags_complete[OF fb(1), of "[i]" msg] assms(6) by simp
  then have re: "r = Ok None" "e = Some ?slot"
    using e(1) collected_observe(1,2)[OF c frag_part_of[OF off, of mid] assms(4), of ?now]
    by (simp_all add: entry_observe_def collected_def)
  obtain b' where b': "EngineState_receive config (frag_frame (integrity config) PacketType.Data mid fb msg i) b =
      (Ok (ReceiveReport.Packet (PacketIndex (of_nat i))), b')" "engine_ok config b'" "idle_stream b'"
    "es_reassembly b' = ra" "es_message b' = es_message b" "ack_list (es_ack b') = ack_list (es_ack b) @ [frag_key mid i]"
    "dedup_recent (rc_dedup (es_receive b')) = (let ks = dedup_recent (rc_dedup (es_receive b)) in
       (if length ks = MAX_IN_FLIGHT_PACKETS then tl ks else ks) @ [frag_key mid i])"
    "es_scheduler b' = es_scheduler b" "es_recovery b' = es_recovery b"
    by (rule receive_fragment[OF assms(1,2,4) off fb(2) assms(8,9) o[unfolded re(1)]]) simp
  have "set (dedup_recent (rc_dedup (es_receive b'))) \<subseteq> insert (frag_key mid i) (set (dedup_recent (rc_dedup (es_receive b))))"
    unfolding b'(7) Let_def by (cases "dedup_recent (rc_dedup (es_receive b))") auto
  moreover have "rl_updated_at_ms ?slot = ?now" by (simp add: slot_store_def)
  ultimately show thesis
    using e(2)[unfolded re(2), folded b'(4)] by (intro that[OF b'(1-3) _ _ b'(5,6,8,9)])
qed

text \<open>The results of polls at the times \<open>ts\<close>, one after the other.\<close>

fun poll_at :: "EngineConfig \<Rightarrow> bytes \<Rightarrow> u64 list \<Rightarrow> EngineState \<Rightarrow> EnginePoll res list" where
  "poll_at config tx [] s = []"
| "poll_at config tx (t # ts) s = (case EngineState_poll config t tx s of (r, s') \<Rightarrow> r # poll_at config tx ts s')"

text \<open>
  An engine that has nothing to say, although half a message may still be in its reassembly table: as long as
  nothing arrives, every poll at any time is idle.
\<close>

definition hushed :: "EngineConfig \<Rightarrow> EngineState \<Rightarrow> bool" where
  "hushed config s \<longleftrightarrow> engine_ok config s \<and> no_urgent s \<and> sched_view (es_scheduler s) QueueKind.NewData = [] \<and>
     message_list (es_message s) = [] \<and> dom (inflight_map (rs_in_flight (es_recovery s))) = {}"

lemma quiet_hushed: "quiet config s \<Longrightarrow> hushed config s"
  by (simp add: quiet_def hushed_def)

lemma hushed_poll:
  assumes "hushed config s"
  obtains s' where "EngineState_poll config now tx s = (Ok EnginePoll.Idle, s')" "hushed config s'"
proof -
  have H: "engine_ok config s" "no_urgent s" "message_list (es_message s) = []" "sched_view (es_scheduler s) QueueKind.NewData = []"
    "dom (inflight_map (rs_in_flight (es_recovery s))) = {}" using assms by (simp_all add: hushed_def)
  have "calm config now s" using quiet_packets(1)[OF H(1,5)] H(1) by (simp add: calm_def)
  then obtain s' where P: "EngineState_poll config now tx s = (Ok EnginePoll.Idle, s')" "engine_ok config s'"
    "ack_list (es_ack s') = []" "message_list (es_message s') = []" "sched_view (es_scheduler s') = sched_view (es_scheduler s)"
    "inflight_map (rs_in_flight (es_recovery s')) = inflight_map (rs_in_flight (es_recovery s))"
    by (rule poll_next_idle[OF _ H(2-4)])
  have "no_urgent s'" using P(3,5) H(2) unfolding no_urgent_def by metis
  moreover have "sched_view (es_scheduler s') QueueKind.NewData = []" using P(5) H(4) by metis
  ultimately show thesis using that[OF P(1)] P(2,4,6) H(5) by (simp add: hushed_def)
qed

lemma hushed_forever: "hushed config s \<Longrightarrow> poll_at config tx ts s = map (\<lambda>_. Ok EnginePoll.Idle) ts"
proof (induction ts arbitrary: s)
  case (Cons t ts)
  obtain s' where "EngineState_poll config t tx s = (Ok EnginePoll.Idle, s')" "hushed config s'"
    by (rule hushed_poll[OF Cons.prems])
  then show ?case using Cons.IH by simp
qed simp

text \<open>
  A receiver that gets its first fragment before its first poll: the fragment is stamped with time 0 and expires in the
  poll that acknowledges it, and the second one is alone after that.
\<close>

lemma stale_receiver:
  fixes mid :: MessageId and msg :: bytes
  assumes "length msg \<le> MAX_MESSAGE_BYTES" "MAX_WIRE_BYTES \<le> length tx" "fb = fragment_limit config PacketType.Data"
    and "fragment_count (length msg) fb = 2" "reassembly_timeout_ms config \<le> now"
  defines "frame \<equiv> frag_frame (integrity config) PacketType.Data mid fb msg"
  obtains b1 b2 b3 where "EngineState_receive config (frame 0) (EngineState_new initial config) = (Ok (ReceiveReport.Packet (PacketIndex 0)), b1)"
    "EngineState_poll config now tx b1 = (Ok (EnginePoll.Transmit (wire_frame (integrity config) (ack_packet (frag_key mid 0))) 0), b2)"
    "EngineState_receive config (frame 1) b2 = (Ok (ReceiveReport.Packet (PacketIndex 1)), b3)" "engine_ok config b3"
    "ack_list (es_ack b3) = [frag_key mid 1]" "message_list (es_message b3) = []"
    "sched_view (es_scheduler b3) = (\<lambda>_. [])" "dom (inflight_map (rs_in_flight (es_recovery b3))) = {}"
proof -
  let ?b = "EngineState_new initial config"
  have q: "engine_ok config ?b" "idle_stream ?b" "dom (reasm_map (es_reassembly ?b)) = {}" "ack_list (es_ack ?b) = []"
    "message_list (es_message ?b) = []" "dom (inflight_map (rs_in_flight (es_recovery ?b))) = {}"
    using quiet_new[of config initial] by (auto simp: quiet_def no_urgent_def)
  have d: "dedup_recent (rc_dedup (es_receive ?b)) = []" and clock: "ClockState_now_ms (es_clock ?b) = 0"
    using new_engine_idle(3)[of initial config] by (simp_all add: EngineState_new_def ClockState_new_def)
  obtain b1 slot where b1: "EngineState_receive config (frame 0) ?b = (Ok (ReceiveReport.Packet (PacketIndex (of_nat 0))), b1)"
    "engine_ok config b1" "idle_stream b1" "reasm_map (es_reassembly b1) = [data_key mid \<mapsto> slot]"
    "rl_updated_at_ms slot = ClockState_now_ms (es_clock ?b)" "es_message b1 = es_message ?b"
    "ack_list (es_ack b1) = ack_list (es_ack ?b) @ [frag_key mid 0]" "es_scheduler b1 = es_scheduler ?b" "es_recovery b1 = es_recovery ?b"
    "set (dedup_recent (rc_dedup (es_receive b1))) \<subseteq> insert (frag_key mid 0) (set (dedup_recent (rc_dedup (es_receive ?b))))"
    unfolding frame_def by (rule lone_fragment[OF q(1-3) assms(1,3), of 0 mid]) (use assms(4) d q(4) in simp_all)
  have "calm config now b1" using quiet_packets(1)[OF b1(2)] b1(2,9) q(6) by (simp add: calm_def)
  then obtain b2 where b2:
    "EngineState_poll config now tx b1 = (Ok (EnginePoll.Transmit (wire_frame (integrity config) (ack_packet (frag_key mid 0))) 0), b2)"
    "poll_keeps config now b1 b2" "engine_ok config b2" "ack_list (es_ack b2) = []" "es_scheduler b2 = es_scheduler b1" "es_message b2 = es_message b1"
    using poll_next_ack[OF _ _ assms(2)] b1(7) q(4) by (metis append_Nil)
  have gone: "dom (reasm_map (es_reassembly b2)) = {}"
  proof -
    have "reasm_ok (es_reassembly b1)" using b1(2) by (simp add: engine_ok_def)
    note E = reasm_expire(2)[OF this, of now "reassembly_timeout_ms config"]
    have "\<not> saturating_sub now (rl_updated_at_ms slot) < reassembly_timeout_ms config"
      using assms(5) b1(5) clock by (simp add: saturating_sub_def not_less)
    then have "reasm_map (es_reassembly b2) k \<noteq> Some v" for k v
      using E[of k v] b1(4) b2(2) by (auto simp: poll_keeps_def split: if_splits)
    then show ?thesis by (auto simp: dom_def)
  qed
  have rx: "es_receive b2 = es_receive b1" "idle_stream b2" using b2(2) b1(3) by (simp_all add: poll_keeps_def idle_stream_def)
  have new: "frag_key mid 1 \<notin> set (dedup_recent (rc_dedup (es_receive b2)))"
    using b1(10) d rx(1) by (auto simp: PacketKey_new_def)
  obtain b3 where b3: "EngineState_receive config (frame 1) b2 = (Ok (ReceiveReport.Packet (PacketIndex (of_nat 1))), b3)"
    "engine_ok config b3" "es_message b3 = es_message b2" "ack_list (es_ack b3) = ack_list (es_ack b2) @ [frag_key mid 1]"
    "es_scheduler b3 = es_scheduler b2" "es_recovery b3 = es_recovery b2"
    unfolding frame_def by (rule lone_fragment[OF b2(3) rx(2) gone assms(1,3), of 1 mid]) (use assms(4) new b2(4) in simp_all)
  have "sched_view (es_scheduler ?b) k = []" for k
    using quiet_new[of config initial] by (cases k) (simp_all add: quiet_def no_urgent_def)
  then have "sched_view (es_scheduler b3) = (\<lambda>_. [])" using b1(8) b2(5) b3(5) by (simp add: fun_eq_iff)
  moreover have "dom (inflight_map (rs_in_flight (es_recovery b3))) = {}"
    using b1(9) b2(2) b3(6) q(6) by (simp add: poll_keeps_def)
  ultimately show thesis
    using that[of b1 b2 b3] b1(1,6) b2(1,4,6) b3(1-4) q(5) by simp
qed

text \<open>The ACK for the second fragment goes out, and the receiver has nothing more to say.\<close>

lemma last_ack_hushes:
  assumes "engine_ok config b" "ack_list (es_ack b) = [k]" "message_list (es_message b) = []" "MAX_WIRE_BYTES \<le> length tx"
    and "sched_view (es_scheduler b) = (\<lambda>_. [])" "dom (inflight_map (rs_in_flight (es_recovery b))) = {}"
  obtains b' where "EngineState_poll config now tx b = (Ok (EnginePoll.Transmit (wire_frame (integrity config) (ack_packet k)) 0), b')"
    "hushed config b'"
proof -
  have "calm config now b" using quiet_packets(1)[OF assms(1,6)] assms(1) by (simp add: calm_def)
  then obtain b' where b': "EngineState_poll config now tx b = (Ok (EnginePoll.Transmit (wire_frame (integrity config) (ack_packet k)) 0), b')"
    "poll_keeps config now b b'" "engine_ok config b'" "ack_list (es_ack b') = []" "es_scheduler b' = es_scheduler b"
    "es_message b' = es_message b" by (rule poll_next_ack[OF _ assms(2,4)])
  show thesis by (rule that[OF b'(1)]) (use b' assms in \<open>simp add: hushed_def no_urgent_def poll_keeps_def\<close>)
qed

text \<open>The sender of two fragments that gets both ACKs is done with the message.\<close>

lemma two_fragments_acked:
  fixes config :: EngineConfig and ida mid :: MessageId and msg :: bytes
  assumes "length msg \<le> MAX_MESSAGE_BYTES" "MAX_WIRE_BYTES \<le> length tx" "fb = fragment_limit config PacketType.Data"
    and "fragment_count (length msg) fb = 2" "fst (NumberState_alloc_message_id (NumberState_new ida)) = mid"
  defines "frame \<equiv> frag_frame (integrity config) PacketType.Data mid fb msg"
    and "ack \<equiv> \<lambda>i. wire_frame (integrity config) (ack_packet (frag_key mid i))"
  obtains a1 a2 a3 where "EngineState_send_data config msg (EngineState_new ida config) = (Ok mid, a1)"
    "poll_times config t tx 2 a1 = ([Ok (EnginePoll.Transmit (frame 0) 0), Ok (EnginePoll.Transmit (frame 1) 0)], a2)"
    "receive_all config [ack 0, ack 1] a2 = ([Ok (ReceiveReport.Ack (PacketIndex 0)), Ok (ReceiveReport.Ack (PacketIndex 1))], a3)"
    "hushed config a3"
proof -
  have al: "NumberState_alloc_message_id (es_numbers (EngineState_new ida config)) =
      (mid, snd (NumberState_alloc_message_id (NumberState_new ida)))" using assms(5) by (simp add: EngineState_new_def prod_eq_iff)
  have n: "2 = fragment_count (length msg) (fragment_limit config PacketType.Data)" "2 \<le> MAX_EVENTS" using assms(3,4) by simp_all
  have u: "[0..<2] = [0, 1 :: nat]" by (simp add: numeral_2_eq_2)
  obtain a1 a2 where A: "EngineState_send_data config msg (EngineState_new ida config) = (Ok mid, a1)"
    "poll_times config t tx 2 a1 = (map (\<lambda>i. Ok (EnginePoll.Transmit (frag_frame (integrity config) PacketType.Data mid
       (fragment_limit config PacketType.Data) msg i) 0)) [0..<2], a2)" "awaiting config mid msg {..<2} t 0 a2"
    by (rule send_awaiting[OF quiet_new assms(1,2) al n])
  have "{..<2} \<union> set [0, 1] \<subseteq> {..<2 ^ 16 :: nat}" by auto
  then obtain a3 where B: "receive_all config (map ack [0, 1]) a2 =
      (map (\<lambda>i. Ok (ReceiveReport.Ack (PacketIndex (of_nat i)))) [0, 1], a3)" "awaiting config mid msg ({..<2} - set [0, 1]) t 0 a3"
    unfolding ack_def by (rule awaiting_acks[OF A(3)])
  have "{..<2} - set [0, 1] = ({} :: nat set)" by auto
  then have "hushed config a3" using B(2) awaiting_none_quiet quiet_hushed by metis
  moreover have "poll_times config t tx 2 a1 = ([Ok (EnginePoll.Transmit (frame 0) 0), Ok (EnginePoll.Transmit (frame 1) 0)], a2)"
    using A(2) unfolding u frame_def assms(3) by simp
  moreover have "receive_all config [ack 0, ack 1] a2 = ([Ok (ReceiveReport.Ack (PacketIndex 0)), Ok (ReceiveReport.Ack (PacketIndex 1))], a3)"
    using B(1) by (simp del: receive_all.simps)
  ultimately show thesis using that[OF A(1)] by blast
qed

section \<open>Properties\<close>

text \<open>
  C1. Reliability over a lossy link: the link may lose, repeat and reorder data frames and ACKs.
  Two new engines, the receiver having been polled once at \<open>t\<close>, exchange up to \<open>2 ^ 32\<close> messages of at most 16 fragments,
  one message after the other, in rounds at least one retransmission timeout apart; for each message any rounds within the
  retransmission limit may lose anything, and the last one loses nothing.  The engines are configured without dynamic recovery, the
  link hands over at most 16 data frames in a round (the capacity of the ACK queue), and the receiver is polled in each
  round less than \<open>reassembly_timeout_ms\<close> after its clock at the start of the message, so that no fragment expires.
  Then every message is delivered exactly once, in order and byte for byte, and finally nothing is in flight and both
  engines are idle again.
\<close>

theorem lossy_link_delivers:
  assumes "session_ok config t xs" "length xs \<le> 2 ^ 32" "MAX_WIRE_BYTES \<le> length tx" "dynamic_recovery config = None"
  shows "case lossy_session config tx xs
      (EngineState_new ida config, snd (EngineState_poll config t tx (EngineState_new idb config))) of (ms, a, b) \<Rightarrow>
    map MessageEvent_as_bytes ms = map (\<lambda>(msg, _). Ok msg) xs \<and>
    map me_message_id ms = alloc_ids (length xs) (NumberState_new ida) \<and>
    RecoveryState_packets (es_recovery a) = [] \<and> quiet config a \<and> quiet config b"
proof -
  let ?a = "EngineState_new ida config" and ?b = "snd (EngineState_poll config t tx (EngineState_new idb config))"
  note B = quiet_started[of config t tx idb]
  have n: "es_numbers ?a = NumberState_new ida" by (simp add: EngineState_new_def)
  have "distinct (alloc_ids (length xs) (es_numbers ?a))" by (rule alloc_ids_distinct[OF assms(2)])
  moreover have "\<forall>k\<in>set (dedup_recent (rc_dedup (es_receive ?b))). key_message_id k \<notin> set (alloc_ids (length xs) (es_numbers ?a))"
    using new_engine_idle(3)[of idb config] B(3) by simp
  moreover have "session_ok config (ClockState_now_ms (es_clock ?b)) xs" using assms(1) B(2) by simp
  ultimately obtain ms a b where s: "lossy_session config tx xs (?a, ?b) = (ms, a, b)"
    "map MessageEvent_as_bytes ms = map (\<lambda>(msg, _). Ok msg) xs" "map me_message_id ms = alloc_ids (length xs) (es_numbers ?a)"
    "quiet config a" "quiet config b"
    using lossy_session_from_quiet[OF assms(4,3) quiet_new B(1)] by blast
  have "RecoveryState_packets (es_recovery a) = []" using quiet_packets(1)[of config a] s(4) by (simp add: quiet_def)
  then show ?thesis using s n by simp
qed

theorem lossy_link_delivers_witness:
  "case lossy_session (EngineConfig_default None\<lparr>fragment_bytes := 2\<rparr>) (replicate 128 0)
      [([1, 2, 3], [(1000, [1, 1], 1001, []), (1100, [], 1101, []), (1200, rev [0..<16], 1201, [0..<16])])]
      (EngineState_new (MessageId 0) (EngineConfig_default None\<lparr>fragment_bytes := 2\<rparr>),
       snd (EngineState_poll (EngineConfig_default None\<lparr>fragment_bytes := 2\<rparr>) 900 (replicate 128 0)
         (EngineState_new (MessageId 7) (EngineConfig_default None\<lparr>fragment_bytes := 2\<rparr>)))) of (ms, a, b) \<Rightarrow>
    map MessageEvent_as_bytes ms = [Ok [1, 2, 3]]"
proof -
  let ?c = "EngineConfig_default None\<lparr>fragment_bytes := 2\<rparr>"
  let ?xs = "[([1, 2, 3], [(1000, [1, 1], 1001, []), (1100, [], 1101, []), (1200, rev [0..<16], 1201, [0..<16])])]
    :: (bytes \<times> link_round list) list"
  have "fragment_limit ?c PacketType.Data = 2"
    using Integrity_tag_len_le[of "integrity ?c"] by (simp add: fragment_limit_def)
  then have c: "session_ok ?c 900 ?xs"
    by (simp add: rounds_ok_def round_ok_def lossless_def fragment_count_def EngineConfig_default_def
        DEFAULT_RETRANSMIT_TIMEOUT_MS_def DEFAULT_REASSEMBLY_TIMEOUT_MS_def DEFAULT_MAX_RETRANSMIT_ATTEMPTS_def
        lessThan_atLeast0)
  obtain ms a b where "lossy_session ?c (replicate 128 0) ?xs (EngineState_new (MessageId 0) ?c,
      snd (EngineState_poll ?c 900 (replicate 128 0) (EngineState_new (MessageId 7) ?c))) = (ms, a, b)" by (metis prod_cases3)
  then show ?thesis
    using lossy_link_delivers[OF c, of "replicate 128 0" "MessageId 0" "MessageId 7"]
    by (simp del: lossy_session.simps add: EngineConfig_default_def)
qed

text \<open>
  C21. At most once, for one message between two new engines: with arbitrary losses, repetitions and reorderings in every
  round, and so with a message that may never become complete, the message is delivered either once, unchanged, or not at
  all.  The message has at most 16 fragments and the rounds are those of \<open>rounds_ok\<close>: no more than the retransmission limit allows, at
  least one retransmission timeout apart, at most 16 data frames handed over in each, all answered within \<open>reassembly_timeout_ms\<close> of the
  receiver's clock \<open>t\<close> at the start, without dynamic recovery.  Only copies inside these rounds are covered: the duplicate
  detector remembers 16 packets, and a copy that arrives after 16 newer packets is not recognised.
\<close>

theorem lossy_at_most_once:
  assumes "rounds_ok config t xs" "length msg \<le> MAX_MESSAGE_BYTES" "MAX_WIRE_BYTES \<le> length tx" "dynamic_recovery config = None"
    and "fragment_count (length msg) (fragment_limit config PacketType.Data) \<le> MAX_EVENTS"
  shows "case lossy_transfer config tx (msg, xs)
      (EngineState_new ida config, snd (EngineState_poll config t tx (EngineState_new idb config))) of (ms, a, b) \<Rightarrow>
    ms = [] \<or> (\<exists>ev. ms = [ev] \<and> MessageEvent_as_bytes ev = Ok msg \<and> me_packet_type ev = PacketType.Data)"
proof -
  note B = quiet_started[of config t tx idb]
  obtain mid numbers where al: "NumberState_alloc_message_id (es_numbers (EngineState_new ida config)) = (mid, numbers)" by fastforce
  let ?b = "snd (EngineState_poll config t tx (EngineState_new idb config))"
  have D: "\<forall>k\<in>set (dedup_recent (rc_dedup (es_receive ?b))). key_message_id k \<noteq> mid"
    using new_engine_idle(3)[of idb config] B(3) by simp
  have r: "rounds_ok config (ClockState_now_ms (es_clock ?b)) xs" using assms(1) B(2) by simp
  show ?thesis
    by (rule lossy_transfer_outcome[OF quiet_new B(1) assms(2,3) al refl D refl assms(5,4) r])
       (auto simp: carries_def)
qed

theorem lossy_at_most_once_witness:
  "case lossy_transfer (EngineConfig_default None\<lparr>fragment_bytes := 2\<rparr>) (replicate 128 0)
      ([1, 2, 3], [(1000, [1, 1, 0], 1001, []), (1100, [0, 0], 1101, [1])])
      (EngineState_new (MessageId 0) (EngineConfig_default None\<lparr>fragment_bytes := 2\<rparr>),
       snd (EngineState_poll (EngineConfig_default None\<lparr>fragment_bytes := 2\<rparr>) 900 (replicate 128 0)
         (EngineState_new (MessageId 7) (EngineConfig_default None\<lparr>fragment_bytes := 2\<rparr>)))) of (ms, a, b) \<Rightarrow>
    ms = [] \<or> (\<exists>ev. ms = [ev] \<and> MessageEvent_as_bytes ev = Ok [1, 2, 3] \<and> me_packet_type ev = PacketType.Data)"
proof (rule lossy_at_most_once)
  let ?c = "EngineConfig_default None\<lparr>fragment_bytes := 2\<rparr>"
  have "fragment_limit ?c PacketType.Data = 2"
    using Integrity_tag_len_le[of "integrity ?c"] by (simp add: fragment_limit_def)
  then show "fragment_count (length [1, 2, 3 :: u8]) (fragment_limit ?c PacketType.Data) \<le> MAX_EVENTS"
    by (simp add: fragment_count_def)
qed (simp_all add: rounds_ok_def round_ok_def EngineConfig_default_def DEFAULT_RETRANSMIT_TIMEOUT_MS_def
    DEFAULT_REASSEMBLY_TIMEOUT_MS_def DEFAULT_MAX_RETRANSMIT_ATTEMPTS_def)

text \<open>
  C39. Fragments are stamped with the time of the last poll.  A fragment that arrives before the first poll of an engine
  is stamped with time 0, and when that poll happens at or after \<open>reassembly_timeout_ms\<close> the stored fragment expires although
  its ACK goes out in the same poll.  For a message of two fragments between two new engines, with no frame lost: both
  fragments are accepted and both are acknowledged; the sender takes both ACKs; and from then on all polls of both engines, at
  whatever times, are idle, so that the sender never sends again and the message is never delivered.
\<close>

theorem stale_clock_loses_message:
  fixes mid :: MessageId and msg :: bytes
  assumes "length msg \<le> MAX_MESSAGE_BYTES" "MAX_WIRE_BYTES \<le> length tx" "fb = fragment_limit config PacketType.Data"
    and "fragment_count (length msg) fb = 2" "reassembly_timeout_ms config \<le> now"
    and "fst (NumberState_alloc_message_id (NumberState_new ida)) = mid"
  defines "frame \<equiv> frag_frame (integrity config) PacketType.Data mid fb msg"
    and "ack \<equiv> \<lambda>i. wire_frame (integrity config) (ack_packet (frag_key mid i))"
  shows "\<exists>a1 a2 a3 b1 b2 b3 b4. EngineState_send_data config msg (EngineState_new ida config) = (Ok mid, a1) \<and>
    poll_times config t tx 2 a1 = ([Ok (EnginePoll.Transmit (frame 0) 0), Ok (EnginePoll.Transmit (frame 1) 0)], a2) \<and>
    EngineState_receive config (frame 0) (EngineState_new idb config) = (Ok (ReceiveReport.Packet (PacketIndex 0)), b1) \<and>
    EngineState_poll config now tx b1 = (Ok (EnginePoll.Transmit (ack 0) 0), b2) \<and>
    EngineState_receive config (frame 1) b2 = (Ok (ReceiveReport.Packet (PacketIndex 1)), b3) \<and>
    EngineState_poll config later tx b3 = (Ok (EnginePoll.Transmit (ack 1) 0), b4) \<and>
    receive_all config [ack 0, ack 1] a2 = ([Ok (ReceiveReport.Ack (PacketIndex 0)), Ok (ReceiveReport.Ack (PacketIndex 1))], a3) \<and>
    (\<forall>ts. poll_at config tx ts a3 = map (\<lambda>_. Ok EnginePoll.Idle) ts) \<and>
    (\<forall>ts. poll_at config tx ts b4 = map (\<lambda>_. Ok EnginePoll.Idle) ts)"
proof -
  obtain a1 a2 a3 where A: "EngineState_send_data config msg (EngineState_new ida config) = (Ok mid, a1)"
    "poll_times config t tx 2 a1 = ([Ok (EnginePoll.Transmit (frame 0) 0), Ok (EnginePoll.Transmit (frame 1) 0)], a2)"
    "receive_all config [ack 0, ack 1] a2 = ([Ok (ReceiveReport.Ack (PacketIndex 0)), Ok (ReceiveReport.Ack (PacketIndex 1))], a3)"
    "hushed config a3"
    unfolding frame_def ack_def by (rule two_fragments_acked[OF assms(1-4,6)])
  obtain b1 b2 b3 where B: "EngineState_receive config (frame 0) (EngineState_new idb config) = (Ok (ReceiveReport.Packet (PacketIndex 0)), b1)"
    "EngineState_poll config now tx b1 = (Ok (EnginePoll.Transmit (ack 0) 0), b2)"
    "EngineState_receive config (frame 1) b2 = (Ok (ReceiveReport.Packet (PacketIndex 1)), b3)" "engine_ok config b3"
    "ack_list (es_ack b3) = [frag_key mid 1]" "message_list (es_message b3) = []"
    "sched_view (es_scheduler b3) = (\<lambda>_. [])" "dom (inflight_map (rs_in_flight (es_recovery b3))) = {}"
    unfolding frame_def ack_def by (rule stale_receiver[OF assms(1-5)])
  obtain b4 where C: "EngineState_poll config later tx b3 = (Ok (EnginePoll.Transmit (ack 1) 0), b4)" "hushed config b4"
    unfolding ack_def by (rule last_ack_hushes[OF B(4-6) assms(2) B(7,8)])
  show ?thesis
    using A(1-3) B(1-3) C(1) hushed_forever[OF A(4)] hushed_forever[OF C(2)] by blast
qed

theorem stale_clock_loses_message_witness:
  "\<exists>a1 a2 a3 b1 b2 b3 b4 c mid. c = EngineConfig_default None\<lparr>fragment_bytes := 2\<rparr> \<and>
    mid = fst (NumberState_alloc_message_id (NumberState_new (MessageId 4))) \<and>
    EngineState_send_data c [1, 2, 3] (EngineState_new (MessageId 4) c) = (Ok mid, a1) \<and>
    poll_times c 4000 (replicate 128 0) 2 a1 = ([Ok (EnginePoll.Transmit (frag_frame (integrity c) PacketType.Data mid 2 [1, 2, 3] 0) 0),
      Ok (EnginePoll.Transmit (frag_frame (integrity c) PacketType.Data mid 2 [1, 2, 3] 1) 0)], a2) \<and>
    EngineState_receive c (frag_frame (integrity c) PacketType.Data mid 2 [1, 2, 3] 0) (EngineState_new (MessageId 0) c) =
      (Ok (ReceiveReport.Packet (PacketIndex 0)), b1) \<and>
    EngineState_poll c 5000 (replicate 128 0) b1 =
      (Ok (EnginePoll.Transmit (wire_frame (integrity c) (ack_packet (frag_key mid 0))) 0), b2) \<and>
    EngineState_receive c (frag_frame (integrity c) PacketType.Data mid 2 [1, 2, 3] 1) b2 =
      (Ok (ReceiveReport.Packet (PacketIndex 1)), b3) \<and>
    EngineState_poll c 5001 (replicate 128 0) b3 =
      (Ok (EnginePoll.Transmit (wire_frame (integrity c) (ack_packet (frag_key mid 1))) 0), b4) \<and>
    (\<forall>ts. poll_at c (replicate 128 0) ts a3 = map (\<lambda>_. Ok EnginePoll.Idle) ts) \<and>
    (\<forall>ts. poll_at c (replicate 128 0) ts b4 = map (\<lambda>_. Ok EnginePoll.Idle) ts)"
proof -
  let ?c = "EngineConfig_default None\<lparr>fragment_bytes := 2\<rparr>"
  have fb: "2 = fragment_limit ?c PacketType.Data"
    using Integrity_tag_len_le[of "integrity ?c"] by (simp add: fragment_limit_def)
  have m: "length [1, 2, 3 :: u8] \<le> MAX_MESSAGE_BYTES" "MAX_WIRE_BYTES \<le> length (replicate 128 (0 :: u8))"
    "fragment_count (length [1, 2, 3 :: u8]) 2 = 2" by (simp_all add: fragment_count_def)
  have "reassembly_timeout_ms ?c \<le> 5000" by (simp add: EngineConfig_default_def DEFAULT_REASSEMBLY_TIMEOUT_MS_def)
  from stale_clock_loses_message[OF m(1,2) fb m(3) this refl, of "MessageId 4" 4000 "MessageId 0" 5001]
  show ?thesis by blast
qed

end
