(* ===== verification/Sip_Vectors.thy ===== *)
theory Sip_Vectors
  imports Sip
begin

text \<open>
  The SipHash backend of \<open>Sip\<close> computes the reference vectors that the unit test of
  \<^verbatim>\<open>src/integrity/sip.rs\<close> checks.  The state is followed on integers, on which evaluation by rewriting is fast.
\<close>

unbundle bit_operations_syntax

section \<open>The rounds on integers\<close>

text \<open>
  The same computation on integers, which the evaluation by rewriting handles well: the state is a
  tuple of integers, and a word operation is followed by a reduction modulo \<open>2 ^ 64\<close>.
\<close>

type_synonym sip_ints = "int \<times> int \<times> int \<times> int"

definition sip_of :: "sip_ints \<Rightarrow> SipState" where
  "sip_of = (\<lambda>(a, b, c, d). \<lparr>v0 = of_int a, v1 = of_int b, v2 = of_int c, v3 = of_int d\<rparr>)"

definition int_rotl :: "nat \<Rightarrow> int \<Rightarrow> int" where
  "int_rotl n a = a * 2 ^ n mod 2 ^ 64 OR a mod 2 ^ 64 div 2 ^ (64 - n)"

definition int_round :: "sip_ints \<Rightarrow> sip_ints" where
  "int_round = (\<lambda>(a0, a1, a2, a3).
    (let a0 = (a0 + a1) mod 2 ^ 64;
         a1 = int_rotl 13 a1 XOR a0;
         a0 = int_rotl 32 a0;
         a2 = (a2 + a3) mod 2 ^ 64;
         a3 = int_rotl 16 a3 XOR a2;
         a0 = (a0 + a3) mod 2 ^ 64;
         a3 = int_rotl 21 a3 XOR a0;
         a2 = (a2 + a1) mod 2 ^ 64;
         a1 = int_rotl 17 a1 XOR a2
     in (a0, a1, int_rotl 32 a2, a3)))"

fun int_upd :: "(int \<Rightarrow> int) \<Rightarrow> (int \<Rightarrow> int) \<Rightarrow> (int \<Rightarrow> int) \<Rightarrow> (int \<Rightarrow> int) \<Rightarrow> sip_ints \<Rightarrow> sip_ints" where
  "int_upd f g h i (a, b, c, d) = (f a, g b, h c, i d)"

fun int_out :: "sip_ints \<Rightarrow> int" where
  "int_out (a, b, c, d) = a XOR b XOR c XOR d"

definition int_compress :: "sip_ints \<Rightarrow> int \<Rightarrow> sip_ints" where
  "int_compress s w = int_upd (\<lambda>a. a XOR w) id id id (int_round (int_round (int_upd id id id (\<lambda>a. a XOR w) s)))"

definition int_finish :: "sip_ints \<Rightarrow> int \<Rightarrow> int \<times> int" where
  "int_finish s w =
    (let s = (int_round ^^ 4) (int_upd id id (\<lambda>a. a XOR 0xee) id (int_compress s w));
         s' = (int_round ^^ 4) (int_upd id (\<lambda>a. a XOR 0xdd) id id s)
     in (int_out s, int_out s'))"

lemma of_int_rotl:
  assumes "0 < n" "n < 64"
  shows "word_rotl n (of_int a :: u64) = of_int (int_rotl n a)"
proof (rule bit_word_eqI)
  fix k assume "k < LENGTH(64)"
  then have k: "k < 64" by simp
  obtain m where m: "64 - n = m" "0 < m" "n + m = 64" using assms by auto
  have "int_rotl n a = take_bit 64 (push_bit n a) OR drop_bit m (take_bit 64 a)"
    by (simp add: int_rotl_def push_bit_eq_mult drop_bit_eq_div take_bit_eq_mod m(1))
  then have r: "bit (of_int (int_rotl n a) :: u64) k \<longleftrightarrow> n \<le> k \<and> bit a (k - n) \<or> m + k < 64 \<and> bit a (m + k)"
    using k by (simp add: bit_word_of_int_iff bit_or_iff bit_take_bit_iff bit_push_bit_iff bit_drop_bit_eq)
  have "(k + m) mod 64 = (if n \<le> k then k - n else m + k)" using m k assms(2) by (auto simp: mod_if)
  then have "bit (word_rotl n (of_int a :: u64)) k \<longleftrightarrow> bit a (if n \<le> k then k - n else m + k)"
    using k assms(2) m(3) by (auto simp: bit_word_rotl_iff m(1) bit_word_of_int_iff)
  moreover have "m + k < 64 \<longleftrightarrow> k < n" using m(3) by linarith
  ultimately show "bit (word_rotl n (of_int a :: u64)) k = bit (of_int (int_rotl n a) :: u64) k" unfolding r by auto
qed

lemma of_int_ops:
  "(of_int a + of_int b :: u64) = of_int ((a + b) mod 2 ^ 64)" "(of_int a XOR of_int b :: u64) = of_int (a XOR b)"
proof -
  have "(of_int (c mod 2 ^ 64) :: u64) = of_int c" for c by (simp add: word_of_int_eq_iff take_bit_eq_mod)
  then show "(of_int a + of_int b :: u64) = of_int ((a + b) mod 2 ^ 64)" by simp
qed (simp add: of_int_xor_eq)

lemma round_of: "SipState_round (sip_of t) = sip_of (int_round t)"
  by (cases t) (simp add: sip_of_def SipState_round_def int_round_def Let_def of_int_rotl of_int_ops
      del: of_int_add power_numeral)

lemma rounds_of: "SipState_rounds n (sip_of t) = sip_of ((int_round ^^ n) t)"
  unfolding SipState_rounds_def by (induction n) (simp_all add: round_of)

lemma upd_of:
  "(sip_of s)\<lparr>v0 := v0 (sip_of s) XOR of_int w\<rparr> = sip_of (int_upd (\<lambda>a. a XOR w) id id id s)"
  "(sip_of s)\<lparr>v1 := v1 (sip_of s) XOR of_int w\<rparr> = sip_of (int_upd id (\<lambda>a. a XOR w) id id s)"
  "(sip_of s)\<lparr>v2 := v2 (sip_of s) XOR of_int w\<rparr> = sip_of (int_upd id id (\<lambda>a. a XOR w) id s)"
  "(sip_of s)\<lparr>v3 := v3 (sip_of s) XOR of_int w\<rparr> = sip_of (int_upd id id id (\<lambda>a. a XOR w) s)"
  "v0 (sip_of s) XOR v1 (sip_of s) XOR v2 (sip_of s) XOR v3 (sip_of s) = of_int (int_out s)"
  by (cases s; simp add: sip_of_def of_int_ops)+

lemma compress_of: "SipState_compress (sip_of t) (of_int w) = sip_of (int_compress t w)"
  by (simp add: SipState_compress_def int_compress_def Let_def upd_of rounds_of numeral_2_eq_2)

lemma finish_of:
  assumes "sip_tail 0 (push_bit 56 (of_nat len)) tail = of_int w" "int_finish t w = (l, r)"
  shows "SipState_finish (sip_of t) len tail = to_le 8 (of_int l :: u64) @ to_le 8 (of_int r :: u64)"
proof -
  have k: "(0xee :: u64) = of_int 0xee" "(0xdd :: u64) = of_int 0xdd" by simp_all
  have "l = fst (int_finish t w)" "r = snd (int_finish t w)" using assms(2) by simp_all
  then show ?thesis
    by (simp only: SipState_finish_def int_finish_def Let_def assms(1) compress_of rounds_of k upd_of fst_conv snd_conv)
qed

text \<open>
  The initial state for the key \<open>00 01 \<dots> 0f\<close> of the reference vectors, and the three vectors of the unit test
  \<^verbatim>\<open>siphash24_128_matches_reference_vectors\<close>: the empty input, one byte, and one block with a tail of seven bytes.
\<close>

definition vector_start :: sip_ints where
  "vector_start = (0x7469686173716475, 0x6b617f6d656e668b, 0x6b7f62616d677361, 0x7b6b696e727e6c7b)"

lemma siphash_vector:
  assumes "sip_absorb (sip_of vector_start) bs = (sip_of t, tail)"
    and "sip_tail 0 (push_bit 56 (of_nat (length bs))) tail = of_int w" "int_finish t w = (l, r)"
  shows "siphash24_128 bs 0x0706050403020100 0x0f0e0d0c0b0a0908 = to_le 8 (of_int l :: u64) @ to_le 8 (of_int r :: u64)"
proof -
  have "\<lparr>v0 = 0x0706050403020100 XOR 0x736f6d6570736575, v1 = 0x0f0e0d0c0b0a0908 XOR 0x646f72616e646f6d XOR 0xee,
      v2 = 0x0706050403020100 XOR 0x6c7967656e657261, v3 = 0x0f0e0d0c0b0a0908 XOR 0x7465646279746573\<rparr> = sip_of vector_start"
    by (simp add: sip_of_def vector_start_def)
  then show ?thesis unfolding siphash24_128_def Let_def using assms(1) finish_of[OF assms(2,3)] by simp
qed

theorem siphash_matches_reference_vectors:
  "siphash24_128 [] 0x0706050403020100 0x0f0e0d0c0b0a0908 =
    [0xa3, 0x81, 0x7f, 0x04, 0xba, 0x25, 0xa8, 0xe6, 0x6d, 0xf6, 0x72, 0x14, 0xc7, 0x55, 0x02, 0x93]" (is ?empty)
  "siphash24_128 [0] 0x0706050403020100 0x0f0e0d0c0b0a0908 =
    [0xda, 0x87, 0xc1, 0xd8, 0x6b, 0x99, 0xaf, 0x44, 0x34, 0x76, 0x59, 0x11, 0x9b, 0x22, 0xfc, 0x45]" (is ?one)
  "siphash24_128 [0, 1, 2, 3, 4, 5, 6, 7, 8, 9, 10, 11, 12, 13, 14] 0x0706050403020100 0x0f0e0d0c0b0a0908 =
    [0x54, 0x93, 0xe9, 0x99, 0x33, 0xb0, 0xa8, 0x11, 0x7e, 0x08, 0xec, 0x0f, 0x97, 0xcf, 0xc3, 0xd9]" (is ?block)
proof -
  have le: "to_le 8 w = [ucast w, ucast (drop_bit 8 w), ucast (drop_bit 16 w), ucast (drop_bit 24 w), ucast (drop_bit 32 w),
      ucast (drop_bit 40 w), ucast (drop_bit 48 w), ucast (drop_bit 56 w)]" for w :: u64
  proof -
    have "(8 :: nat) = Suc (Suc (Suc (Suc (Suc (Suc (Suc (Suc 0)))))))" by simp
    then have "to_le 8 w = to_le (Suc (Suc (Suc (Suc (Suc (Suc (Suc (Suc 0)))))))) w" by (rule arg_cong)
    then show ?thesis by (simp add: drop_bit_drop_bit)
  qed
  have fin: "int_finish vector_start 0 = (0xe6a825ba047f81a3, 0x930255c71472f66d)"
    "int_finish vector_start 0x100000000000000 = (0x44af996bd8c187da, 0x45fc229b11597634)"
    "int_finish (int_compress vector_start 0x0706050403020100) 0x0f0e0d0c0b0a0908 = (0x11a8b03399e99354, 0xd9c3cf970fec087e)"
    by code_simp+
  show ?empty
    by (subst siphash_vector[where t = vector_start and tail = "[]", OF _ _ fin(1)])
       (simp_all add: sip_absorb.simps le)
  show ?one
    by (subst siphash_vector[where t = vector_start and tail = "[0]", OF _ _ fin(2)])
       (simp_all add: sip_absorb.simps le)
  show ?block
    by (subst siphash_vector[where tail = "[8, 9, 10, 11, 12, 13, 14]", OF _ _ fin(3)])
       (use compress_of[of vector_start "0x0706050403020100"] in \<open>simp_all add: sip_absorb.simps le\<close>)
qed

end
