(* ===== verification/Tracing.thy ===== *)
theory Tracing
  imports Engine_Poll
begin

text \<open>
  The debug logging of the crate feature \<^verbatim>\<open>tracing\<close>: \<^verbatim>\<open>src/engine/state/scheduler/log.rs\<close>, the
  \<^verbatim>\<open>log_snapshot\<close> methods of the scheduler and its queues, and the \<^verbatim>\<open>log_\<close> functions of
  \<^verbatim>\<open>src/engine/state/recovery/retransmit.rs\<close>.  A function returns the list of records it hands to the
  \<^verbatim>\<open>tracing::debug!\<close> macro, in order; what a subscriber does with a record is outside the crate.  The
  functions index into the queues and slice the queued frames, so that they return at all is a theorem.
\<close>

section \<open>engine/state/scheduler/log.rs\<close>

text \<open>The fields of each \<^verbatim>\<open>debug!\<close> in the order of the source, without the constant target and message.\<close>

datatype LogRecord =
    SchedulerWrite u64 string usize u8 MessageId PacketIndex u8 usize WritePriority
  | SchedulerSendFailed u64 string usize PacketType MessageId
  | SchedulerSnapshot u64 bool usize usize usize usize
  | InFlightSendFailed u64 usize usize bool usize PacketType MessageId PacketIndex u8 u64 u8 u64
  | InFlightRecord u64 PacketType MessageId PacketIndex u8 u64 usize bool

definition logged_packet_type :: "bytes \<Rightarrow> PacketType option" where
  "logged_packet_type bs = Option.bind (get_byte bs WIRE_HEADER_LEN) PacketType_from_code"

definition log_event :: "u64 \<Rightarrow> string \<Rightarrow> usize \<Rightarrow> EngineOutput \<Rightarrow> LogRecord res" where
  "log_event now queue off event =
     (case event of
        EngineOutput.Write write \<Rightarrow>
          res_bind (WriteEvent_as_bytes write) (\<lambda>bs.
          let packet_type = (case map_option PacketType_code (logged_packet_type bs) of Some code \<Rightarrow> code | None \<Rightarrow> 0) in
          Ok (SchedulerWrite now queue off packet_type (key_message_id (wr_key write)) (key_packet_index (wr_key write))
            (wr_attempts write) (wr_len write) (wr_priority write)))
      | EngineOutput.SendFailed failed \<Rightarrow>
          Ok (SchedulerSendFailed now queue off (sf_packet_type failed) (sf_message_id failed)))"

section \<open>Snapshots of the queues\<close>

function EventQueue_log_from :: "u64 \<Rightarrow> string \<Rightarrow> usize \<Rightarrow> EventQueue \<Rightarrow> LogRecord list res" where
  "EventQueue_log_from now name off q =
     (if off < eq_len q
      then (let index = EventQueue_physical_index q off in
            if index < length (eq_events q)
            then (case eq_events q ! index of
                    Some event \<Rightarrow>
                      res_bind (log_event now name off event) (\<lambda>r.
                      res_bind (EventQueue_log_from now name (off + 1) q) (\<lambda>rs. Ok (r # rs)))
                  | None \<Rightarrow> EventQueue_log_from now name (off + 1) q)
            else Panic)
      else Ok [])"
  by pat_completeness auto
termination by (relation "measure (\<lambda>(_, _, off, q). eq_len q - off)") auto

declare EventQueue_log_from.simps [simp del]

definition EventQueue_log_snapshot :: "u64 \<Rightarrow> string \<Rightarrow> EventQueue \<Rightarrow> LogRecord list res" where
  "EventQueue_log_snapshot now name q = EventQueue_log_from now name 0 q"

definition SchedulerState_log_snapshot :: "u64 \<Rightarrow> bool \<Rightarrow> SchedulerState \<Rightarrow> LogRecord list res" where
  "SchedulerState_log_snapshot now ack_pending s =
     (let snapshot = SchedulerSnapshot now ack_pending (eq_len (sc_control s)) (eq_len (sc_retransmit s))
            (eq_len (sc_new_data s)) (eq_len (sc_local s)) in
      res_bind (EventQueue_log_snapshot now ''control'' (sc_control s)) (\<lambda>control.
      res_bind (EventQueue_log_snapshot now ''retransmit'' (sc_retransmit s)) (\<lambda>retransmit.
      res_bind (EventQueue_log_snapshot now ''new_data'' (sc_new_data s)) (\<lambda>new_data.
      res_bind (EventQueue_log_snapshot now ''local'' (sc_local s)) (\<lambda>local.
      Ok (snapshot # control @ retransmit @ new_data @ local))))))"

section \<open>engine/state/recovery/retransmit.rs\<close>

definition EngineState_log_in_flight_packets :: "u64 \<Rightarrow> EngineState \<Rightarrow> LogRecord list" where
  "EngineState_log_in_flight_packets now s =
     map (\<lambda>packet. InFlightRecord now (if_packet_type packet) (if_message_id packet) (key_packet_index (if_key packet))
            (if_attempts packet) (saturating_sub now (if_last_sent_ms packet)) (if_len packet) (if_sent packet))
       (RecoveryState_packets (es_recovery s))"

definition EngineState_log_send_failed_snapshot ::
  "EngineConfig \<Rightarrow> u64 \<Rightarrow> InFlightPacket \<Rightarrow> EngineState \<Rightarrow> LogRecord list res" where
  "EngineState_log_send_failed_snapshot config now failed s =
     (let r = InFlightSendFailed now (RecoveryState_in_flight_len (es_recovery s)) (ms_len (es_message s))
            (AckState_is_pending (es_ack s)) (ak_len (es_ack s)) (if_packet_type failed) (if_message_id failed)
            (key_packet_index (if_key failed)) (if_attempts failed) (saturating_sub now (if_last_sent_ms failed))
            (max_retransmit_attempts config) (EngineState_retransmit_timeout_ms config (if_attempts failed) s) in
      res_bind (SchedulerState_log_snapshot now (AckState_is_pending (es_ack s)) (es_scheduler s)) (\<lambda>rs.
      Ok (r # rs @ EngineState_log_in_flight_packets now s)))"

text \<open>
  What the loop over the failures of a tick logs: before a message is removed and its failure queued, one
  snapshot of the state as the earlier failures left it.
\<close>

fun tick_failures_log :: "EngineConfig \<Rightarrow> u64 \<Rightarrow> InFlightPacket list \<Rightarrow> EngineState \<Rightarrow> LogRecord list res" where
  "tick_failures_log config now [] s = Ok []"
| "tick_failures_log config now (packet # packets) s =
     res_bind (EngineState_log_send_failed_snapshot config now packet s) (\<lambda>rs.
     res_bind (tick_failures_log config now packets (tick_failures [packet] s)) (\<lambda>rs'. Ok (rs @ rs')))"

definition tick_log :: "EngineConfig \<Rightarrow> u64 \<Rightarrow> EngineState \<Rightarrow> LogRecord list res" where
  "tick_log config now s =
     (let s = s\<lparr>es_clock := ClockState_update now (es_clock s)\<rparr>;
          s = s\<lparr>es_reassembly := ReassemblyState_expire now (reassembly_timeout_ms config) (es_reassembly s)\<rparr>;
          (tick, recovery) = RecoveryState_should_tick now (es_recovery s);
          s = s\<lparr>es_recovery := recovery\<rparr> in
      if \<not> tick then Ok []
      else case tick_scan config now s (RecoveryState_packets (es_recovery s)) ([], [], []) of
        (retransmits, failures, failed_messages) \<Rightarrow> tick_failures_log config now failures s)"

section \<open>Logging returns\<close>

text \<open>The record of a queued event; the packet type of a write is the first byte behind the wire header.\<close>

definition event_record :: "u64 \<Rightarrow> string \<Rightarrow> usize \<Rightarrow> EngineOutput \<Rightarrow> LogRecord" where
  "event_record now queue off event =
     (case event of
        EngineOutput.Write w \<Rightarrow> SchedulerWrite now queue off (wr_bytes w ! WIRE_HEADER_LEN) (key_message_id (wr_key w))
          (key_packet_index (wr_key w)) (wr_attempts w) (wr_len w) (wr_priority w)
      | EngineOutput.SendFailed f \<Rightarrow> SchedulerSendFailed now queue off (sf_packet_type f) (sf_message_id f))"

lemma packet_key_type:
  assumes "packet_key pkt = Some k"
  obtains t where "pkt \<noteq> []" "pkt ! 0 = PacketType_code t"
proof -
  have "Option.bind (get_byte pkt 0) PacketType_from_code \<noteq> None"
    using assms by (intro notI) (simp add: packet_key_def decode_packet_bytes_def)
  then have "\<exists>t. pkt \<noteq> [] \<and> pkt ! 0 = PacketType_code t"
    by (auto simp: get_byte_def PacketType_from_code_Some split: if_splits Option.bind_splits)
  then show thesis using that by blast
qed

lemma frame_type:
  assumes "frame_for cfg k bs n"
  obtains t where "WIRE_HEADER_LEN < n" "bs ! WIRE_HEADER_LEN = PacketType_code t" "n \<le> length bs"
proof -
  obtain pkt where pkt: "take n bs = wire_frame cfg pkt" "packet_key pkt = Some k" "length bs = MAX_WIRE_BYTES" "n \<le> MAX_WIRE_BYTES"
    using assms by (auto simp: frame_for_def)
  obtain t where t: "pkt \<noteq> []" "pkt ! 0 = PacketType_code t" by (rule packet_key_type[OF pkt(2)])
  have b: "length (wire_body pkt) = 3 + length pkt" "wire_body pkt ! 3 = pkt ! 0" using t(1)
    by (simp_all add: wire_body_def nth_append)
  have len: "n = length (wire_frame cfg pkt)" using arg_cong[OF pkt(1), of length] pkt(3,4) by simp
  have n: "3 < n" using t(1) b(1) len by (simp add: wire_frame_def)
  have "bs ! 3 = take n bs ! 3" using n by simp
  also have "\<dots> = pkt ! 0" using t(1) b by (simp add: pkt(1) wire_frame_def nth_append)
  finally show thesis using that[of t] t(2) n pkt(3,4) by simp
qed

lemma log_event_ok:
  assumes "\<And>w. e = EngineOutput.Write w \<Longrightarrow> frame_for cfg (wr_key w) (wr_bytes w) (wr_len w)"
  shows "log_event now queue off e = Ok (event_record now queue off e)"
proof (cases e)
  case (Write w)
  obtain t where "WIRE_HEADER_LEN < wr_len w" "wr_bytes w ! WIRE_HEADER_LEN = PacketType_code t" "wr_len w \<le> length (wr_bytes w)"
    by (rule frame_type[OF assms[OF Write]])
  then show ?thesis
    by (simp add: Write log_event_def event_record_def WriteEvent_as_bytes_def split_at_fst_def logged_packet_type_def get_byte_def)
qed (simp add: log_event_def event_record_def)

lemma queue_logged:
  assumes "queue_ok q" "\<And>w. EngineOutput.Write w \<in> set (queue_list q) \<Longrightarrow> frame_for cfg (wr_key w) (wr_bytes w) (wr_len w)"
    and "off \<le> eq_len q"
  shows "EventQueue_log_from now name off q =
    Ok (map (\<lambda>i. event_record now name i (queue_list q ! i)) [off..<eq_len q])"
  using assms(3)
proof (induction "eq_len q - off" arbitrary: off)
  case 0
  then show ?case by (simp add: EventQueue_log_from.simps[of now name off q])
next
  case (Suc n)
  then have off: "off < eq_len q" by simp
  have len: "length (queue_list q) = eq_len q" "length (eq_events q) = MAX_EVENTS"
    using assms(1) by (simp_all add: queue_list_def queue_ok_def)
  have idx: "EventQueue_physical_index q off < length (eq_events q)"
    "eq_events q ! EventQueue_physical_index q off = Some (queue_list q ! off)"
    using queue_nth[OF assms(1) off] len(2) by (simp_all add: EventQueue_physical_index_def)
  have "queue_list q ! off \<in> set (queue_list q)" using off len(1) by simp
  then have e: "log_event now name off (queue_list q ! off) = Ok (event_record now name off (queue_list q ! off))"
    using assms(2) by (intro log_event_ok) auto
  have "EventQueue_log_from now name (off + 1) q =
      Ok (map (\<lambda>i. event_record now name i (queue_list q ! i)) [off + 1..<eq_len q])"
    by (rule Suc.hyps(1)) (use Suc.hyps(2) off in simp_all)
  then show ?case
    using off idx e upt_conv_Cons[OF off] by (simp add: EventQueue_log_from.simps[of now name off q] Let_def)
qed

text \<open>The snapshot of a scheduler: its lengths, then every queued event of every queue, in order.\<close>

definition queue_records :: "u64 \<Rightarrow> string \<Rightarrow> EngineOutput list \<Rightarrow> LogRecord list" where
  "queue_records now name es = map (\<lambda>i. event_record now name i (es ! i)) [0..<length es]"

lemma scheduler_logged:
  assumes "writes_ok cfg q"
  shows "SchedulerState_log_snapshot now b q =
    Ok (SchedulerSnapshot now b (eq_len (sc_control q)) (eq_len (sc_retransmit q)) (eq_len (sc_new_data q)) (eq_len (sc_local q)) #
      queue_records now ''control'' (sched_view q QueueKind.Control) @
      queue_records now ''retransmit'' (sched_view q QueueKind.Retransmit) @
      queue_records now ''new_data'' (sched_view q QueueKind.NewData) @
      queue_records now ''local'' (sched_view q QueueKind.Local))"
proof -
  have ok: "queue_ok (sc_control q)" "queue_ok (sc_retransmit q)" "queue_ok (sc_new_data q)" "queue_ok (sc_local q)"
    using assms by (simp_all add: writes_ok_def sched_ok_def)
  have "EventQueue_log_snapshot now name p = Ok (queue_records now name (queue_list p))"
    if "queue_ok p" "set (queue_list p) \<subseteq> set (view_events (sched_view q))" for name p
  proof -
    have len: "length (queue_list p) = eq_len p" using that(1) by (simp add: queue_list_def queue_ok_def)
    show ?thesis
      unfolding EventQueue_log_snapshot_def queue_records_def len
      by (rule queue_logged[OF that(1), of cfg]) (use assms that(2) in \<open>auto simp: writes_ok_def\<close>)
  qed
  note snap = this
  have "EventQueue_log_snapshot now name p = Ok (queue_records now name (queue_list p))"
    if "p \<in> {sc_control q, sc_retransmit q, sc_new_data q, sc_local q}" for name p
    by (rule snap) (use ok that in \<open>auto simp: view_events_def sched_view_def\<close>)
  then show ?thesis by (simp add: SchedulerState_log_snapshot_def sched_view_def)
qed

section \<open>What a tick logs\<close>

fun logged_failure :: "LogRecord \<Rightarrow> (PacketType \<times> MessageId) list" where
  "logged_failure (InFlightSendFailed now n m p k t mid i attempts age limit rto) = [(t, mid)]"
| "logged_failure _ = []"

definition logged_failures :: "LogRecord list \<Rightarrow> (PacketType \<times> MessageId) list" where
  "logged_failures rs = concat (map logged_failure rs)"

lemma logged_failures_simps [simp]:
  "logged_failures [] = []" "logged_failures (r # rs) = logged_failure r @ logged_failures rs"
  "logged_failures (rs @ rs') = logged_failures rs @ logged_failures rs'"
  "logged_failures (queue_records now name es) = []" "logged_failures (EngineState_log_in_flight_packets now s) = []"
  by (auto simp: logged_failures_def queue_records_def event_record_def EngineState_log_in_flight_packets_def
      split: EngineOutput.splits)

lemma snapshot_logged:
  assumes "engine_ok config s"
  obtains rs where "EngineState_log_send_failed_snapshot config now p s = Ok rs" "logged_failures rs = [message_of p]"
proof -
  have "writes_ok (integrity config) (es_scheduler s)" using assms by (simp add: engine_ok_def)
  from scheduler_logged[OF this] show thesis
    using that by (simp add: EngineState_log_send_failed_snapshot_def Let_def message_of_def)
qed

lemma failures_logged:
  "engine_ok config s \<Longrightarrow> \<exists>rs. tick_failures_log config now F s = Ok rs \<and> logged_failures rs = map message_of F"
proof (induction F arbitrary: s)
  case (Cons p F)
  obtain rs where rs: "EngineState_log_send_failed_snapshot config now p s = Ok rs" "logged_failures rs = [message_of p]"
    by (rule snapshot_logged[OF Cons.prems])
  obtain rs' where "tick_failures_log config now F (tick_failures [p] s) = Ok rs'" "logged_failures rs' = map message_of F"
    using Cons.IH[OF engine_ok_failures[OF Cons.prems]] by blast
  then show ?case using rs by (simp del: tick_failures.simps)
qed simp

lemma tick_log_eq:
  "tick_log config now s =
    (if rs_last_tick_ms (es_recovery s) = Some now then Ok []
     else case tick_scan config now (tick_start config now s) (RecoveryState_packets (es_recovery s)) ([], [], []) of
       (R, F, M) \<Rightarrow> tick_failures_log config now F (tick_start config now s))"
  by (simp add: tick_log_def tick_start_def RecoveryState_should_tick_def ClockState_update_def Let_def RecoveryState_packets_def)

section \<open>Properties\<close>

text \<open>
  Logging a tick: in every state that an engine keeps, the logging of a tick at a new time returns
  (no index and no slice of it is out of range), and it reports every message the tick gives up,
  each exactly once, and no other message.
\<close>

theorem tick_logs_failures:
  assumes "engine_ok config s" "rs_last_tick_ms (es_recovery s) \<noteq> Some now"
  shows "\<exists>rs. tick_log config now s = Ok rs \<and> distinct (logged_failures rs) \<and> set (logged_failures rs) = given_up config now s"
proof -
  let ?s = "tick_start config now s" and ?ps = "RecoveryState_packets (es_recovery s)"
  obtain R F M where scan: "tick_scan config now ?s ?ps ([], [], []) = (R, F, M)" by (metis prod_cases3)
  note P = tick_scan_packets[OF engine_okD(2)[OF assms(1)] refl scan, unfolded due_tick_start]
  obtain rs where "tick_failures_log config now F ?s = Ok rs" "logged_failures rs = map message_of F"
    using failures_logged[OF engine_ok_tick_start[OF assms(1)]] by blast
  then show ?thesis using assms(2) scan P(2,3,5) by (auto simp: tick_log_eq given_up_def)
qed

theorem tick_logs_failures_witness:
  "\<exists>rs. tick_log (EngineConfig_default None\<lparr>integrity := Crc16\<rparr>) 100 stuck_state = Ok rs \<and>
    logged_failures rs = [(PacketType.Data, MessageId 5)]"
proof -
  obtain rs where "tick_log (EngineConfig_default None\<lparr>integrity := Crc16\<rparr>) 100 stuck_state = Ok rs" "distinct (logged_failures rs)"
    "set (logged_failures rs) = {(PacketType.Data, MessageId 5)}"
    using tick_logs_failures[OF stuck_state(1), of 100] by (auto simp: stuck_state(3) stuck_given_up)
  then show ?thesis by (cases "logged_failures rs"; cases "tl (logged_failures rs)") auto
qed

text \<open>
  A scheduler snapshot lists every queued event of the four queues, in the order in which each queue
  will hand them out, with its position; for a queued frame it names the type of the packet that the
  frame carries, never the default of an unreadable frame.
\<close>

theorem snapshot_lists_queues:
  assumes "engine_ok config s"
  shows "SchedulerState_log_snapshot now b (es_scheduler s) =
    Ok (SchedulerSnapshot now b (length (sched_view (es_scheduler s) QueueKind.Control))
          (length (sched_view (es_scheduler s) QueueKind.Retransmit)) (length (sched_view (es_scheduler s) QueueKind.NewData))
          (length (sched_view (es_scheduler s) QueueKind.Local)) #
        concat (map (\<lambda>(name, k). queue_records now name (sched_view (es_scheduler s) k))
          [(''control'', QueueKind.Control), (''retransmit'', QueueKind.Retransmit),
           (''new_data'', QueueKind.NewData), (''local'', QueueKind.Local)])) \<and>
    (\<forall>w. EngineOutput.Write w \<in> set (view_events (sched_view (es_scheduler s))) \<longrightarrow>
      (\<exists>t. wr_bytes w ! WIRE_HEADER_LEN = PacketType_code t))"
proof -
  have W: "writes_ok (integrity config) (es_scheduler s)" using assms by (simp add: engine_ok_def)
  have len: "length (sched_view (es_scheduler s) k) = eq_len (case k of QueueKind.Control \<Rightarrow> sc_control (es_scheduler s)
     | QueueKind.Retransmit \<Rightarrow> sc_retransmit (es_scheduler s) | QueueKind.NewData \<Rightarrow> sc_new_data (es_scheduler s)
     | QueueKind.Local \<Rightarrow> sc_local (es_scheduler s))" for k
    using W by (cases k) (simp_all add: writes_ok_def sched_ok_def queue_ok_def sched_view_def queue_list_def)
  have "\<exists>t. wr_bytes w ! WIRE_HEADER_LEN = PacketType_code t" if "EngineOutput.Write w \<in> set (view_events (sched_view (es_scheduler s)))" for w
    using that W frame_type[of "integrity config" "wr_key w" "wr_bytes w" "wr_len w"] by (auto simp: writes_ok_def)
  then show ?thesis using scheduler_logged[OF W, of now b] len by simp
qed

theorem snapshot_lists_queues_witness:
  "SchedulerState_log_snapshot 7 False (es_scheduler stuck_state) = Ok [SchedulerSnapshot 7 False 0 0 0 0]"
  using snapshot_lists_queues[OF stuck_state(1), of 7 False]
  by (simp add: stuck_state(5) SchedulerState_new_def EventQueue_new_def queue_list_def ring_list_Nil queue_records_def)

end
