(* ===== verification/Spec2Isabelle.thy ===== *)
theory Spec2Isabelle
  imports Adapter_Mcu Adapter_Std Loss Sip_Vectors Tracing
begin

text \<open>
  \<^bold>\<open>A verification development for MSRT\<close>, a message-oriented reliable transport for byte links
  (Rust crate \<^verbatim>\<open>msrt\<close>; all paths below are relative to the crate's \<^verbatim>\<open>src\<close> directory, except
  \<^verbatim>\<open>examples/\<close>, which lies beside it).

  \<^bold>\<open>The program.\<close>  An application hands whole messages of up to 256 bytes to an endpoint.  An endpoint
  (\<^verbatim>\<open>endpoint/\<close>) owns, for each peer, one protocol engine (\<^verbatim>\<open>engine/\<close>) and the state of the
  connection.  The engine cuts a message into packets, queues them in a scheduler, keeps a copy of
  each reliable packet until its acknowledgement arrives, sends it again when a timer runs out, and
  gives up after a limit.  A packet travels in a wire envelope (\<^verbatim>\<open>wire/\<close>) sealed with an integrity
  tag (\<^verbatim>\<open>integrity/\<close>).  On the other side a streaming decoder finds the envelopes in the byte stream,
  the engine decodes the packets, drops duplicates, queues an acknowledgement for each data packet,
  reassembles the messages and hands them to the application when it polls.  Nothing blocks and
  nothing does I/O: the adapter calls \<^verbatim>\<open>send\<close>, \<^verbatim>\<open>receive\<close> and \<^verbatim>\<open>poll\<close>, and passes the time in.  Three
  programs in \<^verbatim>\<open>examples/\<close> are such adapters: a firmware main loop on a byte-wise link and a desktop client and server.

  \<^bold>\<open>The theories\<close>, each importing the ones it calls:

  \<^item> \<open>Msrt_Prelude\<close>: machine types, the result type (\<^verbatim>\<open>error.rs\<close>), little-endian codecs, slices,
    saturating arithmetic; generic facts on slot tables and ring buffers; the locales \<open>fifo\<close>,
    \<open>bounded_fifo\<close> and \<open>lossy_fifo\<close>.
  \<^item> \<open>Core_Packet\<close>: the vocabulary of \<^verbatim>\<open>core/\<close>.
  \<^item> \<open>Crc\<close>, \<open>Sip\<close>, \<open>Sip_Vectors\<close>, \<open>Integrity\<close>: \<^verbatim>\<open>integrity/crc.rs\<close>, \<^verbatim>\<open>integrity/sip.rs\<close>, \<^verbatim>\<open>integrity.rs\<close>.  The lemmas show
    error detection of the CRCs, invertibility of the SipHash rounds, the published test vectors of both, and the contract
    \<open>integrity_backend\<close> of sealing and verifying.
  \<^item> \<open>Wire\<close>, \<open>Streaming\<close>: \<^verbatim>\<open>wire/\<close>.  The fixed-buffer decoder refines a step function on the list of
    unread bytes; packets found do not depend on the chunking.
  \<^item> \<open>Reliability\<close>: \<^verbatim>\<open>reliability/\<close> (ACK tracker, duplicate detector, recovery timer, fragment
    ranges), with the locales \<open>ack_tracker\<close> and \<open>recent_keys\<close>.
  \<^item> \<open>Packet_Codec\<close>: \<^verbatim>\<open>engine/config.rs\<close>, \<^verbatim>\<open>engine/codec/packet.rs\<close> and the encoders of
    \<^verbatim>\<open>engine/codec/outgoing.rs\<close>; encoding and decoding are inverse.
  \<^item> \<open>Message_Ids\<close>: \<^verbatim>\<open>engine/state/numbers.rs\<close>; the id generator has full period.
  \<^item> \<open>Engine_Queues\<close>: \<^verbatim>\<open>engine/state/ack.rs\<close>, \<^verbatim>\<open>message.rs\<close>, \<^verbatim>\<open>clock.rs\<close>, \<^verbatim>\<open>scheduler.rs\<close>,
    \<^verbatim>\<open>scheduler/event.rs\<close>, \<^verbatim>\<open>scheduler/queue.rs\<close>; the queues refine lists.
  \<^item> \<open>Recovery\<close>: \<^verbatim>\<open>engine/state/recovery.rs\<close>, \<^verbatim>\<open>recovery/inflight.rs\<close>; the table of packets in flight
    refines a map (locale \<open>packet_table\<close>).
  \<^item> \<open>Reassembly\<close>: \<^verbatim>\<open>engine/state/reassembly.rs\<close>; the slot table refines a map, and only genuine
    messages come out (locale \<open>reassembler\<close>).
  \<^item> \<open>Engine_Send\<close>, \<open>Engine_Poll\<close>, \<open>Engine_Receive\<close>: the engine state and its operations
    (\<^verbatim>\<open>engine.rs\<close>, \<^verbatim>\<open>engine/state.rs\<close>, \<^verbatim>\<open>ingress.rs\<close>, \<^verbatim>\<open>receive.rs\<close>, \<^verbatim>\<open>recovery/retransmit.rs\<close>,
    \<^verbatim>\<open>scheduler/poll.rs\<close> and the sending part of \<^verbatim>\<open>codec/outgoing.rs\<close>).  \<open>engine_ok\<close> is the invariant of
    the whole state; every operation keeps it and none panics from it.
  \<^item> \<open>Engine_Stream\<close>: no code of its own; the receive loop handles the packets of the byte stream one after the other,
    whatever chunks the stream arrives in.
  \<^item> \<open>Tracing\<close>: the debug records of the crate feature \<^verbatim>\<open>tracing\<close> (\<^verbatim>\<open>scheduler/log.rs\<close>, the \<^verbatim>\<open>log_snapshot\<close> methods, the
    \<^verbatim>\<open>log_\<close> functions of \<^verbatim>\<open>recovery/retransmit.rs\<close>); they list the queues and leave one record for every message given up.
  \<^item> \<open>Exchange\<close>: two engines on a link, no code of its own; from what the queues of an engine hold it
    derives the next action, and from that the transfer of one message and of a session.
  \<^item> \<open>Drain\<close>, \<open>Retry\<close>, \<open>Loss\<close>: no code of their own either.  \<open>Drain\<close> polls an engine until it is idle and
    shows that this ends; \<open>Retry\<close> follows a sender through its retransmissions (\<open>awaiting\<close>) and a receiver
    through repeated frames (\<open>gathering\<close>); \<open>Loss\<close> composes them over a link that loses, repeats and
    reorders frames in both directions, round by round.
  \<^item> \<open>Endpoint_Peer\<close>, \<open>Endpoint_Server\<close>: \<^verbatim>\<open>endpoint/peer.rs\<close>, \<^verbatim>\<open>client.rs\<close>, \<^verbatim>\<open>passive.rs\<close>, \<^verbatim>\<open>server.rs\<close>.  A
    slot refines a small state machine of connection events, whose ping event is the observed effect of \<^verbatim>\<open>queue_ping_if_idle\<close>; the server refines a map from peer
    keys to slots, whose peers are independent (locale \<open>keyed_sessions\<close>).
  \<^item> \<open>Endpoint_Session\<close>: no code of its own; the session of a client and a passive endpoint, obtained by
    lifting the steps of an engine transfer through the peer slots.
  \<^item> \<open>Adapter\<close>, \<open>Adapter_Std\<close>: \<^verbatim>\<open>examples/std_client.rs\<close> and \<^verbatim>\<open>std_server.rs\<close>.  \<open>Adapter\<close> has the loop they share and its contract
    (locale \<open>transmit_loop\<close>, interpreted for both programs), from which every turn of the two programs ends.
  \<^item> \<open>Adapter_Mcu\<close>: \<^verbatim>\<open>examples/mcu.rs\<close>.  No input stops the firmware, and it answers every message of a host; here the theories on
    chunks, on endpoints and on retransmission meet.
  \<^item> This theory: the session over a link that only reorders, with no assumption on time.

  \<^bold>\<open>How code becomes definitions.\<close>  A struct is a record with prefixed fields, an enum a datatype with
  the constructors of the source, a method \<^verbatim>\<open>T::m\<close> a function \<open>T_m\<close> that takes the receiver last and
  returns it updated.  \<^verbatim>\<open>Result\<close> is \<open>res\<close>, whose third value \<open>Panic\<close> stands for an index out of range,
  a failed slice or a violated \<^verbatim>\<open>clamp\<close>; that it does not occur is a theorem, not an assumption.
  Integers keep their width; \<^verbatim>\<open>usize\<close> is \<^typ>\<open>nat\<close>, which is exact because every length and index of
  the crate is bounded by its buffers.  Unchecked arithmetic on \<^verbatim>\<open>u64\<close> wraps, as in a release build.
  A buffer passed as \<^verbatim>\<open>&mut [u8]\<close> is an argument and its new contents, or the bytes of the returned
  view, part of the result.  The crate feature \<^verbatim>\<open>dynamic-recovery\<close> is the optional field
  \<open>dynamic_recovery\<close> of the configuration, so the theorems hold with and without it; those on a lossy link
  assume that it is absent, because they name the retransmission timeout.

  \<^bold>\<open>Loops, fuel and bounds.\<close>  Loops are structural recursion or functions with a termination proof;
  the receive loop ends because every decoder outcome but \<^verbatim>\<open>NeedMore\<close> uses up bytes.  Only the
  fragmentation loop has fuel, \<^verbatim>\<open>message.len() + 2\<close>: a round consumes at least one byte, so the fuel
  always suffices, which the lemma on \<open>send_fragmented_message\<close> proves.  The poll loop \<open>drain\<close>, which stands for
  the adapter's loop, has fuel too; 49 is enough for every reachable state, because the ACK queue, the
  scheduler and the delivery queue hold 16 entries each.  The \<^verbatim>\<open>while let\<close> loop of the desktop programs is a
  \<^theory_text>\<open>partial_function\<close> into \<^typ>\<open>'a option\<close>, so that its ending is a theorem.  The endless main loops run over a list of inputs, one
  for each turn.  Capacities are those of \<^verbatim>\<open>engine/config.rs\<close>.

  \<^bold>\<open>Not modelled.\<close>  What a tracing subscriber does with the debug records; trait declarations without bodies, whose
  contracts appear as locales; accessors that only return a field (the record selectors); module files with re-exports
  only; tests and benchmarks; in the examples the transport stubs, which are arguments of the model, and the sleep between
  turns.  The lossy link carries one message at a time and one direction of data, hands over at most 16 data frames in a round
  and answers each round within the reassembly timeout (\<open>round_ok\<close>), and it does not corrupt frames: what corruption does is the subject of \<open>Streaming\<close> and \<open>Integrity\<close>.
\<close>

section \<open>Both sides of the link\<close>

text \<open>
  C2. Reliable sessions: two new engines with the same configuration exchange any sequence of up to
  \<open>2 ^ 32\<close> messages, each of at most 256 bytes and 16 fragments, while the link hands over the frames of a
  message in an arbitrary order.  The receiver delivers exactly the messages that were sent, once each, in order and byte for
  byte, under the ids the sender allocated, and at the end the sender has nothing in flight and both engines are idle again.
\<close>

theorem session_delivers_all:
  assumes "\<forall>x\<in>set xs. carried config x" "length xs \<le> 2 ^ 32" "MAX_WIRE_BYTES \<le> length tx"
  shows "case session config tx xs (EngineState_new ida config, EngineState_new idb config) of (ms, a, b) \<Rightarrow>
    map MessageEvent_as_bytes ms = map (\<lambda>(msg, _). Ok msg) xs \<and>
    map me_message_id ms = alloc_ids (length xs) (NumberState_new ida) \<and>
    RecoveryState_packets (es_recovery a) = [] \<and> quiet config a \<and> quiet config b"
proof -
  let ?a = "EngineState_new ida config" and ?b = "EngineState_new idb config"
  have n: "es_numbers ?a = NumberState_new ida" by (simp add: EngineState_new_def)
  have "distinct (alloc_ids (length xs) (es_numbers ?a))" by (rule alloc_ids_distinct[OF assms(2)])
  moreover have "\<forall>k\<in>set (dedup_recent (rc_dedup (es_receive ?b))). key_message_id k \<notin> set (alloc_ids (length xs) (es_numbers ?a))"
    using new_engine_idle(3)[of idb config] by simp
  ultimately obtain ms a b where s: "session config tx xs (?a, ?b) = (ms, a, b)"
    "map MessageEvent_as_bytes ms = map (\<lambda>(msg, _). Ok msg) xs" "map me_message_id ms = alloc_ids (length xs) (es_numbers ?a)"
    "quiet config a" "quiet config b"
    using session_from_quiet[OF quiet_new quiet_new assms(1,3)] by blast
  have "RecoveryState_packets (es_recovery a) = []" using quiet_packets(1)[of config a] s(4) by (simp add: quiet_def)
  then show ?thesis using s n by simp
qed

theorem session_delivers_all_witness:
  "case session (EngineConfig_default None\<lparr>fragment_bytes := 2\<rparr>) (replicate 128 0)
      [([1, 2, 3], [1, 0], 10, 12), ([], [0], 20, 23)]
      (EngineState_new (MessageId 0) (EngineConfig_default None\<lparr>fragment_bytes := 2\<rparr>),
       EngineState_new (MessageId 7) (EngineConfig_default None\<lparr>fragment_bytes := 2\<rparr>)) of (ms, a, b) \<Rightarrow>
    map MessageEvent_as_bytes ms = [Ok [1, 2, 3], Ok []]"
proof -
  let ?c = "EngineConfig_default None\<lparr>fragment_bytes := 2\<rparr>"
  let ?xs = "[([1, 2, 3], [1, 0], 10, 12), ([], [0], 20, 23)] :: (bytes \<times> nat list \<times> u64 \<times> u64) list"
  have "fragment_limit ?c PacketType.Data = 2"
    using Integrity_tag_len_le[of "integrity ?c"] by (simp add: fragment_limit_def)
  then have c: "\<forall>x\<in>set ?xs. carried ?c x" by (auto simp: carried_def fragment_count_def)
  obtain ms a b where "session ?c (replicate 128 0) ?xs (EngineState_new (MessageId 0) ?c, EngineState_new (MessageId 7) ?c) =
      (ms, a, b)" by (metis prod_cases3)
  then show ?thesis
    using session_delivers_all[OF c, of "replicate 128 0" "MessageId 0" "MessageId 7"] by (simp del: session.simps)
qed

end
